(* ===== verification/Prelude.thy ===== *)
theory Prelude
  imports Main "HOL-Library.Word" "HOL-Library.Monad_Syntax"
begin

text \<open>
  Shared vocabulary of the development: the C integer types, the value \<open>None\<close> as the
  outcome of code that stops (a failed \<^verbatim>\<open>RT_ASSERT\<close> spins forever, an access outside an
  object is undefined behaviour), bounds-checked memory copies, and the lemmas on lists and
  words that several components use.
\<close>

unbundle bit_operations_syntax

section \<open>C integer types (include/rtdef.h)\<close>

type_synonym u8 = "8 word"
type_synonym u16 = "16 word"
type_synonym u32 = "32 word"

text \<open>Error codes of include/rtdef.h. The code returns \<^verbatim>\<open>-RT_ERROR\<close> and so on; the
  constructor stands for the returned (negated) code.\<close>

datatype rt_err =
    RT_EOK | RT_ERROR | RT_ETIMEOUT | RT_EFULL | RT_EEMPTY
  | RT_ENOMEM | RT_ENOSYS | RT_EBUSY | RT_EIO

text \<open>\<^verbatim>\<open>RT_ALIGN\<close> and \<^verbatim>\<open>RT_ALIGN_DOWN\<close> to the eight bytes of \<^verbatim>\<open>RT_ALIGN_SIZE\<close>.\<close>

definition RT_ALIGN :: "u32 \<Rightarrow> u32" where
  "RT_ALIGN sz = (sz + 7) AND NOT 7"

definition RT_ALIGN_DOWN :: "u32 \<Rightarrow> u32" where
  "RT_ALIGN_DOWN sz = sz AND NOT 7"

section \<open>Faults\<close>

text \<open>\<open>rt_assert b\<close> is \<^verbatim>\<open>RT_ASSERT(b)\<close> of include/rtdebug.h with \<^verbatim>\<open>RT_DEBUG\<close> on
  (as bsp/stm32f40x/rtconfig.h has it): when the condition fails the caller never continues.\<close>

definition rt_assert :: "bool \<Rightarrow> unit option" where
  "rt_assert b = (if b then Some () else None)"

lemma rt_assert_True [simp]: "rt_assert True = Some ()"
  and rt_assert_False [simp]: "rt_assert False = None"
  by (simp_all add: rt_assert_def)

lemma rt_assert_eq_Some [simp]: "rt_assert b = Some u \<longleftrightarrow> b"
  by (simp add: rt_assert_def)

lemma bind_eq_SomeD:
  assumes "Option.bind m f = Some y"
  obtains x where "m = Some x" and "f x = Some y"
  using assms by (cases m) auto

text \<open>\<open>runs P m\<close>: the code \<open>m\<close> does not stop, and its result satisfies \<open>P\<close>. The rules below push
  it through a do block; every operation of the kernel has a rule of this form in \<open>wp\<close>.\<close>

definition runs :: "('a \<Rightarrow> bool) \<Rightarrow> 'a option \<Rightarrow> bool" where
  "runs P m \<longleftrightarrow> (case m of None \<Rightarrow> False | Some x \<Rightarrow> P x)"

named_theorems wp

lemma runs_Some [simp]: "runs P (Some x) \<longleftrightarrow> P x"
  and runs_None [simp]: "\<not> runs P None"
  and runs_bind [simp]: "runs P (Option.bind m f) \<longleftrightarrow> runs (\<lambda>x. runs P (f x)) m"
  and runs_assert [simp]: "runs Q (rt_assert b) \<longleftrightarrow> b \<and> Q ()"
  by (auto simp: runs_def rt_assert_def split: option.splits)

lemma runs_mono: "runs P m \<Longrightarrow> (\<And>x. P x \<Longrightarrow> Q x) \<Longrightarrow> runs Q m"
  by (auto simp: runs_def split: option.splits)

lemma runs_ex: "runs P m \<longleftrightarrow> (\<exists>x. m = Some x \<and> P x)"
  by (auto simp: runs_def split: option.splits)

lemma runsE:
  assumes "runs P m"
  obtains x where "m = Some x" and "P x"
  using assms by (auto simp: runs_ex)

section \<open>Bounds-checked memory\<close>

text \<open>A block of memory is a list. Offsets and lengths are \<open>int\<close>, as C's promoted
  arithmetic produces them: a negative or too large one is a fault.\<close>

definition mem_read :: "'a list \<Rightarrow> int \<Rightarrow> int \<Rightarrow> 'a list option" where
  "mem_read m off n =
     (if 0 \<le> off \<and> 0 \<le> n \<and> off + n \<le> int (length m)
      then Some (take (nat n) (drop (nat off) m)) else None)"

definition mem_write :: "'a list \<Rightarrow> int \<Rightarrow> 'a list \<Rightarrow> 'a list option" where
  "mem_write m off xs =
     (if 0 \<le> off \<and> off + int (length xs) \<le> int (length m)
      then Some (take (nat off) m @ xs @ drop (nat off + length xs) m) else None)"

definition mem_copy :: "'a list \<Rightarrow> int \<Rightarrow> 'a list \<Rightarrow> int \<Rightarrow> int \<Rightarrow> 'a list option" where
  "mem_copy dst doff src soff n =
     do { xs \<leftarrow> mem_read src soff n; mem_write dst doff xs }"

definition mem_get :: "'a list \<Rightarrow> int \<Rightarrow> 'a option" where
  "mem_get m i = (if 0 \<le> i \<and> i < int (length m) then Some (m ! nat i) else None)"

definition mem_set :: "'a list \<Rightarrow> int \<Rightarrow> 'a \<Rightarrow> 'a list option" where
  "mem_set m i x = (if 0 \<le> i \<and> i < int (length m) then Some (m[nat i := x]) else None)"

lemma mem_copy_nat:
  assumes "s + n \<le> length src" and "d + n \<le> length dst"
  shows "mem_copy dst (int d) src (int s) (int n)
       = Some (take d dst @ take n (drop s src) @ drop (d + n) dst)"
proof -
  have "int s + int n \<le> int (length src)" and "int d + int n \<le> int (length dst)"
    using assms by linarith+
  moreover have "length (take n (drop s src)) = n"
    using assms by simp
  ultimately show ?thesis
    by (simp add: mem_copy_def mem_read_def mem_write_def del: length_take)
qed

lemma mem_get_nat [simp]: "i < length m \<Longrightarrow> mem_get m (int i) = Some (m ! i)"
  by (simp add: mem_get_def)

lemma mem_set_nat [simp]: "i < length m \<Longrightarrow> mem_set m (int i) x = Some (m[i := x])"
  by (simp add: mem_set_def)

section \<open>Runs of a step relation\<close>

inductive steps :: "('s \<Rightarrow> 'l \<Rightarrow> 's \<Rightarrow> bool) \<Rightarrow> 's \<Rightarrow> 'l list \<Rightarrow> 's \<Rightarrow> bool" for step where
  steps_Nil: "steps step s [] s"
| steps_snoc: "steps step s ls s' \<Longrightarrow> step s' l s'' \<Longrightarrow> steps step s (ls @ [l]) s''"

text \<open>An invariant together with a simulation, lifted from steps to runs.\<close>

lemma steps_simulation:
  assumes "steps step s ls s'" "I s"
    and "\<And>s l s'. I s \<Longrightarrow> step s l s' \<Longrightarrow> I s' \<and> astep (f s) l (f s')"
  shows "I s' \<and> steps astep (f s) ls (f s')"
  using assms(1,2)
proof induction
  case (steps_Nil s)
  then show ?case by (auto intro: steps.steps_Nil)
next
  case (steps_snoc s ls s' l s'')
  then show ?case using assms(3) [of s' l s''] by (auto intro: steps.steps_snoc)
qed

section \<open>Lists\<close>

text \<open>A window of a list, as a ring buffer or a packet field occupies it.\<close>

definition slice :: "nat \<Rightarrow> nat \<Rightarrow> 'a list \<Rightarrow> 'a list" where
  "slice off n xs = take n (drop off xs)"

lemma length_slice [simp]: "off + n \<le> length xs \<Longrightarrow> length (slice off n xs) = n"
  by (simp add: slice_def)

lemma take_list_update_ge [simp]: "n \<le> i \<Longrightarrow> take n (xs[i := x]) = take n xs"
  by (rule take_update_cancel)

lemma list_update_split:
  "i < length xs \<Longrightarrow> xs[i := x] = take i xs @ x # drop (Suc i) xs"
  by (rule upd_conv_take_nth_drop)

section \<open>Chains\<close>

text \<open>A list linked through a \<^verbatim>\<open>next\<close> field, as the blocks of a message queue and of a memory pool are.\<close>

fun chain :: "(nat \<Rightarrow> nat option) \<Rightarrow> nat option \<Rightarrow> nat list \<Rightarrow> bool" where
  "chain nx p [] \<longleftrightarrow> p = None"
| "chain nx p (b # bs) \<longleftrightarrow> p = Some b \<and> chain nx (nx b) bs"

lemma chain_upd [simp]: "b \<notin> set bs \<Longrightarrow> chain (nx(b := n)) p bs \<longleftrightarrow> chain nx p bs"
  by (induction bs arbitrary: p) auto

lemma chain_upd_if [simp]: "b \<notin> set bs \<Longrightarrow> chain (\<lambda>a. if a = b then n else nx a) p bs \<longleftrightarrow> chain nx p bs"
  using chain_upd [of b bs nx n p] by (simp add: fun_upd_def)

lemma chain_None [simp]: "chain nx None bs \<longleftrightarrow> bs = []"
  by (cases bs) auto

lemma chain_snoc:
  "chain nx p (bs @ [t]) \<Longrightarrow> b \<notin> set (bs @ [t]) \<Longrightarrow> distinct (bs @ [t]) \<Longrightarrow> nx b = None \<Longrightarrow>
   chain (nx(t := Some b)) p (bs @ [t, b])"
  by (induction bs arbitrary: p) auto

text \<open>The executable reading of a chain.\<close>

fun walk :: "nat \<Rightarrow> (nat \<Rightarrow> nat option) \<Rightarrow> nat option \<Rightarrow> nat list" where
  "walk 0 nx p = []"
| "walk (Suc n) nx p = (case p of None \<Rightarrow> [] | Some b \<Rightarrow> b # walk n nx (nx b))"

lemma walk_chain: "chain nx p bs \<Longrightarrow> length bs \<le> n \<Longrightarrow> walk n nx p = bs"
proof (induction bs arbitrary: p n)
  case Nil
  then show ?case by (cases n) simp_all
next
  case (Cons b bs)
  then show ?case by (cases n) simp_all
qed

section \<open>Words\<close>

lemma unat_ucast_small:
  fixes w :: "'a::len word"
  assumes "unat w < 2 ^ LENGTH('b::len)"
  shows "unat (ucast w :: 'b word) = unat w"
  using assms by (simp add: unsigned_ucast_eq take_bit_nat_eq_self)

lemma unat_plus_small:
  fixes a b :: "'a::len word"
  assumes "unat a + unat b < 2 ^ LENGTH('a)"
  shows "unat (a + b) = unat a + unat b"
  using assms by (simp add: unat_word_ariths)

lemma unat_of_int_small:
  assumes "n < 2 ^ LENGTH('a::len)"
  shows "unat (word_of_int (int n) :: 'a word) = n"
  using assms by (simp add: unat_of_nat take_bit_nat_eq_self)

lemma uint_int_unat: "uint w = int (unat w)"
  by simp

lemma sint_eq_unat:
  fixes w :: "'a::len word"
  assumes "unat w < 2 ^ (LENGTH('a) - 1)"
  shows "sint w = int (unat w)"
proof -
  have "\<not> bit (unat w) (LENGTH('a) - Suc 0)"
    using assms by (simp add: bit_iff_odd)
  then have nb: "\<not> bit (uint w) (LENGTH('a) - Suc 0)"
    by (simp add: bit_unsigned_iff)
  have "sint w = take_bit (LENGTH('a) - Suc 0) (uint w)"
    unfolding sint_uint by (rule signed_take_bit_eq_if_positive [OF nb])
  also have "\<dots> = uint w"
  proof (rule take_bit_int_eq_self)
    show "0 \<le> uint w" by simp
    have "int (unat w) < int (2 ^ (LENGTH('a) - Suc 0))"
      using assms by (simp only: of_nat_less_iff One_nat_def)
    then show "uint w < 2 ^ (LENGTH('a) - Suc 0)" by simp
  qed
  also have "\<dots> = int (unat w)" by simp
  finally show ?thesis .
qed

text \<open>Rounding down to a multiple of a power of two, as \<^verbatim>\<open>RT_ALIGN\<close> masks.\<close>

lemma unat_align:
  fixes w :: "'a::len word"
  shows "unat (w AND NOT (mask n)) = unat w div 2 ^ n * 2 ^ n"
proof -
  have "unat (w AND NOT (mask n)) = unat (push_bit n (drop_bit n w))"
    by (rule arg_cong [where f = unat], rule bit_word_eqI) (auto simp: bit_simps)
  also have "\<dots> = take_bit LENGTH('a) (push_bit n (unat w div 2 ^ n))"
    unfolding unsigned_push_bit_eq unsigned_drop_bit_eq by (simp add: drop_bit_eq_div take_bit_nat_eq_self)
  also have "\<dots> = unat w div 2 ^ n * 2 ^ n"
  proof -
    have "unat w div 2 ^ n * 2 ^ n < 2 ^ LENGTH('a)"
      using div_times_less_eq_dividend [of "unat w" "2 ^ n"] unsigned_less [of w, where ?'a = nat] by linarith
    then show ?thesis by (simp add: push_bit_eq_mult take_bit_nat_eq_self)
  qed
  finally show ?thesis .
qed

lemma unat_RT_ALIGN: "unat w + 7 < 2 ^ 32 \<Longrightarrow> unat (RT_ALIGN w) = (unat w + 7) div 8 * 8"
  using unat_align [of "w + 7" 3] unat_plus_small [of w 7] by (simp add: RT_ALIGN_def mask_eq_exp_minus_1)

lemma unat_RT_ALIGN_DOWN: "unat (RT_ALIGN_DOWN w) = unat w div 8 * 8"
  using unat_align [of w 3] by (simp add: RT_ALIGN_DOWN_def mask_eq_exp_minus_1)

end
