(* ===== verification/Fifo.thy ===== *)
theory Fifo
  imports Prelude
begin

text \<open>
  The contract of a bounded queue: a state with an invariant, a capacity and the list of the
  items it holds (oldest first); \<open>put\<close> stores a prefix of the items offered, as many as fit,
  \<open>get\<close> removes a prefix of the items held, as many as asked for. The ring buffer and the
  mailbox provide it. What follows from the contract alone is proved here once: any
  interleaving of puts and gets delivers the accepted items in order, none lost, none
  duplicated.
\<close>

datatype 'a fifo_op = Put "'a list" | Get nat

text \<open>A run of operations on a queue given by its \<open>put\<close> (how many items were accepted) and
  \<open>get\<close> (the items delivered), collecting what was accepted and what was delivered. A fault
  of an operation is a fault of the run.\<close>

fun fifo_run ::
  "('q \<Rightarrow> 'a list \<Rightarrow> (nat \<times> 'q) option) \<Rightarrow> ('q \<Rightarrow> nat \<Rightarrow> ('a list \<times> 'q) option)
   \<Rightarrow> 'q \<Rightarrow> 'a fifo_op list \<Rightarrow> ('a list \<times> 'a list \<times> 'q) option" where
  "fifo_run put get q [] = Some ([], [], q)"
| "fifo_run put get q (Put xs # ops) = do {
     (n, q') \<leftarrow> put q xs;
     (ins, outs, q'') \<leftarrow> fifo_run put get q' ops;
     Some (take n xs @ ins, outs, q'') }"
| "fifo_run put get q (Get n # ops) = do {
     (ys, q') \<leftarrow> get q n;
     (ins, outs, q'') \<leftarrow> fifo_run put get q' ops;
     Some (ins, ys @ outs, q'') }"

fun fifo_admissible :: "('a list \<Rightarrow> bool) \<Rightarrow> (nat \<Rightarrow> bool) \<Rightarrow> 'a fifo_op \<Rightarrow> bool" where
  "fifo_admissible offerable askable (Put xs) = offerable xs"
| "fifo_admissible offerable askable (Get n) = askable n"

locale bounded_fifo =
  fixes inv :: "'q \<Rightarrow> bool"
    and capacity :: "'q \<Rightarrow> nat"
    and items :: "'q \<Rightarrow> 'a list"
    and offerable :: "'a list \<Rightarrow> bool"
    and askable :: "nat \<Rightarrow> bool"
    and put :: "'q \<Rightarrow> 'a list \<Rightarrow> (nat \<times> 'q) option"
    and get :: "'q \<Rightarrow> nat \<Rightarrow> ('a list \<times> 'q) option"
  assumes items_bounded: "inv q \<Longrightarrow> length (items q) \<le> capacity q"
    and put_law: "inv q \<Longrightarrow> offerable xs \<Longrightarrow>
      \<exists>q'. put q xs = Some (min (length xs) (capacity q - length (items q)), q')
         \<and> inv q' \<and> capacity q' = capacity q
         \<and> items q' = items q @ take (capacity q - length (items q)) xs"
    and get_law: "inv q \<Longrightarrow> askable n \<Longrightarrow>
      \<exists>q'. get q n = Some (take n (items q), q')
         \<and> inv q' \<and> capacity q' = capacity q \<and> items q' = drop n (items q)"
begin

lemma run_order:
  "inv q \<Longrightarrow> list_all (fifo_admissible offerable askable) ops \<Longrightarrow>
   \<exists>ins outs q'. fifo_run put get q ops = Some (ins, outs, q') \<and> inv q' \<and> capacity q' = capacity q
     \<and> items q @ ins = outs @ items q'"
proof (induction ops arbitrary: q)
  case Nil
  then show ?case by simp
next
  case (Cons op ops)
  show ?case
  proof (cases op)
    case (Put xs)
    with Cons.prems put_law [of q xs] obtain q' where q':
      "put q xs = Some (min (length xs) (capacity q - length (items q)), q')"
      "inv q'" "capacity q' = capacity q"
      "items q' = items q @ take (capacity q - length (items q)) xs"
      by auto
    from Cons.IH [OF q'(2)] Cons.prems(2) obtain ins outs q'' where
      "fifo_run put get q' ops = Some (ins, outs, q'')" "inv q''" "capacity q'' = capacity q'"
      "items q' @ ins = outs @ items q''"
      by auto
    with Put q' show ?thesis
      by (auto simp: min_def)
  next
    case (Get n)
    with Cons.prems get_law [of q n] obtain q' where q':
      "get q n = Some (take n (items q), q')"
      "inv q'" "capacity q' = capacity q" "items q' = drop n (items q)"
      by auto
    from Cons.IH [OF q'(2)] Cons.prems(2) obtain ins outs q'' where r:
      "fifo_run put get q' ops = Some (ins, outs, q'')" "inv q''" "capacity q'' = capacity q'"
      "items q' @ ins = outs @ items q''"
      by auto
    have "items q @ ins = (take n (items q) @ outs) @ items q''"
      using q'(4) r(4) by (metis append.assoc append_take_drop_id)
    with Get q' r show ?thesis by auto
  qed
qed

end

end
