(* ===== verification/RingBuffer.thy ===== *)
theory RingBuffer
  imports Prelude Fifo
begin

text \<open>
  The ring buffer of components/drivers/src/ringbuffer.c and
  components/drivers/include/rtdevice.h: 15-bit read and write indices, each with a mirror
  bit, over a byte pool. The bit-fields are words of their own width, arithmetic that C
  promotes to \<^verbatim>\<open>int\<close> is done on \<open>int\<close>, copies are bounds-checked (\<open>None\<close> is an access
  outside the pool). Shown: the invariant is preserved, no operation faults, and each operation
  is the corresponding operation on a bounded byte queue (\<open>rb_data\<close>).
\<close>

section \<open>State\<close>

record rt_ringbuffer =
  buffer_ptr :: "u8 list"
  read_mirror :: "1 word"
  read_index :: "15 word"
  write_mirror :: "1 word"
  write_index :: "15 word"
  buffer_size :: "16 word"

datatype rt_ringbuffer_state =
  RT_RINGBUFFER_EMPTY | RT_RINGBUFFER_FULL | RT_RINGBUFFER_HALFFULL

section \<open>Operations\<close>

definition rt_align_down :: "u16 \<Rightarrow> u16 \<Rightarrow> u16" where
  "rt_align_down sz align = sz AND NOT (align - 1)"

definition rt_ringbuffer_init :: "u8 list \<Rightarrow> 16 word \<Rightarrow> rt_ringbuffer option" where
  "rt_ringbuffer_init pool sz = do {
     rt_assert (sint sz > 0);
     Some \<lparr> buffer_ptr = pool, read_mirror = 0, read_index = 0,
            write_mirror = 0, write_index = 0,
            buffer_size = rt_align_down sz 8 \<rparr> }"

definition rt_ringbuffer_status :: "rt_ringbuffer \<Rightarrow> rt_ringbuffer_state" where
  "rt_ringbuffer_status rb =
     (if read_index rb = write_index rb then
        (if read_mirror rb = write_mirror rb then RT_RINGBUFFER_EMPTY
         else RT_RINGBUFFER_FULL)
      else RT_RINGBUFFER_HALFFULL)"

definition rt_ringbuffer_data_len :: "rt_ringbuffer \<Rightarrow> u16" where
  "rt_ringbuffer_data_len rb =
     (case rt_ringbuffer_status rb of
        RT_RINGBUFFER_EMPTY \<Rightarrow> 0
      | RT_RINGBUFFER_FULL \<Rightarrow> buffer_size rb
      | RT_RINGBUFFER_HALFFULL \<Rightarrow>
          (if write_index rb > read_index rb
           then word_of_int (uint (write_index rb) - uint (read_index rb))
           else word_of_int (sint (buffer_size rb)
                  - (uint (read_index rb) - uint (write_index rb)))))"

definition rt_ringbuffer_space_len :: "rt_ringbuffer \<Rightarrow> int" where
  "rt_ringbuffer_space_len rb = sint (buffer_size rb) - uint (rt_ringbuffer_data_len rb)"

text \<open>The two-part copy into the pool and out of it when the block wraps, as the bodies of
  \<^verbatim>\<open>put\<close>, \<^verbatim>\<open>put_force\<close> and \<^verbatim>\<open>get\<close> have it.\<close>

definition rt_ringbuffer_put :: "rt_ringbuffer \<Rightarrow> u8 list \<Rightarrow> u16 \<Rightarrow> (u16 \<times> rt_ringbuffer) option" where
  "rt_ringbuffer_put rb ptr len =
     (let sz = word_of_int (rt_ringbuffer_space_len rb) :: u16;
          room = sint (buffer_size rb) - uint (write_index rb)
      in if sz = 0 then Some (0, rb)
         else
           let len = (if sz < len then sz else len)
           in if room > uint len then do {
                buf \<leftarrow> mem_copy (buffer_ptr rb) (uint (write_index rb)) ptr 0 (uint len);
                Some (len, rb\<lparr> buffer_ptr := buf,
                               write_index := write_index rb + ucast len \<rparr>) }
              else do {
                buf \<leftarrow> mem_copy (buffer_ptr rb) (uint (write_index rb)) ptr 0 room;
                buf \<leftarrow> mem_copy buf 0 ptr room (uint len - room);
                Some (len, rb\<lparr> buffer_ptr := buf,
                               write_mirror := NOT (write_mirror rb),
                               write_index := word_of_int (uint len - room) \<rparr>) })"

definition rt_ringbuffer_put_force ::
  "rt_ringbuffer \<Rightarrow> u8 list \<Rightarrow> u16 \<Rightarrow> (u16 \<times> rt_ringbuffer) option" where
  "rt_ringbuffer_put_force rb ptr len =
     (let old_state = rt_ringbuffer_status rb;
          room = sint (buffer_size rb) - uint (write_index rb);
          len = (if uint len > sint (buffer_size rb) then buffer_size rb else len)
      in if room > uint len then do {
           buf \<leftarrow> mem_copy (buffer_ptr rb) (uint (write_index rb)) ptr 0 (uint len);
           let rb = rb\<lparr> buffer_ptr := buf, write_index := write_index rb + ucast len \<rparr>;
           Some (len, if old_state = RT_RINGBUFFER_FULL
                      then rb\<lparr> read_index := write_index rb \<rparr> else rb) }
         else do {
           buf \<leftarrow> mem_copy (buffer_ptr rb) (uint (write_index rb)) ptr 0 room;
           buf \<leftarrow> mem_copy buf 0 ptr room (uint len - room);
           let rb = rb\<lparr> buffer_ptr := buf, write_mirror := NOT (write_mirror rb),
                        write_index := word_of_int (uint len - room) \<rparr>;
           Some (len, if old_state = RT_RINGBUFFER_FULL
                      then rb\<lparr> read_mirror := NOT (read_mirror rb),
                               read_index := write_index rb \<rparr> else rb) })"

text \<open>\<^verbatim>\<open>get\<close> returns the caller's buffer with the bytes copied to its front.\<close>

definition rt_ringbuffer_get ::
  "rt_ringbuffer \<Rightarrow> u8 list \<Rightarrow> u16 \<Rightarrow> (u16 \<times> u8 list \<times> rt_ringbuffer) option" where
  "rt_ringbuffer_get rb ptr len =
     (let sz = rt_ringbuffer_data_len rb;
          room = sint (buffer_size rb) - uint (read_index rb)
      in if sz = 0 then Some (0, ptr, rb)
         else
           let len = (if sz < len then sz else len)
           in if room > uint len then do {
                ptr \<leftarrow> mem_copy ptr 0 (buffer_ptr rb) (uint (read_index rb)) (uint len);
                Some (len, ptr, rb\<lparr> read_index := read_index rb + ucast len \<rparr>) }
              else do {
                ptr \<leftarrow> mem_copy ptr 0 (buffer_ptr rb) (uint (read_index rb)) room;
                ptr \<leftarrow> mem_copy ptr room (buffer_ptr rb) 0 (uint len - room);
                Some (len, ptr, rb\<lparr> read_mirror := NOT (read_mirror rb),
                                    read_index := word_of_int (uint len - room) \<rparr>) })"

definition rt_ringbuffer_putchar :: "rt_ringbuffer \<Rightarrow> u8 \<Rightarrow> (u16 \<times> rt_ringbuffer) option" where
  "rt_ringbuffer_putchar rb ch =
     (if rt_ringbuffer_space_len rb = 0 then Some (0, rb)
      else do {
        buf \<leftarrow> mem_set (buffer_ptr rb) (uint (write_index rb)) ch;
        Some (1, if uint (write_index rb) = sint (buffer_size rb) - 1
                 then rb\<lparr> buffer_ptr := buf, write_mirror := NOT (write_mirror rb),
                          write_index := 0 \<rparr>
                 else rb\<lparr> buffer_ptr := buf, write_index := write_index rb + 1 \<rparr>) })"

definition rt_ringbuffer_putchar_force ::
  "rt_ringbuffer \<Rightarrow> u8 \<Rightarrow> (u16 \<times> rt_ringbuffer) option" where
  "rt_ringbuffer_putchar_force rb ch =
     (let old_state = rt_ringbuffer_status rb
      in do {
        buf \<leftarrow> mem_set (buffer_ptr rb) (uint (write_index rb)) ch;
        Some (1,
          if uint (write_index rb) = sint (buffer_size rb) - 1 then
            let rb = rb\<lparr> buffer_ptr := buf, write_mirror := NOT (write_mirror rb),
                         write_index := 0 \<rparr>
            in if old_state = RT_RINGBUFFER_FULL
               then rb\<lparr> read_mirror := NOT (read_mirror rb),
                        read_index := write_index rb \<rparr> else rb
          else
            let rb = rb\<lparr> buffer_ptr := buf, write_index := write_index rb + 1 \<rparr>
            in if old_state = RT_RINGBUFFER_FULL
               then rb\<lparr> read_index := write_index rb \<rparr> else rb) })"

definition rt_ringbuffer_getchar :: "rt_ringbuffer \<Rightarrow> (u8 option \<times> rt_ringbuffer) option" where
  "rt_ringbuffer_getchar rb =
     (if rt_ringbuffer_data_len rb = 0 then Some (None, rb)
      else do {
        ch \<leftarrow> mem_get (buffer_ptr rb) (uint (read_index rb));
        Some (Some ch,
          if uint (read_index rb) = sint (buffer_size rb) - 1
          then rb\<lparr> read_mirror := NOT (read_mirror rb), read_index := 0 \<rparr>
          else rb\<lparr> read_index := read_index rb + 1 \<rparr>) })"

section \<open>Invariant and abstraction\<close>

definition rb_size :: "rt_ringbuffer \<Rightarrow> nat" where
  "rb_size rb = nat (sint (buffer_size rb))"

definition rb_inv :: "rt_ringbuffer \<Rightarrow> bool" where
  "rb_inv rb \<longleftrightarrow>
     0 < sint (buffer_size rb) \<and> rb_size rb \<le> length (buffer_ptr rb)
     \<and> unat (read_index rb) < rb_size rb \<and> unat (write_index rb) < rb_size rb
     \<and> (if read_mirror rb = write_mirror rb
        then read_index rb \<le> write_index rb else write_index rb \<le> read_index rb)"

text \<open>The bytes in the buffer, oldest first.\<close>

definition rb_data :: "rt_ringbuffer \<Rightarrow> u8 list" where
  "rb_data rb =
     (let r = unat (read_index rb); w = unat (write_index rb); buf = buffer_ptr rb
      in if read_mirror rb = write_mirror rb then slice r (w - r) buf
         else slice r (rb_size rb - r) buf @ take w buf)"

section \<open>The window arithmetic on lists\<close>

definition ring_view :: "nat \<Rightarrow> nat \<Rightarrow> nat \<Rightarrow> bool \<Rightarrow> 'a list \<Rightarrow> 'a list" where
  "ring_view n r w same buf =
     (if same then slice r (w - r) buf else slice r (n - r) buf @ take w buf)"

lemma length_ring_view:
  "n \<le> length buf \<Longrightarrow> r < n \<Longrightarrow> w < n \<Longrightarrow>
   length (ring_view n r w same buf) = (if same then w - r else n - r + w)"
  by (simp add: ring_view_def slice_def)

lemma ring_view_write_same:
  assumes "n \<le> length buf" "r \<le> w" "w + length xs < n"
  shows "ring_view n r (w + length xs) True (take w buf @ xs @ drop (w + length xs) buf)
       = ring_view n r w True buf @ xs"
  using assms by (auto intro!: nth_equalityI simp: ring_view_def slice_def nth_append)

lemma ring_view_write_diff:
  assumes "n \<le> length buf" "r < n" "w + length xs \<le> r"
  shows "ring_view n r (w + length xs) False (take w buf @ xs @ drop (w + length xs) buf)
       = ring_view n r w False buf @ xs"
  using assms by (auto intro!: nth_equalityI simp: ring_view_def slice_def nth_append)

lemma ring_view_write_wrap:
  assumes "n \<le> length buf" "r \<le> w" "w < n" "length xs = n - w" "length ys \<le> r"
  shows "ring_view n r (length ys) False
           (ys @ drop (length ys) (take w buf @ xs @ drop n buf))
       = ring_view n r w True buf @ xs @ ys"
  using assms by (auto intro!: nth_equalityI simp: ring_view_def slice_def nth_append)

lemma ring_view_read:
  assumes "n \<le> length buf" "r < n" "w < n" "if same then r + k \<le> w else True" "r + k < n"
  shows "take k (ring_view n r w same buf) = slice r k buf"
    and "drop k (ring_view n r w same buf) = ring_view n (r + k) w same buf"
  using assms by (auto intro!: nth_equalityI simp: ring_view_def slice_def nth_append ac_simps
      split: if_splits)

lemma ring_view_read_wrap:
  assumes "n \<le> length buf" "r < n" "w < n" "n - r \<le> k" "k \<le> n - r + w"
  shows "take k (ring_view n r w False buf) = slice r (n - r) buf @ take (k - (n - r)) buf"
    and "drop k (ring_view n r w False buf) = ring_view n (k - (n - r)) w True buf"
  using assms by (auto intro!: nth_equalityI simp: ring_view_def slice_def nth_append ac_simps)

section \<open>The state seen through natural numbers\<close>

lemma mirror_not: "(x :: 1 word) \<noteq> NOT x" "NOT x \<noteq> (x :: 1 word)"
proof -
  have "bit (NOT x) 0 \<noteq> bit x 0" by (simp add: bit_not_iff)
  then show "x \<noteq> NOT x" "NOT x \<noteq> x" by metis+
qed

lemma mirror_cases: "(x :: 1 word) \<noteq> y \<Longrightarrow> x = NOT y"
proof -
  assume "x \<noteq> y"
  then obtain n where "bit x n \<noteq> bit y n" by (metis bit_eqI)
  moreover from this have "n = 0" by (metis bit_imp_le_length less_one len_num1)
  ultimately have "bit x 0 \<noteq> bit y 0" by simp
  then show "x = NOT y"
    by (auto intro!: bit_word_eqI simp: bit_not_iff)
qed

lemma mirror_flip_eq [simp]:
  "(NOT x = y) = (x \<noteq> (y :: 1 word))" "(y = NOT x) = (x \<noteq> (y :: 1 word))"
  by (metis mirror_cases mirror_not(2))+

lemma rb_invE:
  assumes "rb_inv rb"
  obtains n r w where
    "rb_size rb = n" "sint (buffer_size rb) = int n" "n < 32768" "n \<le> length (buffer_ptr rb)"
    "read_index rb = of_nat r" "write_index rb = of_nat w" "r < n" "w < n"
    "uint (read_index rb) = int r" "uint (write_index rb) = int w"
    "if read_mirror rb = write_mirror rb then r \<le> w else w \<le> r"
proof (rule that [of "rb_size rb" "unat (read_index rb)" "unat (write_index rb)"])
  show "sint (buffer_size rb) = int (rb_size rb)"
    using assms by (simp add: rb_inv_def rb_size_def)
  then show "rb_size rb < 32768"
    using sint_less [of "buffer_size rb"] by simp
qed (use assms in \<open>auto simp: rb_inv_def word_le_nat_alt split: if_splits\<close>)

lemma rb_data_view:
  "rb_data rb = ring_view (rb_size rb) (unat (read_index rb)) (unat (write_index rb))
     (read_mirror rb = write_mirror rb) (buffer_ptr rb)"
  by (simp add: rb_data_def ring_view_def Let_def)

lemma unat_index [simp]: "k < 32768 \<Longrightarrow> unat (of_nat k :: 15 word) = k"
  by (simp add: unat_of_nat take_bit_nat_eq_self)

lemma rb_invI:
  assumes "sint (buffer_size rb) = int n" "n \<le> length (buffer_ptr rb)"
    "read_index rb = of_nat r" "write_index rb = of_nat w" "r < n" "w < n"
    "if read_mirror rb = write_mirror rb then r \<le> w else w \<le> r"
  shows "rb_inv rb" and "rb_size rb = n"
    and "rb_data rb = ring_view n r w (read_mirror rb = write_mirror rb) (buffer_ptr rb)"
proof -
  have n: "n < 32768"
    using sint_less [of "buffer_size rb"] assms(1) by simp
  show "rb_size rb = n" using assms(1) by (simp add: rb_size_def)
  then show "rb_inv rb" using assms n
    by (auto simp: rb_inv_def word_le_nat_alt split: if_splits)
  show "rb_data rb = ring_view n r w (read_mirror rb = write_mirror rb) (buffer_ptr rb)"
    using assms n \<open>rb_size rb = n\<close> by (simp add: rb_data_view)
qed

lemma rb_data_len:
  assumes "rb_inv rb"
  shows "uint (rt_ringbuffer_data_len rb) = int (length (rb_data rb))"
    and "length (rb_data rb) \<le> rb_size rb"
proof -
  from assms obtain n r w where a:
    "rb_size rb = n" "sint (buffer_size rb) = int n" "n < 32768" "n \<le> length (buffer_ptr rb)"
    "read_index rb = of_nat r" "write_index rb = of_nat w" "r < n" "w < n"
    "uint (read_index rb) = int r" "uint (write_index rb) = int w"
    "if read_mirror rb = write_mirror rb then r \<le> w else w \<le> r"
    by (rule rb_invE)
  have b: "uint (buffer_size rb) = int n"
    using a(2,3) by (simp add: uint_sint take_bit_int_eq_self)
  have rw: "read_index rb = write_index rb \<longleftrightarrow> r = w"
    using a by (metis of_nat_eq_iff)
  have lt: "read_index rb < write_index rb \<longleftrightarrow> r < w"
    using a by (simp add: word_less_def)
  have len: "length (rb_data rb)
      = (if read_mirror rb = write_mirror rb then w - r else n - r + w)"
    using a by (simp add: rb_data_view length_ring_view)
  show "length (rb_data rb) \<le> rb_size rb"
    using a len by (auto split: if_splits)
  show "uint (rt_ringbuffer_data_len rb) = int (length (rb_data rb))"
    using a(3,7-11) unfolding rt_ringbuffer_data_len_def rt_ringbuffer_status_def rw lt len a(2,9,10)
    by (auto simp: b uint_word_of_int take_bit_int_eq_self of_nat_diff simp del: of_int_diff
        split: if_splits)
qed

section \<open>put and get refine a bounded queue\<close>

lemma rb_space_len:
  "rb_inv rb \<Longrightarrow> rt_ringbuffer_space_len rb = int (rb_size rb - length (rb_data rb))"
  using rb_data_len [of rb] by (auto simp: rt_ringbuffer_space_len_def rb_inv_def rb_size_def)

lemma u16_small: "k < 65536 \<Longrightarrow> uint (of_nat k :: u16) = int k"
  by (simp add: unsigned_of_nat take_bit_nat_eq_self)

lemma rb_size_small: "rb_inv rb \<Longrightarrow> rb_size rb < 32768"
  by (erule rb_invE) simp

text \<open>What one store of \<open>k\<close> bytes that fit does, in both branches of the code.\<close>

lemma rb_store_fits:
  assumes inv: "rb_inv rb" and k: "k \<le> length ptr" "k \<le> rb_size rb - length (rb_data rb)"
    and room: "unat (write_index rb) + k < rb_size rb"
    and buf: "buf = take (unat (write_index rb)) (buffer_ptr rb) @ take k ptr
                    @ drop (unat (write_index rb) + k) (buffer_ptr rb)"
    and rb': "rb' = rb\<lparr> buffer_ptr := buf, write_index := write_index rb + of_nat k \<rparr>"
  shows "rb_inv rb'" "rb_size rb' = rb_size rb" "rb_data rb' = rb_data rb @ take k ptr"
proof -
  from inv obtain n r w where a:
    "rb_size rb = n" "sint (buffer_size rb) = int n" "n < 32768" "n \<le> length (buffer_ptr rb)"
    "read_index rb = of_nat r" "write_index rb = of_nat w" "r < n" "w < n"
    "uint (read_index rb) = int r" "uint (write_index rb) = int w"
    "if read_mirror rb = write_mirror rb then r \<le> w else w \<le> r"
    by (rule rb_invE)
  let ?same = "read_mirror rb = write_mirror rb"
  have data: "rb_data rb = ring_view n r w ?same (buffer_ptr rb)"
    using a by (simp add: rb_data_view)
  have wk: "w + k < n" "\<not> ?same \<Longrightarrow> w + k \<le> r"
    using room k(2) a unfolding data
    by (simp_all add: length_ring_view split: if_splits)
  have lk: "length (take k ptr) = k" using k by simp
  have view: "ring_view n r (w + k) ?same buf = ring_view n r w ?same (buffer_ptr rb) @ take k ptr"
    using a wk k ring_view_write_same [of n "buffer_ptr rb" r w "take k ptr"]
      ring_view_write_diff [of n "buffer_ptr rb" r w "take k ptr"]
    unfolding buf by (cases ?same) simp_all
  note I = rb_invI [of rb' n r "w + k"]
  have h: "sint (buffer_size rb') = int n" "n \<le> length (buffer_ptr rb')"
    "read_index rb' = of_nat r" "write_index rb' = of_nat (w + k)" "r < n" "w + k < n"
    "if read_mirror rb' = write_mirror rb' then r \<le> w + k else w + k \<le> r"
    using a wk k by (auto simp: rb' buf)
  from I [OF h] show "rb_inv rb'" "rb_size rb' = rb_size rb"
    "rb_data rb' = rb_data rb @ take k ptr"
    by (simp_all add: a(1) data view rb')
qed

lemma rb_store_wraps:
  assumes inv: "rb_inv rb" and k: "k \<le> length ptr" "k \<le> rb_size rb - length (rb_data rb)"
    and room: "m = rb_size rb - unat (write_index rb)" "m \<le> k"
    and buf: "buf = take (k - m) (drop m ptr) @ drop (k - m)
                (take (unat (write_index rb)) (buffer_ptr rb) @ take m ptr
                 @ drop (unat (write_index rb) + m) (buffer_ptr rb))"
    and rb': "rb' = rb\<lparr> buffer_ptr := buf, write_mirror := NOT (write_mirror rb),
                         write_index := of_nat (k - m) \<rparr>"
  shows "rb_inv rb'" "rb_size rb' = rb_size rb" "rb_data rb' = rb_data rb @ take k ptr"
proof -
  from inv obtain n r w where a:
    "rb_size rb = n" "sint (buffer_size rb) = int n" "n < 32768" "n \<le> length (buffer_ptr rb)"
    "read_index rb = of_nat r" "write_index rb = of_nat w" "r < n" "w < n"
    "uint (read_index rb) = int r" "uint (write_index rb) = int w"
    "if read_mirror rb = write_mirror rb then r \<le> w else w \<le> r"
    by (rule rb_invE)
  let ?same = "read_mirror rb = write_mirror rb"
  have data: "rb_data rb = ring_view n r w ?same (buffer_ptr rb)"
    using a by (simp add: rb_data_view)
  have m: "m = n - w" using room a by simp
  have km: "k - m \<le> r" and same: "?same"
    using room k(2) a unfolding data m
    by (auto simp: length_ring_view split: if_splits)
  have tk: "take k ptr = take m ptr @ take (k - m) (drop m ptr)"
    using room(2) by (metis le_add_diff_inverse take_add)
  have view: "ring_view n r (k - m) False buf = ring_view n r w True (buffer_ptr rb) @ take k ptr"
    using a km k room same m
      ring_view_write_wrap [of n "buffer_ptr rb" r w "take m ptr" "take (k - m) (drop m ptr)"]
    unfolding buf tk by simp
  note I = rb_invI [of rb' n r "k - m"]
  have h: "sint (buffer_size rb') = int n" "n \<le> length (buffer_ptr rb')"
    "read_index rb' = of_nat r" "write_index rb' = of_nat (k - m)" "r < n" "k - m < n"
    "if read_mirror rb' = write_mirror rb' then r \<le> k - m else k - m \<le> r"
    using a km k m room same by (auto simp: rb' buf)
  from I [OF h] show "rb_inv rb'" "rb_size rb' = rb_size rb"
    "rb_data rb' = rb_data rb @ take k ptr"
    using same by (simp_all add: a(1) data view rb')
qed

lemma rb_put_refines:
  assumes inv: "rb_inv rb" and len: "unat len \<le> length ptr"
  defines "k \<equiv> min (unat len) (rb_size rb - length (rb_data rb))"
  shows "\<exists>rb'. rt_ringbuffer_put rb ptr len = Some (of_nat k, rb') \<and> rb_inv rb'
           \<and> rb_size rb' = rb_size rb \<and> rb_data rb' = rb_data rb @ take k ptr"
proof -
  let ?n = "rb_size rb"
  define w where "w = unat (write_index rb)"
  have uw: "uint (write_index rb) = int w" by (simp add: w_def)
  let ?sz = "word_of_int (rt_ringbuffer_space_len rb) :: u16"
  from inv rb_size_small [OF inv] have n: "?n < 32768" "w < ?n"
    "sint (buffer_size rb) = int ?n" "?n \<le> length (buffer_ptr rb)"
    by (simp_all add: rb_inv_def rb_size_def w_def)
  have sz: "?sz = of_nat (?n - length (rb_data rb))" "unat ?sz = ?n - length (rb_data rb)"
    using inv n by (simp_all add: rb_space_len unsigned_of_nat take_bit_nat_eq_self of_nat_diff
        rb_data_len del: of_nat_diff)
  have len': "(if ?sz < len then ?sz else len) = of_nat k" "k < 65536"
    using n sz unfolding k_def by (auto simp: word_less_nat_alt min_def)
  then have uk: "unat (of_nat k :: u16) = k" by (simp add: unsigned_of_nat take_bit_nat_eq_self)
  then have uc: "ucast (of_nat k :: u16) = (of_nat k :: 15 word)" by (metis of_nat_unat)
  have kk: "k \<le> length ptr" "k \<le> ?n - length (rb_data rb)"
    using len by (simp_all add: k_def)
  show ?thesis
  proof (cases "?sz = 0")
    case True
    then have "k = 0" using sz by (simp add: k_def)
    with True inv show ?thesis by (simp add: rt_ringbuffer_put_def)
  next
    case nz: False
    have put: "rt_ringbuffer_put rb ptr len =
      (if int ?n - int w > int k then do {
                buf \<leftarrow> mem_copy (buffer_ptr rb) (int w) ptr 0 (int k);
                Some (of_nat k, rb\<lparr> buffer_ptr := buf,
                               write_index := write_index rb + of_nat k \<rparr>) }
              else do {
                buf \<leftarrow> mem_copy (buffer_ptr rb) (int w) ptr 0 (int ?n - int w);
                buf \<leftarrow> mem_copy buf 0 ptr (int ?n - int w) (int k - (int ?n - int w));
                Some (of_nat k, rb\<lparr> buffer_ptr := buf,
                               write_mirror := NOT (write_mirror rb),
                               write_index := word_of_int (int k - (int ?n - int w)) \<rparr>) })"
      using nz len' uk n
      by (simp add: rt_ringbuffer_put_def Let_def u16_small uc uw)
    show ?thesis
    proof (cases "w + k < ?n")
      case True
      then have c: "int ?n - int w > int k" by linarith
      have mc: "mem_copy (buffer_ptr rb) (int w) ptr 0 (int k)
          = Some (take w (buffer_ptr rb) @ take k ptr @ drop (w + k) (buffer_ptr rb))"
        using mem_copy_nat [of 0 k ptr w "buffer_ptr rb"] True n kk by simp
      note F = rb_store_fits [OF inv kk True [unfolded w_def] refl refl, folded w_def]
      show ?thesis
        unfolding put using c mc F by simp
    next
      case False
      define m where "m = ?n - w"
      have m: "m \<le> k" "\<not> int m > int k"
        using False n by (auto simp: m_def)
      have im: "int ?n - int w = int m" "int k - int m = int (k - m)"
        using False n by (auto simp: m_def of_nat_diff)
      define b1 where "b1 = take w (buffer_ptr rb) @ take m ptr @ drop (w + m) (buffer_ptr rb)"
      have mc1: "mem_copy (buffer_ptr rb) (int w) ptr 0 (int m) = Some b1"
        using mem_copy_nat [of 0 m ptr w "buffer_ptr rb"] n kk m by (simp add: b1_def m_def)
      have mc2: "mem_copy b1 0 ptr (int m) (int (k - m))
          = Some (take (k - m) (drop m ptr) @ drop (k - m) b1)"
        using mem_copy_nat [of m "k - m" ptr 0 b1] n kk m by (simp add: b1_def)
      note F = rb_store_wraps [OF inv kk m_def [unfolded w_def] m(1) refl refl,
          folded w_def, folded b1_def]
      show ?thesis
        unfolding put im using m(2) mc1 mc2 F by (simp del: of_nat_diff)
    qed
  qed
qed

lemma rb_fetch_fits:
  assumes inv: "rb_inv rb" and k: "k \<le> length (rb_data rb)"
    and room: "unat (read_index rb) + k < rb_size rb"
    and rb': "rb' = rb\<lparr> read_index := read_index rb + of_nat k \<rparr>"
  shows "rb_inv rb'" "rb_size rb' = rb_size rb" "rb_data rb' = drop k (rb_data rb)"
    "take k (drop (unat (read_index rb)) (buffer_ptr rb)) = take k (rb_data rb)"
proof -
  from inv obtain n r w where a:
    "rb_size rb = n" "sint (buffer_size rb) = int n" "n < 32768" "n \<le> length (buffer_ptr rb)"
    "read_index rb = of_nat r" "write_index rb = of_nat w" "r < n" "w < n"
    "uint (read_index rb) = int r" "uint (write_index rb) = int w"
    "if read_mirror rb = write_mirror rb then r \<le> w else w \<le> r"
    by (rule rb_invE)
  let ?same = "read_mirror rb = write_mirror rb"
  have data: "rb_data rb = ring_view n r w ?same (buffer_ptr rb)"
    using a by (simp add: rb_data_view)
  have rk: "r + k < n" "if ?same then r + k \<le> w else True"
    using room k a unfolding data by (auto simp: length_ring_view)
  note R = ring_view_read [OF a(4,7,8) rk(2,1)]
  have h: "sint (buffer_size rb') = int n" "n \<le> length (buffer_ptr rb')"
    "read_index rb' = of_nat (r + k)" "write_index rb' = of_nat w" "r + k < n" "w < n"
    "if read_mirror rb' = write_mirror rb' then r + k \<le> w else w \<le> r + k"
    using a rk by (auto simp: rb' split: if_splits)
  from rb_invI [OF h] show "rb_inv rb'" "rb_size rb' = rb_size rb"
    "rb_data rb' = drop k (rb_data rb)"
    by (simp_all add: a(1) data R rb')
  show "take k (drop (unat (read_index rb)) (buffer_ptr rb)) = take k (rb_data rb)"
    unfolding data R using a by (simp add: slice_def)
qed

lemma rb_fetch_wraps:
  assumes inv: "rb_inv rb" and k: "k \<le> length (rb_data rb)"
    and room: "m = rb_size rb - unat (read_index rb)" "m \<le> k"
    and rb': "rb' = rb\<lparr> read_mirror := NOT (read_mirror rb), read_index := of_nat (k - m) \<rparr>"
  shows "rb_inv rb'" "rb_size rb' = rb_size rb" "rb_data rb' = drop k (rb_data rb)"
    "take m (drop (unat (read_index rb)) (buffer_ptr rb)) @ take (k - m) (buffer_ptr rb)
      = take k (rb_data rb)" "k - m \<le> length (buffer_ptr rb)"
proof -
  from inv obtain n r w where a:
    "rb_size rb = n" "sint (buffer_size rb) = int n" "n < 32768" "n \<le> length (buffer_ptr rb)"
    "read_index rb = of_nat r" "write_index rb = of_nat w" "r < n" "w < n"
    "uint (read_index rb) = int r" "uint (write_index rb) = int w"
    "if read_mirror rb = write_mirror rb then r \<le> w else w \<le> r"
    by (rule rb_invE)
  let ?same = "read_mirror rb = write_mirror rb"
  have data: "rb_data rb = ring_view n r w ?same (buffer_ptr rb)"
    using a by (simp add: rb_data_view)
  have m: "m = n - r" using room a by simp
  have same: "\<not> ?same" and km: "n - r \<le> k" "k \<le> n - r + w"
    using room k a unfolding data m by (auto simp: length_ring_view split: if_splits)
  note R = ring_view_read_wrap [OF a(4,7,8) km]
  have h: "sint (buffer_size rb') = int n" "n \<le> length (buffer_ptr rb')"
    "read_index rb' = of_nat (k - m)" "write_index rb' = of_nat w" "k - m < n" "w < n"
    "if read_mirror rb' = write_mirror rb' then k - m \<le> w else w \<le> k - m"
    using a km same by (auto simp: rb' m)
  from rb_invI [OF h] show "rb_inv rb'" "rb_size rb' = rb_size rb"
    "rb_data rb' = drop k (rb_data rb)"
    using same R by (simp_all add: a(1) data rb' m)
  show "take m (drop (unat (read_index rb)) (buffer_ptr rb)) @ take (k - m) (buffer_ptr rb)
      = take k (rb_data rb)"
    unfolding data using same R a by (simp add: slice_def m)
  show "k - m \<le> length (buffer_ptr rb)" using km a by (simp add: m)
qed

lemma rb_get_refines:
  assumes inv: "rb_inv rb" and len: "unat len \<le> length ptr"
  defines "k \<equiv> min (unat len) (length (rb_data rb))"
  shows "\<exists>rb'. rt_ringbuffer_get rb ptr len
             = Some (of_nat k, take k (rb_data rb) @ drop k ptr, rb') \<and> rb_inv rb'
           \<and> rb_size rb' = rb_size rb \<and> rb_data rb' = drop k (rb_data rb)"
proof -
  let ?n = "rb_size rb"
  define r where "r = unat (read_index rb)"
  have ur: "uint (read_index rb) = int r" by (simp add: r_def)
  let ?sz = "rt_ringbuffer_data_len rb"
  from inv rb_size_small [OF inv] have n: "?n < 32768" "r < ?n"
    "sint (buffer_size rb) = int ?n" "?n \<le> length (buffer_ptr rb)"
    by (simp_all add: rb_inv_def rb_size_def r_def)
  have sz: "unat ?sz = length (rb_data rb)"
    using rb_data_len [OF inv] by (metis nat_int unat_eq_nat_uint)
  then have sz': "?sz = of_nat (length (rb_data rb))" by (metis of_nat_unat ucast_id)
  have len': "(if ?sz < len then ?sz else len) = of_nat k" "k < 65536"
    using n sz sz' rb_data_len(2) [OF inv] unfolding k_def by (auto simp: word_less_nat_alt min_def)
  then have uk: "unat (of_nat k :: u16) = k" by (simp add: unsigned_of_nat take_bit_nat_eq_self)
  then have uc: "ucast (of_nat k :: u16) = (of_nat k :: 15 word)" by (metis of_nat_unat)
  have kk: "k \<le> length ptr" "k \<le> length (rb_data rb)"
    using len by (simp_all add: k_def)
  show ?thesis
  proof (cases "?sz = 0")
    case True
    then have "k = 0" using sz by (simp add: k_def)
    with True inv show ?thesis by (simp add: rt_ringbuffer_get_def)
  next
    case nz: False
    have get: "rt_ringbuffer_get rb ptr len =
      (if int ?n - int r > int k then do {
                ptr \<leftarrow> mem_copy ptr 0 (buffer_ptr rb) (int r) (int k);
                Some (of_nat k, ptr, rb\<lparr> read_index := read_index rb + of_nat k \<rparr>) }
              else do {
                ptr \<leftarrow> mem_copy ptr 0 (buffer_ptr rb) (int r) (int ?n - int r);
                ptr \<leftarrow> mem_copy ptr (int ?n - int r) (buffer_ptr rb) 0 (int k - (int ?n - int r));
                Some (of_nat k, ptr, rb\<lparr> read_mirror := NOT (read_mirror rb),
                               read_index := word_of_int (int k - (int ?n - int r)) \<rparr>) })"
      using nz len' uk n
      by (simp add: rt_ringbuffer_get_def Let_def u16_small uc ur)
    show ?thesis
    proof (cases "r + k < ?n")
      case True
      then have c: "int ?n - int r > int k" by linarith
      note F = rb_fetch_fits [OF inv kk(2) True [unfolded r_def] refl, folded r_def]
      have mc: "mem_copy ptr 0 (buffer_ptr rb) (int r) (int k)
          = Some (take k (rb_data rb) @ drop k ptr)"
        using mem_copy_nat [of r k "buffer_ptr rb" 0 ptr] True n kk F(4) by simp
      show ?thesis
        unfolding get using c mc F by simp
    next
      case False
      define m where "m = ?n - r"
      have m: "m \<le> k" "\<not> int m > int k" "r + m \<le> length (buffer_ptr rb)"
        using False n by (auto simp: m_def)
      have im: "int ?n - int r = int m" "int k - int m = int (k - m)"
        using False n by (auto simp: m_def of_nat_diff)
      define x where "x = take m (drop r (buffer_ptr rb))"
      have x: "length x = m" using m by (simp add: x_def)
      note F = rb_fetch_wraps [OF inv kk(2) m_def [unfolded r_def] m(1) refl,
          folded r_def, folded x_def]
      have mc1: "mem_copy ptr 0 (buffer_ptr rb) (int r) (int m) = Some (x @ drop m ptr)"
        using mem_copy_nat [of r m "buffer_ptr rb" 0 ptr] n kk m by (simp add: x_def)
      have mc2: "mem_copy (x @ drop m ptr) (int m) (buffer_ptr rb) 0 (int (k - m))
          = Some (take k (rb_data rb) @ drop k ptr)"
        using mem_copy_nat [of 0 "k - m" "buffer_ptr rb" m "x @ drop m ptr"] n kk m x F(5)
        by (simp add: F(4) [symmetric])
      show ?thesis
        unfolding get im using m(2) mc1 mc2 F(1-3) by (simp del: of_nat_diff)
    qed
  qed
qed

section \<open>Single bytes\<close>

lemma rb_putchar_refines:
  assumes inv: "rb_inv rb"
  shows "\<exists>rb'. rt_ringbuffer_putchar rb ch
           = Some (if length (rb_data rb) < rb_size rb then 1 else 0, rb') \<and> rb_inv rb'
         \<and> rb_size rb' = rb_size rb
         \<and> rb_data rb' = rb_data rb @ (if length (rb_data rb) < rb_size rb then [ch] else [])"
proof (cases "length (rb_data rb) < rb_size rb")
  case False
  then have "rt_ringbuffer_space_len rb = 0"
    using rb_space_len [OF inv] by simp
  with False inv show ?thesis by (simp add: rt_ringbuffer_putchar_def)
next
  case True
  then have sp: "rt_ringbuffer_space_len rb \<noteq> 0"
    using rb_space_len [OF inv] by simp
  define w where "w = unat (write_index rb)"
  have uw: "uint (write_index rb) = int w" by (simp add: w_def)
  from inv have n: "w < rb_size rb" "sint (buffer_size rb) = int (rb_size rb)"
    "rb_size rb \<le> length (buffer_ptr rb)"
    by (simp_all add: rb_inv_def rb_size_def w_def)
  define buf where "buf = take w (buffer_ptr rb) @ [ch] @ drop (w + 1) (buffer_ptr rb)"
  have buf: "(buffer_ptr rb)[w := ch] = buf"
    using n by (simp add: buf_def list_update_split)
  have k: "1 \<le> length [ch]" "1 \<le> rb_size rb - length (rb_data rb)"
    using True by simp_all
  have put: "rt_ringbuffer_putchar rb ch = Some (1, if w = rb_size rb - 1
      then rb\<lparr> buffer_ptr := buf, write_mirror := NOT (write_mirror rb), write_index := 0 \<rparr>
      else rb\<lparr> buffer_ptr := buf, write_index := write_index rb + 1 \<rparr>)"
    using n sp by (auto simp: rt_ringbuffer_putchar_def uw buf of_nat_diff)
  show ?thesis
  proof (cases "w = rb_size rb - 1")
    case last: True
    then have m: "1 = rb_size rb - unat (write_index rb)" using n by (simp add: w_def)
    show ?thesis
      using put last True rb_store_wraps [OF inv k m order_refl refl refl]
      by (simp add: buf_def w_def)
  next
    case False
    then have m: "unat (write_index rb) + 1 < rb_size rb" using n by (simp add: w_def)
    show ?thesis
      using put False True rb_store_fits [OF inv k m refl refl]
      by (simp add: buf_def w_def)
  qed
qed

lemma rb_getchar_refines:
  assumes inv: "rb_inv rb"
  shows "\<exists>rb'. rt_ringbuffer_getchar rb
           = Some (case rb_data rb of [] \<Rightarrow> None | c # _ \<Rightarrow> Some c, rb') \<and> rb_inv rb'
         \<and> rb_size rb' = rb_size rb \<and> rb_data rb' = tl (rb_data rb)"
proof (cases "rb_data rb")
  case Nil
  then have "rt_ringbuffer_data_len rb = 0"
    using rb_data_len(1) [OF inv] by (simp add: unsigned_eq_0_iff)
  with Nil inv show ?thesis by (simp add: rt_ringbuffer_getchar_def)
next
  case (Cons c cs)
  then have ne: "rt_ringbuffer_data_len rb \<noteq> 0"
    using rb_data_len(1) [OF inv] by (metis length_0_conv list.distinct(1) of_nat_eq_0_iff
        unsigned_0)
  define r where "r = unat (read_index rb)"
  have ur: "uint (read_index rb) = int r" by (simp add: r_def)
  from inv have n: "r < rb_size rb" "sint (buffer_size rb) = int (rb_size rb)"
    "rb_size rb \<le> length (buffer_ptr rb)"
    by (simp_all add: rb_inv_def rb_size_def r_def)
  have hd: "take 1 (drop r (buffer_ptr rb)) = [buffer_ptr rb ! r]"
    using Cons_nth_drop_Suc [of r "buffer_ptr rb"] n
    by (metis One_nat_def less_le_trans take0 take_Suc_Cons)
  have k: "1 \<le> length (rb_data rb)" using Cons by simp
  have get: "rt_ringbuffer_getchar rb = Some (Some (buffer_ptr rb ! r), if r = rb_size rb - 1
      then rb\<lparr> read_mirror := NOT (read_mirror rb), read_index := 0 \<rparr>
      else rb\<lparr> read_index := read_index rb + 1 \<rparr>)"
    using n ne by (auto simp: rt_ringbuffer_getchar_def ur of_nat_diff)
  show ?thesis
  proof (cases "r = rb_size rb - 1")
    case last: True
    then have m: "1 = rb_size rb - unat (read_index rb)" using n by (simp add: r_def)
    note F = rb_fetch_wraps [OF inv k m order_refl refl, folded r_def]
    show ?thesis
      using get last F Cons hd by simp
  next
    case False
    then have m: "unat (read_index rb) + 1 < rb_size rb" using n by (simp add: r_def)
    note F = rb_fetch_fits [OF inv k m refl, folded r_def]
    show ?thesis
      using get False F Cons hd by simp
  qed
qed

section \<open>Forced writes\<close>

lemma ring_view_force_fits:
  assumes "n \<le> length buf" "w + length xs < n"
  shows "ring_view n (w + length xs) (w + length xs) False
           (take w buf @ xs @ drop (w + length xs) buf)
       = drop (length xs) (ring_view n w w False buf) @ xs"
  using assms by (auto intro!: nth_equalityI simp: ring_view_def slice_def nth_append ac_simps)

lemma ring_view_force_wraps:
  assumes "n \<le> length buf" "w < n" "length xs = n - w" "length ys \<le> w"
  shows "ring_view n (length ys) (length ys) False
           (ys @ drop (length ys) (take w buf @ xs @ drop n buf))
       = drop (length xs + length ys) (ring_view n w w False buf) @ xs @ ys"
  using assms by (auto intro!: nth_equalityI simp: ring_view_def slice_def nth_append ac_simps)

lemma rb_full_iff:
  assumes "rb_inv rb"
  shows "rt_ringbuffer_status rb = RT_RINGBUFFER_FULL \<longleftrightarrow> length (rb_data rb) = rb_size rb"
    and "rt_ringbuffer_status rb = RT_RINGBUFFER_EMPTY \<longleftrightarrow> rb_data rb = []"
proof -
  from assms obtain n r w where a:
    "rb_size rb = n" "sint (buffer_size rb) = int n" "n < 32768" "n \<le> length (buffer_ptr rb)"
    "read_index rb = of_nat r" "write_index rb = of_nat w" "r < n" "w < n"
    "uint (read_index rb) = int r" "uint (write_index rb) = int w"
    "if read_mirror rb = write_mirror rb then r \<le> w else w \<le> r"
    by (rule rb_invE)
  have rw: "read_index rb = write_index rb \<longleftrightarrow> r = w"
    using a by (metis of_nat_eq_iff)
  have len: "length (rb_data rb)
      = (if read_mirror rb = write_mirror rb then w - r else n - r + w)"
    using a by (simp add: rb_data_view length_ring_view)
  show "rt_ringbuffer_status rb = RT_RINGBUFFER_FULL \<longleftrightarrow> length (rb_data rb) = rb_size rb"
    using a(1,7,8,11) by (auto simp: rt_ringbuffer_status_def rw len split: if_splits)
  show "rt_ringbuffer_status rb = RT_RINGBUFFER_EMPTY \<longleftrightarrow> rb_data rb = []"
    using a(1,7,8,11) unfolding length_0_conv [symmetric] len
    by (auto simp: rt_ringbuffer_status_def rw split: if_splits)
qed

lemma rb_fullD:
  assumes "rb_inv rb" "length (rb_data rb) = rb_size rb"
  shows "read_index rb = write_index rb" "read_mirror rb \<noteq> write_mirror rb"
  using rb_full_iff(1) [OF assms(1)] assms(2)
  by (auto simp: rt_ringbuffer_status_def split: if_splits)

lemma rb_force_fits:
  assumes inv: "rb_inv rb" and full: "length (rb_data rb) = rb_size rb"
    and k: "k \<le> length ptr" and room: "unat (write_index rb) + k < rb_size rb"
    and buf: "buf = take (unat (write_index rb)) (buffer_ptr rb) @ take k ptr
                    @ drop (unat (write_index rb) + k) (buffer_ptr rb)"
    and rb': "rb' = rb\<lparr> buffer_ptr := buf, write_index := write_index rb + of_nat k,
                         read_index := write_index rb + of_nat k \<rparr>"
  shows "rb_inv rb'" "rb_size rb' = rb_size rb" "rb_data rb' = drop k (rb_data rb) @ take k ptr"
proof -
  from inv obtain n r w where a:
    "rb_size rb = n" "sint (buffer_size rb) = int n" "n < 32768" "n \<le> length (buffer_ptr rb)"
    "read_index rb = of_nat r" "write_index rb = of_nat w" "r < n" "w < n"
    "uint (read_index rb) = int r" "uint (write_index rb) = int w"
    "if read_mirror rb = write_mirror rb then r \<le> w else w \<le> r"
    by (rule rb_invE)
  note diff = rb_fullD [OF inv full]
  have data: "rb_data rb = ring_view n w w False (buffer_ptr rb)"
    unfolding rb_data_view diff(1) using diff(2) a(1,3,6,8) by simp
  have wk: "w + k < n" using room a by simp
  have view: "ring_view n (w + k) (w + k) False buf
      = drop k (ring_view n w w False (buffer_ptr rb)) @ take k ptr"
    using a wk k ring_view_force_fits [of n "buffer_ptr rb" w "take k ptr"] unfolding buf by simp
  have h: "sint (buffer_size rb') = int n" "n \<le> length (buffer_ptr rb')"
    "read_index rb' = of_nat (w + k)" "write_index rb' = of_nat (w + k)" "w + k < n" "w + k < n"
    "if read_mirror rb' = write_mirror rb' then w + k \<le> w + k else w + k \<le> w + k"
    using a wk k by (auto simp: rb' buf)
  from rb_invI [OF h] show "rb_inv rb'" "rb_size rb' = rb_size rb"
    "rb_data rb' = drop k (rb_data rb) @ take k ptr"
    using diff by (simp_all add: a(1) data view rb')
qed

lemma rb_force_wraps:
  assumes inv: "rb_inv rb" and full: "length (rb_data rb) = rb_size rb"
    and k: "k \<le> length ptr" "k \<le> rb_size rb"
    and room: "m = rb_size rb - unat (write_index rb)" "m \<le> k"
    and buf: "buf = take (k - m) (drop m ptr) @ drop (k - m)
                (take (unat (write_index rb)) (buffer_ptr rb) @ take m ptr
                 @ drop (unat (write_index rb) + m) (buffer_ptr rb))"
    and rb': "rb' = rb\<lparr> buffer_ptr := buf, write_mirror := NOT (write_mirror rb),
                         write_index := of_nat (k - m), read_mirror := NOT (read_mirror rb),
                         read_index := of_nat (k - m) \<rparr>"
  shows "rb_inv rb'" "rb_size rb' = rb_size rb" "rb_data rb' = drop k (rb_data rb) @ take k ptr"
proof -
  from inv obtain n r w where a:
    "rb_size rb = n" "sint (buffer_size rb) = int n" "n < 32768" "n \<le> length (buffer_ptr rb)"
    "read_index rb = of_nat r" "write_index rb = of_nat w" "r < n" "w < n"
    "uint (read_index rb) = int r" "uint (write_index rb) = int w"
    "if read_mirror rb = write_mirror rb then r \<le> w else w \<le> r"
    by (rule rb_invE)
  note diff = rb_fullD [OF inv full]
  have data: "rb_data rb = ring_view n w w False (buffer_ptr rb)"
    unfolding rb_data_view diff(1) using diff(2) a(1,3,6,8) by simp
  have "m = n - w" using room(1) a(1,3,6,8) by simp
  then have m: "m = n - w" "m \<le> k" "k - m \<le> w" "k - m < n"
    using room(2) k(2) a(1,8) by linarith+
  have tk: "take k ptr = take m ptr @ take (k - m) (drop m ptr)"
    using room(2) by (metis le_add_diff_inverse take_add)
  have view: "ring_view n (k - m) (k - m) False buf
      = drop k (ring_view n w w False (buffer_ptr rb)) @ take k ptr"
    using a k m
      ring_view_force_wraps [of n "buffer_ptr rb" w "take m ptr" "take (k - m) (drop m ptr)"]
    unfolding buf tk by simp
  have h: "sint (buffer_size rb') = int n" "n \<le> length (buffer_ptr rb')"
    "read_index rb' = of_nat (k - m)" "write_index rb' = of_nat (k - m)" "k - m < n" "k - m < n"
    "if read_mirror rb' = write_mirror rb' then k - m \<le> k - m else k - m \<le> k - m"
    using a k m by (auto simp: rb' buf)
  from rb_invI [OF h] show "rb_inv rb'" "rb_size rb' = rb_size rb"
    "rb_data rb' = drop k (rb_data rb) @ take k ptr"
    using diff by (simp_all add: a(1) data view rb')
qed

lemma rb_putchar_force_refines:
  assumes inv: "rb_inv rb"
  shows "\<exists>rb'. rt_ringbuffer_putchar_force rb ch = Some (1, rb') \<and> rb_inv rb'
         \<and> rb_size rb' = rb_size rb
         \<and> rb_data rb' = (if length (rb_data rb) = rb_size rb then tl (rb_data rb) else rb_data rb)
                         @ [ch]"
proof -
  let ?full = "length (rb_data rb) = rb_size rb"
  define w where "w = unat (write_index rb)"
  have uw: "uint (write_index rb) = int w" by (simp add: w_def)
  from inv have n: "w < rb_size rb" "sint (buffer_size rb) = int (rb_size rb)"
    "rb_size rb \<le> length (buffer_ptr rb)"
    by (simp_all add: rb_inv_def rb_size_def w_def)
  define buf where "buf = take w (buffer_ptr rb) @ [ch] @ drop (w + 1) (buffer_ptr rb)"
  have buf: "(buffer_ptr rb)[w := ch] = buf"
    using n by (simp add: buf_def list_update_split)
  have k: "\<not> ?full \<Longrightarrow> 1 \<le> rb_size rb - length (rb_data rb)" "1 \<le> length [ch]"
    using rb_data_len(2) [OF inv] by simp_all
  have put: "rt_ringbuffer_putchar_force rb ch = Some (1, if w = rb_size rb - 1
      then (if ?full then rb\<lparr> buffer_ptr := buf, write_mirror := NOT (write_mirror rb),
                 write_index := 0, read_mirror := NOT (read_mirror rb), read_index := 0 \<rparr>
            else rb\<lparr> buffer_ptr := buf, write_mirror := NOT (write_mirror rb), write_index := 0 \<rparr>)
      else (if ?full then rb\<lparr> buffer_ptr := buf, write_index := write_index rb + 1,
                 read_index := write_index rb + 1 \<rparr>
            else rb\<lparr> buffer_ptr := buf, write_index := write_index rb + 1 \<rparr>))"
    using n rb_full_iff(1) [OF inv]
    by (auto simp: rt_ringbuffer_putchar_force_def uw buf of_nat_diff Let_def)
  show ?thesis
  proof (cases "w = rb_size rb - 1")
    case last: True
    then have m: "1 = rb_size rb - unat (write_index rb)" using n by (simp add: w_def)
    have sz: "1 \<le> rb_size rb" using n by simp
    show ?thesis
      using put last rb_store_wraps [OF inv k(2) k(1) m order_refl refl refl, folded w_def]
        rb_force_wraps [OF inv _ k(2) sz m order_refl refl refl, folded w_def]
      by (cases ?full) (simp_all add: buf_def drop_Suc)
  next
    case False
    then have m: "unat (write_index rb) + 1 < rb_size rb" using n by (simp add: w_def)
    show ?thesis
      using put False rb_store_fits [OF inv k(2) k(1) m refl refl, folded w_def]
        rb_force_fits [OF inv _ k(2) m refl refl, folded w_def]
      by (cases ?full) (simp_all add: buf_def drop_Suc)
  qed
qed

lemma rb_put_force_eq:
  assumes inv: "rb_inv rb"
  assumes w_def: "w = unat (write_index rb)" and n_def: "n = rb_size rb" and m_def: "m = n - w"
  assumes k: "k = min (unat len) n" "k \<le> length ptr"
  shows "rt_ringbuffer_put_force rb ptr len = Some (of_nat k,
    if w + k < n then
      let buf = take w (buffer_ptr rb) @ take k ptr @ drop (w + k) (buffer_ptr rb);
          rb1 = rb\<lparr> buffer_ptr := buf, write_index := write_index rb + of_nat k \<rparr>
      in if length (rb_data rb) = n then rb1\<lparr> read_index := write_index rb + of_nat k \<rparr> else rb1
    else
      let buf = take (k - m) (drop m ptr) @ drop (k - m)
                (take w (buffer_ptr rb) @ take m ptr @ drop (w + m) (buffer_ptr rb));
          rb1 = rb\<lparr> buffer_ptr := buf, write_mirror := NOT (write_mirror rb),
                    write_index := of_nat (k - m) \<rparr>
      in if length (rb_data rb) = n
         then rb1\<lparr> read_mirror := NOT (read_mirror rb), read_index := of_nat (k - m) \<rparr>
         else rb1)"
proof -
  have uw: "uint (write_index rb) = int w" by (simp add: w_def)
  from inv rb_size_small [OF inv] have n: "n < 32768" "w < n"
    "sint (buffer_size rb) = int n" "n \<le> length (buffer_ptr rb)"
    by (simp_all add: rb_inv_def rb_size_def w_def n_def)
  have bs: "buffer_size rb = of_nat n"
    using n(3) by (metis of_int_of_nat_eq of_int_sint scast_id)
  have cl: "uint len > int n \<longleftrightarrow> unat len > n"
    by (simp add: uint_int_unat del: of_nat_unat)
  have len': "(if uint len > int n then buffer_size rb else len) = of_nat k" "k < 65536"
    using n(1) unfolding k(1) cl bs by (auto simp: min_def)
  have uk: "unat (of_nat k :: u16) = k"
    using len'(2) by (simp add: unsigned_of_nat take_bit_nat_eq_self)
  then have uc: "ucast (of_nat k :: u16) = (of_nat k :: 15 word)" by (metis of_nat_unat)
  have uik: "uint (of_nat k :: u16) = int k" using len'(2) by (simp add: u16_small)
  have full: "rt_ringbuffer_status rb = RT_RINGBUFFER_FULL \<longleftrightarrow> length (rb_data rb) = n"
    using rb_full_iff(1) [OF inv] by (simp add: n_def)
  show ?thesis
  proof (cases "w + k < n")
    case True
    then have c: "int n - int w > int k" by linarith
    have mc: "mem_copy (buffer_ptr rb) (int w) ptr 0 (int k)
        = Some (take w (buffer_ptr rb) @ take k ptr @ drop (w + k) (buffer_ptr rb))"
      using mem_copy_nat [of 0 k ptr w "buffer_ptr rb"] True n k by simp
    show ?thesis
      unfolding rt_ringbuffer_put_force_def n(3) len' uw uc uik Let_def full
      using c mc True by simp
  next
    case False
    have m: "m \<le> k" "\<not> int m > int k"
      using False n by (auto simp: m_def)
    have im: "int n - int w = int m" "int k - int m = int (k - m)"
      using False n by (auto simp: m_def of_nat_diff)
    define b1 where "b1 = take w (buffer_ptr rb) @ take m ptr @ drop (w + m) (buffer_ptr rb)"
    have mc1: "mem_copy (buffer_ptr rb) (int w) ptr 0 (int m) = Some b1"
      using mem_copy_nat [of 0 m ptr w "buffer_ptr rb"] n k m by (simp add: b1_def m_def)
    have mc2: "mem_copy b1 0 ptr (int m) (int (k - m))
        = Some (take (k - m) (drop m ptr) @ drop (k - m) b1)"
      using mem_copy_nat [of m "k - m" ptr 0 b1] n k m by (simp add: b1_def)
    show ?thesis
      unfolding rt_ringbuffer_put_force_def n(3) len' uw uc uik im Let_def full b1_def [symmetric]
      using m(2) mc1 mc2 False by (simp del: of_nat_diff)
  qed
qed

lemma rb_put_force_within:
  assumes inv: "rb_inv rb" and k: "k = min (unat len) (rb_size rb)" "k \<le> length ptr"
    and fits: "k \<le> rb_size rb - length (rb_data rb)"
  shows "\<exists>rb'. rt_ringbuffer_put_force rb ptr len = Some (of_nat k, rb') \<and> rb_inv rb'
           \<and> rb_size rb' = rb_size rb \<and> rb_data rb' = rb_data rb @ take k ptr"
proof (cases "length (rb_data rb) = rb_size rb")
  case full: True
  then have k0: "k = 0" using fits by simp
  have w: "unat (write_index rb) + k < rb_size rb" using inv k0 by (simp add: rb_inv_def)
  show ?thesis
    unfolding rb_put_force_eq [OF inv refl refl refl k]
    using rb_force_fits [OF inv full k(2) w refl refl] w full k0
    by (simp add: Let_def)
next
  case nf: False
  obtain m where m: "m = rb_size rb - unat (write_index rb)" by simp
  show ?thesis
  proof (cases "unat (write_index rb) + k < rb_size rb")
    case True
    show ?thesis
      unfolding rb_put_force_eq [OF inv refl refl m k]
      using rb_store_fits [OF inv k(2) fits True refl refl] True nf
      by (simp add: Let_def)
  next
    case False
    then have mk: "m \<le> k" by (simp add: m)
    show ?thesis
      unfolding rb_put_force_eq [OF inv refl refl m k]
      using rb_store_wraps [OF inv k(2) fits m mk refl refl] False nf
      by (simp add: Let_def)
  qed
qed

lemma rb_put_force_full:
  assumes inv: "rb_inv rb" and k: "k = min (unat len) (rb_size rb)" "k \<le> length ptr"
    and full: "length (rb_data rb) = rb_size rb"
  shows "\<exists>rb'. rt_ringbuffer_put_force rb ptr len = Some (of_nat k, rb') \<and> rb_inv rb'
           \<and> rb_size rb' = rb_size rb \<and> rb_data rb' = drop k (rb_data rb) @ take k ptr"
proof (cases "unat (write_index rb) + k < rb_size rb")
  case True
  show ?thesis
    unfolding rb_put_force_eq [OF inv refl refl refl k]
    using rb_force_fits [OF inv full k(2) True refl refl] True full
    by (simp add: Let_def)
next
  case False
  obtain m where m: "m = rb_size rb - unat (write_index rb)" by simp
  with False have mk: "m \<le> k" by simp
  have kn: "k \<le> rb_size rb" using k by simp
  show ?thesis
    unfolding rb_put_force_eq [OF inv refl refl m k]
    using rb_force_wraps [OF inv full k(2) kn m mk refl refl] False full
    by (simp add: Let_def)
qed

text \<open>What happens when the block is larger than the free space of a buffer that is not full:
  the writer passes the reader, and the read index stays where it was.\<close>

lemma rb_lapped:
  assumes "buffer_size rb = of_nat n" "n < 32768" "read_index rb = of_nat r"
    "write_index rb = of_nat w" "r < n" "w < n"
    "if read_mirror rb = write_mirror rb then w < r else r < w"
  shows "\<not> rb_inv rb"
    "uint (rt_ringbuffer_data_len rb)
       = (if read_mirror rb = write_mirror rb then int n - (int r - int w) else int w - int r)"
proof -
  have i: "unat (read_index rb) = r" "unat (write_index rb) = w"
    "uint (read_index rb) = int r" "uint (write_index rb) = int w"
    using assms(2-6) by (simp_all add: unsigned_of_nat take_bit_nat_eq_self)
  show "\<not> rb_inv rb"
    using assms(7) i by (auto simp: rb_inv_def word_le_nat_alt split: if_splits)
  have sz: "sint (buffer_size rb) = int n"
    using assms(1,2) sint_eq_unat [of "buffer_size rb"]
    by (simp add: unsigned_of_nat take_bit_nat_eq_self)
  have c1: "read_index rb = write_index rb \<longleftrightarrow> r = w"
    using i(1,2) assms(3,4) by metis
  have c2: "read_index rb < write_index rb \<longleftrightarrow> r < w"
    unfolding word_less_def i(3,4) by simp
  show "uint (rt_ringbuffer_data_len rb)
       = (if read_mirror rb = write_mirror rb then int n - (int r - int w) else int w - int r)"
    unfolding rt_ringbuffer_data_len_def rt_ringbuffer_status_def c1 c2 sz i(3,4)
    using assms(2,5,6,7)
    by (auto simp: uint_word_of_int take_bit_int_eq_self simp del: of_int_diff split: if_splits)
qed

lemma rb_put_force_overrun:
  assumes inv: "rb_inv rb" and k: "k = min (unat len) (rb_size rb)" "k \<le> length ptr"
    and nf: "length (rb_data rb) < rb_size rb" and over: "rb_size rb - length (rb_data rb) < k"
  shows "\<exists>rb'. rt_ringbuffer_put_force rb ptr len = Some (of_nat k, rb') \<and> \<not> rb_inv rb'
     \<and> uint (rt_ringbuffer_data_len rb') = int k - int (rb_size rb - length (rb_data rb))"
proof -
  from inv obtain n r w where a:
    "rb_size rb = n" "sint (buffer_size rb) = int n" "n < 32768" "n \<le> length (buffer_ptr rb)"
    "read_index rb = of_nat r" "write_index rb = of_nat w" "r < n" "w < n"
    "uint (read_index rb) = int r" "uint (write_index rb) = int w"
    "if read_mirror rb = write_mirror rb then r \<le> w else w \<le> r"
    by (rule rb_invE)
  let ?same = "read_mirror rb = write_mirror rb"
  have uw: "unat (write_index rb) = w" using a(3,6,8) by simp
  have bs: "buffer_size rb = of_nat n"
    using a(2) by (metis of_int_of_nat_eq of_int_sint scast_id)
  have len: "length (rb_data rb) = (if ?same then w - r else n - r + w)"
    using a by (simp add: rb_data_view length_ring_view)
  have kn: "k \<le> n" using k(1) a(1) by simp
  obtain m where m: "m = n - w" by simp
  have nl: "length (rb_data rb) \<noteq> n" using nf a(1) by simp
  note eq = rb_put_force_eq [OF inv uw [symmetric] a(1) [symmetric] m k [unfolded a(1)]]
  show ?thesis
  proof (cases "w + k < n")
    case True
    let ?rb = "rb\<lparr> buffer_ptr := take w (buffer_ptr rb) @ take k ptr @ drop (w + k) (buffer_ptr rb),
                   write_index := write_index rb + of_nat k \<rparr>"
    have d: "\<not> ?same" "r < w + k" using True over a(1,7,8,11) len by (auto split: if_splits)
    have h: "buffer_size ?rb = of_nat n" "n < 32768" "read_index ?rb = of_nat r"
      "write_index ?rb = of_nat (w + k)" "r < n" "w + k < n"
      "if read_mirror ?rb = write_mirror ?rb then w + k < r else r < w + k"
      using a(3,5,6,7) bs d True by simp_all
    have len': "int k - int (rb_size rb - length (rb_data rb)) = int (w + k) - int r"
      using d a(1,7,8,11) len by simp
    show ?thesis
      unfolding eq len' using True nl rb_lapped [OF h] d by (simp add: Let_def)
  next
    case False
    define buf where "buf = take (k - m) (drop m ptr) @ drop (k - m)
                (take w (buffer_ptr rb) @ take m ptr @ drop (w + m) (buffer_ptr rb))"
    let ?rb = "rb\<lparr> buffer_ptr := buf, write_mirror := NOT (write_mirror rb),
                   write_index := of_nat (k - m) \<rparr>"
    have km: "k - m < n" using kn m a(8) by linarith
    have d: "if ?same then r < k - m else k - m < r"
      using False over nl a(1,7,8,11) len kn m by (auto split: if_splits)
    have h: "buffer_size ?rb = of_nat n" "n < 32768" "read_index ?rb = of_nat r"
      "write_index ?rb = of_nat (k - m)" "r < n" "k - m < n"
      "if read_mirror ?rb = write_mirror ?rb then k - m < r else r < k - m"
      using a(3,5,7) bs d km by (simp_all split: if_splits)
    have len': "int k - int (rb_size rb - length (rb_data rb))
        = (if \<not> ?same then int n - (int r - int (k - m)) else int (k - m) - int r)"
      using False d a(1,7,8,11) len kn m by (auto split: if_splits)
    show ?thesis
      unfolding eq len' buf_def [symmetric] Let_def using False nl rb_lapped [OF h]
      by (auto split: if_splits)
  qed
qed

section \<open>Initialisation\<close>

lemma align_down_8: "unat (rt_align_down sz 8) = unat sz div 8 * 8"
proof -
  have m: "(8 - 1 :: u16) = mask 3" by (simp add: mask_eq_exp_minus_1)
  have "rt_align_down sz 8 = push_bit 3 (drop_bit 3 sz)"
    unfolding rt_align_down_def m
    by (rule bit_word_eqI)
      (auto simp: bit_and_iff bit_not_iff bit_push_bit_iff bit_drop_bit_eq bit_mask_iff)
  then have eq: "rt_align_down sz 8 = sz div 8 * 8"
    by (simp add: push_bit_eq_mult drop_bit_eq_div)
  have "unat sz div 8 * 8 < 65536"
    using unsigned_less [where 'a=nat, of sz] by simp
  then show ?thesis
    unfolding eq by (simp add: unat_word_ariths unat_div_distrib)
qed

lemma rb_init:
  assumes "8 \<le> unat sz" "unat sz < 32768" "unat sz \<le> length pool"
  shows "\<exists>rb. rt_ringbuffer_init pool sz = Some rb \<and> rb_inv rb
         \<and> rb_size rb = unat sz div 8 * 8 \<and> rb_data rb = []"
proof -
  let ?rb = "\<lparr> buffer_ptr = pool, read_mirror = 0, read_index = 0, write_mirror = 0,
               write_index = 0, buffer_size = rt_align_down sz 8 \<rparr>"
  have small: "unat sz div 8 * 8 \<le> unat sz" by simp
  have s: "sint sz = int (unat sz)" "sint (rt_align_down sz 8) = int (unat sz div 8 * 8)"
    using assms(2) small sint_eq_unat [of sz] sint_eq_unat [of "rt_align_down sz 8"]
    by (simp_all add: align_down_8)
  have h: "sint (buffer_size ?rb) = int (unat sz div 8 * 8)"
    "unat sz div 8 * 8 \<le> length (buffer_ptr ?rb)"
    "read_index ?rb = of_nat 0" "write_index ?rb = of_nat 0"
    "0 < unat sz div 8 * 8" "0 < unat sz div 8 * 8"
    "if read_mirror ?rb = write_mirror ?rb then (0::nat) \<le> 0 else (0::nat) \<le> 0"
    using assms s small by simp_all
  have "rt_ringbuffer_init pool sz = Some ?rb"
    using assms(1) unfolding rt_ringbuffer_init_def s(1) by (simp del: of_nat_unat)
  with rb_invI [OF h] show ?thesis
    by (simp add: ring_view_def slice_def)
qed

section \<open>The ring buffer is a bounded queue\<close>

text \<open>The queue interface over the code's \<^verbatim>\<open>put\<close> and \<^verbatim>\<open>get\<close>: the caller of \<^verbatim>\<open>get\<close> passes a
  buffer of the length asked for.\<close>

definition rb_fifo_put :: "rt_ringbuffer \<Rightarrow> u8 list \<Rightarrow> (nat \<times> rt_ringbuffer) option" where
  "rb_fifo_put rb xs = do {
     (n, rb') \<leftarrow> rt_ringbuffer_put rb xs (of_nat (length xs)); Some (unat n, rb') }"

definition rb_fifo_get :: "rt_ringbuffer \<Rightarrow> nat \<Rightarrow> (u8 list \<times> rt_ringbuffer) option" where
  "rb_fifo_get rb n = do {
     (k, buf, rb') \<leftarrow> rt_ringbuffer_get rb (replicate n 0) (of_nat n);
     Some (take (unat k) buf, rb') }"

abbreviation u16_length :: "'a list \<Rightarrow> bool" where
  "u16_length xs \<equiv> length xs < 65536"

abbreviation u16_nat :: "nat \<Rightarrow> bool" where
  "u16_nat n \<equiv> n < 65536"

interpretation rbq: bounded_fifo rb_inv rb_size rb_data u16_length u16_nat rb_fifo_put rb_fifo_get
proof unfold_locales
  fix rb assume "rb_inv rb"
  then show "length (rb_data rb) \<le> rb_size rb" by (rule rb_data_len(2))
next
  fix rb :: rt_ringbuffer and xs :: "u8 list"
  assume inv: "rb_inv rb" and xs: "u16_length xs"
  have u: "unat (of_nat (length xs) :: u16) = length xs"
    using xs by (simp add: unsigned_of_nat take_bit_nat_eq_self)
  define k where "k = min (length xs) (rb_size rb - length (rb_data rb))"
  have uk: "unat (of_nat k :: u16) = k"
    using xs by (simp add: k_def unsigned_of_nat take_bit_nat_eq_self)
  have tk: "take k xs = take (rb_size rb - length (rb_data rb)) xs"
    by (simp add: k_def min_def)
  from rb_put_refines [OF inv, of "of_nat (length xs)" xs, unfolded u, folded k_def]
  show "\<exists>rb'. rb_fifo_put rb xs
      = Some (min (length xs) (rb_size rb - length (rb_data rb)), rb') \<and> rb_inv rb'
      \<and> rb_size rb' = rb_size rb
      \<and> rb_data rb' = rb_data rb @ take (rb_size rb - length (rb_data rb)) xs"
    unfolding k_def [symmetric] by (auto simp: rb_fifo_put_def uk tk)
next
  fix rb :: rt_ringbuffer and n :: nat
  assume inv: "rb_inv rb" and n: "u16_nat n"
  have u: "unat (of_nat n :: u16) = n"
    using n by (simp add: unsigned_of_nat take_bit_nat_eq_self)
  define k where "k = min n (length (rb_data rb))"
  have uk: "unat (of_nat k :: u16) = k"
    using n by (simp add: k_def unsigned_of_nat take_bit_nat_eq_self)
  have tk: "take k (rb_data rb) = take n (rb_data rb)" "drop k (rb_data rb) = drop n (rb_data rb)"
    by (simp_all add: k_def min_def)
  have kl: "k \<le> length (rb_data rb)" by (simp add: k_def)
  from rb_get_refines [OF inv, of "of_nat n" "replicate n 0", unfolded u, folded k_def]
  show "\<exists>rb'. rb_fifo_get rb n = Some (take n (rb_data rb), rb') \<and> rb_inv rb'
      \<and> rb_size rb' = rb_size rb \<and> rb_data rb' = drop n (rb_data rb)"
    by (auto simp: rb_fifo_get_def uk min_absorb2 [OF kl] simp flip: tk)
qed

section \<open>Properties\<close>

text \<open>A concrete buffer of eight bytes holding \<open>[1, 2, 3, 4, 5]\<close> across the wrap, for the
  witnesses.\<close>

definition rb_demo :: rt_ringbuffer where
  "rb_demo = \<lparr> buffer_ptr = [3, 4, 5, 0, 0, 0, 1, 2], read_mirror = 0, read_index = 6,
                write_mirror = 1, write_index = 3, buffer_size = 8 \<rparr>"

lemma rb_demo [simp]:
  "rb_inv rb_demo" "rb_size rb_demo = 8" "rb_data rb_demo = [1, 2, 3, 4, 5]"
  by (simp_all add: rb_demo_def rb_inv_def rb_size_def rb_data_def slice_def)

text \<open>C6. Any interleaving of block writes and block reads on a ring buffer runs without a
  fault, keeps the invariant, and delivers exactly the accepted bytes in order: what was in the
  buffer followed by what was accepted equals what was delivered followed by what is left.\<close>

theorem ringbuffer_stream:
  assumes "rb_inv rb" and "list_all (fifo_admissible u16_length u16_nat) ops"
  shows "\<exists>ins outs rb'. fifo_run rb_fifo_put rb_fifo_get rb ops = Some (ins, outs, rb')
           \<and> rb_inv rb' \<and> rb_size rb' = rb_size rb \<and> rb_data rb @ ins = outs @ rb_data rb'"
  using assms by (rule rbq.run_order)

theorem ringbuffer_stream_witness:
  "\<exists>ins outs rb'. fifo_run rb_fifo_put rb_fifo_get rb_demo [Put [6, 7, 8, 9], Get 4, Put [10]]
       = Some (ins, outs, rb') \<and> rb_inv rb' \<and> rb_size rb' = rb_size rb_demo
     \<and> rb_data rb_demo @ ins = outs @ rb_data rb'"
  by (rule ringbuffer_stream) simp_all

text \<open>\<^verbatim>\<open>rt_ringbuffer_put\<close> stores the longest prefix of the block that fits behind the bytes
  already held, returns its length, drops the rest, and never writes outside the pool.\<close>

theorem ringbuffer_put_correct:
  assumes "rb_inv rb" and "unat len \<le> length ptr"
    and "k = min (unat len) (rb_size rb - length (rb_data rb))"
  shows "\<exists>rb'. rt_ringbuffer_put rb ptr len = Some (of_nat k, rb') \<and> rb_inv rb'
           \<and> rb_size rb' = rb_size rb \<and> rb_data rb' = rb_data rb @ take k ptr"
  unfolding assms(3) using assms(1,2) by (rule rb_put_refines)

theorem ringbuffer_put_correct_witness:
  "\<exists>rb'. rt_ringbuffer_put rb_demo [6, 7, 8, 9] 4 = Some (of_nat 3, rb') \<and> rb_inv rb'
     \<and> rb_size rb' = rb_size rb_demo \<and> rb_data rb' = rb_data rb_demo @ take 3 [6, 7, 8, 9]"
  by (rule ringbuffer_put_correct) simp_all

text \<open>\<^verbatim>\<open>rt_ringbuffer_get\<close> removes the oldest bytes, as many as asked for and held, copies
  them to the front of the caller's buffer and leaves the rest of that buffer alone.\<close>

theorem ringbuffer_get_correct:
  assumes "rb_inv rb" and "unat len \<le> length ptr"
    and "k = min (unat len) (length (rb_data rb))"
  shows "\<exists>rb'. rt_ringbuffer_get rb ptr len
             = Some (of_nat k, take k (rb_data rb) @ drop k ptr, rb') \<and> rb_inv rb'
           \<and> rb_size rb' = rb_size rb \<and> rb_data rb' = drop k (rb_data rb)"
  unfolding assms(3) using assms(1,2) by (rule rb_get_refines)

theorem ringbuffer_get_correct_witness:
  "\<exists>rb'. rt_ringbuffer_get rb_demo [0, 0, 0] 3
       = Some (of_nat 3, take 3 (rb_data rb_demo) @ drop 3 [0, 0, 0], rb') \<and> rb_inv rb'
     \<and> rb_size rb' = rb_size rb_demo \<and> rb_data rb' = drop 3 (rb_data rb_demo)"
  by (rule ringbuffer_get_correct) simp_all

text \<open>The single-byte operations: \<^verbatim>\<open>putchar\<close> appends a byte unless the buffer is full,
  \<^verbatim>\<open>putchar_force\<close> appends it and drops the oldest one when the buffer is full, \<^verbatim>\<open>getchar\<close>
  removes the oldest byte; each keeps the invariant and none faults.\<close>

theorem ringbuffer_chars_correct:
  assumes "rb_inv rb"
  shows "(\<exists>rb'. rt_ringbuffer_putchar rb ch
             = Some (if length (rb_data rb) < rb_size rb then 1 else 0, rb') \<and> rb_inv rb'
           \<and> rb_data rb'
             = rb_data rb @ (if length (rb_data rb) < rb_size rb then [ch] else []))
       \<and> (\<exists>rb'. rt_ringbuffer_putchar_force rb ch = Some (1, rb') \<and> rb_inv rb'
           \<and> rb_data rb'
             = (if length (rb_data rb) = rb_size rb then tl (rb_data rb) else rb_data rb) @ [ch])
       \<and> (\<exists>rb'. rt_ringbuffer_getchar rb
             = Some (case rb_data rb of [] \<Rightarrow> None | c # _ \<Rightarrow> Some c, rb') \<and> rb_inv rb'
           \<and> rb_data rb' = tl (rb_data rb))"
  using rb_putchar_refines [OF assms] rb_putchar_force_refines [OF assms]
    rb_getchar_refines [OF assms] by blast

theorem ringbuffer_chars_correct_witness:
  "(\<exists>rb'. rt_ringbuffer_getchar rb_demo = Some (Some 1, rb') \<and> rb_data rb' = [2, 3, 4, 5])"
  using ringbuffer_chars_correct [of rb_demo 0] by auto

text \<open>\<^verbatim>\<open>rt_ringbuffer_put_force\<close> does what its comment says when the block fits the free space
  (it appends) and when the buffer is full (it replaces the oldest bytes).\<close>

theorem ringbuffer_put_force_correct:
  assumes "rb_inv rb" and "k = min (unat len) (rb_size rb)" "k \<le> length ptr"
    and "k \<le> rb_size rb - length (rb_data rb) \<or> length (rb_data rb) = rb_size rb"
  shows "\<exists>rb'. rt_ringbuffer_put_force rb ptr len = Some (of_nat k, rb') \<and> rb_inv rb'
           \<and> rb_size rb' = rb_size rb
           \<and> rb_data rb' = drop (length (rb_data rb) + k - rb_size rb) (rb_data rb) @ take k ptr"
  using rb_put_force_within [OF assms(1,2,3)] rb_put_force_full [OF assms(1,2,3)] assms(4)
    rb_data_len(2) [OF assms(1)]
  by (cases "length (rb_data rb) = rb_size rb") auto

theorem ringbuffer_put_force_correct_witness:
  "\<exists>rb'. rt_ringbuffer_put_force rb_demo [6, 7, 8] 3 = Some (of_nat 3, rb') \<and> rb_inv rb'
     \<and> rb_size rb' = rb_size rb_demo
     \<and> rb_data rb' = drop (length (rb_data rb_demo) + 3 - rb_size rb_demo) (rb_data rb_demo)
                     @ take 3 [6, 7, 8]"
  by (rule ringbuffer_put_force_correct) simp_all

text \<open>When the buffer is not full but the forced block is larger than its free space, the
  write index passes the read index and the read index is not moved: the invariant is broken
  and the buffer then reports only the excess over the free space as its content.\<close>

theorem ringbuffer_put_force_overruns:
  assumes "rb_inv rb" and "k = min (unat len) (rb_size rb)" "k \<le> length ptr"
    and "length (rb_data rb) < rb_size rb" "rb_size rb - length (rb_data rb) < k"
  shows "\<exists>rb'. rt_ringbuffer_put_force rb ptr len = Some (of_nat k, rb') \<and> \<not> rb_inv rb'
     \<and> uint (rt_ringbuffer_data_len rb') = int k - int (rb_size rb - length (rb_data rb))"
  using assms by (rule rb_put_force_overrun)

theorem ringbuffer_put_force_overruns_witness:
  "\<exists>rb'. rt_ringbuffer_put_force rb_demo [6, 7, 8, 9] 4 = Some (of_nat 4, rb') \<and> \<not> rb_inv rb'
     \<and> uint (rt_ringbuffer_data_len rb') = int 4 - int (rb_size rb_demo - length (rb_data rb_demo))"
  by (rule ringbuffer_put_force_overruns) simp_all

end
