(* ===== verification/RtList.thy ===== *)
theory RtList
  imports Prelude
begin

text \<open>
  The doubly linked lists of include/rtservice.h, on which every kernel queue is built, at two
  levels. The lower level is the code: a store of \<^verbatim>\<open>next\<close> and \<^verbatim>\<open>prev\<close> links over nodes, with
  each function as its sequence of assignments. The upper level is what the kernel theories use:
  the contents of every list head and, for every element node, the list it is linked in. The
  upper operations fault (\<open>None\<close>) where the code would corrupt its links: inserting a node that
  is linked, initialising a head that is in use, taking the entry of an empty list. The
  simulation theorems at the end show that the code's assignments implement the upper level.
\<close>

section \<open>The code: links between nodes\<close>

text \<open>A node is either a list head or the node embedded in an element.\<close>

datatype ('h, 'n) lnode = Head 'h | Node 'n

record 'a rt_links =
  lnext :: "'a \<Rightarrow> 'a"
  lprev :: "'a \<Rightarrow> 'a"

definition rt_list_init :: "'a \<Rightarrow> 'a rt_links \<Rightarrow> 'a rt_links" where
  "rt_list_init l h = h\<lparr> lnext := (lnext h)(l := l), lprev := (lprev h)(l := l) \<rparr>"

definition rt_list_insert_after :: "'a \<Rightarrow> 'a \<Rightarrow> 'a rt_links \<Rightarrow> 'a rt_links" where
  "rt_list_insert_after l n h =
     (let h = h\<lparr> lprev := (lprev h)(lnext h l := n) \<rparr>;
          h = h\<lparr> lnext := (lnext h)(n := lnext h l) \<rparr>;
          h = h\<lparr> lnext := (lnext h)(l := n) \<rparr>
      in h\<lparr> lprev := (lprev h)(n := l) \<rparr>)"

definition rt_list_insert_before :: "'a \<Rightarrow> 'a \<Rightarrow> 'a rt_links \<Rightarrow> 'a rt_links" where
  "rt_list_insert_before l n h =
     (let h = h\<lparr> lnext := (lnext h)(lprev h l := n) \<rparr>;
          h = h\<lparr> lprev := (lprev h)(n := lprev h l) \<rparr>;
          h = h\<lparr> lprev := (lprev h)(l := n) \<rparr>
      in h\<lparr> lnext := (lnext h)(n := l) \<rparr>)"

definition rt_list_remove :: "'a \<Rightarrow> 'a rt_links \<Rightarrow> 'a rt_links" where
  "rt_list_remove n h =
     (let h = h\<lparr> lprev := (lprev h)(lnext h n := lprev h n) \<rparr>;
          h = h\<lparr> lnext := (lnext h)(lprev h n := lnext h n) \<rparr>
      in h\<lparr> lnext := (lnext h)(n := n), lprev := (lprev h)(n := n) \<rparr>)"

definition rt_list_isempty :: "'a \<Rightarrow> 'a rt_links \<Rightarrow> bool" where
  "rt_list_isempty l h \<longleftrightarrow> lnext h l = l"

section \<open>The contents of the lists\<close>

record ('h, 'n) rt_lists =
  items :: "'h \<Rightarrow> 'n list"
  home :: "'n \<Rightarrow> 'h option"

definition lists_ok :: "('h, 'n) rt_lists \<Rightarrow> bool" where
  "lists_ok ls \<longleftrightarrow>
     (\<forall>q. distinct (items ls q)) \<and> (\<forall>q n. n \<in> set (items ls q) \<longleftrightarrow> home ls n = Some q)"

definition ls_init :: "'h \<Rightarrow> ('h, 'n) rt_lists \<Rightarrow> ('h, 'n) rt_lists option" where
  "ls_init q ls = (if items ls q = [] then Some ls else None)"

definition ls_append :: "'h \<Rightarrow> 'n \<Rightarrow> ('h, 'n) rt_lists \<Rightarrow> ('h, 'n) rt_lists option" where
  "ls_append q n ls =
     (if home ls n = None
      then Some (ls\<lparr> items := (items ls)(q := items ls q @ [n]), home := (home ls)(n \<mapsto> q) \<rparr>)
      else None)"

definition ls_push :: "'h \<Rightarrow> 'n \<Rightarrow> ('h, 'n) rt_lists \<Rightarrow> ('h, 'n) rt_lists option" where
  "ls_push q n ls =
     (if home ls n = None
      then Some (ls\<lparr> items := (items ls)(q := n # items ls q), home := (home ls)(n \<mapsto> q) \<rparr>)
      else None)"

text \<open>Insert \<open>n\<close> before the element \<open>m\<close> of a list.\<close>

fun insert_before :: "'n \<Rightarrow> 'n \<Rightarrow> 'n list \<Rightarrow> 'n list" where
  "insert_before m n [] = [n]"
| "insert_before m n (x # xs) = (if x = m then n # x # xs else x # insert_before m n xs)"

definition ls_insert_before :: "'n \<Rightarrow> 'n \<Rightarrow> ('h, 'n) rt_lists \<Rightarrow> ('h, 'n) rt_lists option" where
  "ls_insert_before m n ls =
     (case home ls m of None \<Rightarrow> None
      | Some q \<Rightarrow>
          if home ls n = None
          then Some (ls\<lparr> items := (items ls)(q := insert_before m n (items ls q)),
                         home := (home ls)(n \<mapsto> q) \<rparr>)
          else None)"

definition ls_remove :: "'n \<Rightarrow> ('h, 'n) rt_lists \<Rightarrow> ('h, 'n) rt_lists" where
  "ls_remove n ls =
     (case home ls n of None \<Rightarrow> ls
      | Some q \<Rightarrow> ls\<lparr> items := (items ls)(q := remove1 n (items ls q)),
                      home := (home ls)(n := None) \<rparr>)"

definition ls_isempty :: "'h \<Rightarrow> ('h, 'n) rt_lists \<Rightarrow> bool" where
  "ls_isempty q ls \<longleftrightarrow> items ls q = []"

text \<open>\<^verbatim>\<open>rt_list_entry(list->next, ...)\<close>: the element behind the head.\<close>

definition ls_first :: "'h \<Rightarrow> ('h, 'n) rt_lists \<Rightarrow> 'n option" where
  "ls_first q ls = (case items ls q of [] \<Rightarrow> None | n # _ \<Rightarrow> Some n)"

section \<open>The list operations keep the lists well-formed\<close>

lemma lists_okD:
  assumes "lists_ok ls"
  shows "distinct (items ls q)" "n \<in> set (items ls q) \<longleftrightarrow> home ls n = Some q"
  using assms by (simp_all add: lists_ok_def)

lemma set_insert_before [simp]: "set (insert_before m n xs) = insert n (set xs)"
  by (induction xs) auto

lemma distinct_insert_before [simp]:
  "distinct (insert_before m n xs) \<longleftrightarrow> n \<notin> set xs \<and> distinct xs"
  by (induction xs) auto

lemma lists_ok_init: "ls_init q ls = Some ls' \<Longrightarrow> lists_ok ls \<Longrightarrow> lists_ok ls'"
  by (simp add: ls_init_def split: if_splits)

lemma lists_ok_append: "ls_append q n ls = Some ls' \<Longrightarrow> lists_ok ls \<Longrightarrow> lists_ok ls'"
  by (auto simp: ls_append_def lists_ok_def split: if_splits)

lemma lists_ok_push: "ls_push q n ls = Some ls' \<Longrightarrow> lists_ok ls \<Longrightarrow> lists_ok ls'"
  by (auto simp: ls_push_def lists_ok_def split: if_splits)

lemma lists_ok_insert_before:
  "ls_insert_before m n ls = Some ls' \<Longrightarrow> lists_ok ls \<Longrightarrow> lists_ok ls'"
  by (auto simp: ls_insert_before_def lists_ok_def split: if_splits option.splits)

lemma lists_ok_remove: "lists_ok ls \<Longrightarrow> lists_ok (ls_remove n ls)"
  by (auto simp: ls_remove_def lists_ok_def split: option.splits)

lemma items_remove: "lists_ok ls \<Longrightarrow> items (ls_remove n ls) q = remove1 n (items ls q)"
  by (auto simp: ls_remove_def lists_ok_def remove1_idem split: option.splits)

lemma home_remove [simp]: "home (ls_remove n ls) = (home ls)(n := None)"
  by (auto simp: ls_remove_def split: option.splits)

lemma ls_append_Some: "home ls n = None \<Longrightarrow> ls_append q n ls =
    Some (ls\<lparr> items := (items ls)(q := items ls q @ [n]), home := (home ls)(n \<mapsto> q) \<rparr>)"
  by (simp add: ls_append_def)

lemma ls_first_Some: "ls_first q ls = Some n \<longleftrightarrow> (\<exists>ns. items ls q = n # ns)"
  by (auto simp: ls_first_def split: list.splits)

section \<open>The code implements the contents\<close>

text \<open>\<open>path h a xs b\<close>: the links lead from \<open>a\<close> through \<open>xs\<close> to \<open>b\<close> and back.\<close>

fun path :: "'a rt_links \<Rightarrow> 'a \<Rightarrow> 'a list \<Rightarrow> 'a \<Rightarrow> bool" where
  "path h a [] b \<longleftrightarrow> lnext h a = b \<and> lprev h b = a"
| "path h a (x # xs) b \<longleftrightarrow> lnext h a = x \<and> lprev h x = a \<and> path h x xs b"

definition ring :: "'a rt_links \<Rightarrow> 'a \<Rightarrow> 'a list \<Rightarrow> bool" where
  "ring h l xs \<longleftrightarrow> distinct (l # xs) \<and> path h l xs l"

lemma path_append [simp]:
  "path h a (xs @ y # ys) b \<longleftrightarrow> path h a xs y \<and> path h y ys b"
  by (induction xs arbitrary: a) auto

lemma path_frame:
  "\<forall>x \<in> set (a # xs). lnext h' x = lnext h x \<Longrightarrow>
   \<forall>x \<in> set (xs @ [b]). lprev h' x = lprev h x \<Longrightarrow> path h a xs b \<Longrightarrow> path h' a xs b"
  by (induction xs arbitrary: a) auto

lemma ring_frame:
  "ring h l xs \<Longrightarrow> \<forall>x \<in> set (l # xs). lnext h' x = lnext h x \<and> lprev h' x = lprev h x \<Longrightarrow>
   ring h' l xs"
  by (auto simp: ring_def intro!: path_frame [of l xs h' h])

lemma ring_isempty: "ring h l xs \<Longrightarrow> rt_list_isempty l h \<longleftrightarrow> xs = []"
  by (cases xs) (auto simp: ring_def rt_list_isempty_def)

lemma ring_first: "ring h l (x # xs) \<Longrightarrow> lnext h l = x"
  by (simp add: ring_def)

text \<open>All insertions are a splice between two neighbours, and a removal undoes one.\<close>

lemma path_nextD: "path h a xs b \<Longrightarrow> lnext h a = hd (xs @ [b])"
  by (cases xs) auto

lemma path_prevD: "path h a xs b \<Longrightarrow> lprev h b = last (a # xs)"
  by (induction xs arbitrary: a) auto

lemma ring_splice:
  assumes r: "ring h l (xs @ ys)" and n: "n \<notin> set (l # xs @ ys)"
    and a: "a = last (l # xs)" and b: "b = hd (ys @ [l])"
    and nx: "lnext h' = (lnext h)(a := n, n := b)"
    and pv: "lprev h' = (lprev h)(n := a, b := n)"
  shows "ring h' l (xs @ n # ys)"
proof -
  have d: "distinct (l # xs @ n # ys)" using r n by (auto simp: ring_def)
  have "a \<in> set (l # xs)" unfolding a by (rule last_in_set) simp
  then have an: "a \<notin> set ys" "a \<noteq> n" using d by auto
  have "b \<in> set (ys @ [l])" unfolding b by (rule hd_in_set) simp
  then have bn: "b \<notin> set xs" "b \<noteq> n" using d by auto
  have left: "path h' l xs n"
  proof (cases xs rule: rev_cases)
    case Nil
    then show ?thesis using a bn an nx pv by simp
  next
    case (snoc zs z)
    then have p: "path h l zs z" using r by (cases ys) (auto simp: ring_def)
    have az: "a = z" using a snoc by simp
    have "path h' l zs z"
      using snoc d az bn nx pv by (intro path_frame [OF _ _ p]) auto
    then show ?thesis using snoc az an bn nx pv by simp
  qed
  have right: "path h' n ys l"
  proof (cases ys)
    case Nil
    then show ?thesis using b an bn nx pv by simp
  next
    case (Cons z zs)
    then have p: "path h z zs l" and bz: "b = z" using r b by (simp_all add: ring_def)
    have "path h' z zs l"
      using Cons d bz an nx pv by (intro path_frame [OF _ _ p]) auto
    then show ?thesis using Cons bz an bn nx pv by simp
  qed
  show ?thesis using d left right by (simp add: ring_def)
qed

lemma ring_adjacent:
  assumes "ring h l (xs @ ys)"
  shows "lnext h (last (l # xs)) = hd (ys @ [l])" "lprev h (hd (ys @ [l])) = last (l # xs)"
  using assms by (cases xs rule: rev_cases; cases ys; auto simp: ring_def)+

lemma ring_insert_before:
  assumes "ring h l (xs @ ys)" "n \<notin> set (l # xs @ ys)" "s = hd (ys @ [l])"
  shows "ring (rt_list_insert_before s n h) l (xs @ n # ys)"
proof (rule ring_splice [OF assms(1,2) refl refl])
  have s: "lprev h s = last (l # xs)" using ring_adjacent [OF assms(1)] assms(3) by simp
  have "last (l # xs) \<in> set (l # xs)" by (rule last_in_set) simp
  then have ln: "last (l # xs) \<noteq> n" using assms(2) by auto
  have "s \<in> set (ys @ [l])" unfolding assms(3) by (rule hd_in_set) simp
  then have sn: "s \<noteq> n" using assms(2) by auto
  show "lnext (rt_list_insert_before s n h) = (lnext h)(last (l # xs) := n, n := hd (ys @ [l]))"
    unfolding rt_list_insert_before_def Let_def assms(3) [symmetric] using s by simp
  show "lprev (rt_list_insert_before s n h) = (lprev h)(n := last (l # xs), hd (ys @ [l]) := n)"
    unfolding rt_list_insert_before_def Let_def assms(3) [symmetric] using s sn by simp
qed

lemma ring_insert_after:
  assumes "ring h l xs" "n \<notin> set (l # xs)"
  shows "ring (rt_list_insert_after l n h) l (n # xs)"
proof -
  have s: "lnext h l = hd (xs @ [l])" using ring_adjacent(1) [of h l "[]" xs] assms(1) by simp
  have "hd (xs @ [l]) \<in> set (xs @ [l])" by (rule hd_in_set) simp
  then have sn: "hd (xs @ [l]) \<noteq> n" using assms(2) by auto
  have "ring (rt_list_insert_after l n h) l ([] @ n # xs)"
  proof (rule ring_splice)
    show "ring h l ([] @ xs)" "n \<notin> set (l # [] @ xs)" "l = last (l # [])" "hd (xs @ [l]) = hd (xs @ [l])"
      using assms by simp_all
    show "lnext (rt_list_insert_after l n h) = (lnext h)(l := n, n := hd (xs @ [l]))"
      using s assms(2) by (auto simp: rt_list_insert_after_def)
    show "lprev (rt_list_insert_after l n h) = (lprev h)(n := l, hd (xs @ [l]) := n)"
      using s sn by (auto simp: rt_list_insert_after_def)
  qed
  then show ?thesis by simp
qed

lemma ring_remove:
  assumes r: "ring h l (xs @ n # ys)"
  shows "ring (rt_list_remove n h) l (xs @ ys)"
proof -
  let ?h = "rt_list_remove n h"
  let ?a = "last (l # xs)" and ?b = "hd (ys @ [l])"
  have d: "distinct (l # xs @ n # ys)" using r by (simp add: ring_def)
  have ab: "lnext h n = ?b" "lprev h n = ?a"
    using ring_adjacent [OF r] ring_adjacent(1) [of h l "xs @ [n]" ys] r by simp_all
  have "?a \<in> set (l # xs)" by (rule last_in_set) simp
  then have an: "?a \<notin> set ys" "?a \<noteq> n" using d by auto
  have "?b \<in> set (ys @ [l])" by (rule hd_in_set) simp
  then have bn: "?b \<notin> set xs" "?b \<noteq> n" using d by auto
  have nx: "lnext ?h = (lnext h)(?a := ?b, n := n)" and pv: "lprev ?h = (lprev h)(?b := ?a, n := n)"
    using an bn unfolding rt_list_remove_def Let_def
    by (simp_all add: ab)
  have pl: "path h l xs n" and pr: "path h n ys l" using r by (simp_all add: ring_def)
  show ?thesis
  proof (cases xs rule: rev_cases)
    case Nil
    show ?thesis
    proof (cases ys)
      case Nil
      then show ?thesis using \<open>xs = []\<close> nx pv d by (simp add: ring_def)
    next
      case (Cons z zs)
      have "path ?h z zs l"
        using pr Cons d nx pv \<open>xs = []\<close>
        by (intro path_frame [of z zs ?h h]) auto
      then show ?thesis using Cons \<open>xs = []\<close> nx pv d an by (auto simp: ring_def)
    qed
  next
    case (snoc zs z)
    have left: "path ?h l zs z"
      using pl snoc d nx pv bn by (intro path_frame [of l zs ?h h]) auto
    show ?thesis
    proof (cases ys)
      case Nil
      then show ?thesis using snoc left nx pv d bn an by (auto simp: ring_def)
    next
      case (Cons w ws)
      have "path ?h w ws l"
        using pr Cons d nx pv snoc by (intro path_frame [of w ws ?h h]) auto
      then show ?thesis using left Cons snoc nx pv d an bn by (auto simp: ring_def)
    qed
  qed
qed

section \<open>Simulation\<close>

text \<open>\<open>lists_rel h ls\<close>: the links \<open>h\<close> hold the lists \<open>ls\<close>, and an element that is in no list is
  linked to itself, as \<^verbatim>\<open>rt_list_init\<close> and \<^verbatim>\<open>rt_list_remove\<close> leave it.\<close>

definition lists_rel :: "('h, 'n) lnode rt_links \<Rightarrow> ('h, 'n) rt_lists \<Rightarrow> bool" where
  "lists_rel h ls \<longleftrightarrow> lists_ok ls
     \<and> (\<forall>q. ring h (Head q) (map Node (items ls q)))
     \<and> (\<forall>n. home ls n = None \<longrightarrow> lnext h (Node n) = Node n \<and> lprev h (Node n) = Node n)"

lemma lists_relD:
  assumes "lists_rel h ls"
  shows "lists_ok ls" "ring h (Head q) (map Node (items ls q))"
    "home ls n = None \<Longrightarrow> lnext h (Node n) = Node n \<and> lprev h (Node n) = Node n"
  using assms by (simp_all add: lists_rel_def)

text \<open>A link operation writes only at nodes of one list and at the node it moves.\<close>

definition touches :: "'a set \<Rightarrow> 'a rt_links \<Rightarrow> 'a rt_links \<Rightarrow> bool" where
  "touches A h h' \<longleftrightarrow> (\<forall>x. x \<notin> A \<longrightarrow> lnext h' x = lnext h x \<and> lprev h' x = lprev h x)"

lemma ring_ends:
  assumes "ring h l xs" "x \<in> set (l # xs)"
  shows "lnext h x \<in> set (l # xs)" "lprev h x \<in> set (l # xs)"
proof -
  have "\<exists>us vs. l # xs = us @ x # vs" using split_list [OF assms(2)] .
  then obtain us vs where uv: "l # xs = us @ x # vs" by blast
  show "lnext h x \<in> set (l # xs)"
  proof -
    have "lnext h x = hd (vs @ [l])"
    proof (cases us)
      case Nil
      then show ?thesis using uv assms(1) ring_adjacent(1) [of h l "[]" xs] by simp
    next
      case (Cons u us')
      then have "xs = (us' @ [x]) @ vs" using uv by simp
      then show ?thesis using assms(1) ring_adjacent(1) [of h l "us' @ [x]" vs] by simp
    qed
    moreover have "hd (vs @ [l]) \<in> set (vs @ [l])" by (rule hd_in_set) simp
    moreover have "set vs \<subseteq> set (l # xs)" unfolding uv by auto
    ultimately show ?thesis by auto
  qed
  show "lprev h x \<in> set (l # xs)"
  proof (cases us)
    case Nil
    then have "lprev h x = last (l # xs)" using uv assms(1) ring_adjacent(2) [of h l xs "[]"] by simp
    then show ?thesis by (metis last_in_set list.distinct(1))
  next
    case (Cons u us')
    then have x: "xs = us' @ x # vs" and ul: "u = l" using uv by simp_all
    then have "lprev h x = last (l # us')" using assms(1) ring_adjacent(2) [of h l us' "x # vs"] by simp
    moreover have "last (l # us') \<in> set (l # us')" by (rule last_in_set) simp
    ultimately show ?thesis using x by auto
  qed
qed

lemma touches_ops:
  assumes "ring h l xs"
  shows "s \<in> set (l # xs) \<Longrightarrow> touches (set (n # l # xs)) h (rt_list_insert_before s n h)"
    and "touches (set (n # l # xs)) h (rt_list_insert_after l n h)"
    and "n \<in> set xs \<Longrightarrow> touches (set (n # l # xs)) h (rt_list_remove n h)"
  using ring_ends [OF assms]
  by (auto simp: touches_def rt_list_insert_before_def rt_list_insert_after_def
      rt_list_remove_def Let_def)

text \<open>Changing list \<open>q\<close> only: the other lists and the other free nodes are as they were.\<close>

lemma lists_rel_update:
  assumes rel: "lists_rel h ls" and ok: "lists_ok ls'"
    and t: "touches (set (Node n # Head q # map Node (items ls q))) h h'"
    and rg: "ring h' (Head q) (map Node (items ls' q))"
    and it: "\<And>p. p \<noteq> q \<Longrightarrow> items ls' p = items ls p"
    and hm: "\<And>m. m \<noteq> n \<Longrightarrow> home ls' m = home ls m"
    and n: "home ls n = None \<or> home ls n = Some q"
    and fr: "home ls' n = None \<Longrightarrow> lnext h' (Node n) = Node n \<and> lprev h' (Node n) = Node n"
  shows "lists_rel h' ls'"
  unfolding lists_rel_def
proof (intro conjI allI impI)
  show "lists_ok ls'" by (rule ok)
  fix p
  show "ring h' (Head p) (map Node (items ls' p))"
  proof (cases "p = q")
    case False
    have out: "m \<in> set (items ls p) \<Longrightarrow> m \<noteq> n \<and> m \<notin> set (items ls q)" for m
      using False n lists_okD [OF lists_relD(1) [OF rel]] by auto
    show ?thesis
      unfolding it [OF False]
      by (rule ring_frame [OF lists_relD(2) [OF rel]])
        (use False out t in \<open>auto simp: touches_def\<close>)
  qed (use rg in simp)
next
  fix m assume m: "home ls' m = None"
  have "lnext h' (Node m) = Node m \<and> lprev h' (Node m) = Node m"
  proof (cases "m = n")
    case False
    then have "home ls m = None" using m hm by simp
    moreover from this have "m \<notin> set (items ls q)"
      using lists_okD(2) [OF lists_relD(1) [OF rel]] by simp
    ultimately show ?thesis
      using lists_relD(3) [OF rel] t False by (auto simp: touches_def)
  qed (use fr m in simp)
  then show "lnext h' (Node m) = Node m" "lprev h' (Node m) = Node m" by simp_all
qed

lemma sim_append:
  assumes rel: "lists_rel h ls" and op: "ls_append q n ls = Some ls'"
  shows "lists_rel (rt_list_insert_before (Head q) (Node n) h) ls'"
proof -
  let ?xs = "map Node (items ls q)"
  have fresh: "home ls n = None" and ls': "items ls' = (items ls)(q := items ls q @ [n])"
    "home ls' = (home ls)(n \<mapsto> q)"
    using op by (auto simp: ls_append_def split: if_splits)
  have nin: "Node n \<notin> set (Head q # ?xs @ [])"
    using fresh lists_okD(2) [OF lists_relD(1) [OF rel]] by auto
  show ?thesis
  proof (rule lists_rel_update [OF rel, where n = n and q = q])
    show "lists_ok ls'" using op lists_relD(1) [OF rel] by (rule lists_ok_append)
    show "touches (set (Node n # Head q # ?xs)) h (rt_list_insert_before (Head q) (Node n) h)"
      by (rule touches_ops(1) [OF lists_relD(2) [OF rel]]) simp
    show "ring (rt_list_insert_before (Head q) (Node n) h) (Head q) (map Node (items ls' q))"
      using ring_insert_before [of h "Head q" ?xs "[]", OF _ nin refl] lists_relD(2) [OF rel, of q]
      by (simp add: ls')
  qed (use fresh ls' in auto)
qed

lemma sim_push:
  assumes rel: "lists_rel h ls" and op: "ls_push q n ls = Some ls'"
  shows "lists_rel (rt_list_insert_after (Head q) (Node n) h) ls'"
proof -
  let ?xs = "map Node (items ls q)"
  have fresh: "home ls n = None" and ls': "items ls' = (items ls)(q := n # items ls q)"
    "home ls' = (home ls)(n \<mapsto> q)"
    using op by (auto simp: ls_push_def split: if_splits)
  have nin: "Node n \<notin> set (Head q # ?xs)"
    using fresh lists_okD(2) [OF lists_relD(1) [OF rel]] by auto
  show ?thesis
  proof (rule lists_rel_update [OF rel, where n = n and q = q])
    show "lists_ok ls'" using op lists_relD(1) [OF rel] by (rule lists_ok_push)
    show "touches (set (Node n # Head q # ?xs)) h (rt_list_insert_after (Head q) (Node n) h)"
      by (rule touches_ops(2) [OF lists_relD(2) [OF rel]])
    show "ring (rt_list_insert_after (Head q) (Node n) h) (Head q) (map Node (items ls' q))"
      using ring_insert_after [OF lists_relD(2) [OF rel] nin] by (simp add: ls')
  qed (use fresh ls' in auto)
qed

lemma insert_before_split:
  "m \<in> set xs \<Longrightarrow> distinct xs \<Longrightarrow>
   \<exists>us vs. xs = us @ m # vs \<and> insert_before m n xs = us @ n # m # vs"
proof (induction xs)
  case (Cons x xs)
  show ?case
  proof (cases "x = m")
    case True
    then show ?thesis by (intro exI [of _ "[]"] exI [of _ xs]) simp
  next
    case False
    with Cons obtain us vs where "xs = us @ m # vs" "insert_before m n xs = us @ n # m # vs"
      by auto
    with False show ?thesis by (intro exI [of _ "x # us"] exI [of _ vs]) simp
  qed
qed simp

lemma sim_insert_before:
  assumes rel: "lists_rel h ls" and op: "ls_insert_before m n ls = Some ls'"
  shows "lists_rel (rt_list_insert_before (Node m) (Node n) h) ls'"
proof -
  from op obtain q where q: "home ls m = Some q" and fresh: "home ls n = None"
    and ls': "items ls' = (items ls)(q := insert_before m n (items ls q))"
    "home ls' = (home ls)(n \<mapsto> q)"
    by (auto simp: ls_insert_before_def split: if_splits option.splits)
  let ?xs = "map Node (items ls q)"
  note ok = lists_relD(1) [OF rel]
  have m: "m \<in> set (items ls q)" using q lists_okD(2) [OF ok] by simp
  obtain us vs where uv: "items ls q = us @ m # vs"
    "insert_before m n (items ls q) = us @ n # m # vs"
    using insert_before_split [OF m lists_okD(1) [OF ok]] by blast
  have nin: "Node n \<notin> set (Head q # map Node us @ map Node (m # vs))"
    using fresh lists_okD(2) [OF ok, of n q] uv by auto
  have rg: "ring h (Head q) (map Node us @ map Node (m # vs))"
    using lists_relD(2) [OF rel, of q] uv by simp
  show ?thesis
  proof (rule lists_rel_update [OF rel, where n = n and q = q])
    show "lists_ok ls'" using op ok by (rule lists_ok_insert_before)
    show "touches (set (Node n # Head q # ?xs)) h (rt_list_insert_before (Node m) (Node n) h)"
      by (rule touches_ops(1) [OF lists_relD(2) [OF rel]]) (use m in simp)
    show "ring (rt_list_insert_before (Node m) (Node n) h) (Head q) (map Node (items ls' q))"
      using ring_insert_before [OF rg nin, of "Node m"] uv by (simp add: ls')
  qed (use fresh ls' in auto)
qed

lemma sim_remove:
  assumes rel: "lists_rel h ls"
  shows "lists_rel (rt_list_remove (Node n) h) (ls_remove n ls)"
proof (cases "home ls n")
  case None
  then have "rt_list_remove (Node n) h = h"
    using lists_relD(3) [OF rel None]
    by (simp add: rt_list_remove_def fun_upd_idem)
  with None rel show ?thesis by (simp add: ls_remove_def)
next
  case (Some q)
  let ?xs = "map Node (items ls q)"
  note ok = lists_relD(1) [OF rel]
  have m: "n \<in> set (items ls q)" using Some lists_okD(2) [OF ok] by simp
  then obtain us vs where uv: "items ls q = us @ n # vs" by (meson split_list)
  then have r1: "remove1 n (items ls q) = us @ vs"
    using lists_okD(1) [OF ok, of q] by (simp add: remove1_append)
  have rg: "ring h (Head q) (map Node us @ Node n # map Node vs)"
    using lists_relD(2) [OF rel, of q] uv by simp
  have ls': "items (ls_remove n ls) = (items ls)(q := us @ vs)"
    using Some r1 by (simp add: ls_remove_def)
  show ?thesis
  proof (rule lists_rel_update [OF rel, where n = n and q = q])
    show "lists_ok (ls_remove n ls)" using ok by (rule lists_ok_remove)
    show "touches (set (Node n # Head q # ?xs)) h (rt_list_remove (Node n) h)"
      by (rule touches_ops(3) [OF lists_relD(2) [OF rel]]) (use m in simp)
    show "ring (rt_list_remove (Node n) h) (Head q) (map Node (items (ls_remove n ls) q))"
      using ring_remove [OF rg] by (simp add: ls')
  qed (use Some ls' in \<open>auto simp: rt_list_remove_def Let_def\<close>)
qed

section \<open>The interface the kernel uses\<close>

text \<open>A collection of queues: what the scheduler and the IPC objects rely on. \<open>members\<close> lists
  a queue from its head; \<open>append\<close> fails only on an element that is already queued.\<close>

locale queues =
  fixes ok :: "'s \<Rightarrow> bool"
    and members :: "'s \<Rightarrow> 'q \<Rightarrow> 'n list"
    and append :: "'q \<Rightarrow> 'n \<Rightarrow> 's \<Rightarrow> 's option"
    and remove :: "'n \<Rightarrow> 's \<Rightarrow> 's"
    and first :: "'q \<Rightarrow> 's \<Rightarrow> 'n option"
  assumes distinct_members: "ok s \<Longrightarrow> distinct (members s q)"
    and disjoint_members: "ok s \<Longrightarrow> n \<in> set (members s p) \<Longrightarrow> n \<in> set (members s q) \<Longrightarrow> p = q"
    and append_law: "ok s \<Longrightarrow> (\<forall>p. n \<notin> set (members s p)) \<Longrightarrow>
      \<exists>s'. append q n s = Some s' \<and> ok s' \<and> members s' = (members s)(q := members s q @ [n])"
    and remove_law: "ok s \<Longrightarrow> ok (remove n s)"
      "ok s \<Longrightarrow> members (remove n s) q = remove1 n (members s q)"
    and first_law: "ok s \<Longrightarrow> first q s = (case members s q of [] \<Rightarrow> None | n # _ \<Rightarrow> Some n)"
begin

text \<open>Moving an element to the end of a queue, as a yield or a wake-up does.\<close>

lemma requeue:
  assumes "ok s"
  shows "\<exists>s'. append q n (remove n s) = Some s' \<and> ok s'
           \<and> members s' q = remove1 n (members s q) @ [n]
           \<and> (\<forall>p. p \<noteq> q \<longrightarrow> members s' p = remove1 n (members s p))"
proof -
  have r: "ok (remove n s)" "\<forall>p. n \<notin> set (members (remove n s) p)"
    using assms remove_law distinct_members by (auto simp: set_remove1_eq)
  from append_law [OF r, of q] obtain s' where "append q n (remove n s) = Some s'" "ok s'"
    "members s' = (members (remove n s))(q := members (remove n s) q @ [n])"
    by blast
  then show ?thesis using remove_law(2) [OF assms] by simp
qed

text \<open>A queue is first in, first out: appended elements leave in order.\<close>

lemma first_append:
  assumes "ok s" "members s q = []" "\<forall>p. n \<notin> set (members s p)"
  shows "\<exists>s'. append q n s = Some s' \<and> first q s' = Some n"
  using append_law [OF assms(1,3), of q] assms(2) first_law by force

end

interpretation rtl: queues lists_ok items ls_append ls_remove ls_first
proof unfold_locales
  fix s :: "('h, 'n) rt_lists" and n :: 'n and p q :: 'h
  assume ok: "lists_ok s"
  show "distinct (items s q)" using ok by (rule lists_okD(1))
  show "n \<in> set (items s p) \<Longrightarrow> n \<in> set (items s q) \<Longrightarrow> p = q"
    using lists_okD(2) [OF ok] by simp
  show "\<forall>p. n \<notin> set (items s p) \<Longrightarrow>
      \<exists>s'. ls_append q n s = Some s' \<and> lists_ok s' \<and> items s' = (items s)(q := items s q @ [n])"
    using lists_okD(2) [OF ok] lists_ok_append [OF _ ok, of q n]
    by (auto simp: ls_append_def)
  show "lists_ok (ls_remove n s)" using ok by (rule lists_ok_remove)
  show "items (ls_remove n s) q = remove1 n (items s q)" using ok by (rule items_remove)
  show "ls_first q s = (case items s q of [] \<Rightarrow> None | n # _ \<Rightarrow> Some n)"
    by (simp add: ls_first_def)
qed

section \<open>Properties\<close>

lemma isempty_rel:
  assumes "lists_rel h ls"
  shows "rt_list_isempty (Head q) h \<longleftrightarrow> ls_isempty q ls"
  using lists_relD(2) [OF assms, of q]
  by (cases "items ls q") (auto simp: ring_def rt_list_isempty_def ls_isempty_def)

text \<open>C5. The link assignments of \<open>rt_list_insert_before\<close>, \<open>rt_list_insert_after\<close>, \<open>rt_list_remove\<close> and
  \<open>rt_list_isempty\<close> implement the operations on list contents that the kernel theories use: from
  links that hold the lists, each leads to links that hold the changed lists.\<close>

theorem list_ops_refine:
  assumes "lists_rel h ls"
  shows "(ls_append q n ls = Some ls1 \<longrightarrow> lists_rel (rt_list_insert_before (Head q) (Node n) h) ls1)
       \<and> (ls_push q n ls = Some ls2 \<longrightarrow> lists_rel (rt_list_insert_after (Head q) (Node n) h) ls2)
       \<and> (ls_insert_before m n ls = Some ls3 \<longrightarrow> lists_rel (rt_list_insert_before (Node m) (Node n) h) ls3)
       \<and> lists_rel (rt_list_remove (Node n) h) (ls_remove n ls)
       \<and> (rt_list_isempty (Head q) h \<longleftrightarrow> ls_isempty q ls)"
  using sim_append [OF assms] sim_push [OF assms] sim_insert_before [OF assms] sim_remove [OF assms]
    isempty_rel [OF assms] by blast

theorem list_ops_refine_witness:
  "lists_rel (rt_list_insert_before (Head True) (Node (7 :: nat)) \<lparr> lnext = id, lprev = id \<rparr>)
     \<lparr> items = (\<lambda>_. [])(True := [7]), home = (\<lambda>_. None)(7 \<mapsto> True) \<rparr>"
proof -
  have "lists_rel \<lparr> lnext = id, lprev = id \<rparr> (\<lparr> items = (\<lambda>_. []), home = (\<lambda>_. None) \<rparr> :: (bool, nat) rt_lists)"
    by (simp add: lists_rel_def lists_ok_def ring_def)
  from list_ops_refine [OF this, of True 7] show ?thesis by (simp add: ls_append_def)
qed

end
