(* ===== verification/Kernel.thy ===== *)
theory Kernel
  imports RtList
begin

text \<open>
  The kernel's state (include/rtdef.h and the static variables of src/*.c) and the operations
  that everything else is built from: the object containers of src/object.c, the ready queue and
  the scheduler of src/scheduler.c, the bit search of src/kservice.c, the interrupt nesting of
  src/irq.c. One record holds the state; an operation takes it and returns it updated, \<open>None\<close>
  being a failed assertion or an access the C code may not make. Interrupts are masked around
  every update in the code, so an operation is one step. Configuration as in
  bsp/stm32f40x/rtconfig.h: 32 priorities, one timer list level, heap and hooks enabled, no hook
  installed, no modules. The check of the stack pointer at a context switch
  (\<^verbatim>\<open>_rt_scheduler_stack_check\<close>) concerns the machine stack and is not in the model.
\<close>

section \<open>Identities\<close>

text \<open>A control block is named by a number, its address; the timer inside a thread's control
  block by the thread's number.\<close>

datatype timer_id = ThreadTimer nat | UserTimer nat

datatype obj_id =
    ObjThread nat | ObjSem nat | ObjMutex nat | ObjEvent nat | ObjMailbox nat | ObjMq nat
  | ObjMempool nat | ObjDevice nat | ObjTimer timer_id

datatype rt_object_class_type =
    RT_Object_Class_Thread | RT_Object_Class_Semaphore | RT_Object_Class_Mutex
  | RT_Object_Class_Event | RT_Object_Class_MailBox | RT_Object_Class_MessageQueue
  | RT_Object_Class_MemPool | RT_Object_Class_Device | RT_Object_Class_Timer

text \<open>The heads of the lists a thread's \<^verbatim>\<open>tlist\<close> node can be in: a row of
  \<^verbatim>\<open>rt_thread_priority_table\<close>, \<^verbatim>\<open>rt_thread_defunct\<close>, the \<^verbatim>\<open>suspend_thread\<close> list of an object,
  the \<^verbatim>\<open>suspend_sender_thread\<close> list of a mailbox, the lists of a completion and of a data queue.\<close>

datatype driver_list = CompletionQ nat | PushQ nat | PopQ nat

datatype tlist_head = ReadyQ nat | DefunctQ | SuspQ obj_id | SenderQ nat | DriverQ driver_list

section \<open>Control blocks\<close>

record rt_object =
  obj_name :: string
  obj_class :: rt_object_class_type
  obj_static :: bool
  obj_flag :: u8

datatype thread_stat =
  RT_THREAD_INIT | RT_THREAD_READY | RT_THREAD_SUSPEND | RT_THREAD_RUNNING | RT_THREAD_CLOSE

record rt_thread =
  t_error :: rt_err
  t_stat :: thread_stat
  t_current_priority :: u8
  t_init_priority :: u8
  t_number_mask :: u32
  t_event_set :: u32
  t_event_info :: u8
  t_init_tick :: u32
  t_remaining_tick :: u32
  t_cleanup :: bool

text \<open>\<^verbatim>\<open>timeout_func\<close> with its parameter: \<^verbatim>\<open>rt_thread_timeout\<close> on a thread, or a function of the
  application.\<close>

datatype timeout_fn = ThreadTimeout nat | UserTimeout nat

record rt_timer =
  timeout_func :: timeout_fn
  tm_init_tick :: u32
  timeout_tick :: u32

record rt_semaphore =
  sem_value :: u16

record rt_mutex =
  mutex_value :: u16
  original_priority :: u8
  hold :: u8
  owner :: "nat option"

record rt_event =
  event_set :: u32

record rt_mailbox =
  mb_pool :: "u32 list"
  mb_size :: u16
  mb_entry :: u16
  in_offset :: u16
  out_offset :: u16

text \<open>A message block is its index in the pool; \<open>mq_next\<close> is the \<^verbatim>\<open>next\<close> field of a block,
  \<open>mq_data\<close> the bytes behind it.\<close>

record rt_messagequeue =
  msg_size :: u16
  max_msgs :: u16
  mq_entry :: u16
  mq_next :: "nat \<Rightarrow> nat option"
  mq_data :: "nat \<Rightarrow> u8 list"
  msg_queue_head :: "nat option"
  msg_queue_tail :: "nat option"
  msg_queue_free :: "nat option"

text \<open>A block of a memory pool is its index; the word in front of it links the free blocks, or names
  the pool while the block is allocated.\<close>

datatype mp_header = MpNext "nat option" | MpPool nat

record rt_mempool =
  mp_size :: u32
  mp_block_size :: u32
  mp_block_list :: "nat option"
  block_total_count :: u32
  block_free_count :: u32
  suspend_thread_count :: u32
  mp_header_of :: "nat \<Rightarrow> mp_header"

section \<open>The kernel\<close>

record kernel =
  objs :: "obj_id \<Rightarrow> rt_object"
  containers :: "(rt_object_class_type, obj_id) rt_lists"
  threads :: "nat \<Rightarrow> rt_thread"
  tlists :: "(tlist_head, nat) rt_lists"
  rt_current_thread :: "nat option"
  rt_current_priority :: u8
  ready_group :: u32
  lock_nest :: "16 word"
  interrupt_nest :: u8
  rt_tick :: u32
  timers :: "timer_id \<Rightarrow> rt_timer"
  timer_list :: "timer_id list"
  sems :: "nat \<Rightarrow> rt_semaphore"
  mutexes :: "nat \<Rightarrow> rt_mutex"
  events :: "nat \<Rightarrow> rt_event"
  mailboxes :: "nat \<Rightarrow> rt_mailbox"
  mqs :: "nat \<Rightarrow> rt_messagequeue"
  mempools :: "nat \<Rightarrow> rt_mempool"

definition upd_thread :: "nat \<Rightarrow> (rt_thread \<Rightarrow> rt_thread) \<Rightarrow> kernel \<Rightarrow> kernel" where
  "upd_thread t f k = k\<lparr> threads := (threads k)(t := f (threads k t)) \<rparr>"

definition upd_timer :: "timer_id \<Rightarrow> (rt_timer \<Rightarrow> rt_timer) \<Rightarrow> kernel \<Rightarrow> kernel" where
  "upd_timer i f k = k\<lparr> timers := (timers k)(i := f (timers k i)) \<rparr>"

definition upd_obj :: "obj_id \<Rightarrow> (rt_object \<Rightarrow> rt_object) \<Rightarrow> kernel \<Rightarrow> kernel" where
  "upd_obj x f k = k\<lparr> objs := (objs k)(x := f (objs k x)) \<rparr>"

section \<open>Interrupt nesting (src/irq.c) and the checks of include/rtdebug.h\<close>

definition rt_interrupt_enter :: "kernel \<Rightarrow> kernel" where
  "rt_interrupt_enter k = k\<lparr> interrupt_nest := interrupt_nest k + 1 \<rparr>"

definition rt_interrupt_leave :: "kernel \<Rightarrow> kernel" where
  "rt_interrupt_leave k = k\<lparr> interrupt_nest := interrupt_nest k - 1 \<rparr>"

definition rt_debug_not_in_interrupt :: "kernel \<Rightarrow> unit option" where
  "rt_debug_not_in_interrupt k = rt_assert (interrupt_nest k = 0)"

definition rt_debug_in_thread_context :: "kernel \<Rightarrow> unit option" where
  "rt_debug_in_thread_context k = do {
     rt_assert (rt_current_thread k \<noteq> None);
     rt_debug_not_in_interrupt k }"

section \<open>Objects (src/object.c)\<close>

definition RT_NAME_MAX :: nat where "RT_NAME_MAX = 8"

definition rt_object_init ::
  "obj_id \<Rightarrow> rt_object_class_type \<Rightarrow> string \<Rightarrow> kernel \<Rightarrow> kernel option" where
  "rt_object_init x cls name k = do {
     let k = upd_obj x (\<lambda>ob. ob\<lparr> obj_class := cls, obj_static := True,
                                 obj_name := take RT_NAME_MAX name \<rparr>) k;
     c \<leftarrow> ls_push cls x (containers k);
     Some (k\<lparr> containers := c \<rparr>) }"

definition rt_object_detach :: "obj_id \<Rightarrow> kernel \<Rightarrow> kernel" where
  "rt_object_detach x k = k\<lparr> containers := ls_remove x (containers k) \<rparr>"

text \<open>\<open>mem\<close> is what \<^verbatim>\<open>RT_KERNEL_MALLOC\<close> returned: a fresh block, or nothing.\<close>

definition rt_object_allocate ::
  "obj_id option \<Rightarrow> rt_object_class_type \<Rightarrow> string \<Rightarrow> kernel \<Rightarrow> (obj_id option \<times> kernel) option" where
  "rt_object_allocate mem cls name k = do {
     rt_debug_not_in_interrupt k;
     case mem of
       None \<Rightarrow> Some (None, k)
     | Some x \<Rightarrow> do {
         let k = upd_obj x (\<lambda>ob. ob\<lparr> obj_class := cls, obj_static := False, obj_flag := 0,
                                     obj_name := take RT_NAME_MAX name \<rparr>) k;
         c \<leftarrow> ls_push cls x (containers k);
         Some (Some x, k\<lparr> containers := c \<rparr>) } }"

definition rt_object_delete :: "obj_id \<Rightarrow> kernel \<Rightarrow> kernel option" where
  "rt_object_delete x k = do {
     rt_assert (\<not> obj_static (objs k x));
     Some (k\<lparr> containers := ls_remove x (containers k) \<rparr>) }"

definition rt_object_is_systemobject :: "obj_id \<Rightarrow> kernel \<Rightarrow> bool" where
  "rt_object_is_systemobject x k = obj_static (objs k x)"

section \<open>Finding the highest ready priority (src/kservice.c)\<close>

text \<open>The table \<^verbatim>\<open>__lowest_bit_bitmap\<close>, a row of sixteen at a time: the rows differ in their first
  entry only.\<close>

definition lowest_bit_row :: "nat \<Rightarrow> nat list" where
  "lowest_bit_row x = [x, 0, 1, 0, 2, 0, 1, 0, 3, 0, 1, 0, 2, 0, 1, 0]"

definition lowest_bit_bitmap :: "nat list" where
  "lowest_bit_bitmap =
     concat (map lowest_bit_row [0, 4, 5, 4, 6, 4, 5, 4, 7, 4, 5, 4, 6, 4, 5, 4])"

definition rt_ffs :: "u32 \<Rightarrow> nat" where
  "rt_ffs v =
     (if v = 0 then 0
      else if v AND 0xff \<noteq> 0 then lowest_bit_bitmap ! unat (v AND 0xff) + 1
      else if v AND 0xff00 \<noteq> 0 then lowest_bit_bitmap ! unat (drop_bit 8 (v AND 0xff00)) + 9
      else if v AND 0xff0000 \<noteq> 0 then lowest_bit_bitmap ! unat (drop_bit 16 (v AND 0xff0000)) + 17
      else lowest_bit_bitmap ! unat (drop_bit 24 (v AND 0xff000000)) + 25)"

section \<open>The scheduler (src/scheduler.c)\<close>

definition RT_THREAD_PRIORITY_MAX :: nat where "RT_THREAD_PRIORITY_MAX = 32"

text \<open>The access \<^verbatim>\<open>rt_thread_priority_table[p]\<close>.\<close>

definition ready_row :: "u8 \<Rightarrow> tlist_head option" where
  "ready_row p = (if unat p < RT_THREAD_PRIORITY_MAX then Some (ReadyQ (unat p)) else None)"

definition rt_schedule :: "kernel \<Rightarrow> kernel option" where
  "rt_schedule k =
     (if lock_nest k = 0 then
        (if rt_ffs (ready_group k) = 0 then None
         else
           let highest_ready_priority = rt_ffs (ready_group k) - 1
           in do {
             to_thread \<leftarrow> ls_first (ReadyQ highest_ready_priority) (tlists k);
             if Some to_thread \<noteq> rt_current_thread k then do {
               rt_assert (rt_current_thread k \<noteq> None);
               Some (k\<lparr> rt_current_priority := of_nat highest_ready_priority,
                        rt_current_thread := Some to_thread \<rparr>) }
             else Some k })
      else Some k)"

definition rt_system_scheduler_start :: "kernel \<Rightarrow> kernel option" where
  "rt_system_scheduler_start k =
     (if rt_ffs (ready_group k) = 0 then None
      else do {
        to_thread \<leftarrow> ls_first (ReadyQ (rt_ffs (ready_group k) - 1)) (tlists k);
        Some (k\<lparr> rt_current_thread := Some to_thread \<rparr>) })"

definition rt_schedule_insert_thread :: "nat \<Rightarrow> kernel \<Rightarrow> kernel option" where
  "rt_schedule_insert_thread t k = do {
     let k = upd_thread t (\<lambda>th. th\<lparr> t_stat := RT_THREAD_READY \<rparr>) k;
     row \<leftarrow> ready_row (t_current_priority (threads k t));
     ls \<leftarrow> ls_append row t (tlists k);
     Some (k\<lparr> tlists := ls,
              ready_group := ready_group k OR t_number_mask (threads k t) \<rparr>) }"

definition rt_schedule_remove_thread :: "nat \<Rightarrow> kernel \<Rightarrow> kernel option" where
  "rt_schedule_remove_thread t k = do {
     let k = k\<lparr> tlists := ls_remove t (tlists k) \<rparr>;
     row \<leftarrow> ready_row (t_current_priority (threads k t));
     Some (if ls_isempty row (tlists k)
           then k\<lparr> ready_group := ready_group k AND NOT (t_number_mask (threads k t)) \<rparr>
           else k) }"

definition rt_enter_critical :: "kernel \<Rightarrow> kernel" where
  "rt_enter_critical k = k\<lparr> lock_nest := lock_nest k + 1 \<rparr>"

definition rt_exit_critical :: "kernel \<Rightarrow> kernel option" where
  "rt_exit_critical k =
     (let k = k\<lparr> lock_nest := lock_nest k - 1 \<rparr>
      in if sint (lock_nest k) \<le> 0 then rt_schedule (k\<lparr> lock_nest := 0 \<rparr>) else Some k)"

definition rt_critical_level :: "kernel \<Rightarrow> u16" where
  "rt_critical_level k = lock_nest k"

definition rt_system_scheduler_init :: "kernel \<Rightarrow> kernel option" where
  "rt_system_scheduler_init k = do {
     rt_assert (\<forall>p \<in> set [0..<RT_THREAD_PRIORITY_MAX]. ls_isempty (ReadyQ p) (tlists k));
     rt_assert (ls_isempty DefunctQ (tlists k));
     Some (k\<lparr> lock_nest := 0,
              rt_current_priority := of_nat (RT_THREAD_PRIORITY_MAX - 1),
              rt_current_thread := None,
              ready_group := 0 \<rparr>) }"

definition rt_object_find ::
  "string \<Rightarrow> rt_object_class_type \<Rightarrow> kernel \<Rightarrow> (obj_id option \<times> kernel) option" where
  "rt_object_find name cls k = do {
     rt_assert (interrupt_nest k = 0);
     let k = rt_enter_critical k;
     let found = find (\<lambda>x. obj_name (objs k x) = take RT_NAME_MAX name) (items (containers k) cls);
     k \<leftarrow> rt_exit_critical k;
     Some (found, k) }"

section \<open>The state at reset\<close>

text \<open>Zeroed memory: no object, no thread, every list empty.\<close>

definition thread0 :: rt_thread where
  "thread0 = \<lparr> t_error = RT_EOK, t_stat = RT_THREAD_INIT, t_current_priority = 0,
     t_init_priority = 0, t_number_mask = 0, t_event_set = 0, t_event_info = 0,
     t_init_tick = 0, t_remaining_tick = 0, t_cleanup = False \<rparr>"

definition timer0 :: "timer_id \<Rightarrow> rt_timer" where
  "timer0 i = \<lparr> timeout_func = (case i of ThreadTimer t \<Rightarrow> ThreadTimeout t | UserTimer u \<Rightarrow> UserTimeout u),
     tm_init_tick = 0, timeout_tick = 0 \<rparr>"

definition kernel0 :: kernel where
  "kernel0 = \<lparr> objs = (\<lambda>_. \<lparr> obj_name = [], obj_class = RT_Object_Class_Thread,
                              obj_static = False, obj_flag = 0 \<rparr>),
     containers = \<lparr> items = (\<lambda>_. []), home = (\<lambda>_. None) \<rparr>,
     threads = (\<lambda>_. thread0),
     tlists = \<lparr> items = (\<lambda>_. []), home = (\<lambda>_. None) \<rparr>,
     rt_current_thread = None, rt_current_priority = 0, ready_group = 0, lock_nest = 0,
     interrupt_nest = 0, rt_tick = 0, timers = timer0, timer_list = [],
     sems = (\<lambda>_. \<lparr> sem_value = 0 \<rparr>),
     mutexes = (\<lambda>_. \<lparr> mutex_value = 0, original_priority = 0, hold = 0, owner = None \<rparr>),
     events = (\<lambda>_. \<lparr> event_set = 0 \<rparr>),
     mailboxes = (\<lambda>_. \<lparr> mb_pool = [], mb_size = 0, mb_entry = 0, in_offset = 0, out_offset = 0 \<rparr>),
     mqs = (\<lambda>_. \<lparr> msg_size = 0, max_msgs = 0, mq_entry = 0, mq_next = (\<lambda>_. None), mq_data = (\<lambda>_. []),
                  msg_queue_head = None, msg_queue_tail = None, msg_queue_free = None \<rparr>),
     mempools = (\<lambda>_. \<lparr> mp_size = 0, mp_block_size = 0, mp_block_list = None, block_total_count = 0,
                       block_free_count = 0, suspend_thread_count = 0, mp_header_of = (\<lambda>_. MpNext None) \<rparr>) \<rparr>"

end
