(* ===== verification/Scheduler.thy ===== *)
theory Scheduler
  imports Kernel
begin

text \<open>
  The ready queue and the scheduler: \<open>rt_ffs\<close> finds the lowest set bit, the ready bitmap and the
  per-priority lists agree with the threads' states (\<open>sched_inv\<close>), \<open>rt_schedule_insert_thread\<close> and
  \<open>rt_schedule_remove_thread\<close> maintain that, and \<open>rt_schedule\<close> makes the first thread of the most
  urgent non-empty priority the current one.
\<close>

section \<open>The lowest set bit\<close>

definition lowest_bit :: "nat \<Rightarrow> nat \<Rightarrow> bool" where
  "lowest_bit v n \<longleftrightarrow> odd (v div 2 ^ n) \<and> v mod 2 ^ n = 0"

lemma concat_rows_nth:
  assumes "\<forall>xs \<in> set xss. length xs = 16" "a < length xss" "b < 16"
  shows "concat xss ! (16 * a + b) = xss ! a ! b"
  using assms
proof (induction xss arbitrary: a)
  case (Cons xs xss)
  then show ?case by (cases a) (auto simp: nth_append)
qed simp

lemma lowest_bit_low:
  assumes "b < 16" "b \<noteq> 0"
  shows "lowest_bit (16 * a + b) (lowest_bit_row x ! b) \<and> lowest_bit_row x ! b < 8"
proof -
  have "b = 1 \<or> b = 2 \<or> b = 3 \<or> b = 4 \<or> b = 5 \<or> b = 6 \<or> b = 7 \<or> b = 8 \<or> b = 9 \<or> b = 10
      \<or> b = 11 \<or> b = 12 \<or> b = 13 \<or> b = 14 \<or> b = 15"
    using assms by arith
  then show ?thesis
    by (elim disjE; simp add: lowest_bit_row_def lowest_bit_def; presburger?)
qed

lemma lowest_bit_high:
  assumes "a < 16" "a \<noteq> 0"
  shows "lowest_bit (16 * a) ([0, 4, 5, 4, 6, 4, 5, 4, 7, 4, 5, 4, 6, 4, 5, 4] ! a)
       \<and> [0, 4, 5, 4, 6, 4, 5, 4, 7, 4, 5, 4, 6, 4, 5, 4 :: nat] ! a < 8"
proof -
  have "a = 1 \<or> a = 2 \<or> a = 3 \<or> a = 4 \<or> a = 5 \<or> a = 6 \<or> a = 7 \<or> a = 8 \<or> a = 9 \<or> a = 10
      \<or> a = 11 \<or> a = 12 \<or> a = 13 \<or> a = 14 \<or> a = 15"
    using assms by arith
  then show ?thesis
    by (elim disjE) (simp_all add: lowest_bit_def)
qed

lemma lowest_bit_table_check:
  assumes "i < 256" "i \<noteq> 0"
  shows "lowest_bit i (lowest_bit_bitmap ! i) \<and> lowest_bit_bitmap ! i < 8"
proof -
  define a b where "a = i div 16" and "b = i mod 16"
  have i: "i = 16 * a + b" "a < 16" "b < 16" using assms by (auto simp: a_def b_def)
  obtain rows where rows: "rows = [0, 4, 5, 4, 6, 4, 5, 4, 7, 4, 5, 4, 6, 4, 5, 4 :: nat]"
    by simp
  then have lr: "length rows = 16" by simp
  have e: "lowest_bit_bitmap ! i = lowest_bit_row (rows ! a) ! b"
    unfolding lowest_bit_bitmap_def i(1) rows [symmetric]
    using concat_rows_nth [of "map lowest_bit_row rows" a b] i(2,3) lr
    by (simp add: lowest_bit_row_def)
  show ?thesis
  proof (cases "b = 0")
    case True
    then show ?thesis
      using e i assms(2) lowest_bit_high [of a, folded rows] by (simp add: lowest_bit_row_def)
  next
    case False
    then show ?thesis using e i lowest_bit_low [of b a] by simp
  qed
qed

lemma lowest_bit_table:
  assumes "i < 256" "i \<noteq> 0"
  shows "bit i (lowest_bit_bitmap ! i)" "m < lowest_bit_bitmap ! i \<Longrightarrow> \<not> bit i m"
    "lowest_bit_bitmap ! i < 8"
proof -
  have l: "lowest_bit i (lowest_bit_bitmap ! i)" and b: "lowest_bit_bitmap ! i < 8"
    using lowest_bit_table_check [OF assms] by blast+
  then show "bit i (lowest_bit_bitmap ! i)" "lowest_bit_bitmap ! i < 8"
    by (simp_all add: lowest_bit_def bit_iff_odd)
  assume m: "m < lowest_bit_bitmap ! i"
  have "take_bit (lowest_bit_bitmap ! i) i = 0"
    using l by (simp add: lowest_bit_def take_bit_eq_mod)
  then have "\<not> bit (take_bit (lowest_bit_bitmap ! i) i) m" by simp
  then show "\<not> bit i m" using m by (simp add: bit_take_bit_iff)
qed

text \<open>One byte of the word, as the code masks and shifts it.\<close>

definition byte_at :: "nat \<Rightarrow> u32 \<Rightarrow> nat" where
  "byte_at s v = unat (take_bit 8 (drop_bit s v))"

lemma byte_at_bit: "bit (byte_at s v) n \<longleftrightarrow> n < 8 \<and> bit v (s + n)"
  using bit_imp_le_length [of v "s + n"]
  by (auto simp: byte_at_def bit_unsigned_iff bit_take_bit_iff bit_drop_bit_eq)

lemma byte_at_less: "byte_at s v < 256"
proof -
  have "byte_at s v = take_bit 8 (unat (drop_bit s v))"
    by (simp add: byte_at_def unsigned_take_bit_eq)
  then show ?thesis using take_bit_nat_less_exp [of 8 "unat (drop_bit s v)"] by simp
qed

lemma byte_masks:
  "unat (v AND 0xff) = byte_at 0 v" "unat (drop_bit 8 (v AND 0xff00)) = byte_at 8 v"
  "unat (drop_bit 16 (v AND 0xff0000)) = byte_at 16 v"
  "unat (drop_bit 24 (v AND 0xff000000)) = byte_at 24 v" for v :: u32
proof -
  have m: "(0xff :: u32) = mask 8" "(0xff00 :: u32) = push_bit 8 (mask 8)"
    "(0xff0000 :: u32) = push_bit 16 (mask 8)" "(0xff000000 :: u32) = push_bit 24 (mask 8)"
    by (simp_all add: mask_eq_exp_minus_1 push_bit_eq_mult)
  show "unat (v AND 0xff) = byte_at 0 v"
    by (simp add: byte_at_def m(1) take_bit_eq_mask)
  have d: "drop_bit s (v AND push_bit s (mask 8)) = take_bit 8 (drop_bit s v)" for s
    by (rule bit_word_eqI)
      (auto simp: bit_drop_bit_eq bit_and_iff bit_push_bit_iff bit_mask_iff bit_take_bit_iff
         dest: bit_imp_le_length)
  show "unat (drop_bit 8 (v AND 0xff00)) = byte_at 8 v"
    "unat (drop_bit 16 (v AND 0xff0000)) = byte_at 16 v"
    "unat (drop_bit 24 (v AND 0xff000000)) = byte_at 24 v"
    unfolding m d byte_at_def by (rule refl)+
qed

lemma byte_at_zero:
  assumes "byte_at s v = 0" "s \<le> n" "n < s + 8"
  shows "\<not> bit v n"
proof -
  have "\<not> bit (byte_at s v) (n - s)" using assms(1) by simp
  then show ?thesis using assms(2,3) by (simp add: byte_at_bit)
qed

lemma byte_at_nonzero:
  "byte_at s v \<noteq> 0 \<longleftrightarrow> v AND push_bit s (mask 8) \<noteq> 0" for v :: u32
proof -
  have "byte_at s v = 0 \<longleftrightarrow> (\<forall>n. \<not> bit (byte_at s v) n)"
    by (metis bit_0_eq bit_eqI bot_apply bot_bool_def)
  also have "\<dots> \<longleftrightarrow> (\<forall>n. \<not> (n < 8 \<and> bit v (s + n)))" by (simp add: byte_at_bit)
  also have "\<dots> \<longleftrightarrow> (\<forall>n. \<not> bit (v AND push_bit s (mask 8)) n)"
  proof (intro iffI allI)
    fix n assume l: "\<forall>n. \<not> (n < 8 \<and> bit v (s + n))"
    show "\<not> bit (v AND push_bit s (mask 8)) n"
      using l [rule_format, of "n - s"] by (auto simp: bit_and_iff bit_push_bit_iff bit_mask_iff)
  next
    fix n assume r: "\<forall>n. \<not> bit (v AND push_bit s (mask 8)) n"
    show "\<not> (n < 8 \<and> bit v (s + n))"
      using r [rule_format, of "s + n"] bit_imp_le_length [of v "s + n"]
      by (auto simp: bit_and_iff bit_push_bit_iff bit_mask_iff)
  qed
  also have "\<dots> \<longleftrightarrow> v AND push_bit s (mask 8) = 0"
    by (metis bit_0_eq bit_eqI bot_apply bot_bool_def)
  finally show ?thesis by simp
qed

text \<open>One branch of the search: the lower bytes are zero, this one is not.\<close>

lemma ffs_branch:
  assumes low: "\<And>n. n < s \<Longrightarrow> \<not> bit v n" and nz: "byte_at s v \<noteq> 0"
  defines "n \<equiv> lowest_bit_bitmap ! byte_at s v + s"
  shows "bit v n" "m < n \<Longrightarrow> \<not> bit v m"
proof -
  note t = lowest_bit_table [OF byte_at_less nz]
  show "bit v n" using t(1) by (simp add: n_def byte_at_bit add.commute)
  assume m: "m < n"
  show "\<not> bit v m"
  proof (cases "m < s")
    case True
    then show ?thesis by (rule low)
  next
    case False
    then have "m - s < lowest_bit_bitmap ! byte_at s v" using m by (simp add: n_def)
    from t(2) [OF this] False t(3) \<open>m - s < _\<close> show ?thesis by (simp add: byte_at_bit)
  qed
qed

lemma rt_ffs_zero [simp]: "rt_ffs v = 0 \<longleftrightarrow> v = 0"
  by (simp add: rt_ffs_def)

lemma rt_ffs_lowest:
  assumes "v \<noteq> 0"
  shows "bit v (rt_ffs v - 1)" "m < rt_ffs v - 1 \<Longrightarrow> \<not> bit v m"
proof -
  have nz: "(v AND 0xff \<noteq> 0) = (byte_at 0 v \<noteq> 0)"
    "(v AND 0xff00 \<noteq> 0) = (byte_at 8 v \<noteq> 0)" "(v AND 0xff0000 \<noteq> 0) = (byte_at 16 v \<noteq> 0)"
    using byte_at_nonzero [of 0 v] byte_at_nonzero [of 8 v] byte_at_nonzero [of 16 v]
    by (simp_all add: mask_eq_exp_minus_1 push_bit_eq_mult)
  have f: "rt_ffs v - 1 =
     (if byte_at 0 v \<noteq> 0 then lowest_bit_bitmap ! byte_at 0 v + 0
      else if byte_at 8 v \<noteq> 0 then lowest_bit_bitmap ! byte_at 8 v + 8
      else if byte_at 16 v \<noteq> 0 then lowest_bit_bitmap ! byte_at 16 v + 16
      else lowest_bit_bitmap ! byte_at 24 v + 24)"
    unfolding rt_ffs_def byte_masks nz using assms by simp
  have "byte_at 24 v \<noteq> 0" if z: "byte_at 0 v = 0" "byte_at 8 v = 0" "byte_at 16 v = 0"
  proof
    assume z': "byte_at 24 v = 0"
    have "v = 0"
    proof (rule bit_word_eqI)
      fix n assume n: "n < LENGTH(32)"
      then consider "n < 8" | "8 \<le> n \<and> n < 16" | "16 \<le> n \<and> n < 24" | "24 \<le> n \<and> n < 32"
        by (auto simp: not_less) linarith
      then show "bit v n = bit (0 :: u32) n"
        using byte_at_zero [OF z(1), of n] byte_at_zero [OF z(2), of n]
          byte_at_zero [OF z(3), of n] byte_at_zero [OF z', of n] by cases simp_all
    qed
    with assms show False by simp
  qed
  then consider (a) "byte_at 0 v \<noteq> 0" | (b) "byte_at 0 v = 0" "byte_at 8 v \<noteq> 0"
    | (c) "byte_at 0 v = 0" "byte_at 8 v = 0" "byte_at 16 v \<noteq> 0"
    | (d) "byte_at 0 v = 0" "byte_at 8 v = 0" "byte_at 16 v = 0" "byte_at 24 v \<noteq> 0"
    by blast
  then have "bit v (rt_ffs v - 1) \<and> (\<forall>m. m < rt_ffs v - 1 \<longrightarrow> \<not> bit v m)"
  proof cases
    case a
    then show ?thesis unfolding f using ffs_branch [of 0 v] by simp
  next
    case b
    have "n < 8 \<Longrightarrow> \<not> bit v n" for n using byte_at_zero [OF b(1), of n] by simp
    then show ?thesis unfolding f using b ffs_branch [of 8 v] by simp
  next
    case c
    have "\<not> bit v n" if "n < 16" for n
      using byte_at_zero [OF c(1), of n] byte_at_zero [OF c(2), of n] that by (cases "n < 8") simp_all
    then show ?thesis unfolding f using c ffs_branch [of 16 v] by simp
  next
    case d
    have "\<not> bit v n" if "n < 24" for n
      using byte_at_zero [OF d(1), of n] byte_at_zero [OF d(2), of n] byte_at_zero [OF d(3), of n]
        that by (cases "n < 8"; cases "n < 16") simp_all
    then show ?thesis unfolding f using d ffs_branch [of 24 v] by simp
  qed
  then show "bit v (rt_ffs v - 1)" "m < rt_ffs v - 1 \<Longrightarrow> \<not> bit v m" by simp_all
qed

section \<open>What the ready queue means\<close>

definition prio_mask :: "rt_thread \<Rightarrow> u32" where
  "prio_mask th = push_bit (unat (t_current_priority th)) 1"

definition prio_ok :: "rt_thread \<Rightarrow> bool" where
  "prio_ok th \<longleftrightarrow> unat (t_current_priority th) < RT_THREAD_PRIORITY_MAX"

text \<open>A thread's state, its priority fields and the list its node is in belong together. The block
  of a thread that was never initialised is in no list and does not read as ready.\<close>

definition thread_ok :: "rt_thread \<Rightarrow> tlist_head option \<Rightarrow> bool" where
  "thread_ok th h \<longleftrightarrow>
     (case t_stat th of
        RT_THREAD_READY \<Rightarrow> h = Some (ReadyQ (unat (t_current_priority th)))
                             \<and> prio_ok th \<and> t_number_mask th = prio_mask th
      | RT_THREAD_SUSPEND \<Rightarrow> h \<noteq> Some DefunctQ \<and> (\<forall>p. h \<noteq> Some (ReadyQ p))
                             \<and> prio_ok th \<and> t_number_mask th = prio_mask th
      | RT_THREAD_CLOSE \<Rightarrow> h = None \<or> h = Some DefunctQ
      | _ \<Rightarrow> h = None)"

definition group_ok :: "kernel \<Rightarrow> bool" where
  "group_ok k \<longleftrightarrow> (\<forall>p < RT_THREAD_PRIORITY_MAX.
     bit (ready_group k) p \<longleftrightarrow> items (tlists k) (ReadyQ p) \<noteq> [])"

text \<open>\<open>sched_but A k\<close>: the ready queue is right, the threads \<open>A\<close> being in the middle of a change.\<close>

definition sched_but :: "nat set \<Rightarrow> kernel \<Rightarrow> bool" where
  "sched_but A k \<longleftrightarrow> lists_ok (tlists k) \<and> group_ok k
     \<and> (\<forall>t. t \<notin> A \<longrightarrow> thread_ok (threads k t) (home (tlists k) t))"

abbreviation sched_inv :: "kernel \<Rightarrow> bool" where
  "sched_inv \<equiv> sched_but {}"

definition ready :: "kernel \<Rightarrow> nat \<Rightarrow> bool" where
  "ready k t \<longleftrightarrow> t_stat (threads k t) = RT_THREAD_READY"

lemma sched_butD:
  assumes "sched_but A k"
  shows "lists_ok (tlists k)" "group_ok k"
    "t \<notin> A \<Longrightarrow> thread_ok (threads k t) (home (tlists k) t)"
  using assms by (simp_all add: sched_but_def)

lemma sched_but_mono: "sched_but A k \<Longrightarrow> A \<subseteq> B \<Longrightarrow> sched_but B k"
  by (auto simp: sched_but_def)

lemma thread_ok_cong:
  "t_stat th = t_stat th' \<Longrightarrow> t_current_priority th = t_current_priority th' \<Longrightarrow>
   t_number_mask th = t_number_mask th' \<Longrightarrow> thread_ok th h \<longleftrightarrow> thread_ok th' h"
  by (cases "t_stat th'") (simp_all add: thread_ok_def prio_ok_def prio_mask_def)

lemma sched_but_cong:
  assumes "tlists k' = tlists k" "ready_group k' = ready_group k"
    "\<And>t. t \<notin> A \<Longrightarrow> t_stat (threads k' t) = t_stat (threads k t)
        \<and> t_current_priority (threads k' t) = t_current_priority (threads k t)
        \<and> t_number_mask (threads k' t) = t_number_mask (threads k t)"
  shows "sched_but A k' \<longleftrightarrow> sched_but A k"
proof -
  have "t \<notin> A \<Longrightarrow> thread_ok (threads k' t) h \<longleftrightarrow> thread_ok (threads k t) h" for t h
    using assms(3) [of t] by (intro thread_ok_cong) simp_all
  then show ?thesis using assms(1,2) by (simp add: sched_but_def group_ok_def)
qed

lemma sched_but_other [simp]:
  "sched_but A (k\<lparr> objs := ob \<rparr>) \<longleftrightarrow> sched_but A k"
  "sched_but A (k\<lparr> containers := cs \<rparr>) \<longleftrightarrow> sched_but A k"
  "sched_but A (k\<lparr> timers := tm \<rparr>) \<longleftrightarrow> sched_but A k"
  "sched_but A (k\<lparr> timer_list := tis \<rparr>) \<longleftrightarrow> sched_but A k"
  "sched_but A (k\<lparr> rt_tick := n \<rparr>) \<longleftrightarrow> sched_but A k"
  "sched_but A (k\<lparr> rt_current_thread := c \<rparr>) \<longleftrightarrow> sched_but A k"
  "sched_but A (k\<lparr> rt_current_priority := p \<rparr>) \<longleftrightarrow> sched_but A k"
  "sched_but A (k\<lparr> lock_nest := l \<rparr>) \<longleftrightarrow> sched_but A k"
  "sched_but A (k\<lparr> interrupt_nest := i \<rparr>) \<longleftrightarrow> sched_but A k"
  "sched_but A (k\<lparr> sems := sm \<rparr>) \<longleftrightarrow> sched_but A k"
  "sched_but A (k\<lparr> mutexes := mu \<rparr>) \<longleftrightarrow> sched_but A k"
  "sched_but A (k\<lparr> events := ev \<rparr>) \<longleftrightarrow> sched_but A k"
  "sched_but A (k\<lparr> mailboxes := mb \<rparr>) \<longleftrightarrow> sched_but A k"
  "sched_but A (k\<lparr> mqs := mq \<rparr>) \<longleftrightarrow> sched_but A k"
  "sched_but A (k\<lparr> mempools := mp \<rparr>) \<longleftrightarrow> sched_but A k"
  by (rule sched_but_cong; simp)+

lemma ready_other [simp]:
  "ready (k\<lparr> objs := ob \<rparr>) = ready k"
  "ready (k\<lparr> containers := cs \<rparr>) = ready k"
  "ready (k\<lparr> timers := tm \<rparr>) = ready k"
  "ready (k\<lparr> timer_list := tis \<rparr>) = ready k"
  "ready (k\<lparr> rt_tick := n \<rparr>) = ready k"
  "ready (k\<lparr> rt_current_thread := c \<rparr>) = ready k"
  "ready (k\<lparr> rt_current_priority := p \<rparr>) = ready k"
  "ready (k\<lparr> tlists := ls \<rparr>) = ready k"
  "ready (k\<lparr> ready_group := g \<rparr>) = ready k"
  "ready (k\<lparr> lock_nest := l \<rparr>) = ready k"
  "ready (k\<lparr> interrupt_nest := i \<rparr>) = ready k"
  "ready (k\<lparr> sems := sm \<rparr>) = ready k"
  "ready (k\<lparr> mutexes := mu \<rparr>) = ready k"
  "ready (k\<lparr> events := ev \<rparr>) = ready k"
  "ready (k\<lparr> mailboxes := mb \<rparr>) = ready k"
  "ready (k\<lparr> mqs := mq \<rparr>) = ready k"
  "ready (k\<lparr> mempools := mp \<rparr>) = ready k"
  by (rule ext; simp add: ready_def)+

text \<open>A thread is ready exactly when it is in the row of its priority.\<close>

lemma ready_iff:
  assumes "sched_inv k"
  shows "t \<in> set (items (tlists k) (ReadyQ p)) \<longleftrightarrow>
         ready k t \<and> p = unat (t_current_priority (threads k t))"
  using sched_butD(3) [OF assms, of t] lists_okD(2) [OF sched_butD(1) [OF assms], of t "ReadyQ p"]
  by (auto simp: thread_ok_def ready_def split: thread_stat.splits)

lemma ready_prio: "sched_inv k \<Longrightarrow> ready k t \<Longrightarrow> unat (t_current_priority (threads k t)) < 32"
  by (auto simp: sched_but_def thread_ok_def ready_def prio_ok_def RT_THREAD_PRIORITY_MAX_def
      dest: spec [of _ t])

lemma bit_prio_mask [simp]:
  "bit (prio_mask th) p \<longleftrightarrow> p = unat (t_current_priority th) \<and> prio_ok th"
  by (auto simp: prio_mask_def prio_ok_def RT_THREAD_PRIORITY_MAX_def bit_exp_iff)

section \<open>Inserting and removing\<close>

lemma insert_thread_runs [wp]:
  assumes s: "sched_but {t} k" and h: "home (tlists k) t = None"
    and p: "prio_ok (threads k t)" "t_number_mask (threads k t) = prio_mask (threads k t)"
    and Q: "\<And>k' ls g. k' = k\<lparr> threads := (threads k)(t := (threads k t)\<lparr> t_stat := RT_THREAD_READY \<rparr>),
                     tlists := ls, ready_group := g \<rparr> \<Longrightarrow>
              sched_inv k' \<Longrightarrow>
              home ls = (home (tlists k))(t \<mapsto> ReadyQ (unat (t_current_priority (threads k t)))) \<Longrightarrow>
              items ls = (items (tlists k))(ReadyQ (unat (t_current_priority (threads k t))) :=
                items (tlists k) (ReadyQ (unat (t_current_priority (threads k t)))) @ [t]) \<Longrightarrow>
              Q k'"
  shows "runs Q (rt_schedule_insert_thread t k)"
proof -
  let ?p = "unat (t_current_priority (threads k t))"
  let ?th = "(threads k t)\<lparr> t_stat := RT_THREAD_READY \<rparr>"
  obtain ls where ls: "ls_append (ReadyQ ?p) t (tlists k) = Some ls"
    "items ls = (items (tlists k))(ReadyQ ?p := items (tlists k) (ReadyQ ?p) @ [t])"
    "home ls = (home (tlists k))(t \<mapsto> ReadyQ ?p)"
    by (rule that [OF ls_append_Some [OF h]]) simp_all
  define k' where "k' = k\<lparr> threads := (threads k)(t := ?th), tlists := ls,
      ready_group := ready_group k OR t_number_mask (threads k t) \<rparr>"
  have "sched_inv k'"
    unfolding sched_but_def
  proof (intro conjI allI impI)
    show "lists_ok (tlists k')"
      using lists_ok_append [OF ls(1) sched_butD(1) [OF s]] by (simp add: k'_def)
    show "group_ok k'"
      using sched_butD(2) [OF s] p by (auto simp: group_ok_def k'_def ls bit_or_iff)
    show "thread_ok (threads k' u) (home (tlists k') u)" for u
      using sched_butD(3) [OF s, of u] p
      by (auto simp: k'_def ls thread_ok_def prio_ok_def prio_mask_def)
  qed
  then have "Q k'" by (rule Q [OF k'_def]) (rule ls)+
  then show ?thesis
    using p(1) ls(1)
    by (simp add: rt_schedule_insert_thread_def upd_thread_def ready_row_def prio_ok_def k'_def)
qed

lemma remove_thread_runs [wp]:
  assumes s: "sched_but {t} k" and p: "prio_ok (threads k t)"
    and m: "t_number_mask (threads k t) = 0 \<or> t_number_mask (threads k t) = prio_mask (threads k t)"
    and h: "\<And>q. home (tlists k) t = Some (ReadyQ q) \<Longrightarrow>
              q = unat (t_current_priority (threads k t)) \<and> t_number_mask (threads k t) = prio_mask (threads k t)"
    and Q: "\<And>k' g. k' = k\<lparr> tlists := ls_remove t (tlists k), ready_group := g \<rparr> \<Longrightarrow>
              sched_but {t} k' \<Longrightarrow> Q k'"
  shows "runs Q (rt_schedule_remove_thread t k)"
proof -
  let ?p = "unat (t_current_priority (threads k t))"
  let ?ls = "ls_remove t (tlists k)"
  note ok = sched_butD(1) [OF s]
  define g where "g = (if items ?ls (ReadyQ ?p) = [] then
      ready_group k AND NOT (t_number_mask (threads k t)) else ready_group k)"
  define k' where "k' = k\<lparr> tlists := ?ls, ready_group := g \<rparr>"
  have other: "q \<noteq> ?p \<Longrightarrow> items ?ls (ReadyQ q) = items (tlists k) (ReadyQ q)" for q
    using h [of q] lists_okD(2) [OF ok, of t "ReadyQ q"]
    by (auto simp: items_remove [OF ok] intro: remove1_idem)
  have sub: "items ?ls (ReadyQ q) \<noteq> [] \<Longrightarrow> items (tlists k) (ReadyQ q) \<noteq> []" for q
    by (auto simp: items_remove [OF ok])
  have emp: "items ?ls (ReadyQ ?p) = [] \<Longrightarrow> t_number_mask (threads k t) = 0 \<Longrightarrow>
      items (tlists k) (ReadyQ ?p) = []"
    using h [of ?p] lists_okD(2) [OF ok, of t "ReadyQ ?p"] p
    by (cases "home (tlists k) t = Some (ReadyQ ?p)")
      (auto simp: items_remove [OF ok] remove1_idem prio_mask_def prio_ok_def
         RT_THREAD_PRIORITY_MAX_def push_bit_eq_0_iff)
  have gr: "bit g q \<longleftrightarrow> items ?ls (ReadyQ q) \<noteq> []" if q: "q < 32" for q
  proof -
    have g0: "bit (ready_group k) q \<longleftrightarrow> items (tlists k) (ReadyQ q) \<noteq> []"
      using sched_butD(2) [OF s] q by (simp add: group_ok_def RT_THREAD_PRIORITY_MAX_def)
    show ?thesis
    proof (cases "q = ?p")
      case False
      then show ?thesis using g0 m other q by (auto simp: g_def bit_and_iff bit_not_iff)
    next
      case True
      then show ?thesis
        using g0 m p q sub [of q] emp by (auto simp: g_def bit_and_iff bit_not_iff)
    qed
  qed
  have "sched_but {t} k'"
    unfolding sched_but_def
  proof (intro conjI allI impI)
    show "lists_ok (tlists k')" using lists_ok_remove [OF ok] by (simp add: k'_def)
    show "group_ok k'" using gr by (simp add: group_ok_def k'_def RT_THREAD_PRIORITY_MAX_def)
    show "u \<notin> {t} \<Longrightarrow> thread_ok (threads k' u) (home (tlists k') u)" for u
      using sched_butD(3) [OF s, of u] by (simp add: k'_def)
  qed
  then have "Q k'" by (rule Q [OF k'_def])
  then show ?thesis
    using p by (simp add: rt_schedule_remove_thread_def ready_row_def prio_ok_def
        ls_isempty_def k'_def g_def Let_def split: if_splits)
qed

section \<open>Scheduling\<close>

text \<open>What the scheduler promises: the thread that runs is ready, no ready thread has a more urgent
  (numerically lower) priority, and among those of its priority it waits at the front.\<close>

definition most_urgent :: "kernel \<Rightarrow> nat \<Rightarrow> bool" where
  "most_urgent k t \<longleftrightarrow> ready k t
     \<and> (\<forall>u. ready k u \<longrightarrow> t_current_priority (threads k t) \<le> t_current_priority (threads k u))
     \<and> ls_first (ReadyQ (unat (t_current_priority (threads k t)))) (tlists k) = Some t"

lemma most_urgent_unique: "most_urgent k t \<Longrightarrow> most_urgent k u \<Longrightarrow> t = u"
  by (metis most_urgent_def option.inject order_antisym)

lemma group_nonzero:
  assumes "sched_inv k" "ready k t"
  shows "ready_group k \<noteq> 0"
proof -
  let ?p = "unat (t_current_priority (threads k t))"
  have "t \<in> set (items (tlists k) (ReadyQ ?p))" using ready_iff [OF assms(1)] assms(2) by simp
  then have "bit (ready_group k) ?p"
    using sched_butD(2) [OF assms(1)] ready_prio [OF assms]
    by (auto simp: group_ok_def RT_THREAD_PRIORITY_MAX_def)
  then show ?thesis by auto
qed

text \<open>The row that the bit search selects holds the most urgent threads.\<close>

lemma first_of_lowest_row:
  assumes s: "sched_inv k" and g: "ready_group k \<noteq> 0"
  defines "p \<equiv> rt_ffs (ready_group k) - 1"
  shows "p < 32" "\<exists>t. ls_first (ReadyQ p) (tlists k) = Some t \<and> most_urgent k t
                   \<and> unat (t_current_priority (threads k t)) = p"
proof -
  have b: "bit (ready_group k) p" unfolding p_def by (rule rt_ffs_lowest(1) [OF g])
  then show p: "p < 32" by (auto dest: bit_imp_le_length)
  obtain t ts where row: "items (tlists k) (ReadyQ p) = t # ts"
    using b p sched_butD(2) [OF s]
    by (auto simp: group_ok_def RT_THREAD_PRIORITY_MAX_def neq_Nil_conv)
  then have t: "ready k t" "p = unat (t_current_priority (threads k t))"
    using ready_iff [OF s, of t p] by simp_all
  have f: "ls_first (ReadyQ p) (tlists k) = Some t" using row by (simp add: ls_first_def)
  have "t_current_priority (threads k t) \<le> t_current_priority (threads k u)" if u: "ready k u" for u
  proof (rule ccontr)
    let ?q = "unat (t_current_priority (threads k u))"
    assume "\<not> t_current_priority (threads k t) \<le> t_current_priority (threads k u)"
    then have "?q < p" using t(2) by (simp add: not_le word_less_nat_alt)
    moreover have "u \<in> set (items (tlists k) (ReadyQ ?q))" using ready_iff [OF s] u by simp
    then have "bit (ready_group k) ?q"
      using sched_butD(2) [OF s] ready_prio [OF s u]
      by (auto simp: group_ok_def RT_THREAD_PRIORITY_MAX_def)
    ultimately show False using rt_ffs_lowest(2) [OF g, of ?q] by (simp add: p_def)
  qed
  then show "\<exists>t. ls_first (ReadyQ p) (tlists k) = Some t \<and> most_urgent k t
      \<and> unat (t_current_priority (threads k t)) = p"
    using t f by (intro exI [of _ t]) (simp add: most_urgent_def)
qed

lemma schedule_runs [wp]:
  assumes s: "sched_inv k" and r: "\<exists>t. ready k t" and c: "rt_current_thread k \<noteq> None"
    and Q: "\<And>k' t p. k' = k\<lparr> rt_current_priority := p, rt_current_thread := Some t \<rparr> \<Longrightarrow>
              lock_nest k = 0 \<Longrightarrow> most_urgent k t \<Longrightarrow>
              Some t \<noteq> rt_current_thread k \<Longrightarrow> p = t_current_priority (threads k t) \<Longrightarrow> Q k'"
    and Q': "lock_nest k = 0 \<Longrightarrow> (\<exists>t. rt_current_thread k = Some t \<and> most_urgent k t) \<Longrightarrow> Q k"
    and Ql: "lock_nest k \<noteq> 0 \<Longrightarrow> Q k"
  shows "runs Q (rt_schedule k)"
proof (cases "lock_nest k = 0")
  case True
  let ?p = "rt_ffs (ready_group k) - 1"
  have g: "ready_group k \<noteq> 0" using r group_nonzero [OF s] by blast
  obtain t where t: "ls_first (ReadyQ ?p) (tlists k) = Some t" "most_urgent k t"
    "unat (t_current_priority (threads k t)) = ?p"
    using first_of_lowest_row(2) [OF s g] by blast
  have p: "of_nat ?p = t_current_priority (threads k t)"
    using t(3) by (metis of_nat_unat ucast_id)
  show ?thesis
  proof (cases "Some t = rt_current_thread k")
    case eq: True
    then have "Q k" using t(2) by (intro Q' [OF True] exI [of _ t]) simp
    then show ?thesis using g True t(1) eq [symmetric] by (simp add: rt_schedule_def Let_def)
  next
    case False
    then show ?thesis using g True t c Q [OF refl True t(2) False p]
      by (simp add: rt_schedule_def Let_def)
  qed
qed (use Ql in \<open>simp add: rt_schedule_def\<close>)

lemma scheduler_start_runs [wp]:
  assumes s: "sched_inv k" and r: "\<exists>t. ready k t"
    and Q: "\<And>t. most_urgent k t \<Longrightarrow> Q (k\<lparr> rt_current_thread := Some t \<rparr>)"
  shows "runs Q (rt_system_scheduler_start k)"
proof -
  have g: "ready_group k \<noteq> 0" using r group_nonzero [OF s] by blast
  obtain t where "ls_first (ReadyQ (rt_ffs (ready_group k) - 1)) (tlists k) = Some t" "most_urgent k t"
    using first_of_lowest_row(2) [OF s g] by blast
  then show ?thesis using g Q by (simp add: rt_system_scheduler_start_def)
qed

section \<open>A small system\<close>

text \<open>Three ready threads: the idle thread 0 at the lowest priority, threads 1 (current) and 2 at
  priority 5.\<close>

definition demo_thread :: "u8 \<Rightarrow> rt_thread" where
  "demo_thread p = thread0\<lparr> t_stat := RT_THREAD_READY, t_current_priority := p, t_init_priority := p,
     t_number_mask := push_bit (unat p) 1, t_init_tick := 10, t_remaining_tick := 10 \<rparr>"

definition sched_demo :: kernel where
  "sched_demo = kernel0\<lparr>
     threads := (\<lambda>_. thread0)(0 := demo_thread 31, 1 := demo_thread 5, 2 := demo_thread 5),
     tlists := \<lparr> items = (\<lambda>_. [])(ReadyQ 31 := [0], ReadyQ 5 := [1, 2]),
                 home = (\<lambda>_. None)(0 := Some (ReadyQ 31), 1 := Some (ReadyQ 5), 2 := Some (ReadyQ 5)) \<rparr>,
     rt_current_thread := Some 1, rt_current_priority := 5,
     ready_group := push_bit 31 1 OR push_bit 5 1 \<rparr>"

lemma sched_demo_inv: "sched_inv sched_demo"
  unfolding sched_but_def
proof (intro conjI allI impI)
  show "lists_ok (tlists sched_demo)" by (auto simp: lists_ok_def sched_demo_def)
  have g: "ready_group sched_demo = push_bit 31 1 OR push_bit 5 1" by (simp add: sched_demo_def)
  have "bit (ready_group sched_demo) p \<longleftrightarrow> p = 31 \<or> p = 5" for p
    unfolding g bit_or_iff bit_push_bit_iff bit_1_iff by auto
  moreover have "items (tlists sched_demo) (ReadyQ p) \<noteq> [] \<longleftrightarrow> p = 31 \<or> p = 5" for p
    by (simp add: sched_demo_def)
  ultimately show "group_ok sched_demo" by (simp add: group_ok_def)
  show "thread_ok (threads sched_demo t) (home (tlists sched_demo) t)" for t
    by (auto simp: thread_ok_def sched_demo_def demo_thread_def thread0_def kernel0_def prio_ok_def
        prio_mask_def RT_THREAD_PRIORITY_MAX_def)
qed

lemma sched_demo_ready: "ready sched_demo t \<longleftrightarrow> t \<in> {0, 1, 2}"
  by (auto simp: ready_def sched_demo_def demo_thread_def thread0_def)

lemma sched_demo_current: "rt_current_thread sched_demo = Some 1" "lock_nest sched_demo = 0"
  by (simp_all add: sched_demo_def kernel0_def)

section \<open>Properties\<close>

text \<open>The table-driven bit search is the specification of find-first-set: 0 for 0, otherwise one
  more than the position of the least bit that is set.\<close>

theorem rt_ffs_correct:
  "rt_ffs v = (if v = 0 then 0 else (LEAST n. bit v n) + 1)"
proof (cases "v = 0")
  case False
  have "(LEAST n. bit v n) = rt_ffs v - 1"
    using rt_ffs_lowest [OF False] by (intro Least_equality) (auto simp: not_less [symmetric])
  moreover have "0 < rt_ffs v" using False by (simp add: rt_ffs_def)
  ultimately show ?thesis using False by simp
qed simp


text \<open>C2. With the scheduler unlocked, \<open>rt_schedule\<close> never stops when some thread is ready, and it
  leaves the most urgent ready thread running, the one that waited longest among those of its
  priority; under a lock it changes nothing. The ready queue is not touched.\<close>

theorem rt_schedule_correct:
  assumes "sched_inv k" "ready k u" "rt_current_thread k = Some c"
  shows "\<exists>k'. rt_schedule k = Some k' \<and> sched_inv k' \<and> threads k' = threads k \<and> tlists k' = tlists k
           \<and> (if lock_nest k = 0 then \<exists>t. rt_current_thread k' = Some t \<and> most_urgent k' t
              else k' = k)"
proof -
  have "runs (\<lambda>k'. sched_inv k' \<and> threads k' = threads k \<and> tlists k' = tlists k
           \<and> (if lock_nest k = 0 then \<exists>t. rt_current_thread k' = Some t \<and> most_urgent k' t
              else k' = k)) (rt_schedule k)"
    by (rule schedule_runs [OF assms(1)])
      (use assms in \<open>auto simp: sched_but_def group_ok_def most_urgent_def ready_def\<close>)
  then show ?thesis by (simp add: runs_ex)
qed

theorem rt_schedule_correct_witness:
  "\<exists>k'. rt_schedule sched_demo = Some k' \<and> (\<exists>t. rt_current_thread k' = Some t \<and> most_urgent k' t)"
  using rt_schedule_correct [OF sched_demo_inv _ sched_demo_current(1), of 0] sched_demo_current(2)
  by (auto simp: sched_demo_ready)

text \<open>\<open>rt_schedule_insert_thread\<close> makes a thread that is in no list ready: it is the last of its
  priority's row, the bitmap agrees with the rows again and every other thread is as it was.\<close>

theorem rt_schedule_insert_thread_correct:
  assumes "sched_but {t} k" "home (tlists k) t = None"
    "prio_ok (threads k t)" "t_number_mask (threads k t) = prio_mask (threads k t)"
  shows "\<exists>k'. rt_schedule_insert_thread t k = Some k' \<and> sched_inv k' \<and> ready k' t
           \<and> items (tlists k') (ReadyQ (unat (t_current_priority (threads k t))))
             = items (tlists k) (ReadyQ (unat (t_current_priority (threads k t)))) @ [t]
           \<and> (\<forall>u. u \<noteq> t \<longrightarrow> threads k' u = threads k u)"
proof -
  have "runs (\<lambda>k'. sched_inv k' \<and> ready k' t \<and> (\<forall>u. u \<noteq> t \<longrightarrow> threads k' u = threads k u))
          (rt_schedule_insert_thread t k)"
    by (rule insert_thread_runs [OF assms]) (simp add: ready_def)
  then obtain k' where k': "rt_schedule_insert_thread t k = Some k'" "sched_inv k'" "ready k' t"
    "\<forall>u. u \<noteq> t \<longrightarrow> threads k' u = threads k u"
    by (auto simp: runs_ex)
  moreover from k'(1) have "items (tlists k') (ReadyQ (unat (t_current_priority (threads k t))))
      = items (tlists k) (ReadyQ (unat (t_current_priority (threads k t)))) @ [t]"
    using assms(2,3) by (auto simp: rt_schedule_insert_thread_def upd_thread_def ready_row_def
        prio_ok_def ls_append_Some)
  ultimately show ?thesis by blast
qed

theorem rt_schedule_insert_thread_correct_witness:
  "\<exists>k'. rt_schedule_insert_thread 3 (upd_thread 3 (\<lambda>_. demo_thread 7) sched_demo) = Some k' \<and> ready k' 3"
proof -
  let ?k = "upd_thread 3 (\<lambda>_. demo_thread 7) sched_demo"
  have "sched_but {3} ?k \<longleftrightarrow> sched_but {3} sched_demo" by (rule sched_but_cong) (auto simp: upd_thread_def)
  then have "sched_but {3} ?k" using sched_but_mono [OF sched_demo_inv] by simp
  moreover have "home (tlists ?k) 3 = None" by (simp add: upd_thread_def sched_demo_def)
  moreover have "prio_ok (threads ?k 3)" "t_number_mask (threads ?k 3) = prio_mask (threads ?k 3)"
    by (simp_all add: upd_thread_def demo_thread_def prio_ok_def prio_mask_def RT_THREAD_PRIORITY_MAX_def)
  ultimately show ?thesis using rt_schedule_insert_thread_correct [of 3 ?k] by blast
qed

text \<open>\<open>rt_schedule_remove_thread\<close> takes a ready or suspended thread out of whatever list it is
  in, and clears its priority's bit exactly when no other thread of that priority is ready, so
  the bitmap still agrees with the rows.\<close>

theorem rt_schedule_remove_thread_correct:
  assumes "sched_inv k" "t_stat (threads k t) \<in> {RT_THREAD_READY, RT_THREAD_SUSPEND}"
  shows "\<exists>k'. rt_schedule_remove_thread t k = Some k' \<and> sched_but {t} k'
           \<and> home (tlists k') t = None \<and> threads k' = threads k
           \<and> (\<forall>q. items (tlists k') q = remove1 t (items (tlists k) q))"
proof -
  have ok: "thread_ok (threads k t) (home (tlists k) t)" by (rule sched_butD(3) [OF assms(1)]) simp
  have "runs (\<lambda>k'. sched_but {t} k' \<and> home (tlists k') t = None \<and> threads k' = threads k
           \<and> (\<forall>q. items (tlists k') q = remove1 t (items (tlists k) q))) (rt_schedule_remove_thread t k)"
    by (rule remove_thread_runs [OF sched_but_mono [OF assms(1)]])
      (use ok assms(2) items_remove [OF sched_butD(1) [OF assms(1)]] in \<open>auto simp: thread_ok_def\<close>)
  then show ?thesis by (simp add: runs_ex)
qed

theorem rt_schedule_remove_thread_correct_witness:
  "\<exists>k'. rt_schedule_remove_thread 1 sched_demo = Some k' \<and> home (tlists k') 1 = None
      \<and> items (tlists k') (ReadyQ 5) = [2]"
proof -
  have "items (tlists sched_demo) (ReadyQ 5) = [1, 2]" by (simp add: sched_demo_def)
  moreover have "t_stat (threads sched_demo 1) = RT_THREAD_READY" by (simp add: sched_demo_def demo_thread_def)
  ultimately show ?thesis
    using rt_schedule_remove_thread_correct [OF sched_demo_inv, of 1] by force
qed

text \<open>Critical sections nest: after \<open>n\<close> entries (fewer than 32768) no \<open>rt_schedule\<close> switches, the
  inner \<open>n - 1\<close> exits only count, and the last one unlocks and schedules.\<close>

theorem critical_sections_nest:
  assumes "lock_nest k = 0" "0 < n" "n < 32768"
  shows "rt_schedule ((rt_enter_critical ^^ n) k) = Some ((rt_enter_critical ^^ n) k)
       \<and> rt_exit_critical ((rt_enter_critical ^^ n) k) =
         (if n = 1 then rt_schedule k else Some ((rt_enter_critical ^^ (n - 1)) k))"
proof -
  have e: "(rt_enter_critical ^^ m) k = k\<lparr> lock_nest := of_nat m \<rparr>" for m
    by (induction m) (simp_all add: rt_enter_critical_def assms(1) add.commute)
  have z: "(of_nat n :: 16 word) \<noteq> 0"
    using assms(2,3) unat_of_nat [of n, where ?'a = 16] by (auto simp: take_bit_nat_eq_self)
  have d: "(of_nat n :: 16 word) - 1 = of_nat (n - 1)" using assms(2) by (simp add: of_nat_diff)
  have "unat (of_nat (n - 1) :: 16 word) = n - 1"
    using assms(3) by (simp add: unsigned_of_nat take_bit_nat_eq_self)
  then have "sint (of_nat (n - 1) :: 16 word) = int (n - 1)"
    using assms(3) sint_eq_unat [of "of_nat (n - 1) :: 16 word"] by simp
  then have l: "sint ((of_nat n :: 16 word) - 1) \<le> 0 \<longleftrightarrow> n = 1" unfolding d using assms(2) by auto
  have k: "k\<lparr> lock_nest := 0 \<rparr> = k" using assms(1) by simp
  show ?thesis
    unfolding e rt_exit_critical_def rt_schedule_def [of "k\<lparr> lock_nest := of_nat n \<rparr>"] Let_def
    using z l d k by simp
qed

theorem critical_sections_nest_witness:
  "rt_exit_critical ((rt_enter_critical ^^ 3) sched_demo) = Some ((rt_enter_critical ^^ 2) sched_demo)"
  using critical_sections_nest [OF sched_demo_current(2), of 3] by simp

end
