(* ===== verification/Timer.thy ===== *)
theory Timer
  imports Scheduler
begin

text \<open>
  The timers of src/timer.c with one list level and no soft timers: starting a timer inserts it
  into the timer list by its timeout tick, the tick interrupt takes the expired ones from the
  front and calls their functions. Ticks are 32-bit and wrap; the list is sorted by the distance
  to the tick before the current one (\<open>timer_key\<close>), which the code's half-range comparisons
  respect. The called functions are a parameter; \<open>timeout_handler\<close> states what the check needs
  of them, and Thread.thy discharges it for \<^verbatim>\<open>rt_thread_timeout\<close>.
\<close>

section \<open>Operations\<close>

definition RT_TIMER_FLAG_ACTIVATED :: u8 where "RT_TIMER_FLAG_ACTIVATED = 0x1"
definition RT_TIMER_FLAG_PERIODIC :: u8 where "RT_TIMER_FLAG_PERIODIC = 0x2"
definition RT_TICK_MAX :: u32 where "RT_TICK_MAX = 0xffffffff"

definition timer_flag :: "timer_id \<Rightarrow> kernel \<Rightarrow> u8" where
  "timer_flag i k = obj_flag (objs k (ObjTimer i))"

definition set_timer_flag :: "timer_id \<Rightarrow> u8 \<Rightarrow> kernel \<Rightarrow> kernel" where
  "set_timer_flag i f = upd_obj (ObjTimer i) (\<lambda>ob. ob\<lparr> obj_flag := f \<rparr>)"

definition timer_activated :: "timer_id \<Rightarrow> kernel \<Rightarrow> bool" where
  "timer_activated i k \<longleftrightarrow> timer_flag i k AND RT_TIMER_FLAG_ACTIVATED \<noteq> 0"

definition timer_periodic :: "timer_id \<Rightarrow> kernel \<Rightarrow> bool" where
  "timer_periodic i k \<longleftrightarrow> timer_flag i k AND RT_TIMER_FLAG_PERIODIC \<noteq> 0"

text \<open>Initialising the list node of a timer that is in the list would break the list.\<close>

definition rt_timer_setup :: "timer_id \<Rightarrow> timeout_fn \<Rightarrow> u32 \<Rightarrow> u8 \<Rightarrow> kernel \<Rightarrow> kernel option" where
  "rt_timer_setup i fn time flag k = do {
     rt_assert (i \<notin> set (timer_list k));
     let k = set_timer_flag i flag k;
     let k = set_timer_flag i (timer_flag i k AND NOT RT_TIMER_FLAG_ACTIVATED) k;
     Some (upd_timer i (\<lambda>tm. tm\<lparr> timeout_func := fn, timeout_tick := 0, tm_init_tick := time \<rparr>) k) }"

definition rt_timer_list_next_timeout :: "kernel \<Rightarrow> u32" where
  "rt_timer_list_next_timeout k =
     (case timer_list k of [] \<Rightarrow> RT_TICK_MAX | t # _ \<Rightarrow> timeout_tick (timers k t))"

definition rt_timer_init ::
  "timer_id \<Rightarrow> string \<Rightarrow> timeout_fn \<Rightarrow> u32 \<Rightarrow> u8 \<Rightarrow> kernel \<Rightarrow> kernel option" where
  "rt_timer_init i name fn time flag k = do {
     k \<leftarrow> rt_object_init (ObjTimer i) RT_Object_Class_Timer name k;
     rt_timer_setup i fn time flag k }"

definition rt_timer_remove :: "timer_id \<Rightarrow> kernel \<Rightarrow> kernel" where
  "rt_timer_remove i k = k\<lparr> timer_list := remove1 i (timer_list k) \<rparr>"

definition rt_timer_detach :: "timer_id \<Rightarrow> kernel \<Rightarrow> rt_err \<times> kernel" where
  "rt_timer_detach i k = (RT_EOK, rt_object_detach (ObjTimer i) (rt_timer_remove i k))"

definition rt_timer_create ::
  "timer_id option \<Rightarrow> string \<Rightarrow> timeout_fn \<Rightarrow> u32 \<Rightarrow> u8 \<Rightarrow> kernel \<Rightarrow> (timer_id option \<times> kernel) option" where
  "rt_timer_create mem name fn time flag k = do {
     (x, k) \<leftarrow> rt_object_allocate (map_option ObjTimer mem) RT_Object_Class_Timer name k;
     case mem of
       None \<Rightarrow> Some (None, k)
     | Some i \<Rightarrow> do { k \<leftarrow> rt_timer_setup i fn time flag k; Some (Some i, k) } }"

definition rt_timer_delete :: "timer_id \<Rightarrow> kernel \<Rightarrow> (rt_err \<times> kernel) option" where
  "rt_timer_delete i k = do {
     k \<leftarrow> rt_object_delete (ObjTimer i) (rt_timer_remove i k);
     Some (RT_EOK, k) }"

text \<open>The search of \<^verbatim>\<open>rt_timer_start\<close> for the place of a timer that expires at \<open>new\<close>: behind those
  that expire at the same tick, before the first that expires later.\<close>

fun timer_insert :: "(timer_id \<Rightarrow> u32) \<Rightarrow> u32 \<Rightarrow> timer_id \<Rightarrow> timer_id list \<Rightarrow> timer_id list" where
  "timer_insert to new i [] = [i]"
| "timer_insert to new i (t # ts) =
     (if to t - new = 0 then t # timer_insert to new i ts
      else if to t - new < RT_TICK_MAX div 2 then i # t # ts
      else t # timer_insert to new i ts)"

definition rt_timer_start :: "timer_id \<Rightarrow> kernel \<Rightarrow> (rt_err \<times> kernel) option" where
  "rt_timer_start i k =
     (if timer_activated i k then Some (RT_ERROR, k)
      else do {
        rt_assert (tm_init_tick (timers k i) < RT_TICK_MAX div 2);
        let k = upd_timer i (\<lambda>tm. tm\<lparr> timeout_tick := rt_tick k + tm_init_tick tm \<rparr>) k;
        rt_assert (i \<notin> set (timer_list k));
        let k = k\<lparr> timer_list := timer_insert (\<lambda>t. timeout_tick (timers k t))
                     (timeout_tick (timers k i)) i (timer_list k) \<rparr>;
        Some (RT_EOK, set_timer_flag i (timer_flag i k OR RT_TIMER_FLAG_ACTIVATED) k) })"

definition rt_timer_stop :: "timer_id \<Rightarrow> kernel \<Rightarrow> rt_err \<times> kernel" where
  "rt_timer_stop i k =
     (if \<not> timer_activated i k then (RT_ERROR, k)
      else let k = rt_timer_remove i k
           in (RT_EOK, set_timer_flag i (timer_flag i k AND NOT RT_TIMER_FLAG_ACTIVATED) k))"

text \<open>\<open>arg\<close> is the tick behind the argument pointer; the new value of it is returned.\<close>

definition rt_timer_control :: "timer_id \<Rightarrow> u8 \<Rightarrow> u32 \<Rightarrow> kernel \<Rightarrow> rt_err \<times> u32 \<times> kernel" where
  "rt_timer_control i cmd arg k =
     (if cmd = 0x1 then (RT_EOK, tm_init_tick (timers k i), k)
      else if cmd = 0x0 then (RT_EOK, arg, upd_timer i (\<lambda>tm. tm\<lparr> tm_init_tick := arg \<rparr>) k)
      else if cmd = 0x2 then
        (RT_EOK, arg, set_timer_flag i (timer_flag i k AND NOT RT_TIMER_FLAG_PERIODIC) k)
      else if cmd = 0x3 then
        (RT_EOK, arg, set_timer_flag i (timer_flag i k OR RT_TIMER_FLAG_PERIODIC) k)
      else (RT_EOK, arg, k))"

text \<open>The loop of \<^verbatim>\<open>rt_timer_check\<close>; \<open>run\<close> calls a timeout function.\<close>

definition timer_expired :: "u32 \<Rightarrow> timer_id \<Rightarrow> kernel \<Rightarrow> bool" where
  "timer_expired current_tick t k \<longleftrightarrow>
     current_tick - timeout_tick (timers k t) < RT_TICK_MAX div 2"

definition timer_rearm :: "timer_id \<Rightarrow> kernel \<Rightarrow> kernel option" where
  "timer_rearm t k =
     (let k' = set_timer_flag t (timer_flag t k AND NOT RT_TIMER_FLAG_ACTIVATED) k
      in if timer_periodic t k \<and> timer_activated t k
         then map_option snd (rt_timer_start t k') else Some k')"

partial_function (option) timer_check_loop ::
  "(timeout_fn \<Rightarrow> kernel \<Rightarrow> kernel option) \<Rightarrow> u32 \<Rightarrow> kernel \<Rightarrow> kernel option" where
  "timer_check_loop run current_tick k =
     (case timer_list k of
        [] \<Rightarrow> Some k
      | t # _ \<Rightarrow>
          if timer_expired current_tick t k then do {
            let k = rt_timer_remove t k;
            k \<leftarrow> run (timeout_func (timers k t)) k;
            let current_tick = rt_tick k;
            k \<leftarrow> timer_rearm t k;
            timer_check_loop run current_tick k }
          else Some k)"

definition rt_timer_check :: "(timeout_fn \<Rightarrow> kernel \<Rightarrow> kernel option) \<Rightarrow> kernel \<Rightarrow> kernel option" where
  "rt_timer_check run k = timer_check_loop run (rt_tick k) k"

definition rt_timer_next_timeout_tick :: "kernel \<Rightarrow> u32" where
  "rt_timer_next_timeout_tick k = rt_timer_list_next_timeout k"

section \<open>The timer list is sorted\<close>

definition timer_key :: "kernel \<Rightarrow> timer_id \<Rightarrow> nat" where
  "timer_key k i = unat (timeout_tick (timers k i) - (rt_tick k - 1))"

text \<open>\<open>lb\<close> is 1 outside the tick interrupt, where no timer in the list has expired before the
  current tick, and 0 between the tick's increment and the end of the check.\<close>

definition timers_sorted :: "nat \<Rightarrow> kernel \<Rightarrow> bool" where
  "timers_sorted lb k \<longleftrightarrow> distinct (timer_list k) \<and> sorted (map (timer_key k) (timer_list k))
     \<and> (\<forall>i \<in> set (timer_list k). lb \<le> timer_key k i \<and> timer_key k i \<le> 0x7fffffff)"

lemma half_tick: "RT_TICK_MAX div 2 = 0x7fffffff"
  by (simp add: RT_TICK_MAX_def)

lemma word_diff_less:
  fixes x y :: u32
  assumes "unat x \<le> 0x7fffffff" "1 \<le> unat y" "unat y \<le> 0x7fffffff"
  shows "x - y < 0x7fffffff \<longleftrightarrow> unat y \<le> unat x"
proof -
  show ?thesis
    using assms by (cases "y \<le> x")
      (auto simp: word_less_nat_alt word_le_nat_alt unat_sub_if')
qed

lemma word_one_minus:
  fixes x :: u32
  assumes "unat x \<le> 0x7fffffff"
  shows "1 - x < 0x7fffffff \<longleftrightarrow> unat x \<le> 1"
  using assms by (cases "x \<le> 1") (auto simp: word_less_nat_alt word_le_nat_alt unat_sub_if')

lemma expired_iff:
  assumes "timer_key k t \<le> 0x7fffffff"
  shows "timer_expired (rt_tick k) t k \<longleftrightarrow> timer_key k t \<le> 1"
proof -
  have e: "rt_tick k - timeout_tick (timers k t) = 1 - (timeout_tick (timers k t) - (rt_tick k - 1))"
    by simp
  show ?thesis
    using assms unfolding timer_expired_def half_tick e timer_key_def by (rule word_one_minus)
qed

text \<open>The half-range search finds the place the keys determine.\<close>

lemma timer_insert_eq:
  fixes to :: "timer_id \<Rightarrow> u32" and b new :: u32
  defines "key \<equiv> \<lambda>t. unat (to t - b)"
  assumes "\<forall>t \<in> set ts. key t \<le> 0x7fffffff" "1 \<le> unat (new - b)" "unat (new - b) \<le> 0x7fffffff"
  shows "timer_insert to new i ts =
         takeWhile (\<lambda>t. key t \<le> unat (new - b)) ts @ i # dropWhile (\<lambda>t. key t \<le> unat (new - b)) ts"
  using assms(2)
proof (induction ts)
  case (Cons t ts)
  have e: "to t - new = (to t - b) - (new - b)" by simp
  have lt: "to t - new < 0x7fffffff \<longleftrightarrow> unat (new - b) \<le> key t"
    unfolding e key_def using Cons.prems assms(3,4) by (intro word_diff_less) (simp_all add: key_def)
  have eq: "to t - new = 0 \<longleftrightarrow> key t = unat (new - b)"
    unfolding e key_def by (metis eq_iff_diff_eq_0 word_unat_eq_iff)
  show ?case
    using Cons lt eq by (simp add: half_tick del: right_minus_eq)
qed simp

lemma sorted_insert_key:
  assumes "sorted (map f xs)"
  shows "sorted (map f (takeWhile (\<lambda>t. f t \<le> f i) xs @ i # dropWhile (\<lambda>t. f t \<le> f i) xs))"
  using assms
proof (induction xs)
  case (Cons x xs)
  then show ?case by (auto dest: set_takeWhileD set_dropWhileD)
qed simp

lemma timer_key_simps [simp]:
  "timer_key (k\<lparr> timer_list := l \<rparr>) i = timer_key k i"
  "timer_key (set_timer_flag j f k) i = timer_key k i"
  "timer_key (k\<lparr> threads := th \<rparr>) i = timer_key k i"
  "timer_key (k\<lparr> tlists := ls \<rparr>) i = timer_key k i"
  "timer_key (k\<lparr> ready_group := g \<rparr>) i = timer_key k i"
  "timer_key (k\<lparr> rt_current_thread := c \<rparr>) i = timer_key k i"
  "timer_key (k\<lparr> rt_current_priority := p \<rparr>) i = timer_key k i"
  "timer_key (k\<lparr> objs := ob \<rparr>) i = timer_key k i"
  "timer_key (k\<lparr> containers := cs \<rparr>) i = timer_key k i"
  by (simp_all add: timer_key_def set_timer_flag_def upd_obj_def)

lemma timers_sorted_mono: "timers_sorted 1 k \<Longrightarrow> timers_sorted 0 k"
  by (simp add: timers_sorted_def)

lemma timers_sorted_cong:
  assumes "timer_list k' = timer_list k" "rt_tick k' = rt_tick k"
    "\<And>i. i \<in> set (timer_list k) \<Longrightarrow> timeout_tick (timers k' i) = timeout_tick (timers k i)"
  shows "timers_sorted lb k' \<longleftrightarrow> timers_sorted lb k"
proof -
  have "i \<in> set (timer_list k) \<Longrightarrow> timer_key k' i = timer_key k i" for i
    using assms by (simp add: timer_key_def)
  then have m: "map (timer_key k') (timer_list k) = map (timer_key k) (timer_list k)"
    and e: "\<forall>i \<in> set (timer_list k). timer_key k' i = timer_key k i" by simp_all
  show ?thesis unfolding timers_sorted_def assms(1) m using e by auto
qed

lemma timers_sorted_remove:
  assumes "timers_sorted lb k"
  shows "timers_sorted lb (rt_timer_remove i k)"
proof -
  have e: "timer_key (k\<lparr> timer_list := l \<rparr>) = timer_key k" for l by (rule ext) simp
  show ?thesis
    using assms by (auto simp: timers_sorted_def rt_timer_remove_def e sorted_map_remove1
        dest: set_mp [OF set_remove1_subset])
qed

text \<open>One more tick: every key goes down by one.\<close>

lemma timers_sorted_tick:
  assumes "timers_sorted 1 k"
  shows "timers_sorted 0 (k\<lparr> rt_tick := rt_tick k + 1 \<rparr>)"
proof -
  let ?k = "k\<lparr> rt_tick := rt_tick k + 1 \<rparr>"
  have key: "timer_key ?k i = timer_key k i - 1" if "1 \<le> timer_key k i" for i
  proof -
    let ?x = "timeout_tick (timers k i) - (rt_tick k - 1)"
    have "timeout_tick (timers k i) - rt_tick k = ?x - 1" by simp
    moreover have "unat (x - 1) = unat x - 1" if "1 \<le> unat x" for x :: u32
      using that by (simp add: unat_sub_if')
    then have "unat (?x - 1) = unat ?x - 1" using that unfolding timer_key_def by blast
    ultimately show ?thesis unfolding timer_key_def by (simp del: diff_diff_add)
  qed
  have k1: "\<forall>i \<in> set (timer_list k). timer_key ?k i = timer_key k i - 1"
    using assms key by (simp add: timers_sorted_def)
  have "map (timer_key ?k) (timer_list k) = map (\<lambda>x. x - 1) (map (timer_key k) (timer_list k))"
    using k1 by simp
  moreover have s1: "sorted (map (\<lambda>x. x - 1) xs)" if "sorted xs" for xs :: "nat list"
    using that by (induction xs) auto
  have "sorted (map (\<lambda>x. x - 1) (map (timer_key k) (timer_list k)))"
    by (rule s1) (use assms in \<open>simp add: timers_sorted_def\<close>)
  ultimately have "sorted (map (timer_key ?k) (timer_list k))" by (simp only:)
  then show ?thesis using assms k1 by (auto simp: timers_sorted_def)
qed

section \<open>The timers in the list are live\<close>

text \<open>What a timer that is in the list, or whose function is being called, satisfies: the timer of
  a thread calls \<^verbatim>\<open>rt_thread_timeout\<close> on that thread, which is suspended, and is one-shot; a
  periodic timer of the application has a positive period.\<close>

definition timer_live :: "kernel \<Rightarrow> timer_id \<Rightarrow> bool" where
  "timer_live k i \<longleftrightarrow>
     (case i of
        ThreadTimer t \<Rightarrow> timeout_func (timers k i) = ThreadTimeout t
          \<and> t_stat (threads k t) = RT_THREAD_SUSPEND \<and> \<not> timer_periodic i k
      | UserTimer u \<Rightarrow> (\<exists>f. timeout_func (timers k i) = UserTimeout f)
          \<and> (timer_periodic i k \<longrightarrow> 0 < tm_init_tick (timers k i) \<and> tm_init_tick (timers k i) < 0x7fffffff))"

text \<open>The timer inside a thread's block is what \<^verbatim>\<open>_rt_thread_init\<close> made it.\<close>

definition thread_timers :: "kernel \<Rightarrow> bool" where
  "thread_timers k \<longleftrightarrow> (\<forall>t. timeout_func (timers k (ThreadTimer t)) = ThreadTimeout t
     \<and> \<not> timer_periodic (ThreadTimer t) k)"

definition timers_ok :: "nat \<Rightarrow> kernel \<Rightarrow> bool" where
  "timers_ok lb k \<longleftrightarrow> timers_sorted lb k \<and> thread_timers k
     \<and> (\<forall>i \<in> set (timer_list k). timer_activated i k \<and> timer_live k i)"

definition kernel_ok :: "nat \<Rightarrow> kernel \<Rightarrow> bool" where
  "kernel_ok lb k \<longleftrightarrow> sched_inv k \<and> timers_ok lb k"

text \<open>There is a current thread and something to switch to: the idle thread sees to that.\<close>

definition running :: "kernel \<Rightarrow> bool" where
  "running k \<longleftrightarrow> rt_current_thread k \<noteq> None \<and> (\<exists>t. ready k t)"

text \<open>The timer of a ready thread is not activated, so that starting it will work; \<open>A\<close> is the timer
  whose function is being called, if any.\<close>

definition quiet :: "timer_id set \<Rightarrow> kernel \<Rightarrow> bool" where
  "quiet A k \<longleftrightarrow> (\<forall>t. ready k t \<longrightarrow> ThreadTimer t \<notin> A \<longrightarrow> \<not> timer_activated (ThreadTimer t) k)"

text \<open>Changes of the timers only.\<close>

definition timer_change :: "kernel \<Rightarrow> kernel \<Rightarrow> bool" where
  "timer_change k k' \<longleftrightarrow> (\<exists>tm tis ob. k' = k\<lparr> timers := tm, timer_list := tis, objs := ob \<rparr>
     \<and> (\<forall>x. (\<forall>i. x \<noteq> ObjTimer i) \<longrightarrow> ob x = objs k x))"

lemma timer_changeI:
  "k' = k\<lparr> timers := tm, timer_list := tis, objs := ob \<rparr> \<Longrightarrow>
   (\<And>x. (\<And>i. x \<noteq> ObjTimer i) \<Longrightarrow> ob x = objs k x) \<Longrightarrow> timer_change k k'"
  unfolding timer_change_def by blast

lemma timer_change_trans: "timer_change k k' \<Longrightarrow> timer_change k' k'' \<Longrightarrow> timer_change k k''"
  unfolding timer_change_def by (elim exE conjE) (intro exI conjI allI, auto)

lemma flag_masks [simp]:
  "(f OR RT_TIMER_FLAG_ACTIVATED) AND RT_TIMER_FLAG_ACTIVATED \<noteq> 0"
  "(f AND NOT RT_TIMER_FLAG_ACTIVATED) AND RT_TIMER_FLAG_ACTIVATED = 0"
  "(f OR RT_TIMER_FLAG_ACTIVATED) AND RT_TIMER_FLAG_PERIODIC = f AND RT_TIMER_FLAG_PERIODIC"
  "(f AND NOT RT_TIMER_FLAG_ACTIVATED) AND RT_TIMER_FLAG_PERIODIC = f AND RT_TIMER_FLAG_PERIODIC"
  for f :: u8
proof -
  have b: "bit RT_TIMER_FLAG_ACTIVATED n \<longleftrightarrow> n = 0" "bit RT_TIMER_FLAG_PERIODIC n \<longleftrightarrow> n = 1" for n
    using bit_exp_iff [of 1 n, where ?'a = "8 word"]
    by (auto simp: RT_TIMER_FLAG_ACTIVATED_def RT_TIMER_FLAG_PERIODIC_def bit_1_iff)
  have "bit ((f OR RT_TIMER_FLAG_ACTIVATED) AND RT_TIMER_FLAG_ACTIVATED) 0"
    by (simp only: bit_and_iff bit_or_iff b) simp
  then show "(f OR RT_TIMER_FLAG_ACTIVATED) AND RT_TIMER_FLAG_ACTIVATED \<noteq> 0" by auto
  show "(f AND NOT RT_TIMER_FLAG_ACTIVATED) AND RT_TIMER_FLAG_ACTIVATED = 0"
    "(f OR RT_TIMER_FLAG_ACTIVATED) AND RT_TIMER_FLAG_PERIODIC = f AND RT_TIMER_FLAG_PERIODIC"
    "(f AND NOT RT_TIMER_FLAG_ACTIVATED) AND RT_TIMER_FLAG_PERIODIC = f AND RT_TIMER_FLAG_PERIODIC"
    by (rule bit_word_eqI; auto simp: bit_and_iff bit_or_iff bit_not_iff b)+
qed

lemma set_timer_flag_simps [simp]:
  "timer_flag j (set_timer_flag i f k) = (if j = i then f else timer_flag j k)"
  "timers (set_timer_flag i f k) = timers k"
  "timer_list (set_timer_flag i f k) = timer_list k"
  "threads (set_timer_flag i f k) = threads k"
  "tlists (set_timer_flag i f k) = tlists k"
  "rt_tick (set_timer_flag i f k) = rt_tick k"
  "rt_current_thread (set_timer_flag i f k) = rt_current_thread k"
  "ready (set_timer_flag i f k) = ready k"
  "sched_but A (set_timer_flag i f k) = sched_but A k"
  by (simp_all add: set_timer_flag_def upd_obj_def timer_flag_def)

lemma timer_start_runs [wp]:
  assumes t: "timers_ok lb k" and lb: "lb \<le> 1" and n: "i \<notin> set (timer_list k)"
    and i: "tm_init_tick (timers k i) < 0x7fffffff" and l: "timer_live k i"
    and Q: "\<And>k' f tl tm. k' = k\<lparr> timers := (timers k)(i := tm), timer_list := tl,
                  objs := (objs k)(ObjTimer i := (objs k (ObjTimer i))\<lparr> obj_flag := f \<rparr>) \<rparr> \<Longrightarrow>
              timers_ok lb k' \<Longrightarrow> set tl = insert i (set (timer_list k)) \<Longrightarrow>
              timer_key k' i = unat (tm_init_tick (timers k i)) + 1 \<Longrightarrow>
              (\<forall>j. j \<noteq> i \<longrightarrow> timer_key k' j = timer_key k j) \<Longrightarrow> Q (RT_EOK, k')"
    and Q': "timer_activated i k \<Longrightarrow> Q (RT_ERROR, k)"
  shows "runs Q (rt_timer_start i k)"
proof (cases "timer_activated i k")
  case False
  let ?init = "tm_init_tick (timers k i)"
  define tm where "tm = (timers k i)\<lparr> timeout_tick := rt_tick k + ?init \<rparr>"
  define tis where "tis = timer_insert (\<lambda>j. timeout_tick (((timers k)(i := tm)) j)) (rt_tick k + ?init) i
    (timer_list k)"
  define f where "f = timer_flag i k OR RT_TIMER_FLAG_ACTIVATED"
  define k' where "k' = k\<lparr> timers := (timers k)(i := tm), timer_list := tis,
      objs := (objs k)(ObjTimer i := (objs k (ObjTimer i))\<lparr> obj_flag := f \<rparr>) \<rparr>"
  have run: "rt_timer_start i k = Some (RT_EOK, k')"
    using False i n by (simp add: rt_timer_start_def half_tick upd_timer_def Let_def
        set_timer_flag_def upd_obj_def timer_flag_def k'_def f_def tis_def tm_def)
  have d: "rt_tick k + ?init - (rt_tick k - 1) = ?init + 1" by simp
  have u: "unat (?init + 1) = unat ?init + 1"
    using i unat_plus_small [of ?init 1] by (simp add: word_less_nat_alt)
  have keyi: "timer_key k' i = unat ?init + 1"
    unfolding u [symmetric] by (simp add: timer_key_def k'_def tm_def)
  have keyj: "timer_key k' j = timer_key k j" if "j \<noteq> i" for j
    using that by (simp add: timer_key_def k'_def)
  let ?le = "\<lambda>j. timer_key k' j \<le> timer_key k' i"
  have srt: "distinct (timer_list k)" "sorted (map (timer_key k) (timer_list k))"
    "\<forall>j \<in> set (timer_list k). lb \<le> timer_key k j \<and> timer_key k j \<le> 0x7fffffff"
    using t by (simp_all add: timers_ok_def timers_sorted_def)
  have key_in: "\<forall>j \<in> set (timer_list k). timer_key k' j = timer_key k j" using n keyj by metis
  have key_list: "map (timer_key k') (timer_list k) = map (timer_key k) (timer_list k)"
    using key_in by simp
  have tis: "tis = takeWhile ?le (timer_list k) @ i # dropWhile ?le (timer_list k)"
  proof -
    let ?to = "\<lambda>j. timeout_tick (((timers k)(i := tm)) j)" and ?b = "rt_tick k - 1"
    have key: "unat (?to j - ?b) = timer_key k' j" for j by (simp add: timer_key_def k'_def)
    have kb: "unat (rt_tick k + ?init - ?b) = timer_key k' i" unfolding d u keyi ..
    have 1: "1 \<le> timer_key k' i" "timer_key k' i \<le> 0x7fffffff"
      using keyi i by (simp_all add: word_less_nat_alt)
    have 2: "\<forall>j \<in> set (timer_list k). timer_key k' j \<le> 0x7fffffff"
      using srt(3) n keyj by metis
    show ?thesis
      unfolding tis_def
      using timer_insert_eq [where to = ?to and b = ?b and new = "rt_tick k + ?init" and i = i
          and ts = "timer_list k", unfolded key kb, OF 2 1] .
  qed
  have set_tis: "set tis = insert i (set (timer_list k))"
    unfolding tis by (metis (no_types) list.simps(15) set_append takeWhile_dropWhile_id Un_insert_right)
  have "timers_sorted lb k'"
  proof -
    have "distinct tis"
      unfolding tis using srt(1) n
      by (metis (no_types, lifting) distinct_append distinct.simps(2) takeWhile_dropWhile_id
          Un_iff set_append disjoint_insert(1) list.simps(15))
    moreover have "sorted (map (timer_key k') tis)"
      unfolding tis by (rule sorted_insert_key) (simp add: key_list srt(2))
    moreover have "\<forall>j \<in> set tis. lb \<le> timer_key k' j \<and> timer_key k' j \<le> 0x7fffffff"
      unfolding set_tis using srt(3) key_in keyi lb i by (auto simp: word_less_nat_alt)
    ultimately show ?thesis by (simp add: timers_sorted_def k'_def)
  qed
  moreover have "\<forall>j \<in> set (timer_list k'). timer_activated j k' \<and> timer_live k' j"
  proof
    fix j assume "j \<in> set (timer_list k')"
    then have j: "j = i \<or> j \<in> set (timer_list k)" using set_tis by (simp add: k'_def)
    have fl: "timer_flag j k' = (if j = i then f else timer_flag j k)"
      by (simp add: timer_flag_def k'_def)
    have live: "timer_live k' j \<longleftrightarrow> timer_live k j"
      by (cases "j = i") (auto simp: timer_live_def k'_def tm_def timer_periodic_def timer_flag_def
          f_def split: timer_id.splits)
    show "timer_activated j k' \<and> timer_live k' j"
      unfolding live timer_activated_def fl f_def
      using j l t flag_masks(1) [of "timer_flag i k"]
      by (auto simp: timers_ok_def timer_activated_def)
  qed
  moreover have "thread_timers k'"
    using t by (auto simp: timers_ok_def thread_timers_def k'_def tm_def timer_periodic_def timer_flag_def
        f_def)
  ultimately have "timers_ok lb k'" by (simp add: timers_ok_def)
  then have "Q (RT_EOK, k')" using set_tis keyi keyj by (intro Q [OF k'_def]) simp_all
  then show ?thesis by (simp add: run)
qed (use Q' in \<open>simp add: rt_timer_start_def\<close>)

lemma timer_stop_wp [wp]:
  assumes t: "timers_ok lb k"
    and Q: "\<And>k' f e. k' = k\<lparr> timer_list := remove1 i (timer_list k),
                  objs := (objs k)(ObjTimer i := (objs k (ObjTimer i))\<lparr> obj_flag := f \<rparr>) \<rparr> \<Longrightarrow>
              timers_ok lb k' \<Longrightarrow> i \<notin> set (timer_list k') \<Longrightarrow> \<not> timer_activated i k' \<Longrightarrow> Q (e, k')"
  shows "Q (rt_timer_stop i k)"
proof -
  define f where "f = timer_flag i k AND NOT RT_TIMER_FLAG_ACTIVATED"
  define k' where "k' = k\<lparr> timer_list := remove1 i (timer_list k),
      objs := (objs k)(ObjTimer i := (objs k (ObjTimer i))\<lparr> obj_flag := f \<rparr>) \<rparr>"
  have nin: "i \<notin> set (timer_list k')"
    using t by (auto simp: timers_ok_def timers_sorted_def k'_def)
  have "timers_sorted lb (rt_timer_remove i k)"
    using t by (intro timers_sorted_remove) (simp add: timers_ok_def)
  then have "timers_sorted lb k'"
    by (subst timers_sorted_cong [of k' "rt_timer_remove i k"]) (simp_all add: k'_def rt_timer_remove_def)
  moreover have "timer_activated j k' \<and> timer_live k' j" if "j \<in> set (timer_list k')" for j
  proof -
    have j: "j \<in> set (timer_list k)" "j \<noteq> i"
      using that nin by (auto simp: k'_def dest: set_mp [OF set_remove1_subset])
    then show ?thesis using t
      by (auto simp: timers_ok_def timer_activated_def timer_live_def timer_periodic_def timer_flag_def
          k'_def split: timer_id.splits)
  qed
  moreover have "thread_timers k'"
    using t by (auto simp: timers_ok_def thread_timers_def k'_def timer_periodic_def timer_flag_def f_def)
  ultimately have ok: "timers_ok lb k'" by (simp add: timers_ok_def)
  have na: "\<not> timer_activated i k'" by (simp add: timer_activated_def timer_flag_def k'_def f_def)
  show ?thesis
  proof (cases "timer_activated i k")
    case True
    then have "rt_timer_stop i k = (RT_EOK, k')"
      by (simp add: rt_timer_stop_def rt_timer_remove_def set_timer_flag_def upd_obj_def timer_flag_def
          k'_def f_def)
    then show ?thesis using Q [OF k'_def ok nin na] by simp
  next
    case False
    then have i: "i \<notin> set (timer_list k)" using t by (auto simp: timers_ok_def)
    then have "k = k\<lparr> timer_list := remove1 i (timer_list k),
      objs := (objs k)(ObjTimer i := (objs k (ObjTimer i))\<lparr> obj_flag := timer_flag i k \<rparr>) \<rparr>"
      by (simp add: remove1_idem timer_flag_def)
    then have "Q (RT_ERROR, k)" by (rule Q) (use t i False in simp_all)
    then show ?thesis using False by (simp add: rt_timer_stop_def)
  qed
qed

section \<open>The tick's check\<close>

definition expired_timers :: "kernel \<Rightarrow> timer_id set" where
  "expired_timers k = {j \<in> set (timer_list k). timer_key k j \<le> 1}"

lemma finite_expired [simp]: "finite (expired_timers k)"
  by (simp add: expired_timers_def)

lemma timers_ok_flag:
  assumes "timers_ok lb k" "i \<notin> set (timer_list k)"
    "f AND RT_TIMER_FLAG_PERIODIC = timer_flag i k AND RT_TIMER_FLAG_PERIODIC"
  shows "timers_ok lb (set_timer_flag i f k)"
proof -
  have "timers_sorted lb (set_timer_flag i f k) \<longleftrightarrow> timers_sorted lb k"
    by (rule timers_sorted_cong) simp_all
  then show ?thesis using assms
    by (auto simp: timers_ok_def thread_timers_def timer_activated_def timer_live_def
        timer_periodic_def split: timer_id.splits)
qed

lemma timer_rearm_runs [wp]:
  assumes ok: "kernel_ok 0 k" and n: "i \<notin> set (timer_list k)"
    and l: "timer_periodic i k \<longrightarrow> timer_live k i"
    and q: "quiet {i} k"
  shows "runs (\<lambda>k'. kernel_ok 0 k' \<and> quiet {} k' \<and> timer_change k k' \<and> expired_timers k' = expired_timers k)
           (timer_rearm i k)"
proof -
  define k0 where "k0 = set_timer_flag i (timer_flag i k AND NOT RT_TIMER_FLAG_ACTIVATED) k"
  have k0: "timers_ok 0 k0" "i \<notin> set (timer_list k0)" "\<not> timer_activated i k0" "sched_inv k0"
    using ok n timers_ok_flag [of 0 k i]
    by (auto simp: kernel_ok_def k0_def timer_activated_def)
  have ex0: "expired_timers k0 = expired_timers k" by (simp add: expired_timers_def k0_def)
  have q0: "quiet {} k0"
    using q by (auto simp: quiet_def k0_def timer_activated_def)
  have c0: "timer_change k k0"
    unfolding timer_change_def
    by (intro exI [of _ "timers k"] exI [of _ "timer_list k"] exI [of _ "objs k0"])
      (simp add: k0_def set_timer_flag_def upd_obj_def)
  show ?thesis
  proof (cases "timer_periodic i k \<and> timer_activated i k")
    case True
    have live: "timer_live k0 i" and pos: "0 < tm_init_tick (timers k0 i)"
      and bnd: "tm_init_tick (timers k0 i) < 0x7fffffff"
      using l True by (auto simp: timer_live_def k0_def timer_periodic_def split: timer_id.splits)
    have user: "\<And>t. i \<noteq> ThreadTimer t" using l True by (auto simp: timer_live_def split: timer_id.splits)
    have "runs (\<lambda>(e, k'). kernel_ok 0 k' \<and> quiet {} k' \<and> timer_change k k'
            \<and> expired_timers k' = expired_timers k) (rt_timer_start i k0)"
    proof (rule timer_start_runs [OF k0(1) _ k0(2) bnd live])
      fix k' f tis tm
      assume k': "k' = k0\<lparr> timers := (timers k0)(i := tm), timer_list := tis,
          objs := (objs k0)(ObjTimer i := (objs k0 (ObjTimer i))\<lparr> obj_flag := f \<rparr>) \<rparr>"
        and t: "timers_ok 0 k'" and tis: "set tis = insert i (set (timer_list k0))"
        and ki: "timer_key k' i = unat (tm_init_tick (timers k0 i)) + 1"
        and kj: "\<forall>j. j \<noteq> i \<longrightarrow> timer_key k' j = timer_key k0 j"
      have "expired_timers k' = expired_timers k0"
        using tis ki kj pos k0(2) by (auto simp: expired_timers_def k' word_less_nat_alt)
      moreover have "timer_change k k'" 
        by (intro timer_change_trans [OF c0] timer_changeI [OF k']) simp
      moreover have "quiet {} k'"
        using q0 user by (auto simp: quiet_def k' timer_activated_def timer_flag_def)
      ultimately show "case (RT_EOK, k') of (e, k') \<Rightarrow> kernel_ok 0 k' \<and> quiet {} k' \<and> timer_change k k'
          \<and> expired_timers k' = expired_timers k"
        using t k0(4) ex0 by (simp add: kernel_ok_def k')
    qed (use k0(3) in simp_all)
    then show ?thesis
      using True by (auto simp: timer_rearm_def Let_def k0_def [symmetric] runs_ex)
  next
    case False
    then have "timer_rearm i k = Some k0" by (auto simp: timer_rearm_def Let_def k0_def)
    then show ?thesis using k0 ex0 q0 c0 by (simp add: kernel_ok_def)
  qed
qed

text \<open>The contract of the timeout functions: called with the fired timer \<open>i\<close> out of the list, they
  return, keep the kernel consistent and the tick as it is, do not put \<open>i\<close> back into the list
  themselves and start no timer that expires at once. \<open>J\<close> is whatever else is to be kept, a
  property that does not depend on the timers.\<close>

locale timeout_handler =
  fixes run :: "timeout_fn \<Rightarrow> kernel \<Rightarrow> kernel option"
    and J :: "kernel \<Rightarrow> bool"
  assumes J_running: "J k \<Longrightarrow> running k"
    and J_timers: "J k \<Longrightarrow> timer_change k k' \<Longrightarrow> J k'"
    and run_law: "kernel_ok 0 k \<Longrightarrow> quiet {} k \<Longrightarrow> J k \<Longrightarrow> i \<notin> set (timer_list k) \<Longrightarrow> timer_live k i \<Longrightarrow>
    runs (\<lambda>k'. kernel_ok 0 k' \<and> quiet {i} k' \<and> J k' \<and> rt_tick k' = rt_tick k
            \<and> i \<notin> set (timer_list k') \<and> (timer_periodic i k' \<longrightarrow> timer_live k' i)
            \<and> expired_timers k' \<subseteq> expired_timers k)
         (run (timeout_func (timers k i)) k)"
begin

lemma check_loop_runs:
  assumes "kernel_ok 0 k" "quiet {} k" "J k"
  shows "runs (\<lambda>k'. kernel_ok 2 k' \<and> quiet {} k' \<and> J k' \<and> rt_tick k' = rt_tick k)
           (timer_check_loop run (rt_tick k) k)"
  using assms
proof (induction "card (expired_timers k)" arbitrary: k rule: less_induct)
  case less
  have ts: "timers_ok 0 k" "timers_sorted 0 k" using less.prems by (auto simp: kernel_ok_def timers_ok_def)
  show ?case
  proof (cases "timer_list k")
    case Nil
    then show ?thesis
      using less.prems by (subst timer_check_loop.simps)
        (simp add: kernel_ok_def timers_ok_def timers_sorted_def)
  next
    case (Cons i js)
    have key: "timer_key k i \<le> 0x7fffffff" "\<forall>j \<in> set js. timer_key k i \<le> timer_key k j"
      using ts(2) Cons by (auto simp: timers_sorted_def)
    show ?thesis
    proof (cases "timer_expired (rt_tick k) i k")
      case False
      then have "2 \<le> timer_key k i" using key(1) by (simp add: expired_iff)
      then have "timers_ok 2 k"
        using ts key(2) Cons by (fastforce simp: timers_ok_def timers_sorted_def)
      then show ?thesis
        using less.prems Cons False
        by (subst timer_check_loop.simps) (simp add: kernel_ok_def)
    next
      case True
      then have ki: "timer_key k i \<le> 1" using key(1) by (simp add: expired_iff)
      let ?k = "rt_timer_remove i k"
      have live: "timer_live k i" using ts(1) Cons by (simp add: timers_ok_def)
      have l1: "timer_list ?k = js" "i \<notin> set js"
        using Cons ts(2) by (auto simp: rt_timer_remove_def timers_sorted_def)
      have c1: "timer_change k ?k"
        unfolding timer_change_def rt_timer_remove_def
        by (intro exI [of _ "timers k"] exI [of _ "remove1 i (timer_list k)"] exI [of _ "objs k"]) simp
      have ok1: "kernel_ok 0 ?k" "quiet {} ?k" "i \<notin> set (timer_list ?k)" "timer_live ?k i"
        using less.prems l1 live ts timers_sorted_remove [OF ts(2), of i] Cons
        by (auto simp: kernel_ok_def timers_ok_def thread_timers_def quiet_def rt_timer_remove_def timer_live_def
            timer_activated_def timer_periodic_def timer_flag_def split: timer_id.splits)
      have "expired_timers ?k \<subset> expired_timers k"
        using ki Cons l1 by (auto simp: expired_timers_def rt_timer_remove_def)
      then have small: "card (expired_timers ?k) < card (expired_timers k)"
        by (rule psubset_card_mono [OF finite_expired])
      obtain k2 where k2: "run (timeout_func (timers ?k i)) ?k = Some k2" "kernel_ok 0 k2"
        "quiet {i} k2" "J k2" "rt_tick k2 = rt_tick k" "i \<notin> set (timer_list k2)"
        "timer_periodic i k2 \<longrightarrow> timer_live k2 i" "expired_timers k2 \<subseteq> expired_timers ?k"
        using run_law [OF ok1(1,2) J_timers [OF less.prems(3) c1] ok1(3,4)]
        by (auto simp: runs_ex rt_timer_remove_def)
      obtain k3 where k3: "timer_rearm i k2 = Some k3" "kernel_ok 0 k3" "quiet {} k3" "timer_change k2 k3"
        "expired_timers k3 = expired_timers k2"
        using timer_rearm_runs [OF k2(2,6,7,3)] unfolding runs_ex by blast
      have t3: "rt_tick k3 = rt_tick k" using k3(4) k2(5) by (auto simp: timer_change_def)
      have "card (expired_timers k3) < card (expired_timers k)"
        using small k3(5) card_mono [OF finite_expired k2(8)] by simp
      from less.hyps [OF this k3(2,3) J_timers [OF k2(4) k3(4)]] show ?thesis
        using Cons True k2(1,5) k3(1) t3
        by (subst timer_check_loop.simps) (simp add: Let_def)
    qed
  qed
qed

end

section \<open>Properties\<close>

lemma demo_timers: "timers_ok 1 sched_demo"
  by (simp add: timers_ok_def timers_sorted_def thread_timers_def sched_demo_def kernel0_def timer0_def
      timer_periodic_def timer_flag_def)

text \<open>C4. Starting a timer that is not active puts it into the list at the place its expiry
  determines, also across the wrap-around of the 32-bit tick: the list stays sorted by the time
  left, and the timer is due exactly \<open>init_tick\<close> ticks from now.\<close>

theorem rt_timer_start_correct:
  assumes "timers_ok 1 k" "\<not> timer_activated i k" "timer_live k i" "tm_init_tick (timers k i) < 0x7fffffff"
  shows "\<exists>k'. rt_timer_start i k = Some (RT_EOK, k') \<and> timers_ok 1 k' \<and> timer_activated i k'
           \<and> set (timer_list k') = insert i (set (timer_list k))
           \<and> timer_key k' i = unat (tm_init_tick (timers k i)) + 1
           \<and> (\<forall>j \<in> set (timer_list k). timer_key k' j = timer_key k j)"
proof -
  have n: "i \<notin> set (timer_list k)" using assms(1,2) by (auto simp: timers_ok_def)
  have "runs (\<lambda>(e, k'). e = RT_EOK \<and> timers_ok 1 k' \<and> timer_activated i k'
      \<and> set (timer_list k') = insert i (set (timer_list k))
      \<and> timer_key k' i = unat (tm_init_tick (timers k i)) + 1
      \<and> (\<forall>j \<in> set (timer_list k). timer_key k' j = timer_key k j)) (rt_timer_start i k)"
  proof (rule timer_start_runs [OF assms(1) _ n assms(4,3)])
    fix k' f tis tm
    assume k': "k' = k\<lparr> timers := (timers k)(i := tm), timer_list := tis,
        objs := (objs k)(ObjTimer i := (objs k (ObjTimer i))\<lparr> obj_flag := f \<rparr>) \<rparr>"
      and t: "timers_ok 1 k'" and tis: "set tis = insert i (set (timer_list k))"
      and key: "timer_key k' i = unat (tm_init_tick (timers k i)) + 1"
        "\<forall>j. j \<noteq> i \<longrightarrow> timer_key k' j = timer_key k j"
    have "timer_list k' = tis" by (simp add: k')
    then show "case (RT_EOK, k') of (e, k') \<Rightarrow> e = RT_EOK \<and> timers_ok 1 k' \<and> timer_activated i k'
        \<and> set (timer_list k') = insert i (set (timer_list k))
        \<and> timer_key k' i = unat (tm_init_tick (timers k i)) + 1
        \<and> (\<forall>j \<in> set (timer_list k). timer_key k' j = timer_key k j)"
      using t tis key n by (auto simp: timers_ok_def)
  qed (use assms(2) in simp_all)
  then show ?thesis by (auto simp: runs_ex)
qed

theorem rt_timer_start_correct_witness:
  "\<exists>k'. rt_timer_start (UserTimer 3) sched_demo = Some (RT_EOK, k') \<and> timers_ok 1 k'
      \<and> set (timer_list k') = {UserTimer 3}"
proof -
  have "\<not> timer_activated (UserTimer 3) sched_demo" "timer_live sched_demo (UserTimer 3)"
    "tm_init_tick (timers sched_demo (UserTimer 3)) < 0x7fffffff" "timer_list sched_demo = []"
    by (simp_all add: timer_activated_def timer_live_def timer_flag_def timer_periodic_def sched_demo_def
        kernel0_def timer0_def)
  then show ?thesis using rt_timer_start_correct [OF demo_timers, of "UserTimer 3"] by auto
qed

text \<open>A periodic timer that is due, and a timeout function that stops and starts its own timer.\<close>

definition restart_demo :: kernel where
  "restart_demo = set_timer_flag (UserTimer 1) 0x3
     (upd_timer (UserTimer 1) (\<lambda>tm. tm\<lparr> tm_init_tick := 10 \<rparr>) (sched_demo\<lparr> timer_list := [UserTimer 1] \<rparr>))"

definition restart_self :: "timeout_fn \<Rightarrow> kernel \<Rightarrow> kernel option" where
  "restart_self f k = map_option snd (rt_timer_start (UserTimer 1) (snd (rt_timer_stop (UserTimer 1) k)))"

text \<open>A timeout function that stops and restarts its own periodic timer breaks the timer list:
  \<open>rt_timer_check\<close> clears the active flag and starts the timer a second time while it is in the
  list, so its node is inserted twice (the model stops there).\<close>

theorem timer_restart_in_callback:
  "timers_ok 1 restart_demo \<and> rt_timer_check restart_self restart_demo = None"
proof
  show "timers_ok 1 restart_demo"
    by (auto simp: timers_ok_def timers_sorted_def thread_timers_def restart_demo_def sched_demo_def
        kernel0_def timer0_def timer_periodic_def timer_activated_def timer_live_def timer_key_def
        upd_timer_def RT_TIMER_FLAG_ACTIVATED_def RT_TIMER_FLAG_PERIODIC_def)
      (auto simp: timer_flag_def)
  show "rt_timer_check restart_self restart_demo = None"
    unfolding rt_timer_check_def
    by (subst timer_check_loop.simps)
      (simp add: restart_demo_def restart_self_def timer_expired_def half_tick rt_timer_remove_def
        rt_timer_stop_def rt_timer_start_def timer_rearm_def timer_activated_def timer_periodic_def
        upd_timer_def sched_demo_def kernel0_def timer0_def RT_TIMER_FLAG_ACTIVATED_def
        RT_TIMER_FLAG_PERIODIC_def set_timer_flag_def upd_obj_def timer_flag_def Let_def)
qed

end
