(* ===== verification/Thread.thy ===== *)
theory Thread
  imports Timer
begin

text \<open>
  The threads of src/thread.c, the tick of src/clock.c and the idle thread's cleanup of
  src/idle.c. A call that blocks is cut at its \<^verbatim>\<open>rt_schedule()\<close>: the first part ends with the
  caller suspended and another thread current, the rest of the C function is a definition of its
  own (\<open>..._resumed\<close>) that runs when the caller is current again. The stack and the saved
  registers are not part of the model, nor is the thread's entry function.
\<close>

section \<open>Operations\<close>

text \<open>\<^verbatim>\<open>1L << priority\<close>: undefined from 32 on.\<close>

definition priority_mask :: "u8 \<Rightarrow> u32 option" where
  "priority_mask p = (if unat p < 32 then Some (push_bit (unat p) 1) else None)"

definition rt_thread_self :: "kernel \<Rightarrow> nat option" where
  "rt_thread_self k = rt_current_thread k"

definition rt_thread_exit :: "kernel \<Rightarrow> kernel option" where
  "rt_thread_exit k = do {
     t \<leftarrow> rt_current_thread k;
     k \<leftarrow> rt_schedule_remove_thread t k;
     let k = upd_thread t (\<lambda>th. th\<lparr> t_stat := RT_THREAD_CLOSE \<rparr>) k;
     let k = snd (rt_timer_detach (ThreadTimer t) k);
     k \<leftarrow> (if rt_object_is_systemobject (ObjThread t) k \<and> \<not> t_cleanup (threads k t)
           then Some (rt_object_detach (ObjThread t) k)
           else do { ls \<leftarrow> ls_push DefunctQ t (tlists k); Some (k\<lparr> tlists := ls \<rparr>) });
     rt_schedule k }"

definition rt_thread_setup :: "nat \<Rightarrow> string \<Rightarrow> u8 \<Rightarrow> u32 \<Rightarrow> kernel \<Rightarrow> kernel option" where
  "rt_thread_setup t name priority tick k = do {
     rt_assert (home (tlists k) t = None);
     rt_assert (unat priority < RT_THREAD_PRIORITY_MAX);
     let k = upd_thread t (\<lambda>th. th\<lparr>
               t_init_priority := priority, t_current_priority := priority,
               t_init_tick := tick, t_remaining_tick := tick,
               t_error := RT_EOK, t_stat := RT_THREAD_INIT, t_cleanup := False \<rparr>) k;
     rt_timer_init (ThreadTimer t) (obj_name (objs k (ObjThread t))) (ThreadTimeout t) 0 0 k }"

definition rt_thread_init :: "nat \<Rightarrow> string \<Rightarrow> u8 \<Rightarrow> u32 \<Rightarrow> kernel \<Rightarrow> (rt_err \<times> kernel) option" where
  "rt_thread_init t name priority tick k = do {
     k \<leftarrow> rt_object_init (ObjThread t) RT_Object_Class_Thread name k;
     k \<leftarrow> rt_thread_setup t name priority tick k;
     Some (RT_EOK, k) }"

definition rt_thread_suspend :: "nat \<Rightarrow> kernel \<Rightarrow> (rt_err \<times> kernel) option" where
  "rt_thread_suspend t k =
     (if t_stat (threads k t) \<noteq> RT_THREAD_READY then Some (RT_ERROR, k)
      else do {
        k \<leftarrow> rt_schedule_remove_thread t (upd_thread t (\<lambda>th. th\<lparr> t_stat := RT_THREAD_SUSPEND \<rparr>) k);
        Some (RT_EOK, k) })"

definition rt_thread_resume :: "nat \<Rightarrow> kernel \<Rightarrow> (rt_err \<times> kernel) option" where
  "rt_thread_resume t k =
     (if t_stat (threads k t) \<noteq> RT_THREAD_SUSPEND then Some (RT_ERROR, k)
      else do {
        let k = k\<lparr> tlists := ls_remove t (tlists k) \<rparr>;
        let k = snd (rt_timer_stop (ThreadTimer t) k);
        k \<leftarrow> rt_schedule_insert_thread t k;
        Some (RT_EOK, k) })"

definition rt_thread_startup :: "nat \<Rightarrow> kernel \<Rightarrow> (rt_err \<times> kernel) option" where
  "rt_thread_startup t k = do {
     rt_assert (t_stat (threads k t) = RT_THREAD_INIT);
     mask \<leftarrow> priority_mask (t_init_priority (threads k t));
     let k = upd_thread t (\<lambda>th. th\<lparr> t_current_priority := t_init_priority th,
               t_number_mask := mask, t_stat := RT_THREAD_SUSPEND \<rparr>) k;
     (_, k) \<leftarrow> rt_thread_resume t k;
     k \<leftarrow> (if rt_thread_self k \<noteq> None then rt_schedule k else Some k);
     Some (RT_EOK, k) }"

definition rt_thread_detach :: "nat \<Rightarrow> kernel \<Rightarrow> (rt_err \<times> kernel) option" where
  "rt_thread_detach t k = do {
     k \<leftarrow> rt_schedule_remove_thread t k;
     let k = snd (rt_timer_detach (ThreadTimer t) k);
     let k = upd_thread t (\<lambda>th. th\<lparr> t_stat := RT_THREAD_CLOSE \<rparr>) k;
     let k = rt_object_detach (ObjThread t) k;
     k \<leftarrow> (if t_cleanup (threads k t)
           then do { ls \<leftarrow> ls_push DefunctQ t (tlists k); Some (k\<lparr> tlists := ls \<rparr>) }
           else Some k);
     Some (RT_EOK, k) }"

text \<open>\<open>mem\<close> and \<open>stack\<close> are the results of the two allocations.\<close>

definition rt_thread_create ::
  "nat option \<Rightarrow> bool \<Rightarrow> string \<Rightarrow> u8 \<Rightarrow> u32 \<Rightarrow> kernel \<Rightarrow> (nat option \<times> kernel) option" where
  "rt_thread_create mem stack name priority tick k = do {
     (_, k) \<leftarrow> rt_object_allocate (map_option ObjThread mem) RT_Object_Class_Thread name k;
     case mem of
       None \<Rightarrow> Some (None, k)
     | Some t \<Rightarrow>
         let k = upd_thread t (\<lambda>_. thread0) k
         in if \<not> stack then do { k \<leftarrow> rt_object_delete (ObjThread t) k; Some (None, k) }
            else do { k \<leftarrow> rt_thread_setup t name priority tick k; Some (Some t, k) } }"

definition rt_thread_delete :: "nat \<Rightarrow> kernel \<Rightarrow> (rt_err \<times> kernel) option" where
  "rt_thread_delete t k = do {
     k \<leftarrow> rt_schedule_remove_thread t k;
     let k = snd (rt_timer_detach (ThreadTimer t) k);
     let k = upd_thread t (\<lambda>th. th\<lparr> t_stat := RT_THREAD_CLOSE \<rparr>) k;
     ls \<leftarrow> ls_push DefunctQ t (tlists k);
     Some (RT_EOK, k\<lparr> tlists := ls \<rparr>) }"

text \<open>\<^verbatim>\<open>tlist.next != tlist.prev\<close>: a node that is alone in its list has the head on both sides, a
  node in no list has itself.\<close>

definition tlist_shared :: "nat \<Rightarrow> kernel \<Rightarrow> bool" where
  "tlist_shared t k \<longleftrightarrow>
     (case home (tlists k) t of None \<Rightarrow> False | Some q \<Rightarrow> length (items (tlists k) q) \<noteq> 1)"

definition rt_thread_yield :: "kernel \<Rightarrow> (rt_err \<times> kernel) option" where
  "rt_thread_yield k = do {
     t \<leftarrow> rt_current_thread k;
     if t_stat (threads k t) = RT_THREAD_READY \<and> tlist_shared t k then do {
       let k = k\<lparr> tlists := ls_remove t (tlists k) \<rparr>;
       row \<leftarrow> ready_row (t_current_priority (threads k t));
       ls \<leftarrow> ls_append row t (tlists k);
       k \<leftarrow> rt_schedule (k\<lparr> tlists := ls \<rparr>);
       Some (RT_EOK, k) }
     else Some (RT_EOK, k) }"

text \<open>Setting and starting the timer of a thread, as every wait with a timeout does.\<close>

definition start_thread_timer :: "nat \<Rightarrow> u32 \<Rightarrow> kernel \<Rightarrow> kernel option" where
  "start_thread_timer t tick k =
     (case rt_timer_control (ThreadTimer t) 0x0 tick k of
        (_, _, k) \<Rightarrow> map_option snd (rt_timer_start (ThreadTimer t) k))"

definition rt_thread_sleep :: "u32 \<Rightarrow> kernel \<Rightarrow> kernel option" where
  "rt_thread_sleep tick k = do {
     t \<leftarrow> rt_current_thread k;
     (_, k) \<leftarrow> rt_thread_suspend t k;
     k \<leftarrow> start_thread_timer t tick k;
     rt_schedule k }"

definition rt_thread_sleep_resumed :: "nat \<Rightarrow> kernel \<Rightarrow> rt_err \<times> kernel" where
  "rt_thread_sleep_resumed t k =
     (RT_EOK, if t_error (threads k t) = RT_ETIMEOUT
              then upd_thread t (\<lambda>th. th\<lparr> t_error := RT_EOK \<rparr>) k else k)"

definition rt_thread_delay :: "u32 \<Rightarrow> kernel \<Rightarrow> kernel option" where
  "rt_thread_delay tick k = rt_thread_sleep tick k"

definition change_priority :: "nat \<Rightarrow> u8 \<Rightarrow> kernel \<Rightarrow> kernel option" where
  "change_priority t p k = do {
     mask \<leftarrow> priority_mask p;
     Some (upd_thread t (\<lambda>th. th\<lparr> t_current_priority := p, t_number_mask := mask \<rparr>) k) }"

definition rt_thread_control :: "nat \<Rightarrow> u8 \<Rightarrow> u8 \<Rightarrow> kernel \<Rightarrow> (rt_err \<times> kernel) option" where
  "rt_thread_control t cmd arg k =
     (if cmd = 0x02 then do {
        k \<leftarrow> (if t_stat (threads k t) = RT_THREAD_READY then do {
                k \<leftarrow> rt_schedule_remove_thread t k;
                k \<leftarrow> change_priority t arg k;
                rt_schedule_insert_thread t k }
              else change_priority t arg k);
        Some (RT_EOK, k) }
      else if cmd = 0x00 then rt_thread_startup t k
      else if cmd = 0x01 then rt_thread_delete t k
      else Some (RT_EOK, k))"

definition rt_thread_timeout :: "nat \<Rightarrow> kernel \<Rightarrow> kernel option" where
  "rt_thread_timeout t k = do {
     rt_assert (t_stat (threads k t) = RT_THREAD_SUSPEND);
     let k = upd_thread t (\<lambda>th. th\<lparr> t_error := RT_ETIMEOUT \<rparr>) k;
     let k = k\<lparr> tlists := ls_remove t (tlists k) \<rparr>;
     k \<leftarrow> rt_schedule_insert_thread t k;
     rt_schedule k }"

definition rt_thread_find :: "string \<Rightarrow> kernel \<Rightarrow> (obj_id option \<times> kernel) option" where
  "rt_thread_find name k = do {
     let k = (if rt_thread_self k \<noteq> None then rt_enter_critical k else k);
     let found = find (\<lambda>x. obj_name (objs k x) = take RT_NAME_MAX name)
                   (items (containers k) RT_Object_Class_Thread);
     k \<leftarrow> (if rt_thread_self k \<noteq> None then rt_exit_critical k else Some k);
     Some (found, k) }"

section \<open>The tick (src/clock.c)\<close>

text \<open>\<open>run\<close> calls a timeout function; \<open>ucb\<close> stands for the functions of the application.\<close>

fun timeout_calls :: "(nat \<Rightarrow> kernel \<Rightarrow> kernel option) \<Rightarrow> timeout_fn \<Rightarrow> kernel \<Rightarrow> kernel option" where
  "timeout_calls ucb (ThreadTimeout t) k = rt_thread_timeout t k"
| "timeout_calls ucb (UserTimeout u) k = ucb u k"

definition rt_tick_get :: "kernel \<Rightarrow> u32" where
  "rt_tick_get k = rt_tick k"

definition rt_tick_set :: "u32 \<Rightarrow> kernel \<Rightarrow> kernel" where
  "rt_tick_set tick k = k\<lparr> rt_tick := tick \<rparr>"

definition rt_tick_increase ::
  "(timeout_fn \<Rightarrow> kernel \<Rightarrow> kernel option) \<Rightarrow> kernel \<Rightarrow> kernel option" where
  "rt_tick_increase run k = do {
     let k = k\<lparr> rt_tick := rt_tick k + 1 \<rparr>;
     t \<leftarrow> rt_thread_self k;
     let k = upd_thread t (\<lambda>th. th\<lparr> t_remaining_tick := t_remaining_tick th - 1 \<rparr>) k;
     k \<leftarrow> (if t_remaining_tick (threads k t) = 0 then do {
             let k = upd_thread t (\<lambda>th. th\<lparr> t_remaining_tick := t_init_tick th \<rparr>) k;
             (_, k) \<leftarrow> rt_thread_yield k;
             Some k }
           else Some k);
     rt_timer_check run k }"

definition RT_TICK_PER_SECOND :: u32 where "RT_TICK_PER_SECOND = 100"

definition rt_tick_from_millisecond :: "u32 \<Rightarrow> u32" where
  "rt_tick_from_millisecond ms = (RT_TICK_PER_SECOND * ms + 999) div 1000"

section \<open>The idle thread (src/idle.c)\<close>

text \<open>\<open>cleanup\<close> stands for the \<^verbatim>\<open>cleanup\<close> functions the application installed.\<close>

partial_function (option) rt_thread_idle_excute ::
  "(nat \<Rightarrow> kernel \<Rightarrow> kernel option) \<Rightarrow> kernel \<Rightarrow> kernel option" where
  "rt_thread_idle_excute cleanup k =
     (if ls_isempty DefunctQ (tlists k) then Some k
      else do {
        rt_debug_not_in_interrupt k;
        t \<leftarrow> ls_first DefunctQ (tlists k);
        let k = k\<lparr> tlists := ls_remove t (tlists k) \<rparr>;
        k \<leftarrow> (if t_cleanup (threads k t) then cleanup t k else Some k);
        if rt_object_is_systemobject (ObjThread t) k then Some k
        else do {
          k \<leftarrow> rt_object_delete (ObjThread t) k;
          rt_thread_idle_excute cleanup k } })"

section \<open>Rules for suspending, resuming and timing out\<close>

lemma timers_ok_cong:
  assumes "timers k' = timers k" "timer_list k' = timer_list k" "rt_tick k' = rt_tick k"
    "\<And>i. timer_flag i k' = timer_flag i k"
    "\<And>t. ThreadTimer t \<in> set (timer_list k) \<Longrightarrow> t_stat (threads k' t) = t_stat (threads k t)"
  shows "timers_ok lb k' \<longleftrightarrow> timers_ok lb k"
proof -
  have s: "timers_sorted lb k' \<longleftrightarrow> timers_sorted lb k"
    by (rule timers_sorted_cong) (simp_all add: assms)
  have l: "timer_activated i k' \<and> timer_live k' i \<longleftrightarrow> timer_activated i k \<and> timer_live k i"
    if "i \<in> set (timer_list k)" for i
  proof (cases i)
    case (ThreadTimer t)
    then have "t_stat (threads k' t) = t_stat (threads k t)" using assms(5) that by simp
    then show ?thesis using ThreadTimer assms(4) [of i]
      by (simp add: timer_live_def timer_activated_def timer_periodic_def assms(1))
  next
    case (UserTimer u)
    then show ?thesis using assms(4) [of i]
      by (simp add: timer_live_def timer_activated_def timer_periodic_def assms(1))
  qed
  show ?thesis unfolding timers_ok_def s assms(2)
    using l by (auto simp: thread_timers_def timer_periodic_def assms(1,4))
qed

lemma timers_ok_other [simp]:
  "timers_ok lb (k\<lparr> containers := cs \<rparr>) \<longleftrightarrow> timers_ok lb k"
  "timers_ok lb (k\<lparr> tlists := ls \<rparr>) \<longleftrightarrow> timers_ok lb k"
  "timers_ok lb (k\<lparr> ready_group := g \<rparr>) \<longleftrightarrow> timers_ok lb k"
  "timers_ok lb (k\<lparr> rt_current_thread := c \<rparr>) \<longleftrightarrow> timers_ok lb k"
  "timers_ok lb (k\<lparr> rt_current_priority := p \<rparr>) \<longleftrightarrow> timers_ok lb k"
  "timers_ok lb (k\<lparr> lock_nest := l \<rparr>) \<longleftrightarrow> timers_ok lb k"
  "timers_ok lb (k\<lparr> interrupt_nest := i \<rparr>) \<longleftrightarrow> timers_ok lb k"
  "timers_ok lb (k\<lparr> sems := sm \<rparr>) \<longleftrightarrow> timers_ok lb k"
  "timers_ok lb (k\<lparr> mutexes := mu \<rparr>) \<longleftrightarrow> timers_ok lb k"
  "timers_ok lb (k\<lparr> events := ev \<rparr>) \<longleftrightarrow> timers_ok lb k"
  "timers_ok lb (k\<lparr> mailboxes := mb \<rparr>) \<longleftrightarrow> timers_ok lb k"
  "timers_ok lb (k\<lparr> mqs := mq \<rparr>) \<longleftrightarrow> timers_ok lb k"
  "timers_ok lb (k\<lparr> mempools := mp \<rparr>) \<longleftrightarrow> timers_ok lb k"
  by (rule timers_ok_cong; simp add: timer_flag_def)+

lemma timers_ok_upd_thread:
  assumes "ThreadTimer t \<in> set (timer_list k) \<Longrightarrow> t_stat (f (threads k t)) = t_stat (threads k t)"
  shows "timers_ok lb (upd_thread t f k) \<longleftrightarrow> timers_ok lb k"
  by (rule timers_ok_cong) (use assms in \<open>auto simp: upd_thread_def timer_flag_def\<close>)

text \<open>A thread whose timer runs is suspended.\<close>

lemma timer_of_suspended:
  "timers_ok lb k \<Longrightarrow> t_stat (threads k t) \<noteq> RT_THREAD_SUSPEND \<Longrightarrow> ThreadTimer t \<notin> set (timer_list k)"
  by (auto simp: timers_ok_def timer_live_def)

lemma upd_thread_simps [simp]:
  "threads (upd_thread t f k) = (threads k)(t := f (threads k t))"
  "tlists (upd_thread t f k) = tlists k"
  "ready_group (upd_thread t f k) = ready_group k"
  "timers (upd_thread t f k) = timers k"
  "timer_list (upd_thread t f k) = timer_list k"
  "rt_tick (upd_thread t f k) = rt_tick k"
  "rt_current_thread (upd_thread t f k) = rt_current_thread k"
  "lock_nest (upd_thread t f k) = lock_nest k"
  "objs (upd_thread t f k) = objs k"
  "timer_flag i (upd_thread t f k) = timer_flag i k"
  by (simp_all add: upd_thread_def timer_flag_def)

lemma sched_but_upd: "t \<in> A \<Longrightarrow> sched_but A (upd_thread t f k) \<longleftrightarrow> sched_but A k"
  by (rule sched_but_cong) auto

lemma sched_but_single: "sched_inv k \<Longrightarrow> sched_but {t} k"
  by (erule sched_but_mono) simp

lemma sched_inv_finish:
  "sched_but {t} k \<Longrightarrow> thread_ok (threads k t) (home (tlists k) t) \<Longrightarrow> sched_inv k"
  by (auto simp: sched_but_def)

text \<open>Suspending a ready thread.\<close>

lemma suspend_runs [wp]:
  assumes ok: "kernel_ok lb k" and r: "ready k t"
    and Q: "\<And>k' g. k' = k\<lparr> threads := (threads k)(t := (threads k t)\<lparr> t_stat := RT_THREAD_SUSPEND \<rparr>),
                  tlists := ls_remove t (tlists k), ready_group := g \<rparr> \<Longrightarrow>
              kernel_ok lb k' \<Longrightarrow> Q (RT_EOK, k')"
  shows "runs Q (rt_thread_suspend t k)"
proof -
  let ?k = "upd_thread t (\<lambda>th. th\<lparr> t_stat := RT_THREAD_SUSPEND \<rparr>) k"
  have s: "sched_inv k" and tm: "timers_ok lb k" using ok by (simp_all add: kernel_ok_def)
  have tok: "home (tlists k) t = Some (ReadyQ (unat (t_current_priority (threads k t))))"
    "prio_ok (threads k t)" "t_number_mask (threads k t) = prio_mask (threads k t)"
    using sched_butD(3) [OF s, of t] r by (simp_all add: thread_ok_def ready_def)
  have tm': "timers_ok lb ?k"
    using timer_of_suspended [OF tm, of t] r tm by (subst timers_ok_upd_thread) (auto simp: ready_def)
  have "runs (\<lambda>k'. Q (RT_EOK, k')) (rt_schedule_remove_thread t ?k)"
  proof (rule remove_thread_runs)
    show "sched_but {t} ?k" using sched_but_single [OF s] by (simp add: sched_but_upd)
    show "prio_ok (threads ?k t)" using tok by (simp add: prio_ok_def)
    show "t_number_mask (threads ?k t) = 0 \<or> t_number_mask (threads ?k t) = prio_mask (threads ?k t)"
      using tok by (simp add: prio_mask_def)
    show "q = unat (t_current_priority (threads ?k t)) \<and> t_number_mask (threads ?k t) = prio_mask (threads ?k t)"
      if "home (tlists ?k) t = Some (ReadyQ q)" for q
      using tok that by (simp add: prio_mask_def)
    fix k' g assume k': "k' = ?k\<lparr> tlists := ls_remove t (tlists ?k), ready_group := g \<rparr>" "sched_but {t} k'"
    have "thread_ok (threads k' t) (home (tlists k') t)"
      using tok by (simp add: k' thread_ok_def prio_ok_def prio_mask_def)
    then have "sched_inv k'" using k'(2) by (rule sched_inv_finish [rotated])
    moreover have "timers_ok lb k'" using tm' by (simp add: k')
    ultimately show "Q (RT_EOK, k')"
      by (intro Q [of k' g]) (simp_all add: k'(1) kernel_ok_def upd_thread_def)
  qed
  then show ?thesis using r by (simp add: rt_thread_suspend_def ready_def)
qed

text \<open>Making a suspended thread ready again, its timer being out of the list.\<close>

lemma wake_runs:
  assumes s: "sched_inv k" and r: "t_stat (threads k t) = RT_THREAD_SUSPEND"
    and k1: "k1 = k\<lparr> threads := (threads k)(t := th), tlists := ls_remove t (tlists k), objs := ob,
                    timer_list := tis \<rparr>"
    and th: "t_current_priority th = t_current_priority (threads k t)"
      "t_number_mask th = t_number_mask (threads k t)"
    and tm: "timers_ok lb k1" "ThreadTimer t \<notin> set tis"
    and Q: "\<And>k' ls g. k' = k1\<lparr> threads := (threads k)(t := th\<lparr> t_stat := RT_THREAD_READY \<rparr>),
                  tlists := ls, ready_group := g \<rparr> \<Longrightarrow>
              home ls = (home (tlists k))(t \<mapsto> ReadyQ (unat (t_current_priority th))) \<Longrightarrow>
              (\<And>q. items ls q = (if q = ReadyQ (unat (t_current_priority th)) then items (tlists k) q @ [t]
                               else remove1 t (items (tlists k) q))) \<Longrightarrow>
              kernel_ok lb k' \<Longrightarrow> Q k'"
  shows "runs Q (rt_schedule_insert_thread t k1)"
proof (rule insert_thread_runs)
  have tok: "prio_ok (threads k t)" "t_number_mask (threads k t) = prio_mask (threads k t)"
    using sched_butD(3) [OF s, of t] r by (simp_all add: thread_ok_def)
  show "home (tlists k1) t = None" by (simp add: k1)
  show "prio_ok (threads k1 t)" "t_number_mask (threads k1 t) = prio_mask (threads k1 t)"
    using tok th by (simp_all add: k1 prio_ok_def prio_mask_def)
  have nr: "\<And>p. home (tlists k) t \<noteq> Some (ReadyQ p)"
    using sched_butD(3) [OF s, of t] r by (simp add: thread_ok_def)
  have rows: "items (ls_remove t (tlists k)) (ReadyQ p) = items (tlists k) (ReadyQ p)" for p
    using nr [of p] lists_okD(2) [OF sched_butD(1) [OF s], of t "ReadyQ p"]
    by (auto simp: items_remove [OF sched_butD(1) [OF s]] intro: remove1_idem)
  show "sched_but {t} k1"
    using sched_butD [OF s] lists_ok_remove [OF sched_butD(1) [OF s], of t]
    by (auto simp: sched_but_def group_ok_def k1 rows)
  fix k' ls g
  assume k': "k' = k1\<lparr> threads := (threads k1)(t := (threads k1 t)\<lparr> t_stat := RT_THREAD_READY \<rparr>),
      tlists := ls, ready_group := g \<rparr>" "sched_inv k'"
    and h: "home ls = (home (tlists k1))(t \<mapsto> ReadyQ (unat (t_current_priority (threads k1 t))))"
    and it: "items ls = (items (tlists k1))(ReadyQ (unat (t_current_priority (threads k1 t))) :=
        items (tlists k1) (ReadyQ (unat (t_current_priority (threads k1 t)))) @ [t])"
  have it': "items ls q = (if q = ReadyQ (unat (t_current_priority th)) then items (tlists k) q @ [t]
      else remove1 t (items (tlists k) q))" for q
    using rows by (simp add: it k1 items_remove [OF sched_butD(1) [OF s]])
  have "timers_ok lb k' \<longleftrightarrow> timers_ok lb k1"
    by (rule timers_ok_cong) (use tm(2) in \<open>auto simp: k' k1 timer_flag_def\<close>)
  then show "Q k'"
    using k' h it' tm(1) by (intro Q [of k' g ls]) (simp_all add: k1 kernel_ok_def)
qed

text \<open>The state after a suspended thread was made ready: its timer is stopped, it is the last of
  its row, and nothing else has changed.\<close>

definition woken :: "nat \<Rightarrow> rt_thread \<Rightarrow> kernel \<Rightarrow> kernel \<Rightarrow> bool" where
  "woken t th k k' \<longleftrightarrow>
     (\<exists>ls g ob tis. k' = k\<lparr> threads := (threads k)(t := th\<lparr> t_stat := RT_THREAD_READY \<rparr>), tlists := ls,
           ready_group := g, objs := ob, timer_list := tis \<rparr>
        \<and> home ls = (home (tlists k))(t \<mapsto> ReadyQ (unat (t_current_priority th)))
        \<and> (\<forall>q. items ls q = (if q = ReadyQ (unat (t_current_priority th)) then items (tlists k) q @ [t]
                             else remove1 t (items (tlists k) q)))
        \<and> (\<forall>x. x \<noteq> ObjTimer (ThreadTimer t) \<longrightarrow> ob x = objs k x)
        \<and> tis = remove1 (ThreadTimer t) (timer_list k))"

lemma wokenD:
  assumes "woken t th k k'"
  shows "threads k' = (threads k)(t := th\<lparr> t_stat := RT_THREAD_READY \<rparr>)"
    "home (tlists k') = (home (tlists k))(t \<mapsto> ReadyQ (unat (t_current_priority th)))"
    "items (tlists k') q = (if q = ReadyQ (unat (t_current_priority th)) then items (tlists k) q @ [t]
                           else remove1 t (items (tlists k) q))"
    "x \<noteq> ObjTimer (ThreadTimer t) \<Longrightarrow> objs k' x = objs k x"
    "timer_list k' = remove1 (ThreadTimer t) (timer_list k)"
    "timers k' = timers k" "rt_tick k' = rt_tick k" "rt_current_thread k' = rt_current_thread k"
    "lock_nest k' = lock_nest k" "interrupt_nest k' = interrupt_nest k"
    "rt_current_priority k' = rt_current_priority k" "containers k' = containers k"
    "sems k' = sems k" "mutexes k' = mutexes k" "events k' = events k" "mailboxes k' = mailboxes k"
    "mqs k' = mqs k" "ready k' u = (u = t \<or> ready k u)" "mempools k' = mempools k"
  using assms by (auto simp: woken_def ready_def split: if_splits)

lemma resume_runs [wp]:
  assumes ok: "kernel_ok lb k" and r: "t_stat (threads k t) = RT_THREAD_SUSPEND"
    and Q: "\<And>k'. kernel_ok lb k' \<Longrightarrow> woken t (threads k t) k k' \<Longrightarrow>
              \<not> timer_activated (ThreadTimer t) k' \<Longrightarrow> Q (RT_EOK, k')"
  shows "runs Q (rt_thread_resume t k)"
proof -
  let ?k = "k\<lparr> tlists := ls_remove t (tlists k) \<rparr>"
  have s: "sched_inv k" and tm: "timers_ok lb ?k" using ok by (simp_all add: kernel_ok_def)
  have "runs (\<lambda>k'. Q (RT_EOK, k')) (rt_schedule_insert_thread t (snd (rt_timer_stop (ThreadTimer t) ?k)))"
  proof (rule timer_stop_wp [OF tm, where Q = "\<lambda>r. runs (\<lambda>k'. Q (RT_EOK, k')) (rt_schedule_insert_thread t (snd r))"])
    fix k1 f e
    assume k1: "k1 = ?k\<lparr> timer_list := remove1 (ThreadTimer t) (timer_list ?k),
        objs := (objs ?k)(ObjTimer (ThreadTimer t) := (objs ?k (ObjTimer (ThreadTimer t)))\<lparr> obj_flag := f \<rparr>) \<rparr>"
      and tm1: "timers_ok lb k1" "ThreadTimer t \<notin> set (timer_list k1)"
      and na: "\<not> timer_activated (ThreadTimer t) k1"
    show "runs (\<lambda>k'. Q (RT_EOK, k')) (rt_schedule_insert_thread t (snd (e, k1)))"
      unfolding snd_conv
    proof (rule wake_runs [OF s r, where th = "threads k t" and ob = "objs k1" and tis = "timer_list k1"])
      show "k1 = k\<lparr> threads := (threads k)(t := threads k t), tlists := ls_remove t (tlists k),
          objs := objs k1, timer_list := timer_list k1 \<rparr>"
        by (simp add: k1)
      fix k' ls g
      assume k': "k' = k1\<lparr> threads := (threads k)(t := (threads k t)\<lparr> t_stat := RT_THREAD_READY \<rparr>),
          tlists := ls, ready_group := g \<rparr>" "kernel_ok lb k'"
        and ls: "home ls = (home (tlists k))(t \<mapsto> ReadyQ (unat (t_current_priority (threads k t))))"
          "\<And>q. items ls q = (if q = ReadyQ (unat (t_current_priority (threads k t)))
             then items (tlists k) q @ [t] else remove1 t (items (tlists k) q))"
      have "woken t (threads k t) k k'"
        unfolding woken_def
        by (intro exI [of _ ls] exI [of _ g] exI [of _ "objs k1"] exI [of _ "timer_list k1"])
          (use ls in \<open>simp add: k'(1) k1\<close>)
      moreover have "\<not> timer_activated (ThreadTimer t) k'"
        using na by (simp add: k'(1) timer_activated_def timer_flag_def)
      ultimately show "Q (RT_EOK, k')" using k'(2) by (intro Q)
    qed (use tm1 in simp_all)
  qed
  then show ?thesis using r by (simp add: rt_thread_resume_def Let_def)
qed

text \<open>The effect of a call of the scheduler.\<close>

definition switched :: "kernel \<Rightarrow> kernel \<Rightarrow> bool" where
  "switched k k' \<longleftrightarrow> (\<exists>p t. k' = k\<lparr> rt_current_priority := p, rt_current_thread := Some t \<rparr>
     \<and> (if lock_nest k = 0 then most_urgent k t else k' = k))"

lemma switch_runs [wp]:
  assumes "sched_inv k" "running k" and Q: "\<And>k'. switched k k' \<Longrightarrow> Q k'"
  shows "runs Q (rt_schedule k)"
proof (rule schedule_runs)
  fix k' t p assume "k' = k\<lparr> rt_current_priority := p, rt_current_thread := Some t \<rparr>"
    "lock_nest k = 0" "most_urgent k t"
  then show "Q k'" by (intro Q) (auto simp: switched_def)
next
  assume "lock_nest k = 0" "\<exists>t. rt_current_thread k = Some t \<and> most_urgent k t"
  then obtain t where t: "rt_current_thread k = Some t" "most_urgent k t" "lock_nest k = 0" by blast
  have "switched k k"
    unfolding switched_def by (intro exI [of _ "rt_current_priority k"] exI [of _ t]) (use t in simp)
  then show "Q k" by (rule Q)
next
  assume l: "lock_nest k \<noteq> 0"
  obtain t where t: "rt_current_thread k = Some t" using assms(2) by (auto simp: running_def)
  have "switched k k"
    unfolding switched_def by (intro exI [of _ "rt_current_priority k"] exI [of _ t]) (use t l in simp)
  then show "Q k" by (rule Q)
qed (use assms in \<open>auto simp: running_def\<close>)

lemma switchedD:
  assumes "switched k k'"
  shows "threads k' = threads k" "tlists k' = tlists k" "objs k' = objs k" "timers k' = timers k"
    "timer_list k' = timer_list k" "rt_tick k' = rt_tick k" "lock_nest k' = lock_nest k"
    "interrupt_nest k' = interrupt_nest k" "containers k' = containers k" "ready_group k' = ready_group k"
    "sems k' = sems k" "mutexes k' = mutexes k" "events k' = events k" "mailboxes k' = mailboxes k"
    "mqs k' = mqs k" "ready k' = ready k" "sched_but A k' = sched_but A k"
    "timers_ok lb k' = timers_ok lb k" "kernel_ok lb k' = kernel_ok lb k" "quiet B k' = quiet B k"
    "rt_current_thread k' \<noteq> None" "timer_flag i k' = timer_flag i k" "timer_key k' i = timer_key k i" "mempools k' = mempools k"
  using assms
  by (auto simp: switched_def kernel_ok_def quiet_def timer_activated_def timer_flag_def)

lemma switched_current:
  "switched k k' \<Longrightarrow> lock_nest k = 0 \<Longrightarrow> \<exists>t. rt_current_thread k' = Some t \<and> most_urgent k t"
  by (auto simp: switched_def)

text \<open>A wait that timed out.\<close>

lemma timeout_runs [wp]:
  assumes ok: "kernel_ok lb k" and c: "rt_current_thread k \<noteq> None"
    and r: "t_stat (threads k t) = RT_THREAD_SUSPEND" and n: "ThreadTimer t \<notin> set (timer_list k)"
    and Q: "\<And>k1 k'. woken t ((threads k t)\<lparr> t_error := RT_ETIMEOUT \<rparr>) k k1 \<Longrightarrow> objs k1 = objs k \<Longrightarrow>
              switched k1 k' \<Longrightarrow> kernel_ok lb k' \<Longrightarrow> Q k'"
  shows "runs Q (rt_thread_timeout t k)"
proof -
  let ?th = "(threads k t)\<lparr> t_error := RT_ETIMEOUT \<rparr>"
  define k1 where "k1 = (upd_thread t (\<lambda>th. th\<lparr> t_error := RT_ETIMEOUT \<rparr>) k)\<lparr> tlists := ls_remove t (tlists k) \<rparr>"
  have s: "sched_inv k" and tm: "timers_ok lb k1"
    using ok by (simp_all add: kernel_ok_def k1_def timers_ok_upd_thread)
  have "runs (\<lambda>k'. runs Q (rt_schedule k')) (rt_schedule_insert_thread t k1)"
  proof (rule wake_runs [OF s r, where th = ?th and ob = "objs k" and tis = "timer_list k"])
    show "k1 = k\<lparr> threads := (threads k)(t := ?th), tlists := ls_remove t (tlists k), objs := objs k,
        timer_list := timer_list k \<rparr>"
      by (simp add: k1_def upd_thread_def)
    fix k2 ls g
    assume k2: "k2 = k1\<lparr> threads := (threads k)(t := ?th\<lparr> t_stat := RT_THREAD_READY \<rparr>), tlists := ls,
        ready_group := g \<rparr>" "kernel_ok lb k2"
      and ls: "home ls = (home (tlists k))(t \<mapsto> ReadyQ (unat (t_current_priority ?th)))"
        "\<And>q. items ls q = (if q = ReadyQ (unat (t_current_priority ?th)) then items (tlists k) q @ [t]
           else remove1 t (items (tlists k) q))"
    have w: "woken t ?th k k2"
      unfolding woken_def
      by (intro exI [of _ ls] exI [of _ g] exI [of _ "objs k"] exI [of _ "timer_list k"])
        (use ls n in \<open>simp add: k2(1) k1_def upd_thread_def remove1_idem\<close>)
    have "sched_inv k2" using k2(2) by (simp add: kernel_ok_def)
    moreover have "running k2" using wokenD(8) [OF w] wokenD(18) [OF w, of t] c by (auto simp: running_def)
    ultimately show "runs Q (rt_schedule k2)"
    proof (rule switch_runs)
      fix k' assume sw: "switched k2 k'"
      show "Q k'"
        by (rule Q [OF w _ sw]) (use k2 switchedD(19) [OF sw] in \<open>simp_all add: k1_def\<close>)
    qed
  qed (use tm n in simp_all)
  then show ?thesis using r by (simp add: rt_thread_timeout_def k1_def Let_def)
qed

section \<open>The tick interrupt\<close>

text \<open>What \<^verbatim>\<open>rt_timer_check\<close> relies on in the timeout functions of the application, which no comment of the source
  says: they return, keep the invariant and the tick, do not leave their own timer in the list (the check would
  insert it a second time) and start no timer that is due at once (the check might not end). With the invariants
  that survive the wake-up of a thread it makes \<open>timeout_calls\<close> a timeout handler.\<close>

definition user_timeouts :: "(nat \<Rightarrow> kernel \<Rightarrow> kernel option) \<Rightarrow> (kernel \<Rightarrow> bool) \<Rightarrow> bool" where
  "user_timeouts ucb J \<longleftrightarrow> (\<forall>k i f. kernel_ok 0 k \<longrightarrow> quiet {} k \<longrightarrow> J k \<longrightarrow>
     i \<notin> set (timer_list k) \<longrightarrow> timer_live k i \<longrightarrow> timeout_func (timers k i) = UserTimeout f \<longrightarrow>
     runs (\<lambda>k'. kernel_ok 0 k' \<and> quiet {i} k' \<and> J k' \<and> rt_tick k' = rt_tick k
            \<and> i \<notin> set (timer_list k') \<and> (timer_periodic i k' \<longrightarrow> timer_live k' i)
            \<and> expired_timers k' \<subseteq> expired_timers k) (ucb f k))"

locale wake_closed =
  fixes J :: "kernel \<Rightarrow> bool"
  assumes wc_running: "J k \<Longrightarrow> running k"
    and wc_timers: "J k \<Longrightarrow> timer_change k k' \<Longrightarrow> J k'"
    and wc_woken: "J k \<Longrightarrow> t_stat (threads k t) = RT_THREAD_SUSPEND \<Longrightarrow>
      woken t ((threads k t)\<lparr> t_error := e \<rparr>) k k' \<Longrightarrow> J k'"
    and wc_switched: "J k \<Longrightarrow> switched k k' \<Longrightarrow> J k'"
begin

lemma handler:
  assumes u: "user_timeouts ucb J"
  shows "timeout_handler (timeout_calls ucb) J"
proof
  fix k i
  assume ok: "kernel_ok 0 k" and q: "quiet {} k" and I: "J k" and n: "i \<notin> set (timer_list k)"
    and l: "timer_live k i"
  let ?P = "\<lambda>k'. kernel_ok 0 k' \<and> quiet {i} k' \<and> J k' \<and> rt_tick k' = rt_tick k
            \<and> i \<notin> set (timer_list k') \<and> (timer_periodic i k' \<longrightarrow> timer_live k' i)
            \<and> expired_timers k' \<subseteq> expired_timers k"
  show "runs ?P (timeout_calls ucb (timeout_func (timers k i)) k)"
  proof (cases i)
    case (UserTimer v)
    then obtain f where "timeout_func (timers k i) = UserTimeout f" using l by (auto simp: timer_live_def)
    then show ?thesis using u ok q I n l by (auto simp: user_timeouts_def)
  next
    case (ThreadTimer t)
    have f: "timeout_func (timers k i) = ThreadTimeout t" "t_stat (threads k t) = RT_THREAD_SUSPEND"
      using l ThreadTimer by (simp_all add: timer_live_def)
    have "runs ?P (rt_thread_timeout t k)"
    proof (rule timeout_runs [OF ok _ f(2)])
      fix k1 k'
      assume w: "woken t ((threads k t)\<lparr> t_error := RT_ETIMEOUT \<rparr>) k k1" and ob: "objs k1 = objs k"
        and sw: "switched k1 k'" and ok': "kernel_ok 0 k'"
      have "J k'" using wc_switched [OF wc_woken [OF I f(2) w] sw] .
      moreover have tl: "timer_list k' = timer_list k"
        using wokenD(5) [OF w] switchedD(5) [OF sw] n ThreadTimer by (simp add: remove1_idem)
      moreover have "timer_key k' j = timer_key k j" for j
        using wokenD(6,7) [OF w] switchedD(4,6) [OF sw] by (simp add: timer_key_def)
      moreover have "quiet {i} k'"
        using q ThreadTimer wokenD(18) [OF w] ob
        by (auto simp: quiet_def switchedD [OF sw] timer_activated_def timer_flag_def)
      moreover have "\<not> timer_periodic i k'"
        using ok' ThreadTimer by (auto simp: kernel_ok_def timers_ok_def thread_timers_def)
      ultimately show "?P k'"
        using ok' n wokenD(7) [OF w] switchedD(6) [OF sw] by (simp add: expired_timers_def)
    qed (use wc_running [OF I] n ThreadTimer in \<open>auto simp: running_def\<close>)
    then show ?thesis using f(1) by simp
  qed
qed (use wc_running wc_timers in auto)

end

text \<open>The idle thread is ready at all times, and some thread is current.\<close>

definition alive :: "nat \<Rightarrow> kernel \<Rightarrow> bool" where
  "alive idle k \<longleftrightarrow> ready k idle \<and> rt_current_thread k \<noteq> None"

interpretation alive: wake_closed "alive idle" for idle
proof
  show "alive idle k \<Longrightarrow> running k" for k by (auto simp: alive_def running_def)
  show "alive idle k \<Longrightarrow> timer_change k k' \<Longrightarrow> alive idle k'" for k k'
    by (auto simp: alive_def timer_change_def)
  show "alive idle k'" if "alive idle k" "woken t ((threads k t)\<lparr> t_error := e \<rparr>) k k'" for k k' t e
    using that(1) wokenD(8,18) [OF that(2)] by (simp add: alive_def)
  show "alive idle k \<Longrightarrow> switched k k' \<Longrightarrow> alive idle k'" for k k'
    by (auto simp: alive_def switchedD)
qed

text \<open>An application without timers of its own.\<close>

lemma user_timeouts_none: "user_timeouts (\<lambda>_. Some) J"
  by (auto simp: user_timeouts_def quiet_def)

interpretation tick: timeout_handler "timeout_calls (\<lambda>_. Some)" "alive idle" for idle
  by (rule alive.handler) (rule user_timeouts_none)

section \<open>The invariant between kernel calls\<close>

definition kernel_inv :: "nat \<Rightarrow> kernel \<Rightarrow> bool" where
  "kernel_inv idle k \<longleftrightarrow> kernel_ok 1 k \<and> quiet {} k \<and> alive idle k"

lemma kernel_invD:
  assumes "kernel_inv idle k"
  shows "kernel_ok 1 k" "sched_inv k" "timers_ok 1 k" "quiet {} k" "alive idle k" "ready k idle"
    "rt_current_thread k \<noteq> None" "running k"
  using assms by (auto simp: kernel_inv_def kernel_ok_def alive_def running_def)

lemma kernel_inv_switched: "switched k k' \<Longrightarrow> kernel_inv idle k' \<longleftrightarrow> kernel_ok 1 k \<and> quiet {} k \<and> ready k idle"
  by (auto simp: kernel_inv_def alive_def switchedD)

text \<open>Giving the processor to the next thread of the same priority.\<close>

definition yielded :: "nat \<Rightarrow> kernel \<Rightarrow> kernel \<Rightarrow> kernel \<Rightarrow> bool" where
  "yielded t k k1 k' \<longleftrightarrow> (ready k t \<and> tlist_shared t k \<longrightarrow> switched k1 k'
     \<and> (let q = ReadyQ (unat (t_current_priority (threads k t)))
        in items (tlists k1) = (items (tlists k))(q := remove1 t (items (tlists k) q) @ [t])))"

lemma yield_runs [wp]:
  assumes s: "sched_inv k" and r: "running k"
    and Q: "\<And>k' ls. (\<exists>k1. k1 = k\<lparr> tlists := ls \<rparr> \<and> sched_inv k1 \<and> (switched k1 k' \<or> k' = k1)
                \<and> (\<forall>t. rt_current_thread k = Some t \<longrightarrow> yielded t k k1 k')) \<Longrightarrow> Q (RT_EOK, k')"
  shows "runs Q (rt_thread_yield k)"
proof -
  obtain t where t: "rt_current_thread k = Some t" using r by (auto simp: running_def)
  show ?thesis
  proof (cases "t_stat (threads k t) = RT_THREAD_READY \<and> tlist_shared t k")
    case True
    let ?p = "unat (t_current_priority (threads k t))"
    have rd: "ready k t" using True by (simp add: ready_def)
    have h: "home (tlists k) t = Some (ReadyQ ?p)" and p: "?p < 32"
      using sched_butD(3) [OF s, of t] rd ready_prio [OF s rd] by (simp_all add: thread_ok_def ready_def)
    note lok = sched_butD(1) [OF s]
    obtain ls where ls: "ls_append (ReadyQ ?p) t (ls_remove t (tlists k)) = Some ls" "lists_ok ls"
      "items ls (ReadyQ ?p) = remove1 t (items (tlists k) (ReadyQ ?p)) @ [t]"
      "\<forall>q. q \<noteq> ReadyQ ?p \<longrightarrow> items ls q = remove1 t (items (tlists k) q)"
      using rtl.requeue [OF lok, of "ReadyQ ?p" t] by blast
    have hl: "home ls = home (tlists k)"
      using ls(1) h by (auto simp: ls_append_def split: if_splits)
    have notin: "q \<noteq> ReadyQ ?p \<Longrightarrow> t \<notin> set (items (tlists k) q)" for q
      using lists_okD(2) [OF lok] h by simp
    then have it: "q \<noteq> ReadyQ ?p \<Longrightarrow> items ls q = items (tlists k) q" for q
      using ls(4) by (simp add: remove1_idem)
    have "t \<in> set (items (tlists k) (ReadyQ ?p))" using h lists_okD(2) [OF lok] by simp
    then have ne: "items ls (ReadyQ q) = [] \<longleftrightarrow> items (tlists k) (ReadyQ q) = []" for q
      using it [of "ReadyQ q"] ls(3) by (cases "q = ?p") auto
    let ?k = "k\<lparr> tlists := ls \<rparr>"
    have s1: "sched_inv ?k"
      using sched_butD [OF s] ls(2) hl ne by (simp add: sched_but_def group_ok_def)
    moreover have "running ?k" using r by (simp add: running_def)
    ultimately have "runs (\<lambda>k'. Q (RT_EOK, k')) (rt_schedule ?k)"
    proof (rule switch_runs)
      fix k' assume sw: "switched ?k k'"
      have "items ls = (items (tlists k))(ReadyQ ?p := remove1 t (items (tlists k) (ReadyQ ?p)) @ [t])"
        using it ls(3) by (intro ext) simp
      then have "yielded t k ?k k'" using sw by (simp add: yielded_def Let_def)
      then show "Q (RT_EOK, k')" using s1 sw t by (intro Q [of ls k']) auto
    qed
    then show ?thesis
      using t True ls(1) p
      by (simp add: rt_thread_yield_def ready_row_def RT_THREAD_PRIORITY_MAX_def Let_def)
  next
    case False
    have "Q (RT_EOK, k)"
      by (rule Q [of "tlists k"]) (use s t False in \<open>auto simp: yielded_def ready_def\<close>)
    then show ?thesis using False t by (auto simp: rt_thread_yield_def)
  qed
qed

text \<open>Starting the timer of a thread that has just been suspended.\<close>

lemma start_thread_timer_runs [wp]:
  assumes ok: "kernel_ok lb k" and lb: "lb \<le> 1" and r: "t_stat (threads k t) = RT_THREAD_SUSPEND"
    and n: "\<not> timer_activated (ThreadTimer t) k" and tick: "tick < 0x7fffffff"
    and Q: "\<And>k'. kernel_ok lb k' \<Longrightarrow> timer_change k k' \<Longrightarrow>
              set (timer_list k') = insert (ThreadTimer t) (set (timer_list k)) \<Longrightarrow>
              timeout_tick (timers k' (ThreadTimer t)) = rt_tick k + tick \<Longrightarrow>
              (\<And>i. i \<noteq> ThreadTimer t \<Longrightarrow> timer_flag i k' = timer_flag i k) \<Longrightarrow> Q k'"
  shows "runs Q (start_thread_timer t tick k)"
proof -
  let ?i = "ThreadTimer t"
  let ?k = "upd_timer ?i (\<lambda>tm. tm\<lparr> tm_init_tick := tick \<rparr>) k"
  have s: "sched_inv k" and tm: "timers_ok lb k" using ok by (simp_all add: kernel_ok_def)
  have nin: "?i \<notin> set (timer_list k)" using tm n by (auto simp: timers_ok_def)
  have srt: "timers_sorted lb ?k \<longleftrightarrow> timers_sorted lb k"
    by (rule timers_sorted_cong) (auto simp: upd_timer_def)
  have tm1: "timers_ok lb ?k"
    using tm nin unfolding timers_ok_def srt
    by (auto simp: upd_timer_def thread_timers_def timer_live_def timer_activated_def timer_periodic_def
        timer_flag_def split: timer_id.splits)
  have live: "timer_live ?k ?i"
    using tm r by (simp add: timer_live_def timers_ok_def thread_timers_def upd_timer_def timer_periodic_def
        timer_flag_def)
  have "runs (\<lambda>x. Q (snd x)) (rt_timer_start ?i ?k)"
  proof (rule timer_start_runs [OF tm1 lb _ _ live])
    fix k' f tis tm'
    assume k': "k' = ?k\<lparr> timers := (timers ?k)(?i := tm'), timer_list := tis,
        objs := (objs ?k)(ObjTimer ?i := (objs ?k (ObjTimer ?i))\<lparr> obj_flag := f \<rparr>) \<rparr>"
      and t': "timers_ok lb k'" and tis: "set tis = insert ?i (set (timer_list ?k))"
      and key: "timer_key k' ?i = unat (tm_init_tick (timers ?k ?i)) + 1"
    have "unat (timeout_tick tm' - (rt_tick k - 1)) = unat (tick + 1)"
      using key tick unat_plus_small [of tick 1] by (simp add: k' timer_key_def upd_timer_def word_less_nat_alt)
    then have "timeout_tick tm' - (rt_tick k - 1) = tick + 1" by (simp only: word_unat_eq_iff)
    then have to: "timeout_tick tm' = rt_tick k + tick" by (simp add: algebra_simps)
    have "timer_change k k'"
      by (rule timer_changeI [where tm = "(timers ?k)(?i := tm')" and tis = tis and ob = "objs k'"]) (simp_all add: k' upd_timer_def)
    moreover have "kernel_ok lb k'" using s t' by (simp add: kernel_ok_def k' upd_timer_def)
    ultimately show "Q (snd (RT_EOK, k'))"
      using tis to by (intro Q) (simp_all add: k' upd_timer_def timer_flag_def)
  qed (use n nin tick in \<open>simp_all add: upd_timer_def timer_activated_def timer_flag_def\<close>)
  then show ?thesis by (auto simp: start_thread_timer_def rt_timer_control_def runs_ex)
qed

lemma kernel_ok_other_thread_field:
  assumes "\<And>th. t_stat (f th) = t_stat th \<and> t_current_priority (f th) = t_current_priority th
     \<and> t_number_mask (f th) = t_number_mask th"
  shows "kernel_ok lb (upd_thread t f k) \<longleftrightarrow> kernel_ok lb k" "ready (upd_thread t f k) = ready k"
    "quiet A (upd_thread t f k) = quiet A k"
proof -
  have "sched_inv (upd_thread t f k) \<longleftrightarrow> sched_inv k"
    by (rule sched_but_cong) (use assms in auto)
  moreover have "timers_ok lb (upd_thread t f k) \<longleftrightarrow> timers_ok lb k"
    by (rule timers_ok_upd_thread) (use assms in auto)
  ultimately show "kernel_ok lb (upd_thread t f k) \<longleftrightarrow> kernel_ok lb k" by (simp add: kernel_ok_def)
  show r: "ready (upd_thread t f k) = ready k" by (rule ext) (simp add: ready_def assms)
  show "quiet A (upd_thread t f k) = quiet A k" by (simp add: quiet_def r timer_activated_def)
qed

lemma tick_increase_runs [wp]:
  assumes u: "user_timeouts ucb (alive idle)" and k: "kernel_inv idle k"
    and Q: "\<And>k'. kernel_inv idle k' \<Longrightarrow> kernel_ok 2 k' \<Longrightarrow> rt_tick k' = rt_tick k + 1 \<Longrightarrow> Q k'"
  shows "runs Q (rt_tick_increase (timeout_calls ucb) k)"
proof -
  obtain t where t: "rt_current_thread k = Some t" using kernel_invD(7) [OF k] by blast
  define k1 where "k1 = upd_thread t (\<lambda>th. th\<lparr> t_remaining_tick := t_remaining_tick th - 1 \<rparr>)
      (k\<lparr> rt_tick := rt_tick k + 1 \<rparr>)"
  have tk: "timers_ok 0 (k\<lparr> rt_tick := rt_tick k + 1 \<rparr>)"
    using kernel_invD(3) [OF k] timers_sorted_tick [of k]
    by (auto simp: timers_ok_def thread_timers_def timer_live_def timer_activated_def timer_periodic_def
        timer_flag_def split: timer_id.splits)
  have k1: "kernel_ok 0 k1" "quiet {} k1" "alive idle k1" "rt_tick k1 = rt_tick k + 1"
    using tk kernel_invD [OF k]
    by (simp_all add: k1_def kernel_ok_other_thread_field alive_def)
      (simp_all add: kernel_ok_def quiet_def timer_activated_def timer_flag_def)
  have check: "runs Q (rt_timer_check (timeout_calls ucb) k2)"
    if k2: "kernel_ok 0 k2" "quiet {} k2" "alive idle k2" "rt_tick k2 = rt_tick k + 1" for k2
  proof -
    have "runs (\<lambda>k'. kernel_ok 2 k' \<and> quiet {} k' \<and> alive idle k' \<and> rt_tick k' = rt_tick k2)
        (timer_check_loop (timeout_calls ucb) (rt_tick k2) k2)"
      by (rule timeout_handler.check_loop_runs [OF alive.handler [OF u] k2(1-3)])
    moreover have "kernel_ok 2 k' \<Longrightarrow> kernel_ok 1 k'" for k'
      by (auto simp: kernel_ok_def timers_ok_def timers_sorted_def)
    ultimately show ?thesis
      unfolding rt_timer_check_def using k2(4)
      by (elim runs_mono) (auto intro!: Q simp: kernel_inv_def)
  qed
  show ?thesis
  proof (cases "t_remaining_tick (threads k1 t) = 0")
    case False
    then show ?thesis
      using t check [OF k1] by (simp add: rt_tick_increase_def rt_thread_self_def k1_def Let_def)
  next
    case True
    define k2 where "k2 = upd_thread t (\<lambda>th. th\<lparr> t_remaining_tick := t_init_tick th \<rparr>) k1"
    have k2: "kernel_ok 0 k2" "quiet {} k2" "alive idle k2" "rt_tick k2 = rt_tick k + 1"
      using k1 by (simp_all add: k2_def kernel_ok_other_thread_field alive_def)
    have "runs (\<lambda>x. runs Q (rt_timer_check (timeout_calls ucb) (snd x))) (rt_thread_yield k2)"
    proof (rule yield_runs)
      show "sched_inv k2" "running k2" using k2 by (auto simp: kernel_ok_def alive_def running_def)
      fix k' ls assume "\<exists>k1. k1 = k2\<lparr> tlists := ls \<rparr> \<and> sched_inv k1 \<and> (switched k1 k' \<or> k' = k1)
          \<and> (\<forall>t. rt_current_thread k2 = Some t \<longrightarrow> yielded t k2 k1 k')"
      then obtain k3 where k3: "k3 = k2\<lparr> tlists := ls \<rparr>" "sched_inv k3" "switched k3 k' \<or> k' = k3" by blast
      have "kernel_ok 0 k3" "quiet {} k3" "alive idle k3" "rt_tick k3 = rt_tick k + 1"
        using k2 k3(2)
        by (simp_all add: k3(1) kernel_ok_def quiet_def alive_def timer_activated_def timer_flag_def)
      then show "runs Q (rt_timer_check (timeout_calls ucb) (snd (RT_EOK, k')))"
        using k3(3) by (auto simp: switchedD alive_def intro!: check)
    qed
    then have "runs (\<lambda>(e, x). runs Q (rt_timer_check (timeout_calls ucb) x)) (rt_thread_yield k2)"
      by (simp add: case_prod_unfold)
    moreover have "t_remaining_tick (threads k t) = 1" using True by (simp add: k1_def)
    ultimately show ?thesis
      using t True by (simp add: rt_tick_increase_def rt_thread_self_def k1_def [symmetric]
          k2_def [symmetric] Let_def case_prod_unfold)
  qed
qed

text \<open>C1. Under the kernel's invariant, by which periodic timers have a positive period, and the contract
  \<open>user_timeouts\<close> of the application's timeout functions, the tick interrupt returns, whatever timers are due: the
  threads whose time is up are woken, the invariant holds again, and no timer in the list has expired. The contract:
  called outside the list, a timeout function returns, keeps the invariant and the tick, leaves its own timer out of
  the list and starts no timer that is due at once. Without it the check may loop, as \<open>rt_tick_zero_period\<close>
  shows for a period of 0, or insert a timer twice, as \<open>timer_restart_in_callback\<close> shows.\<close>

theorem rt_tick_increase_correct:
  assumes "user_timeouts ucb (alive idle)" "kernel_inv idle k"
  shows "\<exists>k'. rt_tick_increase (timeout_calls ucb) k = Some k' \<and> kernel_inv idle k'
           \<and> rt_tick k' = rt_tick k + 1
           \<and> (\<forall>i \<in> set (timer_list k'). \<not> timer_expired (rt_tick k') i k')"
proof -
  have "runs (\<lambda>k'. kernel_inv idle k' \<and> rt_tick k' = rt_tick k + 1
      \<and> (\<forall>i \<in> set (timer_list k'). \<not> timer_expired (rt_tick k') i k'))
      (rt_tick_increase (timeout_calls ucb) k)"
  proof (rule tick_increase_runs [OF assms])
    fix k' assume k': "kernel_inv idle k'" "kernel_ok 2 k'" "rt_tick k' = rt_tick k + 1"
    have "\<not> timer_expired (rt_tick k') i k'" if "i \<in> set (timer_list k')" for i
      using k'(2) that expired_iff [of k' i]
      by (auto simp: kernel_ok_def timers_ok_def timers_sorted_def)
    then show "kernel_inv idle k' \<and> rt_tick k' = rt_tick k + 1
        \<and> (\<forall>i \<in> set (timer_list k'). \<not> timer_expired (rt_tick k') i k')"
      using k' by blast
  qed
  then show ?thesis by (simp add: runs_ex)
qed

lemma timer_insert_front:
  "(\<And>t. t \<in> set ts \<Longrightarrow> to t - new \<noteq> 0 \<and> to t - new < RT_TICK_MAX div 2) \<Longrightarrow> timer_insert to new i ts = i # ts"
  by (cases ts) auto

text \<open>A timer of the application that is periodic, active and due, with a period of 0; the others are due later.\<close>

definition zero_period :: "nat \<Rightarrow> kernel \<Rightarrow> bool" where
  "zero_period u k \<longleftrightarrow> (\<exists>ts. timer_list k = UserTimer u # ts \<and> UserTimer u \<notin> set ts
     \<and> (\<forall>t \<in> set ts. timeout_tick (timers k t) - rt_tick k \<noteq> 0 \<and> timeout_tick (timers k t) - rt_tick k < RT_TICK_MAX div 2))
     \<and> timer_periodic (UserTimer u) k \<and> timer_activated (UserTimer u) k \<and> tm_init_tick (timers k (UserTimer u)) = 0
     \<and> timer_expired (rt_tick k) (UserTimer u) k"

lemma zero_period_round:
  assumes "zero_period u k"
  shows "\<exists>k'. timer_rearm (UserTimer u) (rt_timer_remove (UserTimer u) k) = Some k' \<and> zero_period u k' \<and> rt_tick k' = rt_tick k
    \<and> timeout_func (timers k' (UserTimer u)) = timeout_func (timers k (UserTimer u))"
proof -
  obtain ts where ts: "timer_list k = UserTimer u # ts" "UserTimer u \<notin> set ts"
    "\<And>t. t \<in> set ts \<Longrightarrow> timeout_tick (timers k t) - rt_tick k \<noteq> 0 \<and> timeout_tick (timers k t) - rt_tick k < RT_TICK_MAX div 2"
    using assms by (auto simp: zero_period_def)
  let ?i = "UserTimer u"
  have p: "timer_periodic ?i k" "timer_activated ?i k" "tm_init_tick (timers k ?i) = 0" using assms by (simp_all add: zero_period_def)
  define k2 where "k2 = set_timer_flag ?i (timer_flag ?i k AND NOT RT_TIMER_FLAG_ACTIVATED) (rt_timer_remove ?i k)"
  have k2: "timer_list k2 = ts" "timers k2 = timers k" "rt_tick k2 = rt_tick k" "\<not> timer_activated ?i k2" "timer_periodic ?i k2"
    using p(1) ts(1) by (auto simp: k2_def rt_timer_remove_def set_timer_flag_def upd_obj_def timer_activated_def timer_periodic_def timer_flag_def)
  define k' where "k' = set_timer_flag ?i (timer_flag ?i k2 OR RT_TIMER_FLAG_ACTIVATED)
     (upd_timer ?i (\<lambda>tm. tm\<lparr> timeout_tick := rt_tick k \<rparr>) k2\<lparr> timer_list := ?i # ts \<rparr>)"
  have "timer_insert (\<lambda>t. timeout_tick (((timers k)(?i := (timers k ?i)\<lparr> timeout_tick := rt_tick k \<rparr>)) t)) (rt_tick k) ?i ts = ?i # ts"
    by (rule timer_insert_front) (use ts in auto)
  then have "rt_timer_start ?i k2 = Some (RT_EOK, k')"
    using p(3) k2 ts(2) by (simp add: rt_timer_start_def k'_def half_tick upd_timer_def Let_def timer_flag_def)
  moreover have "timer_rearm ?i (rt_timer_remove ?i k) = map_option snd (rt_timer_start ?i k2)"
    using p by (simp add: timer_rearm_def k2_def timer_periodic_def timer_activated_def timer_flag_def rt_timer_remove_def)
  moreover have "RT_TIMER_FLAG_ACTIVATED \<noteq> 0" by (simp add: RT_TIMER_FLAG_ACTIVATED_def)
  then have "zero_period u k'"
    using p(3) ts(2,3) k2
    by (auto simp: zero_period_def k'_def timer_periodic_def timer_activated_def timer_expired_def half_tick upd_timer_def set_timer_flag_def upd_obj_def timer_flag_def)
  moreover have "rt_tick k' = rt_tick k" "timeout_func (timers k' ?i) = timeout_func (timers k ?i)"
    using k2 by (simp_all add: k'_def upd_timer_def)
  ultimately show ?thesis by simp
qed

lemma zero_period_loops:
  assumes "\<And>k. run f k = Some k" "zero_period u k" "timeout_func (timers k (UserTimer u)) = f"
  shows "timer_check_loop run (rt_tick k) k = None"
proof (rule ccontr)
  assume "timer_check_loop run (rt_tick k) k \<noteq> None"
  then obtain y where "timer_check_loop run (rt_tick k) k = Some y" by auto
  moreover have "run' = run \<longrightarrow> zero_period u k \<longrightarrow> tick = rt_tick k \<longrightarrow> timeout_func (timers k (UserTimer u)) = f \<longrightarrow> False"
    if "timer_check_loop run' tick k = Some y" for run' tick k y
  proof (rule timer_check_loop.raw_induct [OF _ that], intro impI)
    fix loop :: "(timeout_fn \<Rightarrow> kernel \<Rightarrow> kernel option) \<Rightarrow> u32 \<Rightarrow> kernel \<Rightarrow> kernel option" and run' tick k y
    assume IH: "\<And>run' tick k y. loop run' tick k = Some y \<Longrightarrow>
        run' = run \<longrightarrow> zero_period u k \<longrightarrow> tick = rt_tick k \<longrightarrow> timeout_func (timers k (UserTimer u)) = f \<longrightarrow> False"
      and body: "(case timer_list k of [] \<Rightarrow> Some k
        | t # _ \<Rightarrow>
            if timer_expired tick t k then do {
              let k = rt_timer_remove t k;
              k \<leftarrow> run' (timeout_func (timers k t)) k;
              let current_tick = rt_tick k;
              k \<leftarrow> timer_rearm t k;
              loop run' current_tick k }
            else Some k) = Some y"
      and h: "run' = run" "zero_period u k" "tick = rt_tick k" "timeout_func (timers k (UserTimer u)) = f"
    from zero_period_round [OF h(2)] h(4) obtain k' where k': "timer_rearm (UserTimer u) (rt_timer_remove (UserTimer u) k) = Some k'"
      "zero_period u k'" "rt_tick k' = rt_tick k" "timeout_func (timers k' (UserTimer u)) = f" by auto
    have "timers (rt_timer_remove (UserTimer u) k) = timers k" "rt_tick (rt_timer_remove (UserTimer u) k) = rt_tick k"
      by (simp_all add: rt_timer_remove_def)
    with body h k'(1,3) assms(1) have "loop run (rt_tick k') k' = Some y"
      by (auto simp: zero_period_def Let_def)
    from IH [OF this] k'(2,4) show False by simp
  qed
  ultimately show False using assms(2,3) by blast
qed

text \<open>The condition on the period in the invariant is needed. \<open>rt_timer_start\<close> checks only that the period is not too
  long; with a periodic timer of period 0 at the head of the list, whose function leaves the kernel alone, the timer
  is due again as soon as it is started again, and the tick interrupt never returns.\<close>

theorem rt_tick_zero_period:
  assumes "\<And>k. ucb f k = Some k" "timeout_func (timers k (UserTimer u)) = UserTimeout f"
    and "rt_current_thread k = Some t" "t_remaining_tick (threads k t) \<noteq> 1" "zero_period u (k\<lparr> rt_tick := rt_tick k + 1 \<rparr>)"
  shows "rt_tick_increase (timeout_calls ucb) k = None"
proof -
  define k1 where "k1 = upd_thread t (\<lambda>th. th\<lparr> t_remaining_tick := t_remaining_tick th - 1 \<rparr>) (k\<lparr> rt_tick := rt_tick k + 1 \<rparr>)"
  have "zero_period u k1"
    using assms(5) by (simp add: zero_period_def k1_def upd_thread_def timer_periodic_def timer_activated_def timer_flag_def timer_expired_def)
  moreover have "timeout_func (timers k1 (UserTimer u)) = UserTimeout f" using assms(2) by (simp add: k1_def upd_thread_def)
  ultimately have "timer_check_loop (timeout_calls ucb) (rt_tick k1) k1 = None"
    using zero_period_loops [of "timeout_calls ucb" "UserTimeout f" u k1] assms(1) by simp
  then show ?thesis
    using assms(3,4) by (simp add: rt_tick_increase_def rt_thread_self_def rt_timer_check_def k1_def upd_thread_def Let_def)
qed

text \<open>C3. \<open>rt_thread_sleep\<close> takes the caller off the processor and arms its timer for exactly the
  tick asked for; the kernel's invariant is kept, and with the scheduler unlocked another ready
  thread, the most urgent, is current.\<close>

theorem rt_thread_sleep_correct:
  assumes k: "kernel_inv idle k" and c: "rt_current_thread k = Some t" and r: "ready k t"
    and i: "t \<noteq> idle" and tick: "tick < 0x7fffffff"
  shows "\<exists>k'. rt_thread_sleep tick k = Some k' \<and> kernel_inv idle k'
           \<and> t_stat (threads k' t) = RT_THREAD_SUSPEND
           \<and> ThreadTimer t \<in> set (timer_list k')
           \<and> timeout_tick (timers k' (ThreadTimer t)) = rt_tick k + tick
           \<and> (lock_nest k = 0 \<longrightarrow> (\<exists>u. u \<noteq> t \<and> rt_current_thread k' = Some u \<and> most_urgent k' u))"
    (is "\<exists>k'. _ \<and> ?P k'")
proof -
  have "runs (\<lambda>x. runs (\<lambda>k'. runs ?P (rt_schedule k')) (start_thread_timer t tick (snd x)))
      (rt_thread_suspend t k)"
  proof (rule suspend_runs [OF kernel_invD(1) [OF k] r])
    fix k1 g
    assume k1: "k1 = k\<lparr> threads := (threads k)(t := (threads k t)\<lparr> t_stat := RT_THREAD_SUSPEND \<rparr>),
        tlists := ls_remove t (tlists k), ready_group := g \<rparr>" and ok1: "kernel_ok 1 k1"
    have rd1: "ready k1 u \<longleftrightarrow> u \<noteq> t \<and> ready k u" for u by (simp add: ready_def k1)
    have fl1: "timer_flag i k1 = timer_flag i k" for i by (simp add: k1 timer_flag_def)
    have q1: "quiet {} k1"
      using kernel_invD(4) [OF k] by (auto simp: quiet_def rd1 timer_activated_def fl1)
    have na: "\<not> timer_activated (ThreadTimer t) k1"
      using kernel_invD(4) [OF k] r by (simp add: quiet_def timer_activated_def fl1)
    have "runs (\<lambda>k'. runs ?P (rt_schedule k')) (start_thread_timer t tick k1)"
    proof (rule start_thread_timer_runs [OF ok1 _ _ na tick])
      fix k2
      assume ok2: "kernel_ok 1 k2" and tc: "timer_change k1 k2"
        and tl: "set (timer_list k2) = insert (ThreadTimer t) (set (timer_list k1))"
        and to: "timeout_tick (timers k2 (ThreadTimer t)) = rt_tick k1 + tick"
        and fl: "\<And>i. i \<noteq> ThreadTimer t \<Longrightarrow> timer_flag i k2 = timer_flag i k1"
      have same: "threads k2 = threads k1" "rt_current_thread k2 = rt_current_thread k"
        "lock_nest k2 = lock_nest k" "ready k2 = ready k1"
        using tc by (auto simp: timer_change_def k1)
      have q2: "quiet {} k2" using q1 rd1 fl by (auto simp: quiet_def same timer_activated_def)
      have "ready k2 idle" using kernel_invD(6) [OF k] i rd1 by (simp add: same)
      then have "sched_inv k2" "running k2"
        using ok2 c by (auto simp: kernel_ok_def running_def same(2))
      then show "runs ?P (rt_schedule k2)"
      proof (rule switch_runs)
        fix k' assume sw: "switched k2 k'"
        have "kernel_inv idle k'"
          using kernel_inv_switched [OF sw] ok2 q2 kernel_invD(6) [OF k] i by (simp add: same rd1)
        moreover have "\<exists>u. u \<noteq> t \<and> rt_current_thread k' = Some u \<and> most_urgent k' u" if l0: "lock_nest k = 0"
        proof -
          obtain u where u: "rt_current_thread k' = Some u" "most_urgent k2 u"
            using switched_current [OF sw] l0 same(3) by auto
          then have "u \<noteq> t" using rd1 [of u] by (auto simp: most_urgent_def same)
          moreover have "most_urgent k' u" using u(2) by (simp add: most_urgent_def switchedD [OF sw])
          ultimately show ?thesis using u(1) by blast
        qed
        ultimately show "?P k'"
          using tl to by (simp add: switchedD [OF sw] same) (simp add: k1)
      qed
    qed (simp_all add: k1)
    then show "runs (\<lambda>k'. runs ?P (rt_schedule k')) (start_thread_timer t tick (snd (RT_EOK, k1)))" by simp
  qed
  then have "runs ?P (rt_thread_sleep tick k)"
    using c by (simp add: rt_thread_sleep_def case_prod_unfold)
  then show ?thesis by (simp add: runs_ex)
qed

section \<open>The end of a thread\<close>

lemma closed_ok:
  assumes ok: "kernel_ok lb k" and s: "sched_but {t} (k\<lparr> tlists := ls_remove t (tlists k), ready_group := g \<rparr>)"
    and ls: "ls = ls_remove t (tlists k) \<or> ls_push DefunctQ t (ls_remove t (tlists k)) = Some ls"
  shows "kernel_ok lb (k\<lparr> threads := (threads k)(t := (threads k t)\<lparr> t_stat := RT_THREAD_CLOSE \<rparr>),
           tlists := ls, ready_group := g, timer_list := remove1 (ThreadTimer t) (timer_list k),
           containers := cs \<rparr>)"
    (is "kernel_ok lb ?k")
proof -
  have lok: "lists_ok ls"
    using ls lists_ok_push [of DefunctQ t "ls_remove t (tlists k)" ls] sched_butD(1) [OF s] by auto
  have it: "items ls (ReadyQ p) = items (ls_remove t (tlists k)) (ReadyQ p)" for p
    using ls by (auto simp: ls_push_def split: if_splits)
  have hm: "home ls u = home (tlists k) u" if "u \<noteq> t" for u
    using ls that by (auto simp: ls_push_def split: if_splits)
  have ht: "home ls t = None \<or> home ls t = Some DefunctQ"
    using ls by (auto simp: ls_push_def split: if_splits)
  have "sched_inv ?k"
    unfolding sched_but_def
  proof (intro conjI allI impI)
    show "group_ok ?k" using sched_butD(2) [OF s] by (simp add: group_ok_def it)
    show "thread_ok (threads ?k u) (home (tlists ?k) u)" for u
      using sched_butD(3) [OF s, of u] hm [of u] ht by (cases "u = t") (simp_all add: thread_ok_def)
  qed (use lok in simp)
  moreover have "timers_ok lb ?k"
  proof -
    have tm: "timers_ok lb k" using ok by (simp add: kernel_ok_def)
    then have srt: "timers_sorted lb (rt_timer_remove (ThreadTimer t) k)"
      by (intro timers_sorted_remove) (simp add: timers_ok_def)
    have "timers_sorted lb ?k \<longleftrightarrow> timers_sorted lb (rt_timer_remove (ThreadTimer t) k)"
      by (rule timers_sorted_cong) (simp_all add: rt_timer_remove_def)
    moreover have "thread_timers ?k"
      using tm by (simp add: timers_ok_def thread_timers_def timer_periodic_def timer_flag_def)
    moreover have "timer_activated i ?k \<and> timer_live ?k i" if "i \<in> set (timer_list ?k)" for i
    proof -
      have j: "i \<noteq> ThreadTimer t" "i \<in> set (timer_list k)"
        using that tm by (auto simp: timers_ok_def timers_sorted_def)
      then have "timer_activated i k \<and> timer_live k i" using tm by (simp add: timers_ok_def)
      then show ?thesis using j(1)
        by (cases i) (simp_all add: timer_live_def timer_activated_def timer_periodic_def timer_flag_def)
    qed
    ultimately show ?thesis using srt by (simp add: timers_ok_def)
  qed
  ultimately show ?thesis by (simp add: kernel_ok_def)
qed

text \<open>A thread that is ready or suspended leaves the schedule.\<close>

lemma remove_live_runs:
  assumes s: "sched_inv k" and st: "t_stat (threads k t) \<in> {RT_THREAD_READY, RT_THREAD_SUSPEND}"
    and Q: "\<And>g. sched_but {t} (k\<lparr> tlists := ls_remove t (tlists k), ready_group := g \<rparr>) \<Longrightarrow>
              Q (k\<lparr> tlists := ls_remove t (tlists k), ready_group := g \<rparr>)"
  shows "runs Q (rt_schedule_remove_thread t k)"
proof (rule remove_thread_runs [OF sched_but_single [OF s]])
  have ok: "thread_ok (threads k t) (home (tlists k) t)" by (rule sched_butD(3) [OF s]) simp
  then show "prio_ok (threads k t)"
    "t_number_mask (threads k t) = 0 \<or> t_number_mask (threads k t) = prio_mask (threads k t)"
    "\<And>q. home (tlists k) t = Some (ReadyQ q) \<Longrightarrow>
       q = unat (t_current_priority (threads k t)) \<and> t_number_mask (threads k t) = prio_mask (threads k t)"
    using st by (auto simp: thread_ok_def)
qed (use Q in auto)

text \<open>When a thread other than the idle thread returns from its entry function, it leaves the
  ready queue and the timer list for good: the kernel's invariant holds, its state is closed, it
  waits in the defunct list for the idle thread unless it is a static thread without cleanup
  function, and another thread runs.\<close>

theorem rt_thread_exit_correct:
  assumes k: "kernel_inv idle k" and c: "rt_current_thread k = Some t" and r: "ready k t"
    and i: "t \<noteq> idle" and l: "lock_nest k = 0"
  shows "\<exists>k' u. rt_thread_exit k = Some k' \<and> kernel_inv idle k'
           \<and> t_stat (threads k' t) = RT_THREAD_CLOSE \<and> ThreadTimer t \<notin> set (timer_list k')
           \<and> home (tlists k') t =
               (if obj_static (objs k (ObjThread t)) \<and> \<not> t_cleanup (threads k t) then None else Some DefunctQ)
           \<and> u \<noteq> t \<and> rt_current_thread k' = Some u \<and> most_urgent k' u"
proof -
  let ?d = "obj_static (objs k (ObjThread t)) \<and> \<not> t_cleanup (threads k t)"
  define ls where "ls = (if ?d then ls_remove t (tlists k) else the (ls_push DefunctQ t (ls_remove t (tlists k))))"
  have push: "\<exists>ls. ls_push DefunctQ t (ls_remove t (tlists k)) = Some ls" by (simp add: ls_push_def)
  have hls: "home ls t = (if ?d then None else Some DefunctQ)" by (simp add: ls_def ls_push_def)
  obtain g where g: "sched_but {t} (k\<lparr> tlists := ls_remove t (tlists k), ready_group := g \<rparr>)"
    "rt_schedule_remove_thread t k = Some (k\<lparr> tlists := ls_remove t (tlists k), ready_group := g \<rparr>)"
    using remove_live_runs [OF kernel_invD(2) [OF k], of t
        "\<lambda>k'. \<exists>g. sched_but {t} k' \<and> k' = k\<lparr> tlists := ls_remove t (tlists k), ready_group := g \<rparr>"] r
    by (auto simp: runs_ex ready_def)
  define cs where "cs = (let cs = ls_remove (ObjTimer (ThreadTimer t)) (containers k)
     in if ?d then ls_remove (ObjThread t) cs else cs)"
  define k1 where "k1 = k\<lparr> threads := (threads k)(t := (threads k t)\<lparr> t_stat := RT_THREAD_CLOSE \<rparr>),
     tlists := ls, ready_group := g, timer_list := remove1 (ThreadTimer t) (timer_list k), containers := cs \<rparr>"
  have ok1: "kernel_ok 1 k1"
    unfolding k1_def using push by (intro closed_ok [OF kernel_invD(1) [OF k] g(1)]) (auto simp: ls_def)
  have rd1: "ready k1 u \<longleftrightarrow> u \<noteq> t \<and> ready k u" for u by (simp add: ready_def k1_def)
  have fl: "timer_flag j k1 = timer_flag j k" for j by (simp add: timer_flag_def k1_def)
  have q1: "quiet {} k1" using kernel_invD(4) [OF k] by (auto simp: quiet_def rd1 timer_activated_def fl)
  have run: "rt_thread_exit k = rt_schedule k1"
    using c g(2) push by (auto simp: rt_thread_exit_def rt_timer_detach_def rt_timer_remove_def upd_thread_def
        rt_object_detach_def rt_object_is_systemobject_def Let_def k1_def ls_def cs_def
        intro!: arg_cong [where f = rt_schedule] kernel.equality)
  have id1: "ready k1 idle" using kernel_invD(6) [OF k] i rd1 by simp
  have cl: "t_stat (threads k1 t) = RT_THREAD_CLOSE" "ThreadTimer t \<notin> set (timer_list k1)" "tlists k1 = ls"
    using kernel_invD(3) [OF k] by (auto simp: k1_def timers_ok_def timers_sorted_def)
  have "runs (\<lambda>k'. kernel_inv idle k' \<and> t_stat (threads k' t) = RT_THREAD_CLOSE
      \<and> ThreadTimer t \<notin> set (timer_list k') \<and> home (tlists k') t = (if ?d then None else Some DefunctQ)
      \<and> (\<exists>u. u \<noteq> t \<and> rt_current_thread k' = Some u \<and> most_urgent k' u)) (rt_schedule k1)"
  proof (rule switch_runs)
    show "sched_inv k1" "running k1" using ok1 id1 c by (auto simp: kernel_ok_def running_def k1_def)
    fix k' assume sw: "switched k1 k'"
    obtain u where u: "rt_current_thread k' = Some u" "most_urgent k1 u"
      using switched_current [OF sw] l by (auto simp: k1_def)
    have "u \<noteq> t" "most_urgent k' u"
      using u(2) rd1 [of u] by (auto simp: most_urgent_def switchedD [OF sw])
    then show "kernel_inv idle k' \<and> t_stat (threads k' t) = RT_THREAD_CLOSE
        \<and> ThreadTimer t \<notin> set (timer_list k') \<and> home (tlists k') t = (if ?d then None else Some DefunctQ)
        \<and> (\<exists>u. u \<noteq> t \<and> rt_current_thread k' = Some u \<and> most_urgent k' u)"
      using kernel_inv_switched [OF sw] ok1 q1 id1 cl hls u(1)
      by (simp add: switchedD [OF sw])
  qed
  then show ?thesis unfolding run runs_ex by blast
qed

section \<open>Starting a thread, changing its priority\<close>

lemma woken_quiet:
  assumes w: "woken t th k k'" and q: "quiet A k" and n: "\<not> timer_activated (ThreadTimer t) k'"
  shows "quiet A k'"
  unfolding quiet_def
proof (intro allI impI)
  fix u assume "ready k' u" "ThreadTimer u \<notin> A"
  then show "\<not> timer_activated (ThreadTimer u) k'"
    using n q wokenD(18) [OF w, of u] wokenD(4) [OF w, of "ObjTimer (ThreadTimer u)"]
    by (cases "u = t") (simp_all add: quiet_def timer_activated_def timer_flag_def)
qed

text \<open>\<open>rt_thread_startup\<close> makes an initialised thread ready with its initial priority, behind the
  threads of that priority; the invariant is kept, and with the scheduler unlocked the most urgent
  ready thread, possibly the new one, is running when it returns.\<close>

theorem rt_thread_startup_correct:
  assumes k: "kernel_inv idle k" and st: "t_stat (threads k t) = RT_THREAD_INIT"
    and p: "unat (t_init_priority (threads k t)) < 32"
  shows "\<exists>k'. rt_thread_startup t k = Some (RT_EOK, k') \<and> kernel_inv idle k' \<and> ready k' t
           \<and> t_current_priority (threads k' t) = t_init_priority (threads k t)
           \<and> items (tlists k') (ReadyQ (unat (t_init_priority (threads k t))))
             = items (tlists k) (ReadyQ (unat (t_init_priority (threads k t)))) @ [t]
           \<and> (lock_nest k = 0 \<longrightarrow> (\<exists>u. rt_current_thread k' = Some u \<and> most_urgent k' u))"
    (is "\<exists>k'. _ \<and> ?P k'")
proof -
  let ?p = "t_init_priority (threads k t)"
  define f where "f = (\<lambda>th :: rt_thread. th\<lparr> t_current_priority := t_init_priority th,
      t_number_mask := push_bit (unat ?p) 1, t_stat := RT_THREAD_SUSPEND \<rparr>)"
  let ?k = "upd_thread t f k"
  have h: "home (tlists k) t = None"
    using sched_butD(3) [OF kernel_invD(2) [OF k], of t] st by (simp add: thread_ok_def)
  have "sched_but {t} ?k" using sched_but_single [OF kernel_invD(2) [OF k]] by (simp add: sched_but_upd)
  then have "sched_inv ?k"
    by (rule sched_inv_finish)
      (use h p in \<open>simp add: thread_ok_def f_def prio_ok_def prio_mask_def RT_THREAD_PRIORITY_MAX_def\<close>)
  moreover have "timers_ok 1 ?k"
    using timer_of_suspended [OF kernel_invD(3) [OF k], of t] st kernel_invD(3) [OF k]
    by (subst timers_ok_upd_thread) auto
  ultimately have ok1: "kernel_ok 1 ?k" by (simp add: kernel_ok_def)
  have rd1: "ready ?k u \<longleftrightarrow> ready k u" for u using st by (simp add: ready_def f_def)
  have q1: "quiet {} ?k" using kernel_invD(4) [OF k] rd1 by (simp add: quiet_def timer_activated_def)
  have st1: "t_stat (threads ?k t) = RT_THREAD_SUSPEND" by (simp add: f_def)
  have "runs (\<lambda>x. runs ?P (rt_schedule (snd x)) \<and> rt_current_thread (snd x) \<noteq> None) (rt_thread_resume t ?k)"
  proof (rule resume_runs [OF ok1 st1])
    fix k2 assume ok2: "kernel_ok 1 k2" and w: "woken t (threads ?k t) ?k k2"
      and na: "\<not> timer_activated (ThreadTimer t) k2"
    have q2: "quiet {} k2" by (rule woken_quiet [OF w q1 na])
    have s2: "sched_inv k2" "running k2" "ready k2 idle" "rt_current_thread k2 \<noteq> None"
      using ok2 kernel_invD(6,7) [OF k] wokenD(8) [OF w] wokenD(18) [OF w] rd1
      by (auto simp: kernel_ok_def running_def)
    have "runs ?P (rt_schedule k2)"
    proof (rule switch_runs [OF s2(1,2)])
      fix k' assume sw: "switched k2 k'"
      have "lock_nest k2 = lock_nest k" using wokenD(9) [OF w] by simp
      moreover have "items (tlists k2) (ReadyQ (unat ?p)) = items (tlists k) (ReadyQ (unat ?p)) @ [t]"
        using wokenD(3) [OF w, of "ReadyQ (unat ?p)"] by (simp add: f_def)
      moreover have "threads k2 t = (f (threads k t))\<lparr> t_stat := RT_THREAD_READY \<rparr>"
        using wokenD(1) [OF w] by simp
      ultimately show "?P k'"
        using kernel_inv_switched [OF sw] ok2 q2 s2(3) switched_current [OF sw]
        by (auto simp: switchedD [OF sw] ready_def f_def most_urgent_def)
    qed
    then show "runs ?P (rt_schedule (snd (RT_EOK, k2))) \<and> rt_current_thread (snd (RT_EOK, k2)) \<noteq> None"
      using s2(4) by simp
  qed
  then have "runs (\<lambda>x. fst x = RT_EOK \<and> ?P (snd x)) (rt_thread_startup t k)"
    using st p by (auto simp: rt_thread_startup_def priority_mask_def rt_thread_self_def f_def Let_def
        case_prod_unfold elim!: runs_mono)
  then show ?thesis by (auto simp: runs_ex)
qed

text \<open>Round robin: when the running thread is the first of its priority's row and others wait
  behind it, \<open>rt_thread_yield\<close> moves it to the end of the row and the next one runs.\<close>

theorem rt_thread_yield_round_robin:
  assumes k: "kernel_inv idle k" and c: "rt_current_thread k = Some t" and m: "most_urgent k t"
    and l: "lock_nest k = 0"
    and row: "items (tlists k) (ReadyQ (unat (t_current_priority (threads k t)))) = t # u # us"
  shows "\<exists>k'. rt_thread_yield k = Some (RT_EOK, k') \<and> kernel_inv idle k' \<and> rt_current_thread k' = Some u
           \<and> items (tlists k') (ReadyQ (unat (t_current_priority (threads k t)))) = u # us @ [t]"
    (is "\<exists>k'. _ \<and> ?P k'")
proof -
  let ?q = "ReadyQ (unat (t_current_priority (threads k t)))"
  note s = kernel_invD(2) [OF k]
  have rd: "ready k t" using m by (simp add: most_urgent_def)
  have sh: "tlist_shared t k"
    using sched_butD(3) [OF s, of t] rd row by (simp add: tlist_shared_def thread_ok_def ready_def)
  have "runs (\<lambda>x. fst x = RT_EOK \<and> ?P (snd x)) (rt_thread_yield k)"
  proof (rule yield_runs [OF s kernel_invD(8) [OF k]])
    fix k' ls
    assume "\<exists>k1. k1 = k\<lparr> tlists := ls \<rparr> \<and> sched_inv k1 \<and> (switched k1 k' \<or> k' = k1)
        \<and> (\<forall>t. rt_current_thread k = Some t \<longrightarrow> yielded t k k1 k')"
    then obtain k1 where k1: "k1 = k\<lparr> tlists := ls \<rparr>" "sched_inv k1" and sw: "switched k1 k'"
      and it: "items (tlists k1) = (items (tlists k))(?q := u # us @ [t])"
      using c rd sh row by (auto simp: yielded_def Let_def)
    obtain v where v: "rt_current_thread k' = Some v" "most_urgent k1 v"
      using switched_current [OF sw] l by (auto simp: k1)
    have same: "ready k1 = ready k" "threads k1 = threads k" by (simp_all add: k1)
    have "t_current_priority (threads k v) = t_current_priority (threads k t)"
      using v(2) m by (intro order_antisym) (auto simp: most_urgent_def same)
    then have "v = u" using v(2) it by (simp add: most_urgent_def same ls_first_def)
    moreover have "kernel_inv idle k'"
      using kernel_inv_switched [OF sw] kernel_invD [OF k] k1(2) same
      by (simp add: kernel_ok_def quiet_def) (simp add: k1 timer_activated_def timer_flag_def)
    ultimately show "fst (RT_EOK, k') = RT_EOK \<and> ?P (snd (RT_EOK, k'))"
      using v(1) it by (simp add: switchedD [OF sw])
  qed
  then show ?thesis by (auto simp: runs_ex)
qed

text \<open>The state after the priority of \<open>t\<close> was set to \<open>p\<close>.\<close>

definition reprioritised :: "nat \<Rightarrow> u8 \<Rightarrow> kernel \<Rightarrow> kernel \<Rightarrow> bool" where
  "reprioritised t p k k' \<longleftrightarrow>
     (\<exists>ls g. k' = k\<lparr> threads := (threads k)(t := (threads k t)\<lparr> t_current_priority := p,
                         t_number_mask := push_bit (unat p) 1 \<rparr>), tlists := ls, ready_group := g \<rparr>
       \<and> (if ready k t
          then home ls = (home (tlists k))(t \<mapsto> ReadyQ (unat p))
             \<and> items ls = (\<lambda>q. remove1 t (items (tlists k) q))
                 (ReadyQ (unat p) := remove1 t (items (tlists k) (ReadyQ (unat p))) @ [t])
          else ls = tlists k))"

lemma reprioritisedD:
  assumes "reprioritised t p k k'"
  shows "threads k' = (threads k)(t := (threads k t)\<lparr> t_current_priority := p, t_number_mask := push_bit (unat p) 1 \<rparr>)"
    "objs k' = objs k" "timers k' = timers k" "timer_list k' = timer_list k" "rt_tick k' = rt_tick k"
    "rt_current_thread k' = rt_current_thread k" "lock_nest k' = lock_nest k"
    "interrupt_nest k' = interrupt_nest k" "sems k' = sems k" "mutexes k' = mutexes k" "events k' = events k"
    "mailboxes k' = mailboxes k" "mqs k' = mqs k" "containers k' = containers k" "ready k' = ready k"
    "ready k t \<Longrightarrow> items (tlists k') (ReadyQ (unat p)) = remove1 t (items (tlists k) (ReadyQ (unat p))) @ [t]"
    "(\<And>r. q \<noteq> ReadyQ r) \<Longrightarrow> items (tlists k') q = (if ready k t then remove1 t (items (tlists k) q) else items (tlists k) q)"
proof -
  obtain ls g where k': "k' = k\<lparr> threads := (threads k)(t := (threads k t)\<lparr> t_current_priority := p,
      t_number_mask := push_bit (unat p) 1 \<rparr>), tlists := ls, ready_group := g \<rparr>"
    and l: "if ready k t
          then home ls = (home (tlists k))(t \<mapsto> ReadyQ (unat p))
             \<and> items ls = (\<lambda>q. remove1 t (items (tlists k) q))
                 (ReadyQ (unat p) := remove1 t (items (tlists k) (ReadyQ (unat p))) @ [t])
          else ls = tlists k"
    using assms by (auto simp: reprioritised_def)
  show "(\<And>r. q \<noteq> ReadyQ r) \<Longrightarrow>
      items (tlists k') q = (if ready k t then remove1 t (items (tlists k) q) else items (tlists k) q)"
    using l by (auto simp: k')
  show "ready k t \<Longrightarrow> items (tlists k') (ReadyQ (unat p)) = remove1 t (items (tlists k) (ReadyQ (unat p))) @ [t]"
    using l by (simp add: k')
  show "ready k' = ready k" by (rule ext) (simp add: k' ready_def)
qed (use assms in \<open>auto simp: reprioritised_def\<close>)

lemma change_priority_runs [wp]:
  assumes k: "kernel_inv idle k" and st: "t_stat (threads k t) \<in> {RT_THREAD_READY, RT_THREAD_SUSPEND}"
    and p: "unat p < 32"
    and Q: "\<And>k'. kernel_inv idle k' \<Longrightarrow> reprioritised t p k k' \<Longrightarrow> Q (RT_EOK, k')"
  shows "runs Q (rt_thread_control t 0x02 p k)"
proof -
  let ?th = "(threads k t)\<lparr> t_current_priority := p, t_number_mask := push_bit (unat p) 1 \<rparr>"
  let ?P = "\<lambda>k'. kernel_inv idle k' \<and> reprioritised t p k k'"
  have inv: "kernel_inv idle k'" if s: "sched_inv k'"
    and k': "k' = k\<lparr> threads := (threads k)(t := ?th), tlists := ls, ready_group := g \<rparr>" for k' ls g
  proof -
    have "timers_ok 1 k' \<longleftrightarrow> timers_ok 1 k"
      by (rule timers_ok_cong) (simp_all add: k' timer_flag_def)
    moreover have "ready k' u = ready k u" for u by (simp add: k' ready_def)
    moreover have "timer_flag i k' = timer_flag i k" for i by (simp add: k' timer_flag_def)
    moreover have "rt_current_thread k' = rt_current_thread k" by (simp add: k')
    ultimately show ?thesis
      using kernel_invD [OF k] s by (simp add: kernel_inv_def kernel_ok_def quiet_def alive_def timer_activated_def)
  qed
  show ?thesis
  proof (cases "ready k t")
    case True
    have lok: "lists_ok (tlists k)" using kernel_invD(2) [OF k] by (simp add: sched_but_def)
    have "runs (\<lambda>k1. runs (\<lambda>k2. runs ?P (rt_schedule_insert_thread t k2)) (change_priority t p k1))
        (rt_schedule_remove_thread t k)"
    proof (rule remove_live_runs [OF kernel_invD(2) [OF k] st])
      fix g
      assume s1: "sched_but {t} (k\<lparr> tlists := ls_remove t (tlists k), ready_group := g \<rparr>)" (is "sched_but {t} ?k1")
      let ?k2 = "upd_thread t (\<lambda>_. ?th) ?k1"
      have "runs ?P (rt_schedule_insert_thread t ?k2)"
      proof (rule insert_thread_runs)
        show "sched_but {t} ?k2" using s1 by (simp add: sched_but_upd)
        fix k' ls g'
        assume k': "k' = ?k2\<lparr> threads := (threads ?k2)(t := (threads ?k2 t)\<lparr> t_stat := RT_THREAD_READY \<rparr>),
            tlists := ls, ready_group := g' \<rparr>" and s': "sched_inv k'"
          and h: "home ls = (home (tlists ?k2))(t \<mapsto> ReadyQ (unat (t_current_priority (threads ?k2 t))))"
          and it: "items ls = (items (tlists ?k2))(ReadyQ (unat (t_current_priority (threads ?k2 t))) :=
            items (tlists ?k2) (ReadyQ (unat (t_current_priority (threads ?k2 t)))) @ [t])"
        have e: "?th\<lparr> t_stat := RT_THREAD_READY \<rparr> = ?th" using True by (simp add: ready_def)
        have k'': "k' = k\<lparr> threads := (threads k)(t := ?th), tlists := ls, ready_group := g' \<rparr>"
          unfolding k' using e by (simp add: upd_thread_def)
        have h': "home ls = (home (tlists k))(t \<mapsto> ReadyQ (unat p))" using h by simp
        have it': "items ls = (\<lambda>q. remove1 t (items (tlists k) q))
            (ReadyQ (unat p) := remove1 t (items (tlists k) (ReadyQ (unat p))) @ [t])"
          unfolding it by (rule ext) (simp add: items_remove [OF lok])
        have "reprioritised t p k k'"
          unfolding reprioritised_def
          by (intro exI [of _ ls] exI [of _ g']) (use k'' h' it' True in simp)
        then show "?P k'" using inv [OF s' k''] by simp
      qed (use p in \<open>simp_all add: prio_ok_def prio_mask_def RT_THREAD_PRIORITY_MAX_def\<close>)
      then show "runs (\<lambda>k2. runs ?P (rt_schedule_insert_thread t k2)) (change_priority t p ?k1)"
        using p by (simp add: change_priority_def priority_mask_def upd_thread_def)
    qed
    then show ?thesis using True by (auto simp: rt_thread_control_def ready_def runs_ex intro: Q)
  next
    case False
    define k' where "k' = upd_thread t (\<lambda>_. ?th) k"
    have "thread_ok (threads k t) (home (tlists k) t)" by (rule sched_butD(3) [OF kernel_invD(2) [OF k]]) simp
    then have "thread_ok (threads k' t) (home (tlists k') t)"
      using st False p by (auto simp: k'_def thread_ok_def ready_def prio_ok_def prio_mask_def RT_THREAD_PRIORITY_MAX_def)
    then have s': "sched_inv k'"
      using sched_but_single [OF kernel_invD(2) [OF k]]
      by (intro sched_inv_finish [of t]) (simp_all add: k'_def sched_but_upd)
    have ke: "k' = k\<lparr> threads := (threads k)(t := ?th), tlists := tlists k, ready_group := ready_group k \<rparr>"
      by (simp add: k'_def upd_thread_def)
    have "reprioritised t p k k'"
      unfolding reprioritised_def by (intro exI [of _ "tlists k"] exI [of _ "ready_group k"]) (use ke False in simp)
    then have "Q (RT_EOK, k')" by (rule Q [OF inv [OF s' ke]])
    then show ?thesis
      using False p by (simp add: rt_thread_control_def ready_def change_priority_def priority_mask_def k'_def
          upd_thread_def)
  qed
qed

text \<open>\<open>rt_thread_control\<close> changes the priority of a ready or suspended thread to any of the 32
  priorities: a ready thread moves to the end of the new row, the bitmap follows, and the
  invariant is kept.\<close>

theorem rt_thread_change_priority_correct:
  assumes k: "kernel_inv idle k" and st: "t_stat (threads k t) \<in> {RT_THREAD_READY, RT_THREAD_SUSPEND}"
    and p: "unat p < 32"
  shows "\<exists>k'. rt_thread_control t 0x02 p k = Some (RT_EOK, k') \<and> kernel_inv idle k'
           \<and> threads k' t = (threads k t)\<lparr> t_current_priority := p, t_number_mask := push_bit (unat p) 1 \<rparr>
           \<and> (ready k t \<longrightarrow> (\<exists>xs. items (tlists k') (ReadyQ (unat p)) = xs @ [t]))"
proof -
  have "runs (\<lambda>x. fst x = RT_EOK \<and> kernel_inv idle (snd x) \<and> reprioritised t p k (snd x)) (rt_thread_control t 0x02 p k)"
    by (rule change_priority_runs [OF k st p]) simp
  then obtain k' where k': "rt_thread_control t 0x02 p k = Some (RT_EOK, k')" "kernel_inv idle k'"
    "reprioritised t p k k'" by (auto simp: runs_ex)
  then show ?thesis using reprioritisedD(1,16) [OF k'(3)] by auto
qed

section \<open>The idle thread's cleanup\<close>

lemma ls_first_member: "ls_first q ls = Some n \<Longrightarrow> items ls q = n # tl (items ls q)"
  by (auto simp: ls_first_Some)

text \<open>The first dead thread leaves the list, and its object the container.\<close>

lemma kernel_inv_containers: "kernel_inv idle (k\<lparr> containers := c \<rparr>) \<longleftrightarrow> kernel_inv idle k"
  by (simp add: kernel_inv_def kernel_ok_def alive_def quiet_def timer_activated_def timer_flag_def)

lemma defunct_removed:
  assumes k: "kernel_inv idle k" and row: "items (tlists k) DefunctQ = t # ts"
  shows "kernel_inv idle (k\<lparr> tlists := ls_remove t (tlists k) \<rparr>)" "items (ls_remove t (tlists k)) DefunctQ = ts"
proof -
  note s = kernel_invD(2) [OF k]
  note lok = sched_butD(1) [OF s]
  have ht: "home (tlists k) t = Some DefunctQ" using lists_okD(2) [OF lok, of t DefunctQ] row by simp
  have it: "items (ls_remove t (tlists k)) (ReadyQ p) = items (tlists k) (ReadyQ p)" for p
    using ht lists_okD(2) [OF lok, of t "ReadyQ p"] by (simp add: items_remove [OF lok] remove1_idem)
  have st: "t_stat (threads k t) = RT_THREAD_CLOSE"
    using sched_butD(3) [OF s, of t] ht by (auto simp: thread_ok_def split: thread_stat.splits)
  have "sched_inv (k\<lparr> tlists := ls_remove t (tlists k) \<rparr>)"
    unfolding sched_but_def
  proof (intro conjI allI impI)
    show "lists_ok (tlists (k\<lparr> tlists := ls_remove t (tlists k) \<rparr>))" using lists_ok_remove [OF lok] by simp
    show "group_ok (k\<lparr> tlists := ls_remove t (tlists k) \<rparr>)" using sched_butD(2) [OF s] by (simp add: group_ok_def it)
    show "thread_ok (threads (k\<lparr> tlists := ls_remove t (tlists k) \<rparr>) u) (home (tlists (k\<lparr> tlists := ls_remove t (tlists k) \<rparr>)) u)" for u
      using sched_butD(3) [OF s, of u] st by (cases "u = t") (simp_all add: thread_ok_def)
  qed
  then show "kernel_inv idle (k\<lparr> tlists := ls_remove t (tlists k) \<rparr>)"
    using kernel_invD [OF k]
    by (simp add: kernel_inv_def kernel_ok_def alive_def quiet_def)
      (simp add: timer_activated_def timer_flag_def)
  show "items (ls_remove t (tlists k)) DefunctQ = ts" by (simp add: items_remove [OF lok] row)
qed

text \<open>What the cleanup function of a thread may do: return, keep the invariant, and leave the lists, the containers, the
  objects and the other threads' cleanup functions as they are.\<close>

definition cleanups :: "nat \<Rightarrow> (nat \<Rightarrow> kernel \<Rightarrow> kernel option) \<Rightarrow> bool" where
  "cleanups idle cleanup \<longleftrightarrow> (\<forall>t k. kernel_inv idle k \<longrightarrow> interrupt_nest k = 0 \<longrightarrow>
     (\<exists>k'. cleanup t k = Some k' \<and> kernel_inv idle k' \<and> interrupt_nest k' = 0 \<and> tlists k' = tlists k
        \<and> containers k' = containers k \<and> objs k' = objs k))"

text \<open>C7. Called outside interrupts, \<open>rt_thread_idle_excute\<close> returns with the invariant kept. It takes the dead threads off
  the list from the front, calls their cleanup functions and takes the objects of the dynamic ones out of the container. It
  stops behind the first static thread: what is behind that stays on the list for the next call, although a comment
  says that one call does all the cleanups. Without static threads the list is empty afterwards.\<close>

theorem rt_thread_idle_excute_correct:
  assumes "kernel_inv idle k" "interrupt_nest k = 0" "cleanups idle cleanup"
  shows "\<exists>k'. rt_thread_idle_excute cleanup k = Some k' \<and> kernel_inv idle k'
           \<and> items (tlists k') DefunctQ
               = tl (dropWhile (\<lambda>t. \<not> obj_static (objs k (ObjThread t))) (items (tlists k) DefunctQ))
           \<and> (\<forall>x. home (containers k') x =
                (if x \<in> ObjThread ` set (takeWhile (\<lambda>t. \<not> obj_static (objs k (ObjThread t))) (items (tlists k) DefunctQ))
                 then None else home (containers k) x))"
  using assms(1,2)
proof (induction "length (items (tlists k) DefunctQ)" arbitrary: k)
  case 0
  then show ?case by (subst rt_thread_idle_excute.simps) (simp add: ls_isempty_def)
next
  case (Suc n)
  obtain t ts where row: "items (tlists k) DefunctQ = t # ts" using Suc(2) by (cases "items (tlists k) DefunctQ") auto
  let ?k0 = "k\<lparr> tlists := ls_remove t (tlists k) \<rparr>"
  have k0: "kernel_inv idle ?k0" "items (tlists ?k0) DefunctQ = ts" "interrupt_nest ?k0 = 0"
    using defunct_removed [OF Suc.prems(1) row] Suc.prems(2) by simp_all
  obtain k1 where k1: "(if t_cleanup (threads k t) then cleanup t ?k0 else Some ?k0) = Some k1" "kernel_inv idle k1"
      "interrupt_nest k1 = 0" "items (tlists k1) DefunctQ = ts" "containers k1 = containers k" "objs k1 = objs k"
  proof (cases "t_cleanup (threads k t)")
    case True
    with assms(3) k0 obtain k1 where "cleanup t ?k0 = Some k1" "kernel_inv idle k1" "interrupt_nest k1 = 0"
      "tlists k1 = tlists ?k0" "containers k1 = containers ?k0" "objs k1 = objs ?k0"
      unfolding cleanups_def by blast
    with True k0(2) that [of k1] show ?thesis by simp
  qed (use k0 that [of ?k0] in simp)
  show ?case
  proof (cases "obj_static (objs k (ObjThread t))")
    case True
    then have "rt_thread_idle_excute cleanup k = Some k1"
      using k1(1,6) row Suc.prems(2)
      by (subst rt_thread_idle_excute.simps)
        (simp add: ls_isempty_def ls_first_def rt_debug_not_in_interrupt_def rt_object_is_systemobject_def Let_def)
    then show ?thesis using k1 row True by simp
  next
    case False
    let ?k2 = "k1\<lparr> containers := ls_remove (ObjThread t) (containers k1) \<rparr>"
    have step: "rt_thread_idle_excute cleanup k = rt_thread_idle_excute cleanup ?k2"
      using k1(1,6) row Suc.prems(2) False
      by (subst rt_thread_idle_excute.simps)
        (simp add: ls_isempty_def ls_first_def rt_debug_not_in_interrupt_def rt_object_is_systemobject_def
          rt_object_delete_def Let_def)
    have "\<exists>k'. rt_thread_idle_excute cleanup ?k2 = Some k' \<and> kernel_inv idle k'
        \<and> items (tlists k') DefunctQ = tl (dropWhile (\<lambda>t. \<not> obj_static (objs ?k2 (ObjThread t))) (items (tlists ?k2) DefunctQ))
        \<and> (\<forall>x. home (containers k') x =
            (if x \<in> ObjThread ` set (takeWhile (\<lambda>t. \<not> obj_static (objs ?k2 (ObjThread t))) (items (tlists ?k2) DefunctQ))
             then None else home (containers ?k2) x))"
      by (rule Suc.hyps(1)) (use k1 row Suc.hyps(2) kernel_inv_containers in simp_all)
    then obtain k' where k': "rt_thread_idle_excute cleanup ?k2 = Some k'" "kernel_inv idle k'"
        "items (tlists k') DefunctQ = tl (dropWhile (\<lambda>t. \<not> obj_static (objs k (ObjThread t))) ts)"
        "\<forall>x. home (containers k') x =
            (if x \<in> ObjThread ` set (takeWhile (\<lambda>t. \<not> obj_static (objs k (ObjThread t))) ts)
             then None else home (ls_remove (ObjThread t) (containers k)) x)"
      using k1 by auto
    show ?thesis unfolding step row by (rule exI [of _ k']) (use k' False in \<open>auto simp: image_iff\<close>)
  qed
qed

section \<open>The small system\<close>

lemma demo_inv: "kernel_inv 0 sched_demo"
proof -
  have "timers_ok 1 sched_demo" by (rule demo_timers)
  then show ?thesis
    using sched_demo_inv sched_demo_ready sched_demo_current
    by (simp add: kernel_inv_def kernel_ok_def alive_def)
      (simp add: quiet_def sched_demo_def kernel0_def timer_activated_def timer_flag_def)
qed

text \<open>Timeout functions that stop another timer, or their own: the function with number \<open>f\<close> stops the timer \<open>f\<close>.\<close>

definition stop_timer :: "nat \<Rightarrow> kernel \<Rightarrow> kernel option" where
  "stop_timer f k = Some (snd (rt_timer_stop (UserTimer f) k))"

lemma user_timeouts_stop: "user_timeouts stop_timer (alive idle)"
  unfolding user_timeouts_def
proof (intro allI impI)
  fix k i f assume k: "kernel_ok 0 k" "quiet {} k" "alive idle k" "i \<notin> set (timer_list k)" "timer_live k i"
  define k' where "k' = snd (rt_timer_stop (UserTimer f) k)"
  have t: "timers_ok 0 k" using k(1) by (simp add: kernel_ok_def)
  have stop: "snd (e, k1) = k' \<longrightarrow> kernel_ok 0 k' \<and> quiet {i} k' \<and> alive idle k' \<and> rt_tick k' = rt_tick k
      \<and> i \<notin> set (timer_list k') \<and> expired_timers k' \<subseteq> expired_timers k"
    if k1: "k1 = k\<lparr> timer_list := remove1 (UserTimer f) (timer_list k),
        objs := (objs k)(ObjTimer (UserTimer f) := (objs k (ObjTimer (UserTimer f)))\<lparr> obj_flag := g \<rparr>) \<rparr>"
      and ok: "timers_ok 0 k1" for e k1 g
  proof
    assume "snd (e, k1) = k'"
    then have e: "k' = k1" by simp
    have "expired_timers k1 \<subseteq> expired_timers k"
      by (auto simp: expired_timers_def k1 timer_key_def dest: set_mp [OF set_remove1_subset])
    moreover have "quiet {i} k1" using k(2) by (auto simp: quiet_def ready_def k1 timer_activated_def timer_flag_def)
    moreover have "sched_inv k1" using k(1) by (simp add: kernel_ok_def k1)
    ultimately show "kernel_ok 0 k' \<and> quiet {i} k' \<and> alive idle k' \<and> rt_tick k' = rt_tick k
      \<and> i \<notin> set (timer_list k') \<and> expired_timers k' \<subseteq> expired_timers k"
      using ok k(3,4) unfolding e
      by (auto simp: kernel_ok_def alive_def ready_def k1 dest: set_mp [OF set_remove1_subset])
  qed
  have "snd (rt_timer_stop (UserTimer f) k) = k' \<longrightarrow> kernel_ok 0 k' \<and> quiet {i} k' \<and> alive idle k' \<and> rt_tick k' = rt_tick k
      \<and> i \<notin> set (timer_list k') \<and> expired_timers k' \<subseteq> expired_timers k"
    by (rule timer_stop_wp [OF t, where Q = "\<lambda>x. snd x = k' \<longrightarrow> kernel_ok 0 k' \<and> quiet {i} k' \<and> alive idle k' \<and> rt_tick k' = rt_tick k
      \<and> i \<notin> set (timer_list k') \<and> expired_timers k' \<subseteq> expired_timers k"], erule stop, assumption)
  moreover have "timer_periodic i k' \<longrightarrow> timer_live k' i"
    using k(5) by (auto simp: k'_def rt_timer_stop_def Let_def timer_live_def timer_periodic_def timer_flag_def set_timer_flag_def
        upd_obj_def rt_timer_remove_def split: timer_id.splits)
  ultimately show "runs (\<lambda>k'. kernel_ok 0 k' \<and> quiet {i} k' \<and> alive idle k' \<and> rt_tick k' = rt_tick k
      \<and> i \<notin> set (timer_list k') \<and> (timer_periodic i k' \<longrightarrow> timer_live k' i)
      \<and> expired_timers k' \<subseteq> expired_timers k) (stop_timer f k)"
    by (simp add: stop_timer_def flip: k'_def)
qed

text \<open>At the next tick the sleep of thread 3 is over and a periodic timer is due, whose function stops a third timer.\<close>

definition tick_demo :: kernel where
  "tick_demo = sched_demo\<lparr> threads := (threads sched_demo)(3 := (demo_thread 5)\<lparr> t_stat := RT_THREAD_SUSPEND \<rparr>),
     timers := (timers sched_demo)(ThreadTimer 3 := \<lparr> timeout_func = ThreadTimeout 3, tm_init_tick = 1, timeout_tick = 1 \<rparr>,
       UserTimer 1 := \<lparr> timeout_func = UserTimeout 2, tm_init_tick = 10, timeout_tick = 1 \<rparr>,
       UserTimer 2 := \<lparr> timeout_func = UserTimeout 0, tm_init_tick = 7, timeout_tick = 7 \<rparr>),
     objs := (objs sched_demo)(ObjTimer (ThreadTimer 3) := (objs sched_demo (ObjTimer (ThreadTimer 3)))\<lparr> obj_flag := 1 \<rparr>,
       ObjTimer (UserTimer 1) := (objs sched_demo (ObjTimer (UserTimer 1)))\<lparr> obj_flag := 3 \<rparr>,
       ObjTimer (UserTimer 2) := (objs sched_demo (ObjTimer (UserTimer 2)))\<lparr> obj_flag := 1 \<rparr>),
     timer_list := [ThreadTimer 3, UserTimer 1, UserTimer 2] \<rparr>"

lemma tick_demo_inv: "kernel_inv 0 tick_demo"
proof -
  have h: "home (tlists sched_demo) 3 = None" "threads sched_demo 3 = thread0" by (simp_all add: sched_demo_def kernel0_def)
  have "sched_inv tick_demo"
    unfolding sched_but_def
  proof (intro conjI allI impI)
    show "lists_ok (tlists tick_demo)" using sched_butD(1) [OF sched_demo_inv] by (simp add: tick_demo_def)
    show "group_ok tick_demo" using sched_butD(2) [OF sched_demo_inv] by (simp add: group_ok_def tick_demo_def)
    show "thread_ok (threads tick_demo u) (home (tlists tick_demo) u)" for u
      using sched_butD(3) [OF sched_demo_inv, of u] h
      by (cases "u = 3") (auto simp: tick_demo_def thread_ok_def demo_thread_def thread0_def prio_ok_def prio_mask_def
          RT_THREAD_PRIORITY_MAX_def)
  qed
  moreover have "timers_ok 1 tick_demo"
    by (simp add: timers_ok_def timers_sorted_def thread_timers_def tick_demo_def sched_demo_def kernel0_def timer0_def
        timer_periodic_def timer_activated_def timer_flag_def timer_live_def timer_key_def RT_TIMER_FLAG_ACTIVATED_def
        RT_TIMER_FLAG_PERIODIC_def)
  moreover have "ready tick_demo u \<longleftrightarrow> u \<in> {0, 1, 2}" for u
    using h sched_demo_ready [of u] by (cases "u = 3") (simp_all add: ready_def tick_demo_def)
  moreover have "\<not> timer_activated (ThreadTimer u) tick_demo" if "u \<in> {0, 1, 2}" for u
    using that by (auto simp: timer_activated_def timer_flag_def tick_demo_def sched_demo_def kernel0_def)
  ultimately show ?thesis
    using sched_demo_current by (simp add: kernel_inv_def kernel_ok_def alive_def quiet_def) (simp add: tick_demo_def)
qed

theorem rt_tick_increase_correct_witness:
  "\<exists>k'. timer_list tick_demo = [ThreadTimer 3, UserTimer 1, UserTimer 2]
     \<and> rt_tick_increase (timeout_calls stop_timer) tick_demo = Some k' \<and> kernel_inv 0 k' \<and> rt_tick k' = 1"
proof -
  have "rt_tick tick_demo = 0" "timer_list tick_demo = [ThreadTimer 3, UserTimer 1, UserTimer 2]"
    by (simp_all add: tick_demo_def sched_demo_def kernel0_def)
  then show ?thesis using rt_tick_increase_correct [OF user_timeouts_stop tick_demo_inv] by auto
qed

text \<open>A periodic timer of period 0 is accepted, and the next tick does not return.\<close>

definition zero_demo :: kernel where
  "zero_demo = set_timer_flag (UserTimer 3) 2 (upd_timer (UserTimer 3) (\<lambda>tm. tm\<lparr> timeout_func := UserTimeout 0, tm_init_tick := 0 \<rparr>) sched_demo)"

theorem rt_tick_zero_period_witness:
  "\<exists>k. rt_timer_start (UserTimer 3) zero_demo = Some (RT_EOK, k) \<and> rt_tick_increase (timeout_calls (\<lambda>_. Some)) k = None"
proof -
  define k where "k = set_timer_flag (UserTimer 3) 3 (upd_timer (UserTimer 3) (\<lambda>tm. tm\<lparr> timeout_tick := 0 \<rparr>) zero_demo\<lparr> timer_list := [UserTimer 3] \<rparr>)"
  note d = k_def zero_demo_def sched_demo_def kernel0_def timer0_def upd_timer_def set_timer_flag_def upd_obj_def timer_flag_def
    RT_TIMER_FLAG_ACTIVATED_def RT_TIMER_FLAG_PERIODIC_def demo_thread_def thread0_def
  have "rt_timer_start (UserTimer 3) zero_demo = Some (RT_EOK, k)"
    by (simp add: rt_timer_start_def timer_activated_def half_tick Let_def d)
  moreover have "timeout_func (timers k (UserTimer 3)) = UserTimeout 0" "rt_current_thread k = Some 1" "t_remaining_tick (threads k 1) \<noteq> 1"
    by (simp_all add: d)
  moreover have "zero_period 3 (k\<lparr> rt_tick := rt_tick k + 1 \<rparr>)"
    by (simp add: zero_period_def timer_periodic_def timer_activated_def timer_expired_def half_tick d)
  ultimately show ?thesis using rt_tick_zero_period [where ucb = "\<lambda>_. Some" and k = k and u = 3 and f = 0 and t = 1] by blast
qed

theorem rt_thread_sleep_correct_witness:
  "\<exists>k' u. rt_thread_sleep 20 sched_demo = Some k' \<and> t_stat (threads k' 1) = RT_THREAD_SUSPEND
     \<and> u \<noteq> 1 \<and> rt_current_thread k' = Some u \<and> most_urgent k' u"
  using rt_thread_sleep_correct [OF demo_inv sched_demo_current(1), of 20] sched_demo_current(2)
  by (auto simp: sched_demo_ready)

theorem rt_thread_exit_correct_witness:
  "\<exists>k' u. rt_thread_exit sched_demo = Some k' \<and> home (tlists k') 1 = Some DefunctQ
     \<and> u \<noteq> 1 \<and> rt_current_thread k' = Some u \<and> most_urgent k' u"
proof -
  have "\<not> obj_static (objs sched_demo (ObjThread 1))" by (simp add: sched_demo_def kernel0_def)
  then show ?thesis
    using rt_thread_exit_correct [OF demo_inv sched_demo_current(1) _ _ sched_demo_current(2)]
    by (auto simp: sched_demo_ready)
qed

theorem rt_thread_startup_correct_witness:
  "\<exists>k'. rt_thread_startup 7 sched_demo = Some (RT_EOK, k') \<and> ready k' 7"
proof -
  have "t_stat (threads sched_demo 7) = RT_THREAD_INIT" "unat (t_init_priority (threads sched_demo 7)) < 32"
    by (simp_all add: sched_demo_def thread0_def)
  then show ?thesis using rt_thread_startup_correct [OF demo_inv, of 7] by blast
qed

theorem rt_thread_yield_round_robin_witness:
  "\<exists>k'. rt_thread_yield sched_demo = Some (RT_EOK, k') \<and> rt_current_thread k' = Some 2
      \<and> items (tlists k') (ReadyQ 5) = [2, 1]"
proof -
  have p: "t_current_priority (threads sched_demo 1) = 5"
    by (simp add: sched_demo_def demo_thread_def)
  have row: "items (tlists sched_demo) (ReadyQ (unat (t_current_priority (threads sched_demo 1)))) = [1, 2]"
    unfolding p by (simp add: sched_demo_def)
  have "most_urgent sched_demo 1"
    by (auto simp: most_urgent_def sched_demo_ready) (auto simp: sched_demo_def demo_thread_def ls_first_def)
  from rt_thread_yield_round_robin [OF demo_inv sched_demo_current(1) this sched_demo_current(2) row]
  show ?thesis unfolding p by auto
qed

theorem rt_thread_change_priority_correct_witness:
  "\<exists>k' xs. rt_thread_control 2 0x02 9 sched_demo = Some (RT_EOK, k') \<and> kernel_inv 0 k'
      \<and> items (tlists k') (ReadyQ 9) = xs @ [2]"
proof -
  have "ready sched_demo 2" by (simp add: sched_demo_ready)
  then show ?thesis
    using rt_thread_change_priority_correct [OF demo_inv, of 2 9] by (auto simp: ready_def)
qed

text \<open>The same system with three dead threads: 4 with a cleanup function, 5 static, 6.\<close>

definition defunct_demo :: kernel where
  "defunct_demo = sched_demo\<lparr> threads := (threads sched_demo)(4 := thread0\<lparr> t_stat := RT_THREAD_CLOSE, t_cleanup := True \<rparr>,
       5 := thread0\<lparr> t_stat := RT_THREAD_CLOSE \<rparr>, 6 := thread0\<lparr> t_stat := RT_THREAD_CLOSE \<rparr>),
     objs := (objs sched_demo)(ObjThread 5 := (objs sched_demo (ObjThread 5))\<lparr> obj_static := True \<rparr>),
     tlists := \<lparr> items = (items (tlists sched_demo))(DefunctQ := [4, 5, 6]),
                 home = (home (tlists sched_demo))(4 \<mapsto> DefunctQ, 5 \<mapsto> DefunctQ, 6 \<mapsto> DefunctQ) \<rparr> \<rparr>"

lemma defunct_demo_inv: "kernel_inv 0 defunct_demo"
proof -
  have h: "home (tlists sched_demo) u = None" "threads sched_demo u = thread0" if "u \<in> {4, 5, 6}" for u
    using that by (auto simp: sched_demo_def kernel0_def)
  have q: "items (tlists defunct_demo) (ReadyQ p) = items (tlists sched_demo) (ReadyQ p)" for p
    by (simp add: defunct_demo_def)
  have "sched_inv defunct_demo"
    unfolding sched_but_def
  proof (intro conjI allI impI)
    show "lists_ok (tlists defunct_demo)" by (auto simp: lists_ok_def defunct_demo_def sched_demo_def)
    show "group_ok defunct_demo"
      using sched_butD(2) [OF sched_demo_inv] by (simp add: group_ok_def q) (simp add: defunct_demo_def)
    show "thread_ok (threads defunct_demo u) (home (tlists defunct_demo) u)" for u
      using sched_butD(3) [OF sched_demo_inv, of u]
      by (cases "u \<in> {4, 5, 6}") (auto simp: defunct_demo_def thread_ok_def thread0_def)
  qed
  moreover have "timers_ok 1 defunct_demo"
    by (simp add: timers_ok_def timers_sorted_def thread_timers_def defunct_demo_def sched_demo_def kernel0_def timer0_def
        timer_periodic_def timer_flag_def)
  moreover have "ready defunct_demo u \<longleftrightarrow> ready sched_demo u" for u
    using h [of u] by (cases "u \<in> {4, 5, 6}") (auto simp: ready_def defunct_demo_def thread0_def)
  ultimately show ?thesis
    using sched_demo_ready sched_demo_current
    by (simp add: kernel_inv_def kernel_ok_def alive_def)
      (simp add: quiet_def defunct_demo_def sched_demo_def kernel0_def timer_activated_def timer_flag_def)
qed

text \<open>The cleanup function marks the dead thread with an error.\<close>

definition demo_cleanup :: "nat \<Rightarrow> kernel \<Rightarrow> kernel option" where
  "demo_cleanup t k = Some (upd_thread t (\<lambda>th. th\<lparr> t_error := RT_ERROR \<rparr>) k)"

lemma demo_cleanup_ok: "cleanups idle demo_cleanup"
  unfolding cleanups_def
proof (intro allI impI)
  fix t k assume k: "kernel_inv idle k" and n: "interrupt_nest k = 0"
  have "kernel_inv idle (upd_thread t (\<lambda>th. th\<lparr> t_error := RT_ERROR \<rparr>) k)"
    using k kernel_ok_other_thread_field [where f = "\<lambda>th. th\<lparr> t_error := RT_ERROR \<rparr>" and t = t and k = k]
    by (simp add: kernel_inv_def alive_def)
  then show "\<exists>k'. demo_cleanup t k = Some k' \<and> kernel_inv idle k' \<and> interrupt_nest k' = 0 \<and> tlists k' = tlists k
        \<and> containers k' = containers k \<and> objs k' = objs k"
    using n by (simp add: demo_cleanup_def upd_thread_def)
qed

theorem rt_thread_idle_excute_correct_witness:
  "\<exists>k'. items (tlists defunct_demo) DefunctQ = [4, 5, 6] \<and> rt_thread_idle_excute demo_cleanup defunct_demo = Some k'
      \<and> kernel_inv 0 k' \<and> items (tlists k') DefunctQ = [6] \<and> home (containers k') (ObjThread 4) = None"
proof -
  have n: "interrupt_nest defunct_demo = 0" and d: "items (tlists defunct_demo) DefunctQ = [4, 5, 6]"
    "\<not> obj_static (objs defunct_demo (ObjThread 4))" "obj_static (objs defunct_demo (ObjThread 5))"
    by (simp_all add: defunct_demo_def sched_demo_def kernel0_def)
  show ?thesis
    using rt_thread_idle_excute_correct [OF defunct_demo_inv n demo_cleanup_ok] d by auto
qed

section \<open>A thread that is initialised again\<close>

text \<open>\<open>_rt_thread_init\<close> leaves \<open>number_mask\<close> as it is. When a static thread block that ran at
  priority 5 before is initialised with priority 20 and then detached without having been
  started, \<open>rt_schedule_remove_thread\<close> finds row 20 empty and clears bit 5 of the bitmap, so the
  threads that are ready at priority 5 are no longer found.\<close>

definition reused_demo :: kernel where
  "reused_demo = upd_thread 4 (\<lambda>_. (demo_thread 5)\<lparr> t_stat := RT_THREAD_CLOSE \<rparr>) sched_demo"

lemma reused_demo_inv: "kernel_inv 0 reused_demo"
proof -
  have h: "home (tlists sched_demo) 4 = None" "threads sched_demo 4 = thread0" "timer_list sched_demo = []"
    by (simp_all add: sched_demo_def kernel0_def)
  have "sched_inv reused_demo"
    unfolding reused_demo_def using sched_but_single [OF sched_demo_inv, of 4] h
    by (intro sched_inv_finish [of 4]) (simp_all add: sched_but_upd thread_ok_def)
  moreover have "timers_ok 1 reused_demo"
    unfolding reused_demo_def using kernel_invD(3) [OF demo_inv] h by (subst timers_ok_upd_thread) simp_all
  moreover have "ready reused_demo t \<longleftrightarrow> ready sched_demo t" for t
    using h by (simp add: ready_def reused_demo_def thread0_def)
  ultimately show ?thesis
    using kernel_invD [OF demo_inv]
    by (simp add: kernel_inv_def kernel_ok_def alive_def quiet_def timer_activated_def)
      (simp add: reused_demo_def)
qed

theorem rt_thread_detach_stale_mask:
  "\<exists>k1 k'. kernel_inv 0 reused_demo \<and> rt_thread_init 4 ''t'' 20 10 reused_demo = Some (RT_EOK, k1)
     \<and> rt_thread_detach 4 k1 = Some (RT_EOK, k') \<and> items (tlists k') (ReadyQ 5) = [1, 2]
     \<and> rt_ffs (ready_group k') = 32"
proof -
  let ?k = reused_demo
  have c: "containers ?k = \<lparr> items = (\<lambda>_. []), home = (\<lambda>_. None) \<rparr>" "timer_list ?k = []"
    "home (tlists ?k) 4 = None" "items (tlists ?k) (ReadyQ 20) = []" "items (tlists ?k) (ReadyQ 5) = [1, 2]"
    "t_number_mask (threads ?k 4) = push_bit 5 1" "ready_group ?k = push_bit 31 1 OR push_bit 5 1"
    by (simp_all add: reused_demo_def sched_demo_def kernel0_def upd_thread_def demo_thread_def)
  obtain k1 where k1: "rt_thread_init 4 ''t'' 20 10 ?k = Some (RT_EOK, k1)" "tlists k1 = tlists ?k"
    "ready_group k1 = ready_group ?k" "t_current_priority (threads k1 4) = 20"
    "t_number_mask (threads k1 4) = push_bit 5 1" "\<not> t_cleanup (threads k1 4)"
    using c(1-3,6)
    by (simp add: rt_thread_init_def rt_object_init_def rt_thread_setup_def rt_timer_init_def
        rt_timer_setup_def RT_THREAD_PRIORITY_MAX_def ls_push_def upd_obj_def upd_thread_def upd_timer_def
        set_timer_flag_def timer_flag_def RT_TIMER_FLAG_ACTIVATED_def Let_def)
  obtain k' where "rt_thread_detach 4 k1 = Some (RT_EOK, k')" "tlists k' = tlists ?k"
    "ready_group k' = ready_group ?k AND NOT (push_bit 5 1)"
    using k1 c(3,4)
    by (simp add: rt_thread_detach_def rt_schedule_remove_thread_def ready_row_def RT_THREAD_PRIORITY_MAX_def
        ls_remove_def ls_isempty_def rt_timer_detach_def rt_timer_remove_def rt_object_detach_def
        upd_thread_def Let_def)
  moreover have "(push_bit 31 1 OR push_bit 5 1) AND NOT (push_bit 5 1) = (push_bit 31 1 :: u32)"
    by simp
  moreover have "rt_ffs (push_bit 31 1) = 32"
    by (simp add: rt_ffs_def lowest_bit_bitmap_def lowest_bit_row_def)
  ultimately show ?thesis using k1(1) c(5,7) reused_demo_inv by (intro exI [of _ k1] exI [of _ k']) simp
qed

section \<open>Milliseconds and ticks\<close>

text \<open>Up to 42949662 milliseconds \<open>rt_tick_from_millisecond\<close> is the number of 10 ms ticks, rounded
  up; above that the 32-bit product wraps around.\<close>

theorem rt_tick_from_millisecond_bounds:
  "(unat ms \<le> 42949662 \<longrightarrow> unat (rt_tick_from_millisecond ms) = (unat ms + 9) div 10)
   \<and> rt_tick_from_millisecond 42949673 = 1"
proof -
  have "unat (rt_tick_from_millisecond ms) = (unat ms + 9) div 10" if m: "unat ms \<le> 42949662"
  proof -
    have "unat (100 * ms) = 100 * unat ms" using m by (simp add: unat_word_ariths)
    then have "unat (100 * ms + 999) = 100 * unat ms + 999"
      using m unat_plus_small [of "100 * ms" 999] by simp
    then have "unat (rt_tick_from_millisecond ms) = (100 * unat ms + 999) div 1000"
      by (simp add: rt_tick_from_millisecond_def RT_TICK_PER_SECOND_def unat_div)
    also have "\<dots> = (100 * unat ms + 999) div 100 div 10" by (simp add: div_mult2_eq [symmetric])
    also have "\<dots> = (unat ms + 9) div 10" by simp
    finally show ?thesis .
  qed
  moreover have "rt_tick_from_millisecond 42949673 = 1"
    by (simp add: rt_tick_from_millisecond_def RT_TICK_PER_SECOND_def)
  ultimately show ?thesis by blast
qed

theorem rt_tick_from_millisecond_bounds_witness: "unat (rt_tick_from_millisecond 25) = 3"
  using rt_tick_from_millisecond_bounds [of 25] by simp

end
