(* ===== verification/IpcBase.thy ===== *)
theory IpcBase
  imports Thread
begin

text \<open>
  What the IPC objects of src/ipc.c share: the list a thread waits in (first-come or by priority),
  waking the first waiter and waking all of them, and the sequence every blocking call runs
  through: suspend the caller in the object's list, start its timer when there is a timeout,
  schedule. A blocking call returns \<open>Returned e\<close>, or \<open>Waits c\<close> when it stopped at
  \<^verbatim>\<open>rt_schedule()\<close> with the caller suspended; \<open>c\<close> is what the rest of the C function needs of its
  local variables, and the rest is a definition of its own.
\<close>

section \<open>Operations\<close>

datatype 'c call = Returned rt_err | Waits 'c

definition rt_ipc_object_init :: "tlist_head \<Rightarrow> kernel \<Rightarrow> kernel option" where
  "rt_ipc_object_init q k = do {
     ls \<leftarrow> ls_init q (tlists k);
     Some (k\<lparr> tlists := ls \<rparr>) }"

definition ipc_link :: "tlist_head \<Rightarrow> nat \<Rightarrow> u8 \<Rightarrow> kernel \<Rightarrow> (tlist_head, nat) rt_lists option" where
  "ipc_link q t flag k =
     (if flag = 0x00 then ls_append q t (tlists k)
      else if flag = 0x01 then
        (case find (\<lambda>n. t_current_priority (threads k t) < t_current_priority (threads k n))
                (items (tlists k) q) of
           Some n \<Rightarrow> ls_insert_before n t (tlists k)
         | None \<Rightarrow> ls_append q t (tlists k))
      else Some (tlists k))"

definition rt_ipc_list_suspend :: "tlist_head \<Rightarrow> nat \<Rightarrow> u8 \<Rightarrow> kernel \<Rightarrow> kernel option" where
  "rt_ipc_list_suspend q t flag k = do {
     (_, k) \<leftarrow> rt_thread_suspend t k;
     ls \<leftarrow> ipc_link q t flag k;
     Some (k\<lparr> tlists := ls \<rparr>) }"

definition rt_ipc_list_resume :: "tlist_head \<Rightarrow> kernel \<Rightarrow> kernel option" where
  "rt_ipc_list_resume q k = do {
     t \<leftarrow> ls_first q (tlists k);
     (_, k) \<leftarrow> rt_thread_resume t k;
     Some k }"

partial_function (option) rt_ipc_list_resume_all :: "tlist_head \<Rightarrow> kernel \<Rightarrow> kernel option" where
  "rt_ipc_list_resume_all q k =
     (if ls_isempty q (tlists k) then Some k
      else do {
        t \<leftarrow> ls_first q (tlists k);
        let k = upd_thread t (\<lambda>th. th\<lparr> t_error := RT_ERROR \<rparr>) k;
        (_, k) \<leftarrow> rt_thread_resume t k;
        rt_ipc_list_resume_all q k })"

text \<open>Suspending the caller with its timer; \<open>time\<close> is the C code's \<^verbatim>\<open>rt_int32_t\<close>.\<close>

definition ipc_block :: "tlist_head \<Rightarrow> nat \<Rightarrow> u8 \<Rightarrow> u32 \<Rightarrow> kernel \<Rightarrow> kernel option" where
  "ipc_block q t flag time k = do {
     k \<leftarrow> rt_ipc_list_suspend q t flag k;
     if 0 < sint time then start_thread_timer t time k else Some k }"

definition set_error :: "nat \<Rightarrow> rt_err \<Rightarrow> kernel \<Rightarrow> kernel" where
  "set_error t e = upd_thread t (\<lambda>th. th\<lparr> t_error := e \<rparr>)"

definition obj_flags :: "obj_id \<Rightarrow> kernel \<Rightarrow> u8" where
  "obj_flags x k = obj_flag (objs k x)"

definition set_obj_flags :: "obj_id \<Rightarrow> u8 \<Rightarrow> kernel \<Rightarrow> kernel" where
  "set_obj_flags x f = upd_obj x (\<lambda>ob. ob\<lparr> obj_flag := f \<rparr>)"

text \<open>The body of the waiting loop of a mailbox and of a message queue, up to \<^verbatim>\<open>rt_schedule()\<close>:
  \<open>timeout\<close> and \<open>tick_delta\<close> are the C variables, returned as the call resumes with them; and the
  new values after the wait.\<close>

definition ipc_wait ::
  "tlist_head \<Rightarrow> nat \<Rightarrow> u8 \<Rightarrow> u32 \<Rightarrow> u32 \<Rightarrow> kernel \<Rightarrow> ((u32 \<times> u32) call \<times> kernel) option" where
  "ipc_wait q t flag timeout tick_delta k = do {
     rt_debug_in_thread_context k;
     k \<leftarrow> ipc_block q t flag timeout k;
     let tick_delta = (if 0 < sint timeout then rt_tick k else tick_delta);
     k \<leftarrow> rt_schedule k;
     Some (Waits (timeout, tick_delta), k) }"

definition ipc_remaining :: "u32 \<Rightarrow> u32 \<Rightarrow> kernel \<Rightarrow> u32 \<times> u32" where
  "ipc_remaining timeout tick_delta k =
     (if 0 < sint timeout then
        let tick_delta = rt_tick k - tick_delta;
            timeout = timeout - tick_delta
        in (if sint timeout < 0 then 0 else timeout, tick_delta)
      else (timeout, tick_delta))"

text \<open>The end of a successful send or receive: the first thread waiting at the other end is woken.\<close>

definition ipc_wake :: "tlist_head \<Rightarrow> kernel \<Rightarrow> kernel option" where
  "ipc_wake q k =
     (if \<not> ls_isempty q (tlists k) then do {
        k \<leftarrow> rt_ipc_list_resume q k;
        rt_schedule k }
      else Some k)"

section \<open>The waiting lists\<close>

fun waitq :: "tlist_head \<Rightarrow> bool" where
  "waitq (SuspQ _) = True"
| "waitq (SenderQ _) = True"
| "waitq (DriverQ _) = True"
| "waitq _ = False"

text \<open>Where a new waiter goes: last, or behind the waiters that are at least as urgent.\<close>

definition ipc_insert :: "u8 \<Rightarrow> (nat \<Rightarrow> u8) \<Rightarrow> nat \<Rightarrow> nat list \<Rightarrow> nat list" where
  "ipc_insert flag prio t xs =
     (if flag = 0x00 then xs @ [t]
      else takeWhile (\<lambda>n. prio n \<le> prio t) xs @ t # dropWhile (\<lambda>n. prio n \<le> prio t) xs)"

lemma set_ipc_insert [simp]: "set (ipc_insert flag prio t xs) = insert t (set xs)"
proof -
  have "set xs = set (takeWhile P xs) \<union> set (dropWhile P xs)" for P
    by (metis set_append takeWhile_dropWhile_id)
  then show ?thesis by (auto simp: ipc_insert_def)
qed

lemma length_ipc_insert [simp]: "length (ipc_insert flag prio t xs) = Suc (length xs)"
  by (simp add: ipc_insert_def) (metis length_append takeWhile_dropWhile_id)

lemma find_Some_pred: "find P xs = Some n \<Longrightarrow> P n"
  by (induction xs) (auto split: if_splits)

lemma insert_before_find:
  "find P xs = Some n \<Longrightarrow> insert_before n t xs = takeWhile (\<lambda>x. \<not> P x) xs @ t # dropWhile (\<lambda>x. \<not> P x) xs"
  by (induction xs) (auto dest: find_Some_pred split: if_splits)

lemma find_None_takeWhile:
  "find P xs = None \<Longrightarrow> takeWhile (\<lambda>x. \<not> P x) xs = xs \<and> dropWhile (\<lambda>x. \<not> P x) xs = []"
  by (induction xs) (auto split: if_splits)

lemma ipc_link_Some:
  assumes ok: "lists_ok (tlists k)" and h: "home (tlists k) t = None" and f: "flag \<in> {0x00, 0x01}"
  shows "ipc_link q t flag k = Some ((tlists k)\<lparr>
     items := (items (tlists k))(q := ipc_insert flag (\<lambda>n. t_current_priority (threads k n)) t (items (tlists k) q)),
     home := (home (tlists k))(t \<mapsto> q) \<rparr>)"
proof (cases "flag = 0x00")
  case True
  then show ?thesis by (simp add: ipc_link_def ls_append_Some [OF h] ipc_insert_def)
next
  case False
  let ?P = "\<lambda>n. t_current_priority (threads k t) < t_current_priority (threads k n)"
  have neg: "(\<lambda>n. \<not> ?P n) = (\<lambda>n. t_current_priority (threads k n) \<le> t_current_priority (threads k t))"
    by (simp add: not_less)
  show ?thesis
  proof (cases "find ?P (items (tlists k) q)")
    case None
    have "ipc_insert flag (\<lambda>n. t_current_priority (threads k n)) t (items (tlists k) q) = items (tlists k) q @ [t]"
      using False find_None_takeWhile [OF None] unfolding neg ipc_insert_def by presburger
    then show ?thesis
      using None False f by (simp add: ipc_link_def ls_append_Some [OF h])
  next
    case (Some n)
    then have "n \<in> set (items (tlists k) q)" by (auto simp: find_Some_iff)
    then have "home (tlists k) n = Some q" using lists_okD(2) [OF ok] by simp
    then show ?thesis
      using Some False f h insert_before_find [OF Some, of t] unfolding neg
      by (simp add: ipc_link_def ls_insert_before_def ipc_insert_def)
  qed
qed

text \<open>The state after a thread was suspended in the list \<open>q\<close>, which is now \<open>xs\<close>: nothing else has
  changed but the timers. \<open>blocked\<close> is the case of an IPC object.\<close>

definition blocked_in :: "tlist_head \<Rightarrow> nat list \<Rightarrow> nat \<Rightarrow> kernel \<Rightarrow> kernel \<Rightarrow> bool" where
  "blocked_in q xs t k k' \<longleftrightarrow>
     (\<exists>ls g tm tis ob. k' = k\<lparr> threads := (threads k)(t := (threads k t)\<lparr> t_stat := RT_THREAD_SUSPEND \<rparr>),
           tlists := ls, ready_group := g, timers := tm, timer_list := tis, objs := ob \<rparr>
        \<and> home ls = (home (tlists k))(t \<mapsto> q)
        \<and> (\<forall>p. items ls p = (if p = q then xs else remove1 t (items (tlists k) p)))
        \<and> (\<forall>x. (\<forall>i. x \<noteq> ObjTimer i) \<longrightarrow> ob x = objs k x))"

definition blocked :: "tlist_head \<Rightarrow> u8 \<Rightarrow> nat \<Rightarrow> kernel \<Rightarrow> kernel \<Rightarrow> bool" where
  "blocked q flag t k k' \<longleftrightarrow>
     blocked_in q (ipc_insert flag (\<lambda>n. t_current_priority (threads k n)) t (items (tlists k) q)) t k k'"

lemma blocked_inD:
  assumes "blocked_in q xs t k k'"
  shows "threads k' = (threads k)(t := (threads k t)\<lparr> t_stat := RT_THREAD_SUSPEND \<rparr>)"
    "home (tlists k') = (home (tlists k))(t \<mapsto> q)"
    "items (tlists k') p = (if p = q then xs else remove1 t (items (tlists k) p))"
    "(\<And>i. x \<noteq> ObjTimer i) \<Longrightarrow> objs k' x = objs k x"
    "rt_tick k' = rt_tick k" "rt_current_thread k' = rt_current_thread k"
    "lock_nest k' = lock_nest k" "interrupt_nest k' = interrupt_nest k" "containers k' = containers k"
    "sems k' = sems k" "mutexes k' = mutexes k" "events k' = events k" "mailboxes k' = mailboxes k"
    "mqs k' = mqs k" "ready k' u = (u \<noteq> t \<and> ready k u)" "mempools k' = mempools k"
  using assms by (auto simp: blocked_in_def ready_def split: if_splits)

lemma blockedD:
  assumes "blocked q flag t k k'"
  shows "threads k' = (threads k)(t := (threads k t)\<lparr> t_stat := RT_THREAD_SUSPEND \<rparr>)"
    "home (tlists k') = (home (tlists k))(t \<mapsto> q)"
    "items (tlists k') p = (if p = q then ipc_insert flag (\<lambda>n. t_current_priority (threads k n)) t (items (tlists k) q)
                            else remove1 t (items (tlists k) p))"
    "(\<And>i. x \<noteq> ObjTimer i) \<Longrightarrow> objs k' x = objs k x"
    "rt_tick k' = rt_tick k" "rt_current_thread k' = rt_current_thread k"
    "lock_nest k' = lock_nest k" "interrupt_nest k' = interrupt_nest k" "containers k' = containers k"
    "sems k' = sems k" "mutexes k' = mutexes k" "events k' = events k" "mailboxes k' = mailboxes k"
    "mqs k' = mqs k" "ready k' u = (u \<noteq> t \<and> ready k u)"
  using blocked_inD [OF assms [unfolded blocked_def]] by auto

section \<open>Rules\<close>

lemma ready_not_waiting:
  assumes "kernel_ok lb k" "ready k t" "waitq q"
  shows "t \<notin> set (items (tlists k) q)" "items (ls_remove t (tlists k)) q = items (tlists k) q"
proof -
  have lok: "lists_ok (tlists k)" using assms(1) by (simp add: kernel_ok_def sched_but_def)
  have "home (tlists k) t = Some (ReadyQ (unat (t_current_priority (threads k t))))"
    using sched_butD(3) [of "{}" k t] assms by (simp add: kernel_ok_def thread_ok_def ready_def)
  then show nin: "t \<notin> set (items (tlists k) q)" using lists_okD(2) [OF lok, of t q] assms(3) by (cases q) auto
  then show "items (ls_remove t (tlists k)) q = items (tlists k) q"
    by (simp add: items_remove [OF lok] remove1_idem)
qed

text \<open>Linking a suspended thread into a waiting list, at whatever place.\<close>

lemma link_waiting:
  assumes ok: "kernel_ok lb k" and r: "ready k t" and w: "waitq q"
    and k1: "k1 = k\<lparr> threads := (threads k)(t := (threads k t)\<lparr> t_stat := RT_THREAD_SUSPEND \<rparr>),
        tlists := ls_remove t (tlists k), ready_group := g \<rparr>" and ok1: "kernel_ok lb k1"
    and ls: "items ls = (items (tlists k1))(q := xs)" "home ls = (home (tlists k1))(t \<mapsto> q)"
    and xs: "set xs = insert t (set (items (tlists k) q))" "length xs = Suc (length (items (tlists k) q))"
  shows "kernel_ok lb (k1\<lparr> tlists := ls \<rparr>)" "blocked_in q xs t k (k1\<lparr> tlists := ls \<rparr>)"
proof -
  let ?k = "k1\<lparr> tlists := ls \<rparr>"
  have s1: "sched_inv k1" using ok1 by (simp add: kernel_ok_def)
  have lok: "lists_ok (tlists k)" using ok by (simp add: kernel_ok_def sched_but_def)
  have h1: "home (tlists k1) t = None" by (simp add: k1)
  note nin = ready_not_waiting(1) [OF ok r w]
  have iq: "items (tlists k1) q = items (tlists k) q" using ready_not_waiting(2) [OF ok r w] by (simp add: k1)
  have xs1: "set xs = insert t (set (items (tlists k1) q))" using xs(1) iq by simp
  have "card (set xs) = length xs"
    using nin xs lists_okD(1) [OF lok, of q] by (simp add: distinct_card)
  then have dx: "distinct xs" by (rule card_distinct)
  have lok': "lists_ok ls"
    unfolding lists_ok_def
  proof (intro conjI allI)
    show "distinct (items ls p)" for p using sched_butD(1) [OF s1] dx by (simp add: ls lists_ok_def)
    show "n \<in> set (items ls p) \<longleftrightarrow> home ls n = Some p" for n p
      using lists_okD(2) [OF sched_butD(1) [OF s1]] h1 by (auto simp: ls xs1)
  qed
  have "sched_inv ?k"
    unfolding sched_but_def
  proof (intro conjI allI impI)
    show "group_ok ?k" using sched_butD(2) [OF s1] w by (auto simp: group_ok_def ls)
    show "thread_ok (threads ?k u) (home (tlists ?k) u)" for u
    proof (cases "u = t")
      case True
      then show ?thesis using sched_butD(3) [OF s1, of t] w by (cases q) (simp_all add: ls thread_ok_def k1)
    next
      case False
      then show ?thesis using sched_butD(3) [OF s1, of u] by (simp add: ls)
    qed
  qed (use lok' in simp)
  then show "kernel_ok lb ?k" using ok1 by (simp add: kernel_ok_def)
  have ke: "?k = k\<lparr> threads := (threads k)(t := (threads k t)\<lparr> t_stat := RT_THREAD_SUSPEND \<rparr>),
      tlists := ls, ready_group := g \<rparr>" by (simp add: k1)
  show "blocked_in q xs t k ?k"
    unfolding blocked_in_def
    by (intro exI [of _ ls] exI [of _ g] exI [of _ "timers k"] exI [of _ "timer_list k"] exI [of _ "objs k"])
      (simp add: ke ls, simp add: k1 items_remove [OF lok])
qed

lemma list_suspend_runs [wp]:
  assumes ok: "kernel_ok lb k" and r: "ready k t" and w: "waitq q" and f: "flag \<in> {0x00, 0x01}"
    and Q: "\<And>k' ls g. k' = k\<lparr> threads := (threads k)(t := (threads k t)\<lparr> t_stat := RT_THREAD_SUSPEND \<rparr>),
                   tlists := ls, ready_group := g \<rparr> \<Longrightarrow> kernel_ok lb k' \<Longrightarrow> blocked q flag t k k' \<Longrightarrow> Q k'"
  shows "runs Q (rt_ipc_list_suspend q t flag k)"
proof -
  have "runs (\<lambda>x. runs Q (do { ls \<leftarrow> ipc_link q t flag (snd x); Some ((snd x)\<lparr> tlists := ls \<rparr>) })) (rt_thread_suspend t k)"
  proof (rule suspend_runs [OF ok r])
    fix k1 g
    assume k1: "k1 = k\<lparr> threads := (threads k)(t := (threads k t)\<lparr> t_stat := RT_THREAD_SUSPEND \<rparr>),
        tlists := ls_remove t (tlists k), ready_group := g \<rparr>" and ok1: "kernel_ok lb k1"
    let ?xs = "\<lambda>k1. ipc_insert flag (\<lambda>n. t_current_priority (threads k1 n)) t (items (tlists k1) q)"
    define ls where "ls = (tlists k1)\<lparr> items := (items (tlists k1))(q := ?xs k1), home := (home (tlists k1))(t \<mapsto> q) \<rparr>"
    have link: "ipc_link q t flag k1 = Some ls"
      unfolding ls_def by (rule ipc_link_Some) (use ok1 f in \<open>simp_all add: kernel_ok_def sched_but_def k1\<close>)
    have pr: "(\<lambda>n. t_current_priority (threads k1 n)) = (\<lambda>n. t_current_priority (threads k n))"
      by (rule ext) (simp add: k1)
    have iq: "items (tlists k1) q = items (tlists k) q" using ready_not_waiting(2) [OF ok r w] by (simp add: k1)
    have same: "?xs k1 = ?xs k" unfolding pr iq ..
    have "items ls = (items (tlists k1))(q := ?xs k)" "home ls = (home (tlists k1))(t \<mapsto> q)"
      by (simp_all add: ls_def same)
    note lw = link_waiting [OF ok r w k1 ok1 this set_ipc_insert length_ipc_insert]
    have ke: "k1\<lparr> tlists := ls \<rparr> = k\<lparr> threads := (threads k)(t := (threads k t)\<lparr> t_stat := RT_THREAD_SUSPEND \<rparr>),
        tlists := ls, ready_group := g \<rparr>" by (simp add: k1)
    have "Q (k1\<lparr> tlists := ls \<rparr>)" by (rule Q [OF ke lw(1)]) (use lw(2) in \<open>simp add: blocked_def\<close>)
    then show "runs Q (do { ls \<leftarrow> ipc_link q t flag (snd (RT_EOK, k1)); Some ((snd (RT_EOK, k1))\<lparr> tlists := ls \<rparr>) })"
      by (simp add: link)
  qed
  then show ?thesis by (simp add: rt_ipc_list_suspend_def case_prod_unfold)
qed

text \<open>A timeout is a number of ticks the thread's timer can count, or no timeout at all.\<close>

definition good_time :: "u32 \<Rightarrow> bool" where
  "good_time time \<longleftrightarrow> 0 < sint time \<longrightarrow> time < 0x7fffffff"

text \<open>Starting the timer of a thread that was just suspended.\<close>

lemma wait_timer_runs:
  assumes q0: "quiet {} k" and r: "ready k t" and tm: "good_time time"
    and ok1: "kernel_ok 1 k1" and b: "blocked_in q xs t k k1"
    and same: "objs k1 = objs k"
    and Q: "\<And>k'. kernel_ok 1 k' \<Longrightarrow> quiet {} k' \<Longrightarrow> blocked_in q xs t k k' \<Longrightarrow>
       (0 < sint time \<Longrightarrow> ThreadTimer t \<in> set (timer_list k')
          \<and> timeout_tick (timers k' (ThreadTimer t)) = rt_tick k + time) \<Longrightarrow> Q k'"
  shows "runs Q (if 0 < sint time then start_thread_timer t time k1 else Some k1)"
proof -
  have fl: "timer_flag i k1 = timer_flag i k" for i by (simp add: same timer_flag_def)
  have q1: "quiet {} k1" using q0 blocked_inD(15) [OF b] by (auto simp: quiet_def timer_activated_def fl)
  have na: "\<not> timer_activated (ThreadTimer t) k1"
    using q0 r by (simp add: quiet_def timer_activated_def fl)
  have st: "t_stat (threads k1 t) = RT_THREAD_SUSPEND" using blocked_inD(1) [OF b] by simp
  show ?thesis
  proof (cases "0 < sint time")
    case False
    then show ?thesis using Q [OF ok1 q1 b] by simp
  next
    case True
    have "runs Q (start_thread_timer t time k1)"
    proof (rule start_thread_timer_runs [OF ok1 _ _ na])
      fix k2
      assume k2: "kernel_ok 1 k2" "timer_change k1 k2"
        "set (timer_list k2) = insert (ThreadTimer t) (set (timer_list k1))"
        "timeout_tick (timers k2 (ThreadTimer t)) = rt_tick k1 + time"
        "\<And>i. i \<noteq> ThreadTimer t \<Longrightarrow> timer_flag i k2 = timer_flag i k1"
      obtain tm tis ob where e2: "k2 = k1\<lparr> timers := tm, timer_list := tis, objs := ob \<rparr>"
        "\<forall>x. (\<forall>i. x \<noteq> ObjTimer i) \<longrightarrow> ob x = objs k1 x"
        using k2(2) by (auto simp: timer_change_def)
      have rd: "ready k2 u \<longleftrightarrow> u \<noteq> t \<and> ready k u" for u
        using blocked_inD(15) [OF b, of u] by (simp add: e2)
      have "quiet {} k2" using q1 k2(5) rd blocked_inD(15) [OF b] by (auto simp: quiet_def timer_activated_def)
      moreover have "blocked_in q xs t k k2"
      proof -
        obtain ls g tm' tis' ob' where "k1 = k\<lparr> threads := (threads k)(t := (threads k t)\<lparr> t_stat := RT_THREAD_SUSPEND \<rparr>),
            tlists := ls, ready_group := g, timers := tm', timer_list := tis', objs := ob' \<rparr>"
          "home ls = (home (tlists k))(t \<mapsto> q)"
          "\<forall>p. items ls p = (if p = q then xs else remove1 t (items (tlists k) p))"
          using b unfolding blocked_in_def by blast
        then show ?thesis
          unfolding blocked_in_def
          by (intro exI [of _ ls] exI [of _ g] exI [of _ tm] exI [of _ tis] exI [of _ ob])
            (use e2 same in simp)
      qed
      ultimately show "Q k2" using k2(1,3,4) blocked_inD(5) [OF b] by (intro Q) simp_all
    qed (use True tm st in \<open>simp_all add: good_time_def\<close>)
    then show ?thesis using True by simp
  qed
qed

lemma block_runs [wp]:
  assumes ok: "kernel_ok 1 k" and q0: "quiet {} k" and r: "ready k t" and w: "waitq q"
    and f: "flag \<in> {0x00, 0x01}" and tm: "good_time time"
    and Q: "\<And>k'. kernel_ok 1 k' \<Longrightarrow> quiet {} k' \<Longrightarrow> blocked q flag t k k' \<Longrightarrow>
       (0 < sint time \<Longrightarrow> ThreadTimer t \<in> set (timer_list k')
          \<and> timeout_tick (timers k' (ThreadTimer t)) = rt_tick k + time) \<Longrightarrow> Q k'"
  shows "runs Q (ipc_block q t flag time k)"
proof -
  have "runs (\<lambda>k1. runs Q (if 0 < sint time then start_thread_timer t time k1 else Some k1))
      (rt_ipc_list_suspend q t flag k)"
  proof (rule list_suspend_runs [OF ok r w f])
    fix k1 ls g
    assume k1: "k1 = k\<lparr> threads := (threads k)(t := (threads k t)\<lparr> t_stat := RT_THREAD_SUSPEND \<rparr>),
        tlists := ls, ready_group := g \<rparr>" and ok1: "kernel_ok 1 k1" and b: "blocked q flag t k k1"
    show "runs Q (if 0 < sint time then start_thread_timer t time k1 else Some k1)"
      by (rule wait_timer_runs [OF q0 r tm ok1 b [unfolded blocked_def]])
        (use Q in \<open>simp_all add: k1 blocked_def\<close>)
  qed
  then show ?thesis by (simp add: ipc_block_def)
qed

text \<open>The whole wait: suspend, start the timer, schedule.\<close>

lemma wait_runs [wp]:
  assumes k: "kernel_inv idle k" and r: "ready k t" and i: "t \<noteq> idle" and w: "waitq q"
    and f: "flag \<in> {0x00, 0x01}" and tm: "good_time time"
    and Q: "\<And>k1 k'. blocked q flag t k k1 \<Longrightarrow> switched k1 k' \<Longrightarrow> kernel_inv idle k' \<Longrightarrow> Q k'"
  shows "runs (\<lambda>k1. runs Q (rt_schedule k1)) (ipc_block q t flag time k)"
proof (rule block_runs [OF kernel_invD(1,4) [OF k] r w f tm])
  fix k1 assume k1: "kernel_ok 1 k1" "quiet {} k1" "blocked q flag t k k1"
  have idl: "ready k1 idle" using blockedD(15) [OF k1(3)] kernel_invD(6) [OF k] i by simp
  then have "sched_inv k1" "running k1"
    using k1(1) blockedD(6) [OF k1(3)] kernel_invD(7) [OF k] by (auto simp: kernel_ok_def running_def)
  then show "runs Q (rt_schedule k1)"
  proof (rule switch_runs)
    fix k' assume sw: "switched k1 k'"
    then have "kernel_inv idle k'" using kernel_inv_switched [OF sw] k1 idl by simp
    with k1(3) sw show "Q k'" by (rule Q)
  qed
qed

text \<open>A thread in a waiting list is suspended.\<close>

lemma waiting_suspended:
  assumes "sched_inv k" "waitq q" "t \<in> set (items (tlists k) q)"
  shows "t_stat (threads k t) = RT_THREAD_SUSPEND"
proof -
  have "home (tlists k) t = Some q" using lists_okD(2) [OF sched_butD(1) [OF assms(1)]] assms(3) by simp
  then show ?thesis
    using sched_butD(3) [OF assms(1), of t] assms(2)
    by (cases q) (auto simp: thread_ok_def split: thread_stat.splits)
qed

lemma list_resume_runs [wp]:
  assumes ok: "kernel_ok lb k" and qt: "quiet A k" and w: "waitq q" and row: "items (tlists k) q = t # ts"
    and Q: "\<And>k'. kernel_ok lb k' \<Longrightarrow> quiet A k' \<Longrightarrow> woken t (threads k t) k k' \<Longrightarrow> Q k'"
  shows "runs Q (rt_ipc_list_resume q k)"
proof -
  have st: "t_stat (threads k t) = RT_THREAD_SUSPEND"
    using waiting_suspended [of k q t] ok w row by (simp add: kernel_ok_def)
  have "runs (\<lambda>x. Q (snd x)) (rt_thread_resume t k)"
  proof (rule resume_runs [OF ok st])
    fix k' assume k': "kernel_ok lb k'" "woken t (threads k t) k k'" "\<not> timer_activated (ThreadTimer t) k'"
    then show "Q (snd (RT_EOK, k'))" using Q [OF k'(1) woken_quiet [OF k'(2) qt k'(3)]] by simp
  qed
  then show ?thesis using row by (simp add: rt_ipc_list_resume_def ls_first_def case_prod_unfold)
qed

lemma woken_inv:
  assumes "woken t th k k'" "kernel_ok 1 k'" "quiet {} k'" "alive idle k"
  shows "kernel_inv idle k'"
  using assms(2-4) wokenD(8,18) [OF assms(1)] by (simp add: kernel_inv_def alive_def)

lemma set_error_simps [simp]:
  "tlists (set_error t e k) = tlists k" "rt_current_thread (set_error t e k) = rt_current_thread k"
  "lock_nest (set_error t e k) = lock_nest k" "rt_tick (set_error t e k) = rt_tick k"
  "sems (set_error t e k) = sems k" "mutexes (set_error t e k) = mutexes k" "events (set_error t e k) = events k"
  "mailboxes (set_error t e k) = mailboxes k" "mqs (set_error t e k) = mqs k" "mempools (set_error t e k) = mempools k" "objs (set_error t e k) = objs k"
  "interrupt_nest (set_error t e k) = interrupt_nest k" "containers (set_error t e k) = containers k"
  "threads (set_error t e k) = (threads k)(t := (threads k t)\<lparr> t_error := e \<rparr>)"
  "kernel_ok lb (set_error t e k) = kernel_ok lb k" "ready (set_error t e k) = ready k"
  "quiet A (set_error t e k) = quiet A k" "alive i (set_error t e k) = alive i k"
  "kernel_inv i (set_error t e k) = kernel_inv i k"
  by (simp_all add: set_error_def kernel_ok_other_thread_field alive_def kernel_inv_def)
    (simp_all add: upd_thread_def)

lemma set_error_twice [simp]: "set_error t a (set_error t b k) = set_error t a k"
  by (simp add: set_error_def upd_thread_def)

text \<open>The state after all the threads \<open>us\<close> of the list \<open>q\<close> were woken with an error.\<close>

definition woken_all :: "tlist_head \<Rightarrow> nat list \<Rightarrow> kernel \<Rightarrow> kernel \<Rightarrow> bool" where
  "woken_all q us k k' \<longleftrightarrow>
     items (tlists k') q = []
   \<and> (\<forall>p. waitq p \<longrightarrow> p \<noteq> q \<longrightarrow> items (tlists k') p = items (tlists k) p)
   \<and> threads k' = (\<lambda>u. if u \<in> set us then (threads k u)\<lparr> t_error := RT_ERROR, t_stat := RT_THREAD_READY \<rparr>
                       else threads k u)
   \<and> (\<forall>x. (\<forall>i. x \<noteq> ObjTimer i) \<longrightarrow> objs k' x = objs k x)
   \<and> rt_tick k' = rt_tick k \<and> rt_current_thread k' = rt_current_thread k \<and> lock_nest k' = lock_nest k
   \<and> interrupt_nest k' = interrupt_nest k \<and> containers k' = containers k \<and> sems k' = sems k
   \<and> mutexes k' = mutexes k \<and> events k' = events k \<and> mailboxes k' = mailboxes k \<and> mqs k' = mqs k \<and> mempools k' = mempools k"

lemma woken_allD:
  assumes "woken_all q us k k'"
  shows "items (tlists k') q = []" "waitq p \<Longrightarrow> p \<noteq> q \<Longrightarrow> items (tlists k') p = items (tlists k) p"
    "threads k' = (\<lambda>u. if u \<in> set us then (threads k u)\<lparr> t_error := RT_ERROR, t_stat := RT_THREAD_READY \<rparr>
                       else threads k u)"
    "(\<And>i. x \<noteq> ObjTimer i) \<Longrightarrow> objs k' x = objs k x"
    "rt_tick k' = rt_tick k" "rt_current_thread k' = rt_current_thread k" "lock_nest k' = lock_nest k"
    "interrupt_nest k' = interrupt_nest k" "containers k' = containers k" "sems k' = sems k"
    "mutexes k' = mutexes k" "events k' = events k" "mailboxes k' = mailboxes k" "mqs k' = mqs k"
    "mempools k' = mempools k"
  using assms by (simp_all add: woken_all_def)

lemma resume_all_runs [wp]:
  assumes "kernel_inv idle k" "waitq q"
    and "\<And>k'. kernel_inv idle k' \<Longrightarrow> woken_all q (items (tlists k) q) k k' \<Longrightarrow> Q k'"
  shows "runs Q (rt_ipc_list_resume_all q k)"
proof -
  have "\<exists>k'. rt_ipc_list_resume_all q k = Some k' \<and> kernel_inv idle k' \<and> woken_all q (items (tlists k) q) k k'"
    using assms(1)
  proof (induction "items (tlists k) q" arbitrary: k)
    case Nil
    then show ?case by (subst rt_ipc_list_resume_all.simps) (simp add: ls_isempty_def woken_all_def)
  next
    case (Cons t ts)
    let ?k = "set_error t RT_ERROR k"
    have row: "items (tlists k) q = t # ts" using Cons.hyps(2) by simp
    have ok: "kernel_ok 1 ?k" "quiet {} ?k" "alive idle ?k" using kernel_invD [OF Cons.prems] by simp_all
    have lok: "lists_ok (tlists k)" using kernel_invD(2) [OF Cons.prems] by (simp add: sched_but_def)
    have st: "t_stat (threads ?k t) = RT_THREAD_SUSPEND"
      using waiting_suspended [OF kernel_invD(2) [OF Cons.prems] assms(2), of t] row by simp
    obtain k1 where k1: "rt_thread_resume t ?k = Some (RT_EOK, k1)" "kernel_ok 1 k1"
      "woken t (threads ?k t) ?k k1" "\<not> timer_activated (ThreadTimer t) k1"
      using resume_runs [OF ok(1) st, of "\<lambda>x. fst x = RT_EOK \<and> kernel_ok 1 (snd x)
          \<and> woken t (threads ?k t) ?k (snd x) \<and> \<not> timer_activated (ThreadTimer t) (snd x)"]
      by (auto simp: runs_ex)
    have inv1: "kernel_inv idle k1"
      by (rule woken_inv [OF k1(3,2) woken_quiet [OF k1(3) ok(2) k1(4)] ok(3)])
    have nr: "q \<noteq> ReadyQ p" for p using assms(2) by auto
    have q1: "items (tlists k1) q = ts" using wokenD(3) [OF k1(3), of q] nr row by simp
    obtain k' where k': "rt_ipc_list_resume_all q k1 = Some k'" "kernel_inv idle k'"
      "woken_all q ts k1 k'"
      using Cons.hyps(1) [OF q1 [symmetric] inv1] q1 by auto
    have step: "rt_ipc_list_resume_all q k = rt_ipc_list_resume_all q k1"
      using row k1(1) by (subst rt_ipc_list_resume_all.simps)
        (simp add: ls_isempty_def ls_first_def set_error_def Let_def)
    have dt: "t \<notin> set ts" using lists_okD(1) [OF lok, of q] row by simp
    have oth: "items (tlists k1) p = items (tlists k) p" if "waitq p" "p \<noteq> q" for p
    proof -
      have "t \<notin> set (items (tlists k) p)"
        using lists_okD(2) [OF lok, of t p] lists_okD(2) [OF lok, of t q] row that by auto
      then show ?thesis using wokenD(3) [OF k1(3), of p] that by (auto simp: remove1_idem)
    qed
    have th: "threads k' = (\<lambda>u. if u \<in> set (t # ts) then (threads k u)\<lparr> t_error := RT_ERROR, t_stat := RT_THREAD_READY \<rparr>
        else threads k u)"
      using woken_allD(3) [OF k'(3)] wokenD(1) [OF k1(3)] dt by (auto simp: fun_eq_iff)
    have "woken_all q (t # ts) k k'"
      unfolding woken_all_def
    proof (intro conjI)
      show "\<forall>p. waitq p \<longrightarrow> p \<noteq> q \<longrightarrow> items (tlists k') p = items (tlists k) p"
        using woken_allD(2) [OF k'(3)] oth by simp
      show "\<forall>x. (\<forall>i. x \<noteq> ObjTimer i) \<longrightarrow> objs k' x = objs k x"
        using woken_allD(4) [OF k'(3)] wokenD(4) [OF k1(3)] by simp
    qed (use th woken_allD [OF k'(3)] wokenD [OF k1(3)] in simp_all)
    then show ?case using step k' row by auto
  qed
  then show ?thesis using assms(3) by (auto simp: runs_ex)
qed

text \<open>The steps most operations end with, on the whole invariant: waking a waiting thread,
  scheduling, and the two one after the other.\<close>

lemma wake_inv_runs:
  assumes k: "kernel_inv idle k" and w: "waitq q" and t: "t \<in> set (items (tlists k) q)"
    and Q: "\<And>k'. kernel_inv idle k' \<Longrightarrow> woken t (threads k t) k k' \<Longrightarrow> Q (RT_EOK, k')"
  shows "runs Q (rt_thread_resume t k)"
proof (rule resume_runs [OF kernel_invD(1) [OF k] waiting_suspended [OF kernel_invD(2) [OF k] w t]])
  fix k' assume k': "kernel_ok 1 k'" "woken t (threads k t) k k'" "\<not> timer_activated (ThreadTimer t) k'"
  show "Q (RT_EOK, k')"
    by (rule Q [OF woken_inv [OF k'(2,1) woken_quiet [OF k'(2) kernel_invD(4) [OF k] k'(3)] kernel_invD(5) [OF k]] k'(2)])
qed

lemma schedule_inv_runs:
  assumes k: "kernel_inv idle k" and Q: "\<And>k'. kernel_inv idle k' \<Longrightarrow> switched k k' \<Longrightarrow> Q k'"
  shows "runs Q (rt_schedule k)"
proof (rule switch_runs [OF kernel_invD(2,8) [OF k]])
  fix k' assume sw: "switched k k'"
  then have "kernel_inv idle k'" using kernel_inv_switched [OF sw] kernel_invD [OF k] by simp
  then show "Q k'" using sw by (rule Q)
qed

lemma resume_schedule_runs:
  assumes k: "kernel_inv idle k" and w: "waitq q" and row: "items (tlists k) q = t # ts"
    and Q: "\<And>k1 k'. woken t (threads k t) k k1 \<Longrightarrow> switched k1 k' \<Longrightarrow> kernel_inv idle k' \<Longrightarrow> Q k'"
  shows "runs (\<lambda>k1. runs Q (rt_schedule k1)) (rt_ipc_list_resume q k)"
proof (rule list_resume_runs [OF kernel_invD(1,4) [OF k] w row])
  fix k1 assume k1: "kernel_ok 1 k1" "quiet {} k1" and wk: "woken t (threads k t) k k1"
  have "kernel_inv idle k1" by (rule woken_inv [OF wk k1 kernel_invD(5) [OF k]])
  then show "runs Q (rt_schedule k1)" by (rule schedule_inv_runs) (rule Q [OF wk])
qed

text \<open>Waking a thread leaves the other waiting lists alone.\<close>

lemma woken_waitq:
  assumes "woken t th k k'" "waitq p"
  shows "items (tlists k') p = remove1 t (items (tlists k) p)"
  using wokenD(3) [OF assms(1), of p] assms(2) by (cases p) auto

text \<open>Waiting, as the caller sees it.\<close>

definition waits_in :: "tlist_head \<Rightarrow> u8 \<Rightarrow> nat \<Rightarrow> kernel \<Rightarrow> kernel \<Rightarrow> bool" where
  "waits_in q flag t k k' \<longleftrightarrow>
     items (tlists k') q = ipc_insert flag (\<lambda>u. t_current_priority (threads k u)) t (items (tlists k) q)
   \<and> (\<forall>p. waitq p \<longrightarrow> p \<noteq> q \<longrightarrow> items (tlists k') p = items (tlists k) p)
   \<and> threads k' = (threads k)(t := (threads k t)\<lparr> t_error := RT_EOK, t_stat := RT_THREAD_SUSPEND \<rparr>)
   \<and> rt_tick k' = rt_tick k \<and> mailboxes k' = mailboxes k \<and> mqs k' = mqs k
   \<and> (lock_nest k = 0 \<longrightarrow> rt_current_thread k' \<noteq> Some t)"

lemma ipc_wait_runs:
  assumes k: "kernel_inv idle k" and c: "rt_current_thread k = Some t" and r: "ready k t" and i: "t \<noteq> idle"
    and n: "interrupt_nest k = 0" and w: "waitq q" and f: "flag \<in> {0x00, 0x01}" and tm: "good_time time"
  shows "\<exists>k'. ipc_wait q t flag time td (set_error t RT_EOK k)
         = Some (Waits (time, if 0 < sint time then rt_tick k else td), k')
     \<and> kernel_inv idle k' \<and> waits_in q flag t k k'"
proof -
  let ?k = "set_error t RT_EOK k"
  have nt: "t \<notin> set (items (tlists k) p)" if "waitq p" for p
    using waiting_suspended [OF kernel_invD(2) [OF k] that, of t] r by (auto simp: ready_def)
  have "runs (\<lambda>k1. rt_tick k1 = rt_tick k \<and> runs (\<lambda>k'. kernel_inv idle k' \<and> waits_in q flag t k k') (rt_schedule k1))
      (ipc_block q t flag time ?k)"
  proof (rule block_runs)
    fix k1 assume k1: "kernel_ok 1 k1" "quiet {} k1" and b: "blocked q flag t ?k k1"
    have idl: "ready k1 idle" using blockedD(15) [OF b] kernel_invD(6) [OF k] i by simp
    then have "sched_inv k1" "running k1"
      using k1(1) blockedD(6) [OF b] kernel_invD(7) [OF k] by (auto simp: kernel_ok_def running_def)
    then have "runs (\<lambda>k'. kernel_inv idle k' \<and> waits_in q flag t k k') (rt_schedule k1)"
    proof (rule switch_runs)
      fix k' assume sw: "switched k1 k'"
      have inv: "kernel_inv idle k'" using kernel_inv_switched [OF sw] k1 idl by simp
      have pr: "(\<lambda>u. t_current_priority (threads ?k u)) = (\<lambda>u. t_current_priority (threads k u))" by auto
      have cur: "rt_current_thread k' \<noteq> Some t" if "lock_nest k = 0"
        using switched_current [OF sw] that blockedD(7) [OF b] blockedD(15) [OF b, of t]
        by (auto simp: most_urgent_def)
      have "items (tlists k') q = ipc_insert flag (\<lambda>u. t_current_priority (threads k u)) t (items (tlists k) q)"
        using blockedD(3) [OF b, of q] unfolding switchedD(2) [OF sw] pr by simp
      moreover have "items (tlists k') p = items (tlists k) p" if "waitq p" "p \<noteq> q" for p
        using blockedD(3) [OF b, of p] nt [OF that(1)] that by (simp add: switchedD(2) [OF sw] remove1_idem)
      ultimately show "kernel_inv idle k' \<and> waits_in q flag t k k'"
        using inv cur blockedD(1,5,13,14) [OF b] by (simp add: waits_in_def switchedD [OF sw])
    qed
    then show "rt_tick k1 = rt_tick k \<and> runs (\<lambda>k'. kernel_inv idle k' \<and> waits_in q flag t k k') (rt_schedule k1)"
      using blockedD(5) [OF b] by simp
  qed (use k r w f tm kernel_invD [OF k] in simp_all)
  then obtain k1 k' where "ipc_block q t flag time ?k = Some k1" "rt_tick k1 = rt_tick k"
    "rt_schedule k1 = Some k'" "kernel_inv idle k' \<and> waits_in q flag t k k'"
    unfolding runs_ex by blast
  then show ?thesis
    using c n by (auto simp: ipc_wait_def rt_debug_in_thread_context_def rt_debug_not_in_interrupt_def)
qed

text \<open>After a message was stored or fetched: the first thread waiting at the other end becomes ready.\<close>

definition ipc_woke :: "tlist_head \<Rightarrow> kernel \<Rightarrow> kernel \<Rightarrow> bool" where
  "ipc_woke q k k' \<longleftrightarrow>
     (case items (tlists k) q of
        [] \<Rightarrow> threads k' = threads k \<and> tlists k' = tlists k \<and> rt_current_thread k' = rt_current_thread k
      | t # ts \<Rightarrow> items (tlists k') q = ts \<and> ready k' t
          \<and> threads k' = (threads k)(t := (threads k t)\<lparr> t_stat := RT_THREAD_READY \<rparr>)
          \<and> (\<forall>p. waitq p \<longrightarrow> p \<noteq> q \<longrightarrow> items (tlists k') p = items (tlists k) p)
          \<and> (lock_nest k = 0 \<longrightarrow> (\<exists>u. rt_current_thread k' = Some u \<and> most_urgent k' u)))"

lemma ipc_wake_runs:
  assumes k: "kernel_inv idle k" and w: "waitq q"
  shows "\<exists>k'. ipc_wake q k = Some k' \<and> kernel_inv idle k' \<and> mailboxes k' = mailboxes k \<and> mqs k' = mqs k \<and> ipc_woke q k k'"
proof (cases "items (tlists k) q")
  case Nil
  then show ?thesis using k by (simp add: ipc_wake_def ls_isempty_def ipc_woke_def)
next
  case (Cons t ts)
  let ?P = "\<lambda>k'. kernel_inv idle k' \<and> mailboxes k' = mailboxes k \<and> mqs k' = mqs k \<and> ipc_woke q k k'"
  have lok: "lists_ok (tlists k)" using kernel_invD(2) [OF k] by (simp add: sched_but_def)
  have "runs (\<lambda>k1. runs ?P (rt_schedule k1)) (rt_ipc_list_resume q k)"
  proof (rule resume_schedule_runs [OF k w Cons])
    fix k1 k' assume wk: "woken t (threads k t) k k1" and sw: "switched k1 k'" and inv: "kernel_inv idle k'"
    have oth: "items (tlists k') p = items (tlists k) p" if "waitq p" "p \<noteq> q" for p
    proof -
      have "t \<notin> set (items (tlists k) p)"
        using lists_okD(2) [OF lok, of t p] lists_okD(2) [OF lok, of t q] Cons that by auto
      then show ?thesis using woken_waitq [OF wk that(1)] by (simp add: switchedD(2) [OF sw] remove1_idem)
    qed
    have cur: "\<exists>u. rt_current_thread k' = Some u \<and> most_urgent k' u" if "lock_nest k = 0"
      using sw that wokenD(9) [OF wk] by (auto simp: switched_def most_urgent_def ready_def)
    have "ipc_woke q k k'"
      using Cons woken_waitq [OF wk w] oth cur wokenD(1) [OF wk] wokenD(18) [OF wk, of t]
      by (simp add: ipc_woke_def switchedD [OF sw])
    then show "?P k'" using inv wokenD(16,17) [OF wk] switchedD(14,15) [OF sw] by simp
  qed
  then show ?thesis using Cons by (auto simp: ipc_wake_def ls_isempty_def runs_ex)
qed

end
