(* ===== verification/Semaphore.thy ===== *)
theory Semaphore
  imports IpcBase
begin

text \<open>
  The semaphores of src/ipc.c. A semaphore is its 16-bit value and the list of threads that wait
  for it; the two are never both non-empty (\<open>sem_ok\<close>), and their difference (\<open>sem_balance\<close>) is
  what a counting semaphore counts: a take lowers it by one, a release raises it by one.
\<close>

section \<open>Operations\<close>

abbreviation sem_queue :: "nat \<Rightarrow> tlist_head" where
  "sem_queue s \<equiv> SuspQ (ObjSem s)"

definition set_sem_value :: "nat \<Rightarrow> u16 \<Rightarrow> kernel \<Rightarrow> kernel" where
  "set_sem_value s v k = k\<lparr> sems := (sems k)(s := (sems k s)\<lparr> sem_value := v \<rparr>) \<rparr>"

definition rt_sem_init :: "nat \<Rightarrow> string \<Rightarrow> u32 \<Rightarrow> u8 \<Rightarrow> kernel \<Rightarrow> (rt_err \<times> kernel) option" where
  "rt_sem_init s name value flag k = do {
     k \<leftarrow> rt_object_init (ObjSem s) RT_Object_Class_Semaphore name k;
     k \<leftarrow> rt_ipc_object_init (sem_queue s) k;
     Some (RT_EOK, set_obj_flags (ObjSem s) flag (set_sem_value s (ucast value) k)) }"

definition rt_sem_detach :: "nat \<Rightarrow> kernel \<Rightarrow> (rt_err \<times> kernel) option" where
  "rt_sem_detach s k = do {
     k \<leftarrow> rt_ipc_list_resume_all (sem_queue s) k;
     Some (RT_EOK, rt_object_detach (ObjSem s) k) }"

definition rt_sem_create ::
  "nat option \<Rightarrow> string \<Rightarrow> u32 \<Rightarrow> u8 \<Rightarrow> kernel \<Rightarrow> (nat option \<times> kernel) option" where
  "rt_sem_create mem name value flag k = do {
     rt_debug_not_in_interrupt k;
     (_, k) \<leftarrow> rt_object_allocate (map_option ObjSem mem) RT_Object_Class_Semaphore name k;
     case mem of
       None \<Rightarrow> Some (None, k)
     | Some s \<Rightarrow> do {
         k \<leftarrow> rt_ipc_object_init (sem_queue s) k;
         Some (Some s, set_obj_flags (ObjSem s) flag (set_sem_value s (ucast value) k)) } }"

definition rt_sem_delete :: "nat \<Rightarrow> kernel \<Rightarrow> (rt_err \<times> kernel) option" where
  "rt_sem_delete s k = do {
     rt_debug_not_in_interrupt k;
     k \<leftarrow> rt_ipc_list_resume_all (sem_queue s) k;
     k \<leftarrow> rt_object_delete (ObjSem s) k;
     Some (RT_EOK, k) }"

definition rt_sem_take :: "nat \<Rightarrow> u32 \<Rightarrow> kernel \<Rightarrow> (unit call \<times> kernel) option" where
  "rt_sem_take s time k =
     (if sem_value (sems k s) > 0 then
        Some (Returned RT_EOK, set_sem_value s (sem_value (sems k s) - 1) k)
      else if time = 0 then Some (Returned RT_ETIMEOUT, k)
      else do {
        rt_debug_in_thread_context k;
        t \<leftarrow> rt_thread_self k;
        let k = set_error t RT_EOK k;
        k \<leftarrow> ipc_block (sem_queue s) t (obj_flags (ObjSem s) k) time k;
        k \<leftarrow> rt_schedule k;
        Some (Waits (), k) })"

text \<open>The rest of \<^verbatim>\<open>rt_sem_take\<close>, when thread \<open>t\<close> runs again: its error, if there was one.\<close>

definition rt_sem_take_resumed :: "nat \<Rightarrow> kernel \<Rightarrow> rt_err" where
  "rt_sem_take_resumed t k =
     (if t_error (threads k t) \<noteq> RT_EOK then t_error (threads k t) else RT_EOK)"

definition rt_sem_trytake :: "nat \<Rightarrow> kernel \<Rightarrow> (unit call \<times> kernel) option" where
  "rt_sem_trytake s k = rt_sem_take s 0 k"

definition rt_sem_release :: "nat \<Rightarrow> kernel \<Rightarrow> (rt_err \<times> kernel) option" where
  "rt_sem_release s k =
     (if \<not> ls_isempty (sem_queue s) (tlists k) then do {
        k \<leftarrow> rt_ipc_list_resume (sem_queue s) k;
        k \<leftarrow> rt_schedule k;
        Some (RT_EOK, k) }
      else Some (RT_EOK, set_sem_value s (sem_value (sems k s) + 1) k))"

definition rt_sem_control :: "nat \<Rightarrow> u8 \<Rightarrow> u32 \<Rightarrow> kernel \<Rightarrow> (rt_err \<times> kernel) option" where
  "rt_sem_control s cmd arg k =
     (if cmd = 0x01 then do {
        k \<leftarrow> rt_ipc_list_resume_all (sem_queue s) k;
        k \<leftarrow> rt_schedule (set_sem_value s (ucast arg) k);
        Some (RT_EOK, k) }
      else Some (RT_ERROR, k))"

section \<open>A counting semaphore\<close>

definition sem_waiters :: "kernel \<Rightarrow> nat \<Rightarrow> nat list" where
  "sem_waiters k s = items (tlists k) (sem_queue s)"

definition sem_ok :: "kernel \<Rightarrow> nat \<Rightarrow> bool" where
  "sem_ok k s \<longleftrightarrow> sem_value (sems k s) = 0 \<or> sem_waiters k s = []"

definition sem_balance :: "kernel \<Rightarrow> nat \<Rightarrow> int" where
  "sem_balance k s = int (unat (sem_value (sems k s))) - int (length (sem_waiters k s))"

lemma set_sem_value_inv [simp]:
  "kernel_inv idle (set_sem_value s v k) = kernel_inv idle k"
  "kernel_ok lb (set_sem_value s v k) = kernel_ok lb k"
  by (simp_all add: set_sem_value_def kernel_inv_def kernel_ok_def quiet_def alive_def timer_activated_def
      timer_flag_def)

lemma set_sem_value_simps [simp]:
  "sem_value (sems (set_sem_value s v k) s) = v" "tlists (set_sem_value s v k) = tlists k"
  "threads (set_sem_value s v k) = threads k" "sem_waiters (set_sem_value s v k) = sem_waiters k"
  "rt_current_thread (set_sem_value s v k) = rt_current_thread k"
  "lock_nest (set_sem_value s v k) = lock_nest k"
  by (simp_all add: set_sem_value_def sem_waiters_def fun_eq_iff)

text \<open>C8. \<open>rt_sem_take\<close> on every path. When the value is positive it is decremented and the call
  succeeds; when it is 0 and no waiting is allowed the call times out and changes nothing;
  otherwise the caller is queued by the semaphore's flag, another thread runs, and the call
  will report the error the caller was woken with. The kernel's invariant and the semaphore's
  are kept, and every path but the time-out lowers the balance by one.\<close>

theorem rt_sem_take_correct:
  assumes k: "kernel_inv idle k" and ok: "sem_ok k s" and c: "rt_current_thread k = Some t"
    and r: "ready k t" and i: "t \<noteq> idle" and n: "interrupt_nest k = 0" and tm: "good_time time"
    and f: "obj_flags (ObjSem s) k \<in> {0x00, 0x01}"
  shows "\<exists>res k'. rt_sem_take s time k = Some (res, k') \<and> kernel_inv idle k' \<and> sem_ok k' s
     \<and> (if sem_value (sems k s) > 0 then res = Returned RT_EOK \<and> sem_balance k' s = sem_balance k s - 1
        else if time = 0 then res = Returned RT_ETIMEOUT \<and> k' = k
        else res = Waits () \<and> sem_balance k' s = sem_balance k s - 1
           \<and> sem_waiters k' s = ipc_insert (obj_flags (ObjSem s) k)
                (\<lambda>u. t_current_priority (threads k u)) t (sem_waiters k s)
           \<and> rt_sem_take_resumed t k' = RT_EOK
           \<and> (lock_nest k = 0 \<longrightarrow> rt_current_thread k' \<noteq> Some t))"
proof -
  consider (pos) "sem_value (sems k s) > 0" | (zero) "sem_value (sems k s) = 0" "time = 0"
    | (wait) "sem_value (sems k s) = 0" "time \<noteq> 0" using word_neq_0_conv by blast
  then show ?thesis
  proof cases
    case pos
    then have w: "sem_waiters k s = []" using ok by (auto simp: sem_ok_def)
    have "unat (sem_value (sems k s) - 1) = unat (sem_value (sems k s)) - 1"
      "1 \<le> unat (sem_value (sems k s))"
      using pos by (simp_all add: unat_sub_if' word_less_nat_alt Suc_le_eq)
    then have "uint (sem_value (sems k s) - 1) = uint (sem_value (sems k s)) - 1"
      unfolding uint_int_unat by linarith
    then show ?thesis
      using pos k w by (simp add: rt_sem_take_def sem_ok_def sem_balance_def)
  next
    case zero
    then show ?thesis using k ok by (simp add: rt_sem_take_def)
  next
    case wait
    let ?k = "set_error t RT_EOK k"
    let ?P = "\<lambda>k'. kernel_inv idle k' \<and> sem_ok k' s \<and> sem_balance k' s = sem_balance k s - 1
       \<and> sem_waiters k' s = ipc_insert (obj_flags (ObjSem s) k) (\<lambda>u. t_current_priority (threads k u)) t (sem_waiters k s)
       \<and> rt_sem_take_resumed t k' = RT_EOK \<and> (lock_nest k = 0 \<longrightarrow> rt_current_thread k' \<noteq> Some t)"
    have "runs (\<lambda>k1. runs ?P (rt_schedule k1)) (ipc_block (sem_queue s) t (obj_flags (ObjSem s) ?k) time ?k)"
    proof (rule wait_runs [where k = ?k and idle = idle])
      fix k1 k'
      assume b: "blocked (sem_queue s) (obj_flags (ObjSem s) ?k) t ?k k1" and sw: "switched k1 k'"
        and inv: "kernel_inv idle k'"
      have pr: "(\<lambda>u. t_current_priority (threads ?k u)) = (\<lambda>u. t_current_priority (threads k u))" by auto
      have wt: "sem_waiters k' s = ipc_insert (obj_flags (ObjSem s) k) (\<lambda>u. t_current_priority (threads k u)) t
          (sem_waiters k s)"
        using blockedD(3) [OF b, of "sem_queue s"]
        unfolding sem_waiters_def switchedD(2) [OF sw] pr by (simp add: obj_flags_def)
      have vl: "sems k' = sems k" using blockedD(10) [OF b] switchedD(11) [OF sw] by simp
      have er: "t_error (threads k' t) = RT_EOK"
        using blockedD(1) [OF b] switchedD(1) [OF sw] by simp
      have cur: "rt_current_thread k' \<noteq> Some t" if "lock_nest k = 0"
      proof
        assume "rt_current_thread k' = Some t"
        then have "most_urgent k1 t"
          using switched_current [OF sw] that blockedD(7) [OF b] by auto
        then show False using blockedD(15) [OF b, of t] by (simp add: most_urgent_def)
      qed
      show "?P k'"
        using inv wt vl er cur wait(1)
        by (simp add: sem_ok_def sem_balance_def rt_sem_take_resumed_def)
    qed (use k r i tm f in \<open>simp_all add: obj_flags_def\<close>)
    then obtain k1 k' where b: "ipc_block (sem_queue s) t (obj_flags (ObjSem s) ?k) time ?k = Some k1"
      "rt_schedule k1 = Some k'" and P: "?P k'"
      unfolding runs_ex by blast
    have "rt_sem_take s time k = Some (Waits (), k')"
      using wait c n b
      by (simp add: rt_sem_take_def rt_debug_in_thread_context_def rt_debug_not_in_interrupt_def
          rt_thread_self_def)
    then show ?thesis using wait P by simp
  qed
qed

text \<open>C9. \<open>rt_sem_release\<close> hands the token to the thread that waits first, which becomes ready with
  its error unchanged and leaves the queue while the value stays 0; without waiters the value is
  incremented, and wraps to 0 at 65535. The invariants are kept, and the balance rises by one
  except for the wrap.\<close>

theorem rt_sem_release_correct:
  assumes k: "kernel_inv idle k" and ok: "sem_ok k s"
  shows "\<exists>k'. rt_sem_release s k = Some (RT_EOK, k') \<and> kernel_inv idle k' \<and> sem_ok k' s
     \<and> (case sem_waiters k s of
          [] \<Rightarrow> k' = set_sem_value s (sem_value (sems k s) + 1) k
               \<and> (sem_value (sems k s) \<noteq> 0xffff \<longrightarrow> sem_balance k' s = sem_balance k s + 1)
               \<and> (sem_value (sems k s) = 0xffff \<longrightarrow> sem_balance k' s = 0)
        | t # ts \<Rightarrow> ready k' t \<and> t_error (threads k' t) = t_error (threads k t) \<and> sem_waiters k' s = ts
               \<and> sem_balance k' s = sem_balance k s + 1)"
proof (cases "sem_waiters k s")
  case Nil
  have "uint (v + 1) = uint v + 1" if "v \<noteq> 0xffff" for v :: u16
  proof -
    have "unat v \<noteq> 0xffff" using that by (simp add: word_unat_eq_iff)
    moreover have "unat v < 2 ^ 16" using unsigned_less [of v, where ?'a = nat] by simp
    ultimately have "unat (v + 1) = unat v + 1" using unat_plus_small [of v 1] by simp
    then show ?thesis unfolding uint_int_unat by linarith
  qed
  then show ?thesis
    using Nil k by (auto simp: rt_sem_release_def ls_isempty_def sem_waiters_def [symmetric] sem_ok_def
        sem_balance_def)
next
  case (Cons t ts)
  have row: "items (tlists k) (sem_queue s) = t # ts" using Cons by (simp add: sem_waiters_def)
  have v0: "sem_value (sems k s) = 0" using ok Cons by (simp add: sem_ok_def)
  let ?P = "\<lambda>k'. kernel_inv idle k' \<and> ready k' t \<and> t_error (threads k' t) = t_error (threads k t)
     \<and> sem_waiters k' s = ts \<and> sems k' = sems k"
  have "runs (\<lambda>k1. runs ?P (rt_schedule k1)) (rt_ipc_list_resume (sem_queue s) k)"
  proof (rule list_resume_runs [OF kernel_invD(1,4) [OF k] _ row])
    fix k1 assume k1: "kernel_ok 1 k1" "quiet {} k1" and w: "woken t (threads k t) k k1"
    have inv: "kernel_inv idle k1" by (rule woken_inv [OF w k1 kernel_invD(5) [OF k]])
    show "runs ?P (rt_schedule k1)"
    proof (rule switch_runs [OF kernel_invD(2,8) [OF inv]])
      fix k' assume sw: "switched k1 k'"
      then have "kernel_inv idle k'" using kernel_inv_switched [OF sw] kernel_invD [OF inv] by simp
      then show "?P k'"
        using wokenD(1,13) [OF w] wokenD(3) [OF w, of "sem_queue s"] wokenD(18) [OF w, of t] row
        by (simp add: switchedD [OF sw] sem_waiters_def)
    qed
  qed simp
  then obtain k' where "?P k'" "rt_sem_release s k = Some (RT_EOK, k')"
    using row by (auto simp: rt_sem_release_def ls_isempty_def runs_ex)
  then show ?thesis using Cons v0 by (simp add: sem_ok_def sem_balance_def)
qed

text \<open>Resetting a semaphore wakes every waiter with an error and sets the value; no thread is
  left in the queue and the invariants hold.\<close>

theorem rt_sem_control_reset:
  assumes k: "kernel_inv idle k"
  shows "\<exists>k'. rt_sem_control s 0x01 v k = Some (RT_EOK, k') \<and> kernel_inv idle k' \<and> sem_ok k' s
     \<and> sem_value (sems k' s) = ucast v \<and> sem_waiters k' s = []
     \<and> (\<forall>t \<in> set (sem_waiters k s). ready k' t \<and> rt_sem_take_resumed t k' = RT_ERROR)"
proof -
  let ?P = "\<lambda>k'. kernel_inv idle k' \<and> sem_value (sems k' s) = ucast v \<and> sem_waiters k' s = []
     \<and> (\<forall>t \<in> set (sem_waiters k s). ready k' t \<and> rt_sem_take_resumed t k' = RT_ERROR)"
  have "runs (\<lambda>k1. runs ?P (rt_schedule (set_sem_value s (ucast v) k1))) (rt_ipc_list_resume_all (sem_queue s) k)"
  proof (rule resume_all_runs [OF k])
    fix k1 assume inv: "kernel_inv idle k1" and w: "woken_all (sem_queue s) (items (tlists k) (sem_queue s)) k k1"
    let ?k = "set_sem_value s (ucast v) k1"
    have inv2: "kernel_inv idle ?k" using inv by simp
    show "runs ?P (rt_schedule ?k)"
    proof (rule switch_runs [OF kernel_invD(2,8) [OF inv2]])
      fix k' assume sw: "switched ?k k'"
      then have "kernel_inv idle k'" using kernel_inv_switched [OF sw] kernel_invD [OF inv2] by simp
      then show "?P k'"
        using woken_allD(1,3) [OF w]
        by (simp add: switchedD [OF sw] sem_waiters_def ready_def rt_sem_take_resumed_def)
    qed
  qed simp
  then show ?thesis by (auto simp: rt_sem_control_def runs_ex sem_ok_def)
qed

text \<open>A blocking take inside a critical section does not block: the caller is put into the
  queue, \<open>rt_schedule\<close> returns at once because the scheduler is locked, and the call reports
  success although no token was taken.\<close>

theorem rt_sem_take_in_critical_section:
  assumes k: "kernel_inv idle k" and c: "rt_current_thread k = Some t" and r: "ready k t"
    and i: "t \<noteq> idle" and n: "interrupt_nest k = 0" and tm: "good_time time" "time \<noteq> 0"
    and f: "obj_flags (ObjSem s) k \<in> {0x00, 0x01}" and v: "sem_value (sems k s) = 0" and l: "lock_nest k \<noteq> 0"
  shows "\<exists>k'. rt_sem_take s time k = Some (Waits (), k') \<and> rt_current_thread k' = Some t
     \<and> t \<in> set (sem_waiters k' s) \<and> rt_sem_take_resumed t k' = RT_EOK"
proof -
  let ?k = "set_error t RT_EOK k"
  let ?P = "\<lambda>k'. rt_current_thread k' = Some t \<and> t \<in> set (sem_waiters k' s) \<and> rt_sem_take_resumed t k' = RT_EOK"
  have "runs (\<lambda>k1. runs ?P (rt_schedule k1)) (ipc_block (sem_queue s) t (obj_flags (ObjSem s) ?k) time ?k)"
  proof (rule wait_runs [where k = ?k and idle = idle])
    fix k1 k'
    assume b: "blocked (sem_queue s) (obj_flags (ObjSem s) ?k) t ?k k1" and sw: "switched k1 k'"
    have "k' = k1" using sw l blockedD(7) [OF b] by (auto simp: switched_def)
    then show "?P k'"
      using blockedD(1,6) [OF b] blockedD(3) [OF b, of "sem_queue s"] c
      by (simp add: sem_waiters_def rt_sem_take_resumed_def)
  qed (use k r i tm f in \<open>simp_all add: obj_flags_def\<close>)
  then show ?thesis
    using v tm(2) c n
    by (auto simp: rt_sem_take_def rt_debug_in_thread_context_def rt_debug_not_in_interrupt_def
        rt_thread_self_def runs_ex)
qed

section \<open>The small system\<close>

lemma demo_sem:
  "sem_ok sched_demo s" "interrupt_nest sched_demo = 0" "obj_flags x sched_demo = 0"
  "sem_value (sems sched_demo s) = 0" "sem_waiters sched_demo s = []"
  by (simp_all add: sem_ok_def obj_flags_def sched_demo_def kernel0_def sem_waiters_def)

lemma demo_time: "good_time 50" "good_time 0xffffffff"
  by (simp_all add: good_time_def)

theorem rt_sem_take_correct_witness:
  "\<exists>k'. rt_sem_take 9 50 sched_demo = Some (Waits (), k') \<and> kernel_inv 0 k' \<and> sem_waiters k' 9 = [1]
      \<and> rt_current_thread k' \<noteq> Some 1"
  using rt_sem_take_correct [OF demo_inv demo_sem(1) sched_demo_current(1), where s = 9 and time = 50]
    sched_demo_ready demo_sem demo_time sched_demo_current
  by (auto simp: ipc_insert_def)

theorem rt_sem_release_correct_witness:
  "\<exists>k'. rt_sem_release 9 sched_demo = Some (RT_EOK, k') \<and> kernel_inv 0 k' \<and> sem_balance k' 9 = 1"
  using rt_sem_release_correct [OF demo_inv demo_sem(1), of 9] demo_sem by (auto simp: sem_balance_def)

theorem rt_sem_control_reset_witness:
  "\<exists>k'. rt_sem_control 9 0x01 5 sched_demo = Some (RT_EOK, k') \<and> sem_value (sems k' 9) = 5"
  using rt_sem_control_reset [OF demo_inv, of 9 5] by auto

theorem rt_sem_take_in_critical_section_witness:
  "\<exists>k'. rt_sem_take 9 50 (rt_enter_critical sched_demo) = Some (Waits (), k')
      \<and> rt_sem_take_resumed 1 k' = RT_EOK"
proof -
  let ?k = "rt_enter_critical sched_demo"
  have inv: "kernel_inv 0 ?k" using demo_inv
    by (simp add: rt_enter_critical_def kernel_inv_def kernel_ok_def quiet_def alive_def timer_activated_def
        timer_flag_def)
  have "rt_current_thread ?k = Some 1" "ready ?k 1" "interrupt_nest ?k = 0" "obj_flags (ObjSem 9) ?k = 0"
    "sem_value (sems ?k 9) = 0" "lock_nest ?k \<noteq> 0"
    using sched_demo_ready sched_demo_current demo_sem
    by (simp_all add: rt_enter_critical_def obj_flags_def)
  then show ?thesis using rt_sem_take_in_critical_section [OF inv, of 1 50 9] demo_time by auto
qed

end
