(* ===== verification/Mutex.thy ===== *)
theory Mutex
  imports IpcBase
begin

text \<open>
  The mutexes of src/ipc.c: recursive, owned by a thread, with priority inheritance. \<open>mutex_ok\<close>
  ties the value, the owner, the hold count and the waiting list together; the two theorems give
  every path of \<open>rt_mutex_take\<close> and \<open>rt_mutex_release\<close>.
\<close>

section \<open>Operations\<close>

abbreviation mutex_queue :: "nat \<Rightarrow> tlist_head" where
  "mutex_queue m \<equiv> SuspQ (ObjMutex m)"

definition upd_mutex :: "nat \<Rightarrow> (rt_mutex \<Rightarrow> rt_mutex) \<Rightarrow> kernel \<Rightarrow> kernel" where
  "upd_mutex m f k = k\<lparr> mutexes := (mutexes k)(m := f (mutexes k m)) \<rparr>"

definition mutex_fresh :: rt_mutex where
  "mutex_fresh = \<lparr> mutex_value = 1, original_priority = 0xFF, hold = 0, owner = None \<rparr>"

definition rt_mutex_init :: "nat \<Rightarrow> string \<Rightarrow> u8 \<Rightarrow> kernel \<Rightarrow> (rt_err \<times> kernel) option" where
  "rt_mutex_init m name flag k = do {
     k \<leftarrow> rt_object_init (ObjMutex m) RT_Object_Class_Mutex name k;
     k \<leftarrow> rt_ipc_object_init (mutex_queue m) k;
     Some (RT_EOK, set_obj_flags (ObjMutex m) flag (upd_mutex m (\<lambda>_. mutex_fresh) k)) }"

definition rt_mutex_detach :: "nat \<Rightarrow> kernel \<Rightarrow> (rt_err \<times> kernel) option" where
  "rt_mutex_detach m k = do {
     k \<leftarrow> rt_ipc_list_resume_all (mutex_queue m) k;
     Some (RT_EOK, rt_object_detach (ObjMutex m) k) }"

definition rt_mutex_create :: "nat option \<Rightarrow> string \<Rightarrow> u8 \<Rightarrow> kernel \<Rightarrow> (nat option \<times> kernel) option" where
  "rt_mutex_create mem name flag k = do {
     rt_debug_not_in_interrupt k;
     (_, k) \<leftarrow> rt_object_allocate (map_option ObjMutex mem) RT_Object_Class_Mutex name k;
     case mem of
       None \<Rightarrow> Some (None, k)
     | Some m \<Rightarrow> do {
         k \<leftarrow> rt_ipc_object_init (mutex_queue m) k;
         Some (Some m, set_obj_flags (ObjMutex m) flag (upd_mutex m (\<lambda>_. mutex_fresh) k)) } }"

definition rt_mutex_delete :: "nat \<Rightarrow> kernel \<Rightarrow> (rt_err \<times> kernel) option" where
  "rt_mutex_delete m k = do {
     rt_debug_not_in_interrupt k;
     k \<leftarrow> rt_ipc_list_resume_all (mutex_queue m) k;
     k \<leftarrow> rt_object_delete (ObjMutex m) k;
     Some (RT_EOK, k) }"

text \<open>Lending the priority of the caller \<open>t\<close> to the owner \<open>ow\<close>, and giving it back.\<close>

definition mutex_boost :: "nat \<Rightarrow> nat \<Rightarrow> kernel \<Rightarrow> kernel option" where
  "mutex_boost t ow k =
     (if t_current_priority (threads k t) < t_current_priority (threads k ow)
      then map_option snd (rt_thread_control ow 0x02 (t_current_priority (threads k t)) k)
      else Some k)"

definition mutex_restore :: "nat \<Rightarrow> nat \<Rightarrow> kernel \<Rightarrow> kernel option" where
  "mutex_restore m ow k =
     (if original_priority (mutexes k m) \<noteq> t_current_priority (threads k ow)
      then map_option snd (rt_thread_control ow 0x02 (original_priority (mutexes k m)) k)
      else Some k)"

definition rt_mutex_take :: "nat \<Rightarrow> u32 \<Rightarrow> kernel \<Rightarrow> (unit call \<times> kernel) option" where
  "rt_mutex_take m time k = do {
     rt_debug_in_thread_context k;
     t \<leftarrow> rt_thread_self k;
     let k = set_error t RT_EOK k;
     if owner (mutexes k m) = Some t then
       Some (Returned RT_EOK, upd_mutex m (\<lambda>mu. mu\<lparr> hold := hold mu + 1 \<rparr>) k)
     else if mutex_value (mutexes k m) > 0 then
       Some (Returned RT_EOK, upd_mutex m (\<lambda>mu. mu\<lparr> mutex_value := mutex_value mu - 1, owner := Some t,
               original_priority := t_current_priority (threads k t), hold := hold mu + 1 \<rparr>) k)
     else if time = 0 then Some (Returned RT_ETIMEOUT, set_error t RT_ETIMEOUT k)
     else do {
       ow \<leftarrow> owner (mutexes k m);
       k \<leftarrow> mutex_boost t ow k;
       k \<leftarrow> ipc_block (mutex_queue m) t (obj_flags (ObjMutex m) k) time k;
       k \<leftarrow> rt_schedule k;
       Some (Waits (), k) } }"

definition rt_mutex_take_resumed :: "nat \<Rightarrow> kernel \<Rightarrow> rt_err" where
  "rt_mutex_take_resumed t k =
     (if t_error (threads k t) \<noteq> RT_EOK then t_error (threads k t) else RT_EOK)"

definition rt_mutex_release :: "nat \<Rightarrow> kernel \<Rightarrow> (rt_err \<times> kernel) option" where
  "rt_mutex_release m k = do {
     rt_debug_in_thread_context k;
     t \<leftarrow> rt_thread_self k;
     if owner (mutexes k m) \<noteq> Some t then Some (RT_ERROR, set_error t RT_ERROR k)
     else do {
       let k = upd_mutex m (\<lambda>mu. mu\<lparr> hold := hold mu - 1 \<rparr>) k;
       if hold (mutexes k m) \<noteq> 0 then Some (RT_EOK, k)
       else do {
         k \<leftarrow> mutex_restore m t k;
         if \<not> ls_isempty (mutex_queue m) (tlists k) then do {
           u \<leftarrow> ls_first (mutex_queue m) (tlists k);
           let k = upd_mutex m (\<lambda>mu. mu\<lparr> owner := Some u,
                     original_priority := t_current_priority (threads k u), hold := hold mu + 1 \<rparr>) k;
           k \<leftarrow> rt_ipc_list_resume (mutex_queue m) k;
           k \<leftarrow> rt_schedule k;
           Some (RT_EOK, k) }
         else Some (RT_EOK, upd_mutex m (\<lambda>mu. mu\<lparr> mutex_value := mutex_value mu + 1, owner := None,
                              original_priority := 0xff \<rparr>) k) } } }"

definition rt_mutex_control :: "nat \<Rightarrow> u8 \<Rightarrow> kernel \<Rightarrow> rt_err \<times> kernel" where
  "rt_mutex_control m cmd k = (RT_ERROR, k)"

section \<open>Owners and waiters\<close>

definition mutex_waiters :: "kernel \<Rightarrow> nat \<Rightarrow> nat list" where
  "mutex_waiters k m = items (tlists k) (mutex_queue m)"

definition live_thread :: "kernel \<Rightarrow> nat \<Rightarrow> bool" where
  "live_thread k t \<longleftrightarrow> t_stat (threads k t) \<in> {RT_THREAD_READY, RT_THREAD_SUSPEND}"

definition mutex_ok :: "kernel \<Rightarrow> nat \<Rightarrow> bool" where
  "mutex_ok k m \<longleftrightarrow>
     (case owner (mutexes k m) of
        None \<Rightarrow> mutex_value (mutexes k m) = 1 \<and> hold (mutexes k m) = 0 \<and> mutex_waiters k m = []
      | Some ow \<Rightarrow> mutex_value (mutexes k m) = 0 \<and> hold (mutexes k m) \<noteq> 0
          \<and> unat (original_priority (mutexes k m)) < 32
          \<and> live_thread k ow \<and> ow \<notin> set (mutex_waiters k m))"

lemma upd_mutex_simps [simp]:
  "mutexes (upd_mutex m f k) = (mutexes k)(m := f (mutexes k m))"
  "tlists (upd_mutex m f k) = tlists k" "threads (upd_mutex m f k) = threads k"
  "rt_current_thread (upd_mutex m f k) = rt_current_thread k" "lock_nest (upd_mutex m f k) = lock_nest k"
  "objs (upd_mutex m f k) = objs k" "mutex_waiters (upd_mutex m f k) = mutex_waiters k"
  "kernel_inv idle (upd_mutex m f k) = kernel_inv idle k" "ready (upd_mutex m f k) = ready k"
  "live_thread (upd_mutex m f k) = live_thread k"
  by (simp_all add: upd_mutex_def mutex_waiters_def kernel_inv_def kernel_ok_def quiet_def alive_def
      timer_activated_def timer_flag_def fun_eq_iff live_thread_def)

lemma set_error_mutex [simp]:
  "live_thread (set_error u e k) = live_thread k" "mutex_waiters (set_error u e k) = mutex_waiters k"
  by (auto simp: live_thread_def mutex_waiters_def fun_eq_iff)

lemma live_prio:
  assumes "sched_inv k" "live_thread k t"
  shows "unat (t_current_priority (threads k t)) < 32"
  using sched_butD(3) [OF assms(1), of t] assms(2)
  by (auto simp: live_thread_def thread_ok_def prio_ok_def RT_THREAD_PRIORITY_MAX_def)

lemma ready_live: "ready k t \<Longrightarrow> live_thread k t"
  by (simp add: ready_def live_thread_def)

lemma reprioritised_waiters:
  assumes "sched_inv k" "reprioritised t p k k'"
  shows "mutex_waiters k' m = mutex_waiters k m"
proof -
  have "ready k t \<Longrightarrow> t \<notin> set (items (tlists k) (mutex_queue m))"
    using waiting_suspended [OF assms(1), of "mutex_queue m" t] by (auto simp: ready_def)
  then show ?thesis
    using reprioritisedD(17) [OF assms(2), of "mutex_queue m"] by (auto simp: mutex_waiters_def remove1_idem)
qed

lemma boost_runs [wp]:
  assumes k: "kernel_inv idle k" and t: "live_thread k t" and ow: "live_thread k ow"
    and Q: "\<And>k'. kernel_inv idle k' \<Longrightarrow> reprioritised ow (t_current_priority (threads k t)) k k' \<Longrightarrow>
         t_current_priority (threads k t) < t_current_priority (threads k ow) \<Longrightarrow> Q k'"
    and Q': "\<not> t_current_priority (threads k t) < t_current_priority (threads k ow) \<Longrightarrow> Q k"
  shows "runs Q (mutex_boost t ow k)"
proof (cases "t_current_priority (threads k t) < t_current_priority (threads k ow)")
  case True
  have "runs (\<lambda>x. Q (snd x)) (rt_thread_control ow 0x02 (t_current_priority (threads k t)) k)"
    by (rule change_priority_runs [OF k _ live_prio [OF kernel_invD(2) [OF k] t]])
      (use ow True Q in \<open>auto simp: live_thread_def\<close>)
  then show ?thesis using True by (auto simp: mutex_boost_def runs_ex)
qed (use Q' in \<open>simp add: mutex_boost_def\<close>)

lemma restore_runs [wp]:
  assumes k: "kernel_inv idle k" and t: "live_thread k t" and p: "unat (original_priority (mutexes k m)) < 32"
    and Q: "\<And>k'. kernel_inv idle k' \<Longrightarrow> reprioritised t (original_priority (mutexes k m)) k k' \<Longrightarrow> Q k'"
    and Q': "original_priority (mutexes k m) = t_current_priority (threads k t) \<Longrightarrow> Q k"
  shows "runs Q (mutex_restore m t k)"
proof (cases "original_priority (mutexes k m) = t_current_priority (threads k t)")
  case False
  have "runs (\<lambda>x. Q (snd x)) (rt_thread_control t 0x02 (original_priority (mutexes k m)) k)"
    by (rule change_priority_runs [OF k _ p]) (use t Q in \<open>auto simp: live_thread_def\<close>)
  then show ?thesis using False by (auto simp: mutex_restore_def runs_ex)
qed (use Q' in \<open>simp add: mutex_restore_def\<close>)

text \<open>The blocking path of \<open>rt_mutex_take\<close>: the owner inherits the caller's priority if that is more
  urgent, and the caller waits.\<close>

lemma mutex_wait_runs:
  assumes k: "kernel_inv idle k" and ow: "owner (mutexes k m) = Some ow" "ow \<noteq> t" "live_thread k ow"
    and ok: "mutex_ok k m" and r: "ready k t" and i: "t \<noteq> idle" and tm: "good_time time"
    and f: "obj_flags (ObjMutex m) k \<in> {0x00, 0x01}"
  shows "runs (\<lambda>k1. runs (\<lambda>k2. runs (\<lambda>k'. kernel_inv idle k' \<and> mutex_ok k' m \<and> mutexes k' = mutexes k
           \<and> mutex_waiters k' m = ipc_insert (obj_flags (ObjMutex m) k)
               (\<lambda>u. t_current_priority (threads k' u)) t (mutex_waiters k m)
           \<and> t_current_priority (threads k' ow)
               = min (t_current_priority (threads k ow)) (t_current_priority (threads k t))
           \<and> rt_mutex_take_resumed t k' = t_error (threads k t)) (rt_schedule k2))
        (ipc_block (mutex_queue m) t (obj_flags (ObjMutex m) k1) time k1)) (mutex_boost t ow k)"
proof -
  let ?P = "\<lambda>k'. kernel_inv idle k' \<and> mutex_ok k' m \<and> mutexes k' = mutexes k
       \<and> mutex_waiters k' m = ipc_insert (obj_flags (ObjMutex m) k)
           (\<lambda>u. t_current_priority (threads k' u)) t (mutex_waiters k m)
       \<and> t_current_priority (threads k' ow) = min (t_current_priority (threads k ow)) (t_current_priority (threads k t))
       \<and> rt_mutex_take_resumed t k' = t_error (threads k t)"
  have wait: "runs (\<lambda>k2. runs ?P (rt_schedule k2)) (ipc_block (mutex_queue m) t (obj_flags (ObjMutex m) k1) time k1)"
    if k1: "kernel_inv idle k1" "ready k1 = ready k" "mutexes k1 = mutexes k" "objs k1 = objs k"
      "mutex_waiters k1 m = mutex_waiters k m" "live_thread k1 ow" "t_error (threads k1 t) = t_error (threads k t)"
      "t_current_priority (threads k1 ow) = min (t_current_priority (threads k ow)) (t_current_priority (threads k t))"
    for k1
  proof (rule wait_runs [OF k1(1)])
    fix k2 k'
    assume b: "blocked (mutex_queue m) (obj_flags (ObjMutex m) k1) t k1 k2" and sw: "switched k2 k'"
      and inv: "kernel_inv idle k'"
    have th: "threads k' = (threads k1)(t := (threads k1 t)\<lparr> t_stat := RT_THREAD_SUSPEND \<rparr>)"
      using blockedD(1) [OF b] switchedD(1) [OF sw] by simp
    have pr: "(\<lambda>u. t_current_priority (threads k1 u)) = (\<lambda>u. t_current_priority (threads k' u))"
      by (rule ext) (simp add: th)
    have wt: "mutex_waiters k' m = ipc_insert (obj_flags (ObjMutex m) k)
        (\<lambda>u. t_current_priority (threads k' u)) t (mutex_waiters k m)"
      using blockedD(3) [OF b, of "mutex_queue m"] k1(4,5)
      unfolding mutex_waiters_def switchedD(2) [OF sw] pr by (simp add: obj_flags_def)
    have mu: "mutexes k' = mutexes k" using blockedD(11) [OF b] switchedD(12) [OF sw] k1(3) by simp
    have "live_thread k' ow" using k1(6) ow(2) by (simp add: th live_thread_def)
    then have "mutex_ok k' m" using ok ow(1,2) wt mu by (simp add: mutex_ok_def)
    then show "?P k'"
      using inv wt mu k1(7,8) ow(2) by (simp add: th rt_mutex_take_resumed_def)
  qed (use r i tm f k1 in \<open>simp_all add: obj_flags_def\<close>)
  show ?thesis
  proof (rule boost_runs [OF k ready_live [OF r] ow(3)])
    fix k1 assume k1: "kernel_inv idle k1" "reprioritised ow (t_current_priority (threads k t)) k k1"
      "t_current_priority (threads k t) < t_current_priority (threads k ow)"
    show "runs (\<lambda>k2. runs ?P (rt_schedule k2)) (ipc_block (mutex_queue m) t (obj_flags (ObjMutex m) k1) time k1)"
      by (rule wait)
        (use k1 reprioritisedD [OF k1(2)] reprioritised_waiters [OF kernel_invD(2) [OF k] k1(2)] ow(2,3) in
          \<open>auto simp: live_thread_def min_def\<close>)
  next
    assume "\<not> t_current_priority (threads k t) < t_current_priority (threads k ow)"
    then show "runs (\<lambda>k2. runs ?P (rt_schedule k2)) (ipc_block (mutex_queue m) t (obj_flags (ObjMutex m) k) time k)"
      by (intro wait) (use k ow in \<open>auto simp: min_def not_less\<close>)
  qed
qed

text \<open>C10. \<open>rt_mutex_take\<close> on every path. The owner may take again, which counts in 8 bits; a free mutex goes to
  the caller, whose priority is recorded; a caller that may not wait gets a time-out; any other
  caller is queued, and the owner runs at the more urgent of the two priorities from then on. The kernel's invariant is
  kept, and so is the mutex's but in one case: the owner's take at a count of 255 succeeds and leaves the count at 0, so
  that an owned mutex counts as not held, and the next release makes the count 255.\<close>

theorem rt_mutex_take_correct:
  assumes k: "kernel_inv idle k" and ok: "mutex_ok k m" and c: "rt_current_thread k = Some t"
    and r: "ready k t" and i: "t \<noteq> idle" and n: "interrupt_nest k = 0" and tm: "good_time time"
    and f: "obj_flags (ObjMutex m) k \<in> {0x00, 0x01}"
  shows "\<exists>res k'. rt_mutex_take m time k = Some (res, k') \<and> kernel_inv idle k'
     \<and> (mutex_ok k' m \<longleftrightarrow> \<not> (owner (mutexes k m) = Some t \<and> hold (mutexes k m) = 0xff))
     \<and> (case owner (mutexes k m) of
          None \<Rightarrow> res = Returned RT_EOK \<and> owner (mutexes k' m) = Some t \<and> hold (mutexes k' m) = 1
            \<and> original_priority (mutexes k' m) = t_current_priority (threads k t)
        | Some ow \<Rightarrow>
            if ow = t then res = Returned RT_EOK \<and> owner (mutexes k' m) = Some t
              \<and> hold (mutexes k' m) = hold (mutexes k m) + 1
            else mutexes k' = mutexes k
              \<and> (if time = 0 then res = Returned RT_ETIMEOUT \<and> tlists k' = tlists k
                 else res = Waits () \<and> rt_mutex_take_resumed t k' = RT_EOK
                   \<and> mutex_waiters k' m = ipc_insert (obj_flags (ObjMutex m) k)
                        (\<lambda>u. t_current_priority (threads k' u)) t (mutex_waiters k m)
                   \<and> t_current_priority (threads k' ow)
                       = min (t_current_priority (threads k ow)) (t_current_priority (threads k t))))"
proof (cases "owner (mutexes k m)")
  case None
  let ?k = "set_error t RT_EOK k"
  have "unat (t_current_priority (threads k t)) < 32"
    by (rule live_prio [OF kernel_invD(2) [OF k] ready_live [OF r]])
  then show ?thesis
    using None ok c n k ready_live [OF r]
    by (simp add: rt_mutex_take_def rt_debug_in_thread_context_def rt_debug_not_in_interrupt_def
        rt_thread_self_def mutex_ok_def Let_def mutex_waiters_def live_thread_def)
next
  case (Some ow)
  have okd: "mutex_value (mutexes k m) = 0" "hold (mutexes k m) \<noteq> 0" "live_thread k ow"
    "unat (original_priority (mutexes k m)) < 32" "ow \<notin> set (mutex_waiters k m)"
    using ok Some by (simp_all add: mutex_ok_def)
  consider (own) "ow = t" | (now) "ow \<noteq> t" "time = 0" | (wait) "ow \<noteq> t" "time \<noteq> 0" by blast
  then show ?thesis
  proof cases
    case own
    have "(- 1 :: u8) = 0xff" by simp
    then have "hold (mutexes k m) + 1 = 0 \<longleftrightarrow> hold (mutexes k m) = 0xff" by (simp only: add_eq_0_iff2)
    then show ?thesis
      using own Some okd c n k
      by (simp add: rt_mutex_take_def rt_debug_in_thread_context_def rt_debug_not_in_interrupt_def
          rt_thread_self_def mutex_ok_def Let_def)
  next
    case now
    then show ?thesis
      using Some okd c n k
      by (simp add: rt_mutex_take_def rt_debug_in_thread_context_def rt_debug_not_in_interrupt_def
          rt_thread_self_def mutex_ok_def Let_def)
  next
    case wait
    let ?k = "set_error t RT_EOK k"
    have oke: "mutex_ok ?k m" using ok Some by (simp add: mutex_ok_def)
    obtain k1 k2 k' where steps: "mutex_boost t ow ?k = Some k1"
      "ipc_block (mutex_queue m) t (obj_flags (ObjMutex m) k1) time k1 = Some k2" "rt_schedule k2 = Some k'"
      and P: "kernel_inv idle k'" "mutex_ok k' m" "mutexes k' = mutexes ?k"
        "mutex_waiters k' m = ipc_insert (obj_flags (ObjMutex m) ?k)
               (\<lambda>u. t_current_priority (threads k' u)) t (mutex_waiters ?k m)"
        "t_current_priority (threads k' ow)
               = min (t_current_priority (threads ?k ow)) (t_current_priority (threads ?k t))"
        "rt_mutex_take_resumed t k' = t_error (threads ?k t)"
      using mutex_wait_runs [where k = ?k and m = m and ow = ow and t = t and idle = idle and time = time]
        k Some wait okd oke r i tm f
      by (auto simp: runs_ex obj_flags_def)
    have "rt_mutex_take m time k = Some (Waits (), k')"
      using Some wait okd c n steps
      by (simp add: rt_mutex_take_def rt_debug_in_thread_context_def rt_debug_not_in_interrupt_def
          rt_thread_self_def Let_def)
    then show ?thesis using Some wait P by (simp add: obj_flags_def)
  qed
qed

text \<open>C11. \<open>rt_mutex_release\<close> on every path. Only the owner can release; an inner release counts down;
  the last one sets the owner's priority to the one recorded when this mutex was taken and gives
  the mutex to the thread that waits first, which becomes ready and owns it with hold count 1, or
  frees it when nobody waits. The invariants are kept. (The recorded priority is restored
  whatever happened in between: a thread that took this mutex while boosted through another one
  is boosted again by this release.)\<close>

theorem rt_mutex_release_correct:
  assumes k: "kernel_inv idle k" and ok: "mutex_ok k m" and c: "rt_current_thread k = Some t"
    and n: "interrupt_nest k = 0"
  shows "\<exists>e k'. rt_mutex_release m k = Some (e, k') \<and> kernel_inv idle k' \<and> mutex_ok k' m
     \<and> (if owner (mutexes k m) \<noteq> Some t then e = RT_ERROR \<and> mutexes k' = mutexes k
        else e = RT_EOK
          \<and> (if hold (mutexes k m) \<noteq> 1 then mutexes k' m = (mutexes k m)\<lparr> hold := hold (mutexes k m) - 1 \<rparr>
             else t_current_priority (threads k' t) = original_priority (mutexes k m)
               \<and> (case mutex_waiters k m of
                    [] \<Rightarrow> owner (mutexes k' m) = None \<and> mutex_waiters k' m = []
                  | u # us \<Rightarrow> owner (mutexes k' m) = Some u \<and> hold (mutexes k' m) = 1 \<and> ready k' u
                      \<and> mutex_waiters k' m = us \<and> t_error (threads k' u) = t_error (threads k u))))"
proof (cases "owner (mutexes k m) = Some t")
  case False
  have "mutex_ok (set_error t RT_ERROR k) m" using ok by (cases "owner (mutexes k m)") (simp_all add: mutex_ok_def)
  then show ?thesis
    using False c n k by (simp add: rt_mutex_release_def rt_debug_in_thread_context_def
        rt_debug_not_in_interrupt_def rt_thread_self_def)
next
  case own: True
  have okd: "mutex_value (mutexes k m) = 0" "hold (mutexes k m) \<noteq> 0" "live_thread k t"
    "unat (original_priority (mutexes k m)) < 32" "t \<notin> set (mutex_waiters k m)"
    using ok own by (simp_all add: mutex_ok_def)
  let ?k = "upd_mutex m (\<lambda>mu. mu\<lparr> hold := hold mu - 1 \<rparr>) k"
  show ?thesis
  proof (cases "hold (mutexes k m) = 1")
    case False
    then show ?thesis
      using own okd c n k by (simp add: rt_mutex_release_def rt_debug_in_thread_context_def
          rt_debug_not_in_interrupt_def rt_thread_self_def mutex_ok_def Let_def)
  next
    case h1: True
    have inv0: "kernel_inv idle ?k" using k by simp
    let ?rest = "\<lambda>k. if \<not> ls_isempty (mutex_queue m) (tlists k) then do {
           u \<leftarrow> ls_first (mutex_queue m) (tlists k);
           let k = upd_mutex m (\<lambda>mu. mu\<lparr> owner := Some u,
                     original_priority := t_current_priority (threads k u), hold := hold mu + 1 \<rparr>) k;
           k \<leftarrow> rt_ipc_list_resume (mutex_queue m) k;
           k \<leftarrow> rt_schedule k;
           Some (RT_EOK, k) }
         else Some (RT_EOK, upd_mutex m (\<lambda>mu. mu\<lparr> mutex_value := mutex_value mu + 1, owner := None,
                              original_priority := 0xff \<rparr>) k)"
    let ?P = "\<lambda>(e, k'). e = RT_EOK \<and> kernel_inv idle k' \<and> mutex_ok k' m
       \<and> t_current_priority (threads k' t) = original_priority (mutexes k m)
       \<and> (case mutex_waiters k m of
            [] \<Rightarrow> owner (mutexes k' m) = None \<and> mutex_waiters k' m = []
          | u # us \<Rightarrow> owner (mutexes k' m) = Some u \<and> hold (mutexes k' m) = 1 \<and> ready k' u
              \<and> mutex_waiters k' m = us \<and> t_error (threads k' u) = t_error (threads k u))"
    have rest: "runs ?P (?rest k1)"
      if k1: "kernel_inv idle k1" "mutexes k1 = mutexes ?k" "mutex_waiters k1 m = mutex_waiters k m"
        "t_current_priority (threads k1 t) = original_priority (mutexes k m)"
        "\<And>u. t_error (threads k1 u) = t_error (threads k u)" for k1
    proof (cases "mutex_waiters k m")
      case Nil
      then show ?thesis
        using k1 h1 okd(1) by (simp add: ls_isempty_def mutex_waiters_def mutex_ok_def)
    next
      case (Cons u us)
      have row: "items (tlists k1) (mutex_queue m) = u # us" using Cons k1(3) by (simp add: mutex_waiters_def)
      let ?p = "t_current_priority (threads k1 u)"
      let ?k2 = "upd_mutex m (\<lambda>mu. mu\<lparr> owner := Some u, original_priority := ?p, hold := hold mu + 1 \<rparr>) k1"
      have inv2: "kernel_inv idle ?k2" using k1(1) by simp
      have lok: "lists_ok (tlists k1)" using kernel_invD(2) [OF k1(1)] by (simp add: sched_but_def)
      have du: "u \<notin> set us" using lists_okD(1) [OF lok, of "mutex_queue m"] row by simp
      have ut: "u \<noteq> t" using okd(5) Cons by auto
      have "live_thread k1 u"
        using waiting_suspended [OF kernel_invD(2) [OF k1(1)], of "mutex_queue m" u] row
        by (simp add: live_thread_def)
      then have pu: "unat ?p < 32" by (rule live_prio [OF kernel_invD(2) [OF k1(1)]])
      have "runs (\<lambda>k3. runs (\<lambda>k'. ?P (RT_EOK, k')) (rt_schedule k3)) (rt_ipc_list_resume (mutex_queue m) ?k2)"
      proof (rule list_resume_runs [OF kernel_invD(1,4) [OF inv2]])
        fix k3 assume k3: "kernel_ok 1 k3" "quiet {} k3" and w: "woken u (threads ?k2 u) ?k2 k3"
        have inv3: "kernel_inv idle k3" by (rule woken_inv [OF w k3 kernel_invD(5) [OF inv2]])
        show "runs (\<lambda>k'. ?P (RT_EOK, k')) (rt_schedule k3)"
        proof (rule switch_runs [OF kernel_invD(2,8) [OF inv3]])
          fix k' assume sw: "switched k3 k'"
          have inv': "kernel_inv idle k'" using kernel_inv_switched [OF sw] kernel_invD [OF inv3] by simp
          have wt: "mutex_waiters k' m = us"
            using wokenD(3) [OF w, of "mutex_queue m"] row by (simp add: mutex_waiters_def switchedD [OF sw])
          have mu: "mutexes k' m = (mutexes k m)\<lparr> hold := 1, owner := Some u, original_priority := ?p \<rparr>"
            using wokenD(14) [OF w] k1(2) h1 by (simp add: switchedD [OF sw])
          have th: "threads k' = (threads k1)(u := (threads k1 u)\<lparr> t_stat := RT_THREAD_READY \<rparr>)"
            using wokenD(1) [OF w] by (simp add: switchedD [OF sw])
          have "mutex_ok k' m"
            using okd(1) pu du by (simp add: mutex_ok_def mu wt live_thread_def th)
          then show "?P (RT_EOK, k')"
            using inv' Cons mu wt ut k1(4,5) by (simp add: th ready_def)
        qed
      qed (use row in simp_all)
      then show ?thesis using row by (simp add: ls_isempty_def ls_first_def Let_def)
    qed
    have "runs (\<lambda>k1. runs ?P (?rest k1)) (mutex_restore m t ?k)"
    proof (rule restore_runs [OF inv0])
      fix k1 assume k1: "kernel_inv idle k1" "reprioritised t (original_priority (mutexes ?k m)) ?k k1"
      show "runs ?P (?rest k1)"
        by (rule rest) (use k1 reprioritisedD(1,10) [OF k1(2)]
            reprioritised_waiters [OF kernel_invD(2) [OF inv0] k1(2)] in simp_all)
    next
      assume "original_priority (mutexes ?k m) = t_current_priority (threads ?k t)"
      then show "runs ?P (?rest ?k)" by (intro rest) (use k in simp_all)
    qed (use okd in simp_all)
    then have "runs ?P (rt_mutex_release m k)"
      using own c n h1 by (simp add: rt_mutex_release_def rt_debug_in_thread_context_def
          rt_debug_not_in_interrupt_def rt_thread_self_def Let_def)
    then show ?thesis using own h1 by (auto simp: runs_ex)
  qed
qed

section \<open>The small system\<close>

text \<open>Thread 1 is current, and owns mutex 4; thread 2 owns mutex 3.\<close>

definition mutex_demo :: kernel where
  "mutex_demo = upd_mutex 3 (\<lambda>_. \<lparr> mutex_value = 0, original_priority = 5, hold = 1, owner = Some 2 \<rparr>)
     (upd_mutex 4 (\<lambda>_. \<lparr> mutex_value = 0, original_priority = 5, hold = 1, owner = Some 1 \<rparr>) sched_demo)"

lemma mutex_demo:
  "kernel_inv 0 mutex_demo" "mutex_ok mutex_demo 3" "mutex_ok mutex_demo 4"
  "rt_current_thread mutex_demo = Some 1" "ready mutex_demo 1" "interrupt_nest mutex_demo = 0"
  "obj_flags x mutex_demo = 0" "owner (mutexes mutex_demo 3) = Some 2" "hold (mutexes mutex_demo 3) = 1"
  "mutex_waiters mutex_demo m = []" "owner (mutexes mutex_demo 4) = Some 1" "hold (mutexes mutex_demo 4) = 1"
proof -
  have w: "mutex_waiters sched_demo m = []" for m by (simp add: mutex_waiters_def sched_demo_def)
  have l: "live_thread sched_demo 2" "live_thread sched_demo 1" by (simp_all add: live_thread_def sched_demo_def demo_thread_def)
  show "mutex_ok mutex_demo 3" "mutex_ok mutex_demo 4"
    using w l by (simp_all add: mutex_ok_def mutex_demo_def)
  show "kernel_inv 0 mutex_demo" using demo_inv by (simp add: mutex_demo_def)
  show "rt_current_thread mutex_demo = Some 1" "ready mutex_demo 1"
    using sched_demo_current sched_demo_ready by (simp_all add: mutex_demo_def)
  show "interrupt_nest mutex_demo = 0" "obj_flags x mutex_demo = 0"
    by (simp_all add: mutex_demo_def upd_mutex_def sched_demo_def kernel0_def obj_flags_def)
  show "owner (mutexes mutex_demo 3) = Some 2" "hold (mutexes mutex_demo 3) = 1" "mutex_waiters mutex_demo m = []"
    "owner (mutexes mutex_demo 4) = Some 1" "hold (mutexes mutex_demo 4) = 1"
    using w by (simp_all add: mutex_demo_def)
qed

theorem rt_mutex_take_correct_witness:
  "(\<exists>k'. rt_mutex_take 3 0xffffffff mutex_demo = Some (Waits (), k') \<and> kernel_inv 0 k' \<and> mutex_waiters k' 3 = [1])
   \<and> (\<exists>k'. rt_mutex_take 4 0 (upd_mutex 4 (\<lambda>mu. mu\<lparr> hold := 0xff \<rparr>) mutex_demo) = Some (Returned RT_EOK, k')
        \<and> owner (mutexes k' 4) = Some 1 \<and> hold (mutexes k' 4) = 0 \<and> \<not> mutex_ok k' 4)"
proof
  show "\<exists>k'. rt_mutex_take 3 0xffffffff mutex_demo = Some (Waits (), k') \<and> kernel_inv 0 k' \<and> mutex_waiters k' 3 = [1]"
    using rt_mutex_take_correct [OF mutex_demo(1,2,4,5), where time = "0xffffffff"] mutex_demo
    by (auto simp: good_time_def ipc_insert_def)
  let ?k = "upd_mutex 4 (\<lambda>mu. mu\<lparr> hold := 0xff \<rparr>) mutex_demo"
  have "mutex_ok ?k 4" using mutex_demo(3,11) by (simp add: mutex_ok_def)
  then show "\<exists>k'. rt_mutex_take 4 0 ?k = Some (Returned RT_EOK, k')
        \<and> owner (mutexes k' 4) = Some 1 \<and> hold (mutexes k' 4) = 0 \<and> \<not> mutex_ok k' 4"
    using rt_mutex_take_correct [where k = ?k and m = 4 and t = 1 and idle = 0 and time = 0] mutex_demo
    by (simp add: good_time_def obj_flags_def) (auto simp: upd_mutex_def)
qed

theorem rt_mutex_release_correct_witness:
  "\<exists>k'. rt_mutex_release 4 mutex_demo = Some (RT_EOK, k') \<and> kernel_inv 0 k' \<and> mutex_ok k' 4
      \<and> owner (mutexes k' 4) = None"
  using rt_mutex_release_correct [OF mutex_demo(1,3,4,6)] mutex_demo by auto

end
