(* ===== verification/Event.thy ===== *)
theory Event
  imports IpcBase
begin

text \<open>
  The event groups of src/ipc.c: 32 flags; a thread waits for all or for any of a set of flags and
  may clear what it received. \<open>ev_deliver\<close> is the specification of one delivery over the waiting
  list; \<open>event_ok\<close> says that no thread waits for flags that are there (no lost wake-up).
\<close>

section \<open>Operations\<close>

abbreviation event_queue :: "nat \<Rightarrow> tlist_head" where
  "event_queue e \<equiv> SuspQ (ObjEvent e)"

definition RT_EVENT_FLAG_AND :: u8 where "RT_EVENT_FLAG_AND = 0x01"
definition RT_EVENT_FLAG_OR :: u8 where "RT_EVENT_FLAG_OR = 0x02"
definition RT_EVENT_FLAG_CLEAR :: u8 where "RT_EVENT_FLAG_CLEAR = 0x04"

definition set_event :: "nat \<Rightarrow> u32 \<Rightarrow> kernel \<Rightarrow> kernel" where
  "set_event e s k = k\<lparr> events := (events k)(e := (events k e)\<lparr> event_set := s \<rparr>) \<rparr>"

definition rt_event_init :: "nat \<Rightarrow> string \<Rightarrow> u8 \<Rightarrow> kernel \<Rightarrow> (rt_err \<times> kernel) option" where
  "rt_event_init e name flag k = do {
     k \<leftarrow> rt_object_init (ObjEvent e) RT_Object_Class_Event name k;
     k \<leftarrow> rt_ipc_object_init (event_queue e) (set_obj_flags (ObjEvent e) flag k);
     Some (RT_EOK, set_event e 0 k) }"

definition rt_event_detach :: "nat \<Rightarrow> kernel \<Rightarrow> (rt_err \<times> kernel) option" where
  "rt_event_detach e k = do {
     k \<leftarrow> rt_ipc_list_resume_all (event_queue e) k;
     Some (RT_EOK, rt_object_detach (ObjEvent e) k) }"

definition rt_event_create :: "nat option \<Rightarrow> string \<Rightarrow> u8 \<Rightarrow> kernel \<Rightarrow> (nat option \<times> kernel) option" where
  "rt_event_create mem name flag k = do {
     rt_debug_not_in_interrupt k;
     (_, k) \<leftarrow> rt_object_allocate (map_option ObjEvent mem) RT_Object_Class_Event name k;
     case mem of
       None \<Rightarrow> Some (None, k)
     | Some e \<Rightarrow> do {
         k \<leftarrow> rt_ipc_object_init (event_queue e) (set_obj_flags (ObjEvent e) flag k);
         Some (Some e, set_event e 0 k) } }"

definition rt_event_delete :: "nat \<Rightarrow> kernel \<Rightarrow> (rt_err \<times> kernel) option" where
  "rt_event_delete e k = do {
     rt_debug_not_in_interrupt k;
     k \<leftarrow> rt_ipc_list_resume_all (event_queue e) k;
     k \<leftarrow> rt_object_delete (ObjEvent e) k;
     Some (RT_EOK, k) }"

text \<open>The loop of \<^verbatim>\<open>rt_event_send\<close> over the waiting list; \<^verbatim>\<open>n = n->next\<close> is read before the thread is
  resumed, so the walk continues with the thread that was behind it.\<close>

definition event_received :: "nat \<Rightarrow> nat \<Rightarrow> kernel \<Rightarrow> bool \<times> kernel" where
  "event_received e t k =
     (let th = threads k t; s = event_set (events k e)
      in if t_event_info th AND RT_EVENT_FLAG_AND \<noteq> 0 then (t_event_set th AND s = t_event_set th, k)
         else if t_event_info th AND RT_EVENT_FLAG_OR \<noteq> 0 then
           (if t_event_set th AND s \<noteq> 0
            then (True, upd_thread t (\<lambda>th. th\<lparr> t_event_set := t_event_set th AND s \<rparr>) k)
            else (False, k))
         else (False, k))"

fun event_wake :: "nat \<Rightarrow> nat list \<Rightarrow> kernel \<Rightarrow> (bool \<times> kernel) option" where
  "event_wake e [] k = Some (False, k)"
| "event_wake e (t # ts) k =
     (case event_received e t k of
        (False, k) \<Rightarrow> event_wake e ts k
      | (True, k) \<Rightarrow> do {
          let k = (if t_event_info (threads k t) AND RT_EVENT_FLAG_CLEAR \<noteq> 0
                   then set_event e (event_set (events k e) AND NOT (t_event_set (threads k t))) k else k);
          (_, k) \<leftarrow> rt_thread_resume t k;
          (_, k) \<leftarrow> event_wake e ts k;
          Some (True, k) })"

definition rt_event_send :: "nat \<Rightarrow> u32 \<Rightarrow> kernel \<Rightarrow> (rt_err \<times> kernel) option" where
  "rt_event_send e evs k =
     (if evs = 0 then Some (RT_ERROR, k)
      else do {
        let k = set_event e (event_set (events k e) OR evs) k;
        (need_schedule, k) \<leftarrow> event_wake e (items (tlists k) (event_queue e)) k;
        k \<leftarrow> (if need_schedule then rt_schedule k else Some k);
        Some (RT_EOK, k) })"

text \<open>The result of a receive: how the call ended, and what it stored behind \<^verbatim>\<open>recved\<close>.\<close>

definition rt_event_recv ::
  "nat \<Rightarrow> u32 \<Rightarrow> u8 \<Rightarrow> u32 \<Rightarrow> kernel \<Rightarrow> (unit call \<times> u32 option \<times> kernel) option" where
  "rt_event_recv e evs opt timeout k = do {
     rt_debug_in_thread_context k;
     if evs = 0 then Some (Returned RT_ERROR, None, k)
     else do {
       t \<leftarrow> rt_thread_self k;
       let k = set_error t RT_EOK k;
       let s = event_set (events k e);
       rt_assert (opt AND RT_EVENT_FLAG_AND \<noteq> 0 \<or> opt AND RT_EVENT_FLAG_OR \<noteq> 0);
       let status = (if opt AND RT_EVENT_FLAG_AND \<noteq> 0 then s AND evs = evs else s AND evs \<noteq> 0);
       if status then
         Some (Returned (t_error (threads k t)), Some (s AND evs),
               if opt AND RT_EVENT_FLAG_CLEAR \<noteq> 0 then set_event e (s AND NOT evs) k else k)
       else if timeout = 0 then Some (Returned RT_ETIMEOUT, None, set_error t RT_ETIMEOUT k)
       else do {
         let k = upd_thread t (\<lambda>th. th\<lparr> t_event_set := evs, t_event_info := opt \<rparr>) k;
         k \<leftarrow> ipc_block (event_queue e) t (obj_flags (ObjEvent e) k) timeout k;
         k \<leftarrow> rt_schedule k;
         Some (Waits (), None, k) } } }"

definition rt_event_recv_resumed :: "nat \<Rightarrow> kernel \<Rightarrow> rt_err \<times> u32 option" where
  "rt_event_recv_resumed t k =
     (if t_error (threads k t) \<noteq> RT_EOK then (t_error (threads k t), None)
      else (t_error (threads k t), Some (t_event_set (threads k t))))"

definition rt_event_control :: "nat \<Rightarrow> u8 \<Rightarrow> kernel \<Rightarrow> (rt_err \<times> kernel) option" where
  "rt_event_control e cmd k =
     (if cmd = 0x01 then do {
        k \<leftarrow> rt_ipc_list_resume_all (event_queue e) k;
        k \<leftarrow> rt_schedule (set_event e 0 k);
        Some (RT_EOK, k) }
      else Some (RT_ERROR, k))"

section \<open>Specification of a delivery\<close>

definition ev_sat :: "u8 \<Rightarrow> u32 \<Rightarrow> u32 \<Rightarrow> bool" where
  "ev_sat info w s \<longleftrightarrow>
     (if info AND RT_EVENT_FLAG_AND \<noteq> 0 then w AND s = w
      else info AND RT_EVENT_FLAG_OR \<noteq> 0 \<and> w AND s \<noteq> 0)"

definition ev_got :: "u8 \<Rightarrow> u32 \<Rightarrow> u32 \<Rightarrow> u32" where
  "ev_got info w s = (if info AND RT_EVENT_FLAG_AND \<noteq> 0 then w else w AND s)"

definition ev_left :: "u8 \<Rightarrow> u32 \<Rightarrow> u32 \<Rightarrow> u32" where
  "ev_left info w s = (if info AND RT_EVENT_FLAG_CLEAR \<noteq> 0 then s AND NOT (ev_got info w s) else s)"

text \<open>\<open>ev_deliver th ts s\<close>: the flags left over and the threads woken, with what each received, when
  the flags \<open>s\<close> are offered to the waiting threads \<open>ts\<close> in order.\<close>

fun ev_deliver :: "(nat \<Rightarrow> rt_thread) \<Rightarrow> nat list \<Rightarrow> u32 \<Rightarrow> u32 \<times> (nat \<times> u32) list" where
  "ev_deliver th [] s = (s, [])"
| "ev_deliver th (t # ts) s =
     (let info = t_event_info (th t); w = t_event_set (th t)
      in if ev_sat info w s
         then (case ev_deliver th ts (ev_left info w s) of (s', r) \<Rightarrow> (s', (t, ev_got info w s) # r))
         else ev_deliver th ts s)"

definition event_waiters :: "kernel \<Rightarrow> nat \<Rightarrow> nat list" where
  "event_waiters k e = items (tlists k) (event_queue e)"

definition event_ok :: "kernel \<Rightarrow> nat \<Rightarrow> bool" where
  "event_ok k e \<longleftrightarrow> (\<forall>t \<in> set (event_waiters k e).
     \<not> ev_sat (t_event_info (threads k t)) (t_event_set (threads k t)) (event_set (events k e)))"

text \<open>Flags only disappear during a delivery, so a thread passed over stays unsatisfied.\<close>

lemma and_mono_zero:
  fixes w s s' :: u32
  assumes "s' AND s = s'"
  shows "w AND s' = w \<Longrightarrow> w AND s = w" "w AND s' \<noteq> 0 \<Longrightarrow> w AND s \<noteq> 0"
proof -
  have e: "w AND s' = (w AND s) AND s'" using assms by (metis and.assoc and.commute)
  show "w AND s' \<noteq> 0 \<Longrightarrow> w AND s \<noteq> 0" unfolding e by auto
  show "w AND s' = w \<Longrightarrow> w AND s = w"
    by (metis assms and.assoc)
qed

lemma ev_sat_mono: "s' AND s = s' \<Longrightarrow> ev_sat info w s' \<Longrightarrow> ev_sat info w s"
  using and_mono_zero [of s' s w] by (auto simp: ev_sat_def split: if_splits)

lemma ev_left_sub: "ev_left info w s AND s = ev_left info w s"
  by (simp add: ev_left_def and.assoc and.commute and.left_commute)

lemma sub_trans:
  fixes a b c :: u32
  shows "a AND b = a \<Longrightarrow> b AND c = b \<Longrightarrow> a AND c = a"
  by (metis and.assoc)

lemma ev_deliver_sub: "fst (ev_deliver th ts s) AND s = fst (ev_deliver th ts s)"
proof (induction ts arbitrary: s)
  case (Cons t ts)
  then show ?case
    using sub_trans ev_left_sub by (auto simp: Let_def split: prod.splits) (metis fst_conv)+
qed simp

lemma ev_deliver_set: "fst ` set (snd (ev_deliver th ts s)) \<subseteq> set ts"
proof (induction ts arbitrary: s)
  case (Cons t ts)
  show ?case
    using Cons.IH [of s] Cons.IH [of "ev_left (t_event_info (th t)) (t_event_set (th t)) s"]
    by (auto simp: Let_def image_subset_iff split: prod.splits)
qed simp

lemma ev_deliver_unsat:
  assumes "t \<in> set ts" "t \<notin> fst ` set (snd (ev_deliver th ts s))"
  shows "\<not> ev_sat (t_event_info (th t)) (t_event_set (th t)) (fst (ev_deliver th ts s))"
  using assms
proof (induction ts arbitrary: s)
  case (Cons u ts)
  let ?i = "t_event_info (th u)" and ?w = "t_event_set (th u)"
  show ?case
  proof (cases "ev_sat ?i ?w s")
    case True
    then show ?thesis
      using Cons.IH [of "ev_left ?i ?w s"] Cons.prems by (auto simp: Let_def split: prod.splits)
  next
    case False
    then show ?thesis
      using Cons ev_deliver_sub [of th ts s] ev_sat_mono by (auto simp: Let_def)
  qed
qed simp

lemma ev_deliver_cong:
  "(\<And>t. t \<in> set ts \<Longrightarrow> th' t = th t) \<Longrightarrow> ev_deliver th' ts s = ev_deliver th ts s"
  by (induction ts arbitrary: s) (auto simp: Let_def)

section \<open>The loop delivers\<close>

lemma set_event_simps [simp]:
  "event_set (events (set_event e s k) e) = s" "tlists (set_event e s k) = tlists k"
  "threads (set_event e s k) = threads k" "rt_current_thread (set_event e s k) = rt_current_thread k"
  "lock_nest (set_event e s k) = lock_nest k" "event_waiters (set_event e s k) = event_waiters k"
  "kernel_inv idle (set_event e s k) = kernel_inv idle k" "ready (set_event e s k) = ready k"
  by (simp_all add: set_event_def event_waiters_def kernel_inv_def kernel_ok_def quiet_def alive_def
      timer_activated_def timer_flag_def ready_def fun_eq_iff)

lemma event_field_inv [simp]:
  "kernel_inv idle (upd_thread t (\<lambda>th. th\<lparr> t_event_set := f th \<rparr>) k) = kernel_inv idle k"
  "kernel_inv idle (upd_thread t (\<lambda>th. th\<lparr> t_event_set := f th, t_event_info := g th \<rparr>) k) = kernel_inv idle k"
  "ready (upd_thread t (\<lambda>th. th\<lparr> t_event_set := f th, t_event_info := g th \<rparr>) k) = ready k"
  by (simp_all add: kernel_inv_def alive_def kernel_ok_other_thread_field)

text \<open>The state after a delivery, given which threads received what.\<close>

definition delivered :: "nat \<Rightarrow> (nat \<times> u32) list \<Rightarrow> kernel \<Rightarrow> kernel \<Rightarrow> bool" where
  "delivered e r k k' \<longleftrightarrow>
     event_waiters k' e = filter (\<lambda>t. t \<notin> fst ` set r) (event_waiters k e)
   \<and> (\<forall>t g. (t, g) \<in> set r \<longrightarrow> threads k' t = (threads k t)\<lparr> t_event_set := g, t_stat := RT_THREAD_READY \<rparr>)
   \<and> (\<forall>t. t \<notin> fst ` set r \<longrightarrow> threads k' t = threads k t)
   \<and> rt_current_thread k' = rt_current_thread k \<and> lock_nest k' = lock_nest k"

lemma event_received_eq:
  "event_received e t k =
     (let th = threads k t; s = event_set (events k e); i = t_event_info th; w = t_event_set th
      in if ev_sat i w s then (True, upd_thread t (\<lambda>th. th\<lparr> t_event_set := ev_got i w s \<rparr>) k) else (False, k))"
  by (auto simp: event_received_def ev_sat_def ev_got_def Let_def upd_thread_def)

lemma event_wake_runs:
  assumes "kernel_inv idle k" "distinct ts" "set ts \<subseteq> set (event_waiters k e)"
  shows "\<exists>k'. event_wake e ts k = Some (snd (ev_deliver (threads k) ts (event_set (events k e))) \<noteq> [], k')
     \<and> kernel_inv idle k' \<and> event_set (events k' e) = fst (ev_deliver (threads k) ts (event_set (events k e)))
     \<and> delivered e (snd (ev_deliver (threads k) ts (event_set (events k e)))) k k'"
  using assms
proof (induction ts arbitrary: k)
  case Nil
  then show ?case by (simp add: delivered_def)
next
  case (Cons t ts)
  let ?i = "t_event_info (threads k t)" and ?w = "t_event_set (threads k t)" and ?s = "event_set (events k e)"
  show ?case
  proof (cases "ev_sat ?i ?w ?s")
    case False
    then show ?thesis using Cons.IH [OF Cons.prems(1)] Cons.prems by (simp add: event_received_eq Let_def)
  next
    case True
    let ?k1 = "upd_thread t (\<lambda>th. th\<lparr> t_event_set := ev_got ?i ?w ?s \<rparr>) k"
    let ?k2 = "if ?i AND RT_EVENT_FLAG_CLEAR \<noteq> 0 then set_event e (?s AND NOT (ev_got ?i ?w ?s)) ?k1 else ?k1"
    have k2: "kernel_inv idle ?k2" "event_waiters ?k2 e = event_waiters k e"
      "event_set (events ?k2 e) = ev_left ?i ?w ?s" "rt_current_thread ?k2 = rt_current_thread k"
      "lock_nest ?k2 = lock_nest k"
      "threads ?k2 = (threads k)(t := (threads k t)\<lparr> t_event_set := ev_got ?i ?w ?s \<rparr>)"
      using Cons.prems(1) by (simp_all add: ev_left_def) (simp_all add: upd_thread_def event_waiters_def)
    have t: "t \<in> set (items (tlists ?k2) (event_queue e))"
      using Cons.prems(3) k2(2) by (simp add: event_waiters_def)
    obtain k3 where k3: "rt_thread_resume t ?k2 = Some (RT_EOK, k3)" "kernel_inv idle k3"
      "woken t (threads ?k2 t) ?k2 k3"
      using wake_inv_runs [OF k2(1) _ t, of "\<lambda>x. fst x = RT_EOK \<and> kernel_inv idle (snd x)
          \<and> woken t (threads ?k2 t) ?k2 (snd x)"]
      by (auto simp: runs_ex)
    have w3: "event_waiters k3 e = remove1 t (event_waiters k e)"
      using woken_waitq [OF k3(3), of "event_queue e"] k2(2) by (simp add: event_waiters_def)
    have dw: "distinct (event_waiters k e)"
      using kernel_invD(2) [OF Cons.prems(1)] by (simp add: event_waiters_def sched_but_def lists_ok_def)
    let ?r = "ev_deliver (threads k) ts (ev_left ?i ?w ?s)"
    have same: "ev_deliver (threads k3) ts (event_set (events k3 e)) = ?r"
      using Cons.prems(2) wokenD(1,15) [OF k3(3)] k2(3,6) by (simp, intro ev_deliver_cong) auto
    obtain k' where k': "event_wake e ts k3 = Some (snd ?r \<noteq> [], k')" "kernel_inv idle k'"
      "event_set (events k' e) = fst ?r" "delivered e (snd ?r) k3 k'"
      using Cons.IH [OF k3(2)] Cons.prems(2,3) w3 unfolding same by (auto simp: dw)
    have wake: "event_wake e (t # ts) k = Some (True, k')"
      using True k3(1) k'(1)
      by (cases "?i AND RT_EVENT_FLAG_CLEAR = 0") (simp_all add: event_received_eq Let_def upd_thread_def)
    have tr: "t \<notin> fst ` set (snd ?r)" using ev_deliver_set [of "threads k" ts "ev_left ?i ?w ?s"] Cons.prems(2) by auto
    have th: "threads k3 = (threads k)(t := (threads k t)\<lparr> t_event_set := ev_got ?i ?w ?s, t_stat := RT_THREAD_READY \<rparr>)"
      using wokenD(1) [OF k3(3)] unfolding k2(6) by simp
    have w: "event_waiters k' e = filter (\<lambda>u. u \<notin> fst ` set (snd ?r)) (remove1 t (event_waiters k e))"
      using k'(4) w3 by (simp add: delivered_def)
    have "filter (\<lambda>u. u \<notin> R) (remove1 t us) = filter (\<lambda>u. u \<noteq> t \<and> u \<notin> R) us" if "distinct us" for us R
      using that by (induction us) (auto intro!: filter_cong)
    then have "event_waiters k' e = filter (\<lambda>u. u \<notin> fst ` set ((t, ev_got ?i ?w ?s) # snd ?r)) (event_waiters k e)"
      unfolding w using dw by simp
    then have "delivered e ((t, ev_got ?i ?w ?s) # snd ?r) k k'"
      using k'(4) tr wokenD(8,9) [OF k3(3)] k2(4,5) th
      unfolding delivered_def by (auto simp: rev_image_eqI)
    then show ?thesis using True wake k'(2,3) by (simp add: Let_def case_prod_unfold)
  qed
qed

section \<open>Properties\<close>

text \<open>C12. \<open>rt_event_send\<close> sets the flags and then delivers them exactly as \<open>ev_deliver\<close> says: it
  offers them to the waiting threads in the order of the list, each thread whose condition holds
  becomes ready with what it received and takes away what it asked to clear before the next
  thread is looked at, the others keep their place. Afterwards no thread is left waiting for
  flags that are there, and when a thread was woken the most urgent thread runs. An empty set
  is refused.\<close>

theorem rt_event_send_correct:
  assumes k: "kernel_inv idle k"
  shows "\<exists>k'. rt_event_send e evs k = Some (if evs = 0 then RT_ERROR else RT_EOK, k') \<and> kernel_inv idle k'
     \<and> (if evs = 0 then k' = k
        else case ev_deliver (threads k) (event_waiters k e) (event_set (events k e) OR evs) of (left, r) \<Rightarrow>
          event_set (events k' e) = left
        \<and> event_waiters k' e = filter (\<lambda>t. t \<notin> fst ` set r) (event_waiters k e)
        \<and> (\<forall>(t, g) \<in> set r. ready k' t
             \<and> rt_event_recv_resumed t k' = (t_error (threads k t), if t_error (threads k t) = RT_EOK then Some g else None))
        \<and> event_ok k' e
        \<and> (r \<noteq> [] \<and> lock_nest k = 0 \<longrightarrow> (\<exists>u. rt_current_thread k' = Some u \<and> most_urgent k' u)))"
proof (cases "evs = 0")
  case True
  then show ?thesis using k by (simp add: rt_event_send_def)
next
  case False
  let ?k = "set_event e (event_set (events k e) OR evs) k"
  let ?d = "ev_deliver (threads k) (event_waiters k e) (event_set (events k e) OR evs)"
  have "distinct (event_waiters ?k e)"
    using kernel_invD(2) [OF k] by (simp add: event_waiters_def sched_but_def lists_ok_def)
  then obtain k1 where k1: "event_wake e (event_waiters k e) ?k = Some (snd ?d \<noteq> [], k1)"
    "kernel_inv idle k1" "event_set (events k1 e) = fst ?d" "delivered e (snd ?d) ?k k1"
    using event_wake_runs [of idle ?k "event_waiters ?k e" e] k by auto
  have ok1: "event_ok k1 e"
    unfolding event_ok_def
    using ev_deliver_unsat [where th = "threads k"] k1(3,4) by (auto simp: delivered_def image_iff)
  let ?P = "\<lambda>k'. kernel_inv idle k' \<and> threads k' = threads k1 \<and> events k' = events k1 \<and> tlists k' = tlists k1
      \<and> (snd ?d \<noteq> [] \<and> lock_nest k = 0 \<longrightarrow> (\<exists>u. rt_current_thread k' = Some u \<and> most_urgent k' u))"
  have "runs ?P (if snd ?d \<noteq> [] then rt_schedule k1 else Some k1)"
  proof (cases "snd ?d = []")
    case False
    have "runs ?P (rt_schedule k1)"
    proof (rule schedule_inv_runs [OF k1(2)])
      fix k' assume inv: "kernel_inv idle k'" and sw: "switched k1 k'"
      have "\<exists>u. rt_current_thread k' = Some u \<and> most_urgent k' u" if "lock_nest k = 0"
        using sw that k1(4) by (auto simp: switched_def delivered_def most_urgent_def ready_def)
      then show "?P k'" using inv switchedD [OF sw] by simp
    qed
    then show ?thesis using False by simp
  qed (use k1(2) in simp)
  then obtain k' where k': "(if snd ?d \<noteq> [] then rt_schedule k1 else Some k1) = Some k'" and P: "?P k'"
    unfolding runs_ex by blast
  have send: "rt_event_send e evs k = Some (RT_EOK, k')"
    using False k1(1) k' by (simp add: rt_event_send_def event_waiters_def Let_def)
  have r: "\<forall>(t, g) \<in> set (snd ?d). ready k' t \<and> rt_event_recv_resumed t k' =
      (t_error (threads k t), if t_error (threads k t) = RT_EOK then Some g else None)"
    using k1(4) P by (auto simp: delivered_def ready_def rt_event_recv_resumed_def)
  have ok: "event_ok k' e" using ok1 P by (simp add: event_ok_def event_waiters_def)
  have w: "event_waiters k' e = filter (\<lambda>t. t \<notin> fst ` set (snd ?d)) (event_waiters k e)"
    using k1(4) P by (simp add: delivered_def event_waiters_def)
  show ?thesis
    using False send r ok w P k1(3) by (intro exI [of _ k']) (simp add: case_prod_unfold)
qed

text \<open>C13. \<open>rt_event_recv\<close> on every path: an empty set is an error; when the condition holds the caller
  gets the flags it asked for that are set, and clears them if it wants to; otherwise it times
  out at once, or is queued with its condition recorded and another thread runs. The kernel's
  invariant and the absence of satisfied waiters are kept on every path.\<close>

theorem rt_event_recv_correct:
  assumes k: "kernel_inv idle k" and ok: "event_ok k e" and c: "rt_current_thread k = Some t"
    and r: "ready k t" and i: "t \<noteq> idle" and n: "interrupt_nest k = 0" and tm: "good_time time"
    and f: "obj_flags (ObjEvent e) k \<in> {0x00, 0x01}"
    and o: "opt AND RT_EVENT_FLAG_AND \<noteq> 0 \<or> opt AND RT_EVENT_FLAG_OR \<noteq> 0"
  shows "\<exists>res got k'. rt_event_recv e evs opt time k = Some (res, got, k') \<and> kernel_inv idle k' \<and> event_ok k' e
     \<and> (let s = event_set (events k e); s' = event_set (events k' e)
        in if evs = 0 then res = Returned RT_ERROR \<and> got = None \<and> k' = k
           else if ev_sat opt evs s then
             res = Returned RT_EOK \<and> got = Some (s AND evs)
             \<and> s' = (if opt AND RT_EVENT_FLAG_CLEAR \<noteq> 0 then s AND NOT evs else s)
           else s' = s \<and> got = None
             \<and> (if time = 0 then res = Returned RT_ETIMEOUT \<and> t_error (threads k' t) = RT_ETIMEOUT
                else res = Waits ()
                  \<and> event_waiters k' e = ipc_insert (obj_flags (ObjEvent e) k)
                       (\<lambda>u. t_current_priority (threads k u)) t (event_waiters k e)
                  \<and> t_event_set (threads k' t) = evs \<and> t_event_info (threads k' t) = opt
                  \<and> (lock_nest k = 0 \<longrightarrow> rt_current_thread k' \<noteq> Some t)))"
proof -
  let ?s = "event_set (events k e)" and ?e = "set_error t RT_EOK k"
  have dbg: "rt_debug_in_thread_context k = Some ()" "rt_thread_self k = Some t"
    using c n by (simp_all add: rt_debug_in_thread_context_def rt_debug_not_in_interrupt_def rt_thread_self_def)
  have st: "(if opt AND RT_EVENT_FLAG_AND \<noteq> 0 then ?s AND evs = evs else ?s AND evs \<noteq> 0) = ev_sat opt evs ?s"
    using o by (auto simp: ev_sat_def and.commute)
  have oke: "event_ok (set_error t x k) e" for x using ok by (auto simp: event_ok_def event_waiters_def)
  consider (none) "evs = 0" | (sat) "evs \<noteq> 0" "ev_sat opt evs ?s"
    | (zero) "evs \<noteq> 0" "\<not> ev_sat opt evs ?s" "time = 0" | (wait) "evs \<noteq> 0" "\<not> ev_sat opt evs ?s" "time \<noteq> 0" by blast
  then show ?thesis
  proof cases
    case none
    then show ?thesis using dbg k ok by (simp add: rt_event_recv_def)
  next
    case sat
    have "event_ok (set_event e (?s AND NOT evs) ?e) e"
      using oke [of RT_EOK] ev_sat_mono [of "?s AND NOT evs" ?s]
      by (auto simp: event_ok_def event_waiters_def and.assoc and.left_commute and.commute)
    then show ?thesis
      using sat dbg k oke o st by (auto simp: rt_event_recv_def Let_def)
  next
    case zero
    then show ?thesis
      using dbg k oke o st by (auto simp: rt_event_recv_def Let_def)
  next
    case wait
    let ?k = "upd_thread t (\<lambda>th. th\<lparr> t_event_set := evs, t_event_info := opt \<rparr>) ?e"
    let ?P = "\<lambda>k'. kernel_inv idle k' \<and> event_ok k' e \<and> events k' = events k
      \<and> event_waiters k' e = ipc_insert (obj_flags (ObjEvent e) k) (\<lambda>u. t_current_priority (threads k u)) t (event_waiters k e)
      \<and> t_event_set (threads k' t) = evs \<and> t_event_info (threads k' t) = opt
      \<and> (lock_nest k = 0 \<longrightarrow> rt_current_thread k' \<noteq> Some t)"
    have kk: "threads ?k = (threads k)(t := (threads k t)\<lparr> t_error := RT_EOK, t_event_set := evs, t_event_info := opt \<rparr>)"
      "tlists ?k = tlists k" "events ?k = events k" "objs ?k = objs k" "lock_nest ?k = lock_nest k"
      by (simp_all add: upd_thread_def)
    have nt: "t \<notin> set (event_waiters k e)"
      using waiting_suspended [OF kernel_invD(2) [OF k], of "event_queue e" t] r by (auto simp: event_waiters_def ready_def)
    have pr: "(\<lambda>u. t_current_priority (threads ?k u)) = (\<lambda>u. t_current_priority (threads k u))" unfolding kk by auto
    have "runs (\<lambda>k1. runs ?P (rt_schedule k1)) (ipc_block (event_queue e) t (obj_flags (ObjEvent e) ?k) time ?k)"
    proof (rule wait_runs [where k = ?k and idle = idle])
      fix k1 k'
      assume b: "blocked (event_queue e) (obj_flags (ObjEvent e) ?k) t ?k k1" and sw: "switched k1 k'"
        and inv: "kernel_inv idle k'"
      have wt: "event_waiters k' e = ipc_insert (obj_flags (ObjEvent e) k) (\<lambda>u. t_current_priority (threads k u)) t
          (event_waiters k e)"
        using blockedD(3) [OF b, of "event_queue e"]
        unfolding event_waiters_def switchedD(2) [OF sw] pr kk(2) by (simp add: obj_flags_def kk)
      have ev: "events k' = events k" using blockedD(12) [OF b] switchedD(13) [OF sw] kk by simp
      have th: "threads k' = (threads k)(t := (threads k t)\<lparr> t_error := RT_EOK, t_event_set := evs,
          t_event_info := opt, t_stat := RT_THREAD_SUSPEND \<rparr>)"
        using blockedD(1) [OF b] switchedD(1) [OF sw] unfolding kk by simp
      have cur: "rt_current_thread k' \<noteq> Some t" if "lock_nest k = 0"
        using switched_current [OF sw] that blockedD(7) [OF b] blockedD(15) [OF b, of t]
        by (auto simp: most_urgent_def kk)
      have "event_ok k' e" using ok wait(2) nt unfolding event_ok_def wt ev th by auto
      then show "?P k'" using inv wt ev cur by (simp add: th)
    qed (use k r i tm f in \<open>simp_all add: obj_flags_def kk\<close>)
    then obtain k1 k' where b: "ipc_block (event_queue e) t (obj_flags (ObjEvent e) ?k) time ?k = Some k1"
      "rt_schedule k1 = Some k'" and P: "?P k'"
      unfolding runs_ex by blast
    have "rt_event_recv e evs opt time k = Some (Waits (), None, k')"
      using wait dbg b o st by (simp add: rt_event_recv_def)
    then show ?thesis using wait P by simp
  qed
qed

section \<open>The small system\<close>

lemma demo_event:
  "event_ok sched_demo e" "event_waiters sched_demo e = []" "event_set (events sched_demo e) = 0"
  "interrupt_nest sched_demo = 0" "obj_flags x sched_demo = 0"
  by (simp_all add: event_ok_def event_waiters_def sched_demo_def kernel0_def obj_flags_def)

theorem rt_event_send_correct_witness:
  "\<exists>k'. rt_event_send 3 5 sched_demo = Some (RT_EOK, k') \<and> kernel_inv 0 k' \<and> event_set (events k' 3) = 5"
  using rt_event_send_correct [OF demo_inv, of 3 5] demo_event by auto

theorem rt_event_recv_correct_witness:
  "\<exists>k'. rt_event_recv 3 6 5 50 sched_demo = Some (Waits (), None, k') \<and> event_waiters k' 3 = [1]
      \<and> event_ok k' 3 \<and> kernel_inv 0 k'"
proof -
  have "good_time 50" "(5::u8) AND RT_EVENT_FLAG_AND \<noteq> 0" "\<not> ev_sat 5 6 0"
    by (simp_all add: good_time_def ev_sat_def RT_EVENT_FLAG_AND_def)
  then show ?thesis
    using rt_event_recv_correct [OF demo_inv demo_event(1) sched_demo_current(1), of 50 3 5 6]
      sched_demo_ready demo_event by (auto simp: ipc_insert_def)
qed

end
