(* ===== verification/Mailbox.thy ===== *)
theory Mailbox
  imports IpcBase Fifo
begin

text \<open>
  The mailboxes of src/ipc.c: a circular buffer of 32-bit mails with a list of waiting receivers
  and a list of waiting senders. \<open>mails\<close> reads the buffer as a queue; \<open>mb_ok\<close> is the shape the
  offsets keep. Non-blocking sends and receives are an instance of the contract of Fifo.thy.
\<close>

section \<open>Operations\<close>

abbreviation mb_recvq :: "nat \<Rightarrow> tlist_head" where
  "mb_recvq m \<equiv> SuspQ (ObjMailbox m)"

definition set_mb :: "nat \<Rightarrow> rt_mailbox \<Rightarrow> kernel \<Rightarrow> kernel" where
  "set_mb m b k = k\<lparr> mailboxes := (mailboxes k)(m := b) \<rparr>"

definition init_sender_list :: "nat \<Rightarrow> kernel \<Rightarrow> kernel option" where
  "init_sender_list m k = do {
     ls \<leftarrow> ls_init (SenderQ m) (tlists k);
     Some (k\<lparr> tlists := ls \<rparr>) }"

definition rt_mb_init :: "nat \<Rightarrow> string \<Rightarrow> u32 list \<Rightarrow> u32 \<Rightarrow> u8 \<Rightarrow> kernel \<Rightarrow> (rt_err \<times> kernel) option" where
  "rt_mb_init m name msgpool sz flag k = do {
     k \<leftarrow> rt_object_init (ObjMailbox m) RT_Object_Class_MailBox name k;
     k \<leftarrow> rt_ipc_object_init (mb_recvq m) (set_obj_flags (ObjMailbox m) flag k);
     k \<leftarrow> init_sender_list m (set_mb m \<lparr> mb_pool = msgpool, mb_size = ucast sz, mb_entry = 0,
                                         in_offset = 0, out_offset = 0 \<rparr> k);
     Some (RT_EOK, k) }"

definition rt_mb_detach :: "nat \<Rightarrow> kernel \<Rightarrow> (rt_err \<times> kernel) option" where
  "rt_mb_detach m k = do {
     k \<leftarrow> rt_ipc_list_resume_all (mb_recvq m) k;
     k \<leftarrow> rt_ipc_list_resume_all (SenderQ m) k;
     Some (RT_EOK, rt_object_detach (ObjMailbox m) k) }"

text \<open>\<open>pool\<close> is what \<^verbatim>\<open>RT_KERNEL_MALLOC\<close> returned for the mails: memory for as many bytes as were
  asked for, with whatever it contains, or nothing.\<close>

definition rt_mb_create ::
  "nat option \<Rightarrow> (nat \<Rightarrow> u32 list option) \<Rightarrow> string \<Rightarrow> u32 \<Rightarrow> u8 \<Rightarrow> kernel \<Rightarrow> (nat option \<times> kernel) option" where
  "rt_mb_create mem pool name sz flag k = do {
     rt_debug_not_in_interrupt k;
     (_, k) \<leftarrow> rt_object_allocate (map_option ObjMailbox mem) RT_Object_Class_MailBox name k;
     case mem of
       None \<Rightarrow> Some (None, k)
     | Some m \<Rightarrow> do {
         k \<leftarrow> rt_ipc_object_init (mb_recvq m) (set_obj_flags (ObjMailbox m) flag k);
         let k = set_mb m ((mailboxes k m)\<lparr> mb_size := ucast sz \<rparr>) k;
         case pool (unat (mb_size (mailboxes k m)) * 4) of
           None \<Rightarrow> do {
             k \<leftarrow> rt_object_delete (ObjMailbox m) k;
             Some (None, k) }
         | Some p \<Rightarrow> do {
             k \<leftarrow> init_sender_list m (set_mb m ((mailboxes k m)\<lparr> mb_pool := p, mb_entry := 0,
                                                              in_offset := 0, out_offset := 0 \<rparr>) k);
             Some (Some m, k) } } }"

definition rt_mb_delete :: "nat \<Rightarrow> kernel \<Rightarrow> (rt_err \<times> kernel) option" where
  "rt_mb_delete m k = do {
     rt_debug_not_in_interrupt k;
     k \<leftarrow> rt_ipc_list_resume_all (mb_recvq m) k;
     k \<leftarrow> rt_ipc_list_resume_all (SenderQ m) k;
     k \<leftarrow> rt_object_delete (ObjMailbox m) (set_mb m ((mailboxes k m)\<lparr> mb_pool := [] \<rparr>) k);
     Some (RT_EOK, k) }"

text \<open>Storing and fetching a mail.\<close>

definition mb_store :: "u32 \<Rightarrow> rt_mailbox \<Rightarrow> rt_mailbox option" where
  "mb_store value b = do {
     pool \<leftarrow> mem_set (mb_pool b) (uint (in_offset b)) value;
     let b = b\<lparr> mb_pool := pool, in_offset := in_offset b + 1 \<rparr>;
     let b = (if in_offset b \<ge> mb_size b then b\<lparr> in_offset := 0 \<rparr> else b);
     Some (b\<lparr> mb_entry := mb_entry b + 1 \<rparr>) }"

definition mb_fetch :: "rt_mailbox \<Rightarrow> (u32 \<times> rt_mailbox) option" where
  "mb_fetch b = do {
     value \<leftarrow> mem_get (mb_pool b) (uint (out_offset b));
     let b = b\<lparr> out_offset := out_offset b + 1 \<rparr>;
     let b = (if out_offset b \<ge> mb_size b then b\<lparr> out_offset := 0 \<rparr> else b);
     Some (value, b\<lparr> mb_entry := mb_entry b - 1 \<rparr>) }"

text \<open>The loop of \<^verbatim>\<open>rt_mb_send_wait\<close> from its head to the end of the function, cut where the thread
  waits; \<open>thread\<close>, \<open>timeout\<close> and \<open>tick_delta\<close> are the local variables. \<^verbatim>\<open>thread\<close> is null when there
  is no thread yet, and then may not be used.\<close>

definition mb_send_loop ::
  "nat \<Rightarrow> u32 \<Rightarrow> nat option \<Rightarrow> u32 \<Rightarrow> u32 \<Rightarrow> kernel \<Rightarrow> ((u32 \<times> u32) call \<times> kernel) option" where
  "mb_send_loop m value thread timeout tick_delta k =
     (if mb_entry (mailboxes k m) = mb_size (mailboxes k m) then do {
        t \<leftarrow> thread;
        let k = set_error t RT_EOK k;
        if timeout = 0 then Some (Returned RT_EFULL, k)
        else ipc_wait (SenderQ m) t (obj_flags (ObjMailbox m) k) timeout tick_delta k }
      else do {
        b \<leftarrow> mb_store value (mailboxes k m);
        k \<leftarrow> ipc_wake (mb_recvq m) (set_mb m b k);
        Some (Returned RT_EOK, k) })"

definition rt_mb_send_wait :: "nat \<Rightarrow> u32 \<Rightarrow> u32 \<Rightarrow> kernel \<Rightarrow> ((u32 \<times> u32) call \<times> kernel) option" where
  "rt_mb_send_wait m value timeout k =
     (if mb_entry (mailboxes k m) = mb_size (mailboxes k m) \<and> timeout = 0 then Some (Returned RT_EFULL, k)
      else mb_send_loop m value (rt_current_thread k) timeout 0 k)"

definition rt_mb_send_wait_resumed ::
  "nat \<Rightarrow> u32 \<Rightarrow> nat \<Rightarrow> u32 \<times> u32 \<Rightarrow> kernel \<Rightarrow> ((u32 \<times> u32) call \<times> kernel) option" where
  "rt_mb_send_wait_resumed m value t w k =
     (if t_error (threads k t) \<noteq> RT_EOK then Some (Returned (t_error (threads k t)), k)
      else case ipc_remaining (fst w) (snd w) k of (timeout, tick_delta) \<Rightarrow>
        mb_send_loop m value (Some t) timeout tick_delta k)"

definition rt_mb_send :: "nat \<Rightarrow> u32 \<Rightarrow> kernel \<Rightarrow> ((u32 \<times> u32) call \<times> kernel) option" where
  "rt_mb_send m value k = rt_mb_send_wait m value 0 k"

definition mb_recv_loop ::
  "nat \<Rightarrow> nat option \<Rightarrow> u32 \<Rightarrow> u32 \<Rightarrow> kernel \<Rightarrow> ((u32 \<times> u32) call \<times> u32 option \<times> kernel) option" where
  "mb_recv_loop m thread timeout tick_delta k =
     (if mb_entry (mailboxes k m) = 0 then do {
        t \<leftarrow> thread;
        let k = set_error t RT_EOK k;
        if timeout = 0 then Some (Returned RT_ETIMEOUT, None, set_error t RT_ETIMEOUT k)
        else do {
          (w, k) \<leftarrow> ipc_wait (mb_recvq m) t (obj_flags (ObjMailbox m) k) timeout tick_delta k;
          Some (w, None, k) } }
      else do {
        (value, b) \<leftarrow> mb_fetch (mailboxes k m);
        k \<leftarrow> ipc_wake (SenderQ m) (set_mb m b k);
        Some (Returned RT_EOK, Some value, k) })"

definition rt_mb_recv :: "nat \<Rightarrow> u32 \<Rightarrow> kernel \<Rightarrow> ((u32 \<times> u32) call \<times> u32 option \<times> kernel) option" where
  "rt_mb_recv m timeout k =
     (if mb_entry (mailboxes k m) = 0 \<and> timeout = 0 then Some (Returned RT_ETIMEOUT, None, k)
      else mb_recv_loop m (rt_current_thread k) timeout 0 k)"

definition rt_mb_recv_resumed ::
  "nat \<Rightarrow> nat \<Rightarrow> u32 \<times> u32 \<Rightarrow> kernel \<Rightarrow> ((u32 \<times> u32) call \<times> u32 option \<times> kernel) option" where
  "rt_mb_recv_resumed m t w k =
     (if t_error (threads k t) \<noteq> RT_EOK then Some (Returned (t_error (threads k t)), None, k)
      else case ipc_remaining (fst w) (snd w) k of (timeout, tick_delta) \<Rightarrow>
        mb_recv_loop m (Some t) timeout tick_delta k)"

definition rt_mb_control :: "nat \<Rightarrow> u8 \<Rightarrow> kernel \<Rightarrow> (rt_err \<times> kernel) option" where
  "rt_mb_control m cmd k =
     (if cmd = 0x01 then do {
        k \<leftarrow> rt_ipc_list_resume_all (mb_recvq m) k;
        k \<leftarrow> rt_ipc_list_resume_all (SenderQ m) k;
        k \<leftarrow> rt_schedule (set_mb m ((mailboxes k m)\<lparr> mb_entry := 0, in_offset := 0, out_offset := 0 \<rparr>) k);
        Some (RT_EOK, k) }
      else Some (RT_ERROR, k))"

section \<open>The buffer as a queue\<close>

definition mb_ok :: "rt_mailbox \<Rightarrow> bool" where
  "mb_ok b \<longleftrightarrow> 0 < unat (mb_size b) \<and> unat (mb_size b) \<le> length (mb_pool b)
     \<and> unat (mb_entry b) \<le> unat (mb_size b) \<and> unat (out_offset b) < unat (mb_size b)
     \<and> unat (in_offset b) = (unat (out_offset b) + unat (mb_entry b)) mod unat (mb_size b)"

definition mails :: "rt_mailbox \<Rightarrow> u32 list" where
  "mails b = map (\<lambda>i. mb_pool b ! ((unat (out_offset b) + i) mod unat (mb_size b))) [0..<unat (mb_entry b)]"

lemma length_mails [simp]: "length (mails b) = unat (mb_entry b)"
  by (simp add: mails_def)

lemma mails_Nil [simp]: "mails b = [] \<longleftrightarrow> mb_entry b = 0"
  by (simp add: mails_def unat_eq_0)

text \<open>The next offset: one more, back to 0 at the end.\<close>

lemma next_offset:
  fixes i n :: u16
  assumes "unat i < unat n"
  shows "unat (if i + 1 \<ge> n then 0 else i + 1) = (unat i + 1) mod unat n"
proof -
  have "unat i + 1 < 2 ^ 16" using assms unsigned_less [of n, where ?'a = nat] by simp
  then have u: "unat (i + 1) = unat i + 1" using unat_plus_small [of i 1] by simp
  show ?thesis
  proof (cases "n \<le> i + 1")
    case True
    then have "unat i + 1 = unat n" using u assms by (simp add: word_le_nat_alt)
    then show ?thesis using True by simp
  next
    case False
    then have "unat i + 1 < unat n" using u by (simp add: word_le_nat_alt)
    then show ?thesis using False u by simp
  qed
qed

lemma mb_store_queue:
  assumes ok: "mb_ok b" and nf: "mb_entry b \<noteq> mb_size b"
  shows "\<exists>b'. mb_store v b = Some b' \<and> mb_ok b' \<and> mails b' = mails b @ [v] \<and> mb_size b' = mb_size b"
proof -
  let ?n = "unat (mb_size b)" and ?o = "unat (out_offset b)" and ?e = "unat (mb_entry b)" and ?i = "unat (in_offset b)"
  let ?w = "if in_offset b + 1 \<ge> mb_size b then 0 else in_offset b + 1"
  define b' where "b' = b\<lparr> mb_pool := (mb_pool b)[?i := v], in_offset := ?w, mb_entry := mb_entry b + 1 \<rparr>"
  have e: "?e < ?n" using ok nf by (simp add: mb_ok_def word_unat_eq_iff)
  have i: "?i < ?n" using ok by (simp add: mb_ok_def)
  have il: "?i < length (mb_pool b)" by (rule less_le_trans [OF i]) (use ok in \<open>simp add: mb_ok_def\<close>)
  have e1: "unat (mb_entry b + 1) = ?e + 1"
    using e unsigned_less [of "mb_size b", where ?'a = nat] unat_plus_small [of "mb_entry b" 1] by simp
  have st: "mb_store v b = Some b'"
    using mem_set_nat [OF il, of v] by (simp add: mb_store_def b'_def Let_def)
  have "(?o + ?e + 1) mod ?n = (?i + 1) mod ?n" using ok by (simp add: mb_ok_def mod_simps)
  then have ok': "mb_ok b'"
    using ok e e1 next_offset [OF i] by (simp add: mb_ok_def b'_def add.assoc)
  have old: "(?o + j) mod ?n \<noteq> ?i" if "j < ?e" for j
  proof
    assume "(?o + j) mod ?n = ?i"
    then have "(?o + j) mod ?n = (?o + ?e) mod ?n" using ok by (simp add: mb_ok_def)
    then have "?n dvd (?o + ?e) - (?o + j)" using mod_eq_dvd_iff_nat [of "?o + j" "?o + ?e" ?n] that by simp
    then have "?n \<le> ?e - j" using that by (intro dvd_imp_le) simp_all
    then show False using that e by simp
  qed
  have "mails b' = mails b @ [v]"
    using e1 not_sym [OF old] il ok by (simp add: mails_def b'_def mb_ok_def)
  then show ?thesis using st ok' by (auto simp: b'_def)
qed

lemma mb_fetch_queue:
  assumes ok: "mb_ok b" and ne: "mb_entry b \<noteq> 0"
  shows "\<exists>b'. mb_fetch b = Some (hd (mails b), b') \<and> mb_ok b' \<and> mails b' = tl (mails b) \<and> mb_size b' = mb_size b"
proof -
  let ?n = "unat (mb_size b)" and ?o = "unat (out_offset b)" and ?e = "unat (mb_entry b)"
  let ?w = "if out_offset b + 1 \<ge> mb_size b then 0 else out_offset b + 1"
  define b' where "b' = b\<lparr> out_offset := ?w, mb_entry := mb_entry b - 1 \<rparr>"
  have o: "?o < ?n" "?o < length (mb_pool b)" using ok by (auto simp: mb_ok_def)
  obtain e' where e': "?e = Suc e'" using ne by (metis not0_implies_Suc unat_eq_0)
  have e1: "unat (mb_entry b - 1) = e'" using e' by (simp add: unat_minus_one ne)
  have w: "unat ?w = (?o + 1) mod ?n" using next_offset [OF o(1)] .
  have hd: "mails b = mb_pool b ! ?o # map (\<lambda>i. mb_pool b ! ((?o + Suc i) mod ?n)) [0..<e']"
    using o by (simp add: mails_def e' upt_conv_Cons map_Suc_upt [symmetric] comp_def del: upt_Suc)
  have st: "mb_fetch b = Some (hd (mails b), b')"
    using mem_get_nat [OF o(2)] by (simp add: mb_fetch_def b'_def Let_def hd)
  have "mails b' = tl (mails b)"
    unfolding hd using e1 w by (simp add: mails_def b'_def mod_simps)
  moreover have "mb_ok b'"
    using ok e1 e' w o by (simp add: mb_ok_def b'_def mod_simps)
  ultimately show ?thesis using st by (auto simp: b'_def)
qed

section \<open>The operations on the kernel\<close>

definition mails_of :: "kernel \<Rightarrow> nat \<Rightarrow> u32 list" where
  "mails_of k m = mails (mailboxes k m)"

lemma set_mb_simps [simp]:
  "mailboxes (set_mb m b k) = (mailboxes k)(m := b)" "tlists (set_mb m b k) = tlists k"
  "threads (set_mb m b k) = threads k" "kernel_inv idle (set_mb m b k) = kernel_inv idle k"
  "lock_nest (set_mb m b k) = lock_nest k" "rt_current_thread (set_mb m b k) = rt_current_thread k"
  by (simp_all add: set_mb_def kernel_inv_def kernel_ok_def quiet_def alive_def timer_activated_def timer_flag_def)

lemma ipc_woke_set_mb [simp]: "ipc_woke q (set_mb m b k) k' \<longleftrightarrow> ipc_woke q k k'"
  by (simp add: ipc_woke_def split: list.split)

text \<open>The two loops, for the first entry and for every later one.\<close>

lemma mb_send_loop_put:
  assumes k: "kernel_inv idle k" and ok: "mb_ok (mailboxes k m)"
    and nf: "mb_entry (mailboxes k m) \<noteq> mb_size (mailboxes k m)"
  shows "\<exists>k'. mb_send_loop m v th time td k = Some (Returned RT_EOK, k') \<and> kernel_inv idle k' \<and> mb_ok (mailboxes k' m)
     \<and> mails_of k' m = mails_of k m @ [v] \<and> mb_size (mailboxes k' m) = mb_size (mailboxes k m)
     \<and> ipc_woke (mb_recvq m) k k'"
proof -
  obtain b where b: "mb_store v (mailboxes k m) = Some b" "mb_ok b" "mails b = mails (mailboxes k m) @ [v]"
    "mb_size b = mb_size (mailboxes k m)"
    using mb_store_queue [OF ok nf] by blast
  obtain k' where k': "ipc_wake (mb_recvq m) (set_mb m b k) = Some k'" "kernel_inv idle k'"
    "mailboxes k' = (mailboxes k)(m := b)" "ipc_woke (mb_recvq m) (set_mb m b k) k'"
    using ipc_wake_runs [of idle "set_mb m b k" "mb_recvq m"] k by auto
  then show ?thesis
    using nf b by (auto simp: mb_send_loop_def mails_of_def)
qed

lemma mb_recv_loop_get:
  assumes k: "kernel_inv idle k" and ok: "mb_ok (mailboxes k m)" and ne: "mb_entry (mailboxes k m) \<noteq> 0"
  shows "\<exists>k'. mb_recv_loop m th time td k = Some (Returned RT_EOK, Some (hd (mails_of k m)), k')
     \<and> kernel_inv idle k' \<and> mb_ok (mailboxes k' m)
     \<and> mails_of k' m = tl (mails_of k m) \<and> mb_size (mailboxes k' m) = mb_size (mailboxes k m)
     \<and> ipc_woke (SenderQ m) k k'"
proof -
  obtain b where b: "mb_fetch (mailboxes k m) = Some (hd (mails (mailboxes k m)), b)" "mb_ok b"
    "mails b = tl (mails (mailboxes k m))" "mb_size b = mb_size (mailboxes k m)"
    using mb_fetch_queue [OF ok ne] by blast
  obtain k' where k': "ipc_wake (SenderQ m) (set_mb m b k) = Some k'" "kernel_inv idle k'"
    "mailboxes k' = (mailboxes k)(m := b)" "ipc_woke (SenderQ m) (set_mb m b k) k'"
    using ipc_wake_runs [of idle "set_mb m b k" "SenderQ m"] k by auto
  then show ?thesis
    using ne b by (auto simp: mb_recv_loop_def mails_of_def)
qed

lemma mb_full: "mb_ok (mailboxes k m) \<Longrightarrow>
  mb_entry (mailboxes k m) = mb_size (mailboxes k m) \<longleftrightarrow> length (mails_of k m) = unat (mb_size (mailboxes k m))"
  by (simp add: mails_of_def word_unat_eq_iff)

text \<open>\<open>rt_mb_send_wait\<close> on every path. With room in the mailbox the mail goes behind the
  mails that are there and the receiver that waits first becomes ready; a full mailbox refuses
  at once when no waiting is allowed; otherwise the caller joins the senders' queue, remembering
  its timeout and the tick, and another thread runs. The kernel's invariant and the shape of the
  buffer are kept on every path.\<close>

theorem rt_mb_send_wait_correct:
  assumes k: "kernel_inv idle k" and ok: "mb_ok (mailboxes k m)" and c: "rt_current_thread k = Some t"
    and r: "ready k t" and i: "t \<noteq> idle" and n: "interrupt_nest k = 0" and tm: "good_time time"
    and f: "obj_flags (ObjMailbox m) k \<in> {0x00, 0x01}"
  shows "\<exists>res k'. rt_mb_send_wait m v time k = Some (res, k') \<and> kernel_inv idle k' \<and> mb_ok (mailboxes k' m)
     \<and> (if length (mails_of k m) < unat (mb_size (mailboxes k m)) then
          res = Returned RT_EOK \<and> mails_of k' m = mails_of k m @ [v] \<and> ipc_woke (mb_recvq m) k k'
        else if time = 0 then res = Returned RT_EFULL \<and> k' = k
        else res = Waits (time, if 0 < sint time then rt_tick k else 0)
           \<and> mails_of k' m = mails_of k m \<and> waits_in (SenderQ m) (obj_flags (ObjMailbox m) k) t k k')"
proof -
  have le: "length (mails_of k m) \<le> unat (mb_size (mailboxes k m))"
    using ok by (simp add: mails_of_def mb_ok_def)
  note full = mb_full [OF ok]
  consider (room) "mb_entry (mailboxes k m) \<noteq> mb_size (mailboxes k m)"
    | (zero) "mb_entry (mailboxes k m) = mb_size (mailboxes k m)" "time = 0"
    | (wait) "mb_entry (mailboxes k m) = mb_size (mailboxes k m)" "time \<noteq> 0" by blast
  then show ?thesis
  proof cases
    case room
    obtain k' where k': "mb_send_loop m v (rt_current_thread k) time 0 k = Some (Returned RT_EOK, k')"
      "kernel_inv idle k'" "mb_ok (mailboxes k' m)" "mails_of k' m = mails_of k m @ [v]" "ipc_woke (mb_recvq m) k k'"
      using mb_send_loop_put [OF k ok room] by blast
    then have "rt_mb_send_wait m v time k = Some (Returned RT_EOK, k')" using room by (simp add: rt_mb_send_wait_def)
    then show ?thesis using k' full room le by auto
  next
    case zero
    then show ?thesis using full k ok by (simp add: rt_mb_send_wait_def)
  next
    case wait
    obtain k' where k': "ipc_wait (SenderQ m) t (obj_flags (ObjMailbox m) k) time 0 (set_error t RT_EOK k)
         = Some (Waits (time, if 0 < sint time then rt_tick k else 0), k')" "kernel_inv idle k'"
      "waits_in (SenderQ m) (obj_flags (ObjMailbox m) k) t k k'"
      using ipc_wait_runs [OF k c r i n, of "SenderQ m" _ time 0] f tm by auto
    have "rt_mb_send_wait m v time k = Some (Waits (time, if 0 < sint time then rt_tick k else 0), k')"
      using wait c k'(1) by (simp add: rt_mb_send_wait_def mb_send_loop_def obj_flags_def)
    moreover have "mailboxes k' = mailboxes k" using k'(3) by (simp add: waits_in_def)
    ultimately show ?thesis using k' full wait ok by (simp add: mails_of_def)
  qed
qed

text \<open>C15. \<open>rt_mb_recv\<close> on every path: the oldest mail is handed out and the sender that waits first
  becomes ready; an empty mailbox times out at once, or the caller joins the receivers' queue.
  The invariants are kept.\<close>

theorem rt_mb_recv_correct:
  assumes k: "kernel_inv idle k" and ok: "mb_ok (mailboxes k m)" and c: "rt_current_thread k = Some t"
    and r: "ready k t" and i: "t \<noteq> idle" and n: "interrupt_nest k = 0" and tm: "good_time time"
    and f: "obj_flags (ObjMailbox m) k \<in> {0x00, 0x01}"
  shows "\<exists>res got k'. rt_mb_recv m time k = Some (res, got, k') \<and> kernel_inv idle k' \<and> mb_ok (mailboxes k' m)
     \<and> (case mails_of k m of
          v # vs \<Rightarrow> res = Returned RT_EOK \<and> got = Some v \<and> mails_of k' m = vs \<and> ipc_woke (SenderQ m) k k'
        | [] \<Rightarrow> got = None \<and>
            (if time = 0 then res = Returned RT_ETIMEOUT \<and> k' = k
             else res = Waits (time, if 0 < sint time then rt_tick k else 0)
               \<and> mails_of k' m = [] \<and> waits_in (mb_recvq m) (obj_flags (ObjMailbox m) k) t k k'))"
proof (cases "mails_of k m")
  case (Cons v vs)
  then have ne: "mb_entry (mailboxes k m) \<noteq> 0" using mails_Nil by (metis list.discI mails_of_def)
  obtain k' where k': "mb_recv_loop m (rt_current_thread k) time 0 k = Some (Returned RT_EOK, Some (hd (mails_of k m)), k')"
    "kernel_inv idle k'" "mb_ok (mailboxes k' m)" "mails_of k' m = tl (mails_of k m)" "ipc_woke (SenderQ m) k k'"
    using mb_recv_loop_get [OF k ok ne] by blast
  then have "rt_mb_recv m time k = Some (Returned RT_EOK, Some v, k')" using ne Cons by (simp add: rt_mb_recv_def)
  then show ?thesis using k' Cons by simp
next
  case Nil
  then have e: "mb_entry (mailboxes k m) = 0" by (simp add: mails_of_def)
  show ?thesis
  proof (cases "time = 0")
    case True
    then show ?thesis using Nil e k ok by (simp add: rt_mb_recv_def)
  next
    case False
    obtain k' where k': "ipc_wait (mb_recvq m) t (obj_flags (ObjMailbox m) k) time 0 (set_error t RT_EOK k)
         = Some (Waits (time, if 0 < sint time then rt_tick k else 0), k')" "kernel_inv idle k'"
      "waits_in (mb_recvq m) (obj_flags (ObjMailbox m) k) t k k'"
      using ipc_wait_runs [OF k c r i n, of "mb_recvq m" _ time 0] f tm by auto
    have "rt_mb_recv m time k = Some (Waits (time, if 0 < sint time then rt_tick k else 0), None, k')"
      using False e c k'(1) by (simp add: rt_mb_recv_def mb_recv_loop_def obj_flags_def)
    moreover have "mailboxes k' = mailboxes k" using k'(3) by (simp add: waits_in_def)
    moreover from this have "mails_of k' m = []" using Nil by (simp add: mails_of_def)
    ultimately show ?thesis using k' False Nil ok by simp
  qed
qed

section \<open>The mailbox is a bounded queue\<close>

text \<open>Non-blocking sends and receives, one mail at a time, with the results the callers see.\<close>

definition mb_put :: "nat \<Rightarrow> kernel \<Rightarrow> u32 list \<Rightarrow> (nat \<times> kernel) option" where
  "mb_put m k vs =
     (case rt_mb_send m (hd vs) k of
        Some (Returned e, k) \<Rightarrow> Some (if e = RT_EOK then 1 else 0, k)
      | _ \<Rightarrow> None)"

definition mb_get :: "nat \<Rightarrow> kernel \<Rightarrow> nat \<Rightarrow> (u32 list \<times> kernel) option" where
  "mb_get m k n =
     (case rt_mb_recv m 0 k of
        Some (Returned _, v, k) \<Rightarrow> Some (case v of Some v \<Rightarrow> [v] | None \<Rightarrow> [], k)
      | _ \<Rightarrow> None)"

definition mb_inv :: "nat \<Rightarrow> nat \<Rightarrow> kernel \<Rightarrow> bool" where
  "mb_inv idle m k \<longleftrightarrow> kernel_inv idle k \<and> mb_ok (mailboxes k m)"

interpretation mailbox: bounded_fifo "mb_inv idle m" "\<lambda>k. unat (mb_size (mailboxes k m))" "\<lambda>k. mails_of k m"
  "\<lambda>vs. length vs = 1" "\<lambda>n. n = 1" "mb_put m" "mb_get m" for idle m
proof
  fix k assume "mb_inv idle m k"
  then show "length (mails_of k m) \<le> unat (mb_size (mailboxes k m))"
    by (simp add: mb_inv_def mails_of_def mb_ok_def)
next
  fix k :: kernel and vs :: "u32 list"
  assume inv: "mb_inv idle m k" and l: "length vs = 1"
  then obtain v where v: "vs = [v]" by (auto simp: length_Suc_conv)
  have ok: "mb_ok (mailboxes k m)" and k: "kernel_inv idle k" using inv by (simp_all add: mb_inv_def)
  have le: "length (mails_of k m) \<le> unat (mb_size (mailboxes k m))" using ok by (simp add: mails_of_def mb_ok_def)
  show "\<exists>k'. mb_put m k vs = Some (min (length vs) (unat (mb_size (mailboxes k m)) - length (mails_of k m)), k')
     \<and> mb_inv idle m k' \<and> unat (mb_size (mailboxes k' m)) = unat (mb_size (mailboxes k m))
     \<and> mails_of k' m = mails_of k m @ take (unat (mb_size (mailboxes k m)) - length (mails_of k m)) vs"
  proof (cases "mb_entry (mailboxes k m) = mb_size (mailboxes k m)")
    case True
    then show ?thesis
      using inv mb_full [OF ok] v by (simp add: mb_put_def rt_mb_send_def rt_mb_send_wait_def)
  next
    case False
    obtain k' where k': "mb_send_loop m v (rt_current_thread k) 0 0 k = Some (Returned RT_EOK, k')"
      "kernel_inv idle k'" "mb_ok (mailboxes k' m)" "mails_of k' m = mails_of k m @ [v]"
      "mb_size (mailboxes k' m) = mb_size (mailboxes k m)"
      using mb_send_loop_put [OF k ok False] by blast
    have "length (mails_of k m) < unat (mb_size (mailboxes k m))" using le False mb_full [OF ok] by simp
    then show ?thesis
      using k' False v by (simp add: mb_put_def rt_mb_send_def rt_mb_send_wait_def mb_inv_def)
  qed
next
  fix k :: kernel and n :: nat
  assume inv: "mb_inv idle m k" and n: "n = 1"
  have ok: "mb_ok (mailboxes k m)" and k: "kernel_inv idle k" using inv by (simp_all add: mb_inv_def)
  show "\<exists>k'. mb_get m k n = Some (take n (mails_of k m), k') \<and> mb_inv idle m k'
     \<and> unat (mb_size (mailboxes k' m)) = unat (mb_size (mailboxes k m)) \<and> mails_of k' m = drop n (mails_of k m)"
  proof (cases "mb_entry (mailboxes k m) = 0")
    case True
    then have "mails_of k m = []" by (simp add: mails_of_def)
    then show ?thesis using inv True by (simp add: mb_get_def rt_mb_recv_def)
  next
    case False
    then have "mails_of k m \<noteq> []" by (simp add: mails_of_def)
    moreover obtain k' where k': "mb_recv_loop m (rt_current_thread k) 0 0 k = Some (Returned RT_EOK, Some (hd (mails_of k m)), k')"
      "kernel_inv idle k'" "mb_ok (mailboxes k' m)" "mails_of k' m = tl (mails_of k m)"
      "mb_size (mailboxes k' m) = mb_size (mailboxes k m)"
      using mb_recv_loop_get [OF k ok False] by blast
    ultimately show ?thesis
      using False n by (simp add: mb_get_def rt_mb_recv_def mb_inv_def drop_Suc take_Suc)
  qed
qed

text \<open>C14. The mailbox is a first-in-first-out queue: whatever sequence of non-blocking sends and
  receives runs on it, with the wake-ups and context switches they cause, every accepted mail is
  delivered once and in order, what is not delivered is still in the mailbox, and the
  invariants hold at the end.\<close>

theorem mailbox_fifo:
  assumes "mb_inv idle m k" "list_all (fifo_admissible (\<lambda>vs. length vs = 1) (\<lambda>n. n = 1)) ops"
  shows "\<exists>ins outs k'. fifo_run (mb_put m) (mb_get m) k ops = Some (ins, outs, k') \<and> mb_inv idle m k'
     \<and> mails_of k m @ ins = outs @ mails_of k' m"
  using mailbox.run_order [OF assms] by blast

section \<open>The small system\<close>

text \<open>Mailbox 5 has room for two mails and holds one.\<close>

definition mb_demo :: kernel where
  "mb_demo = set_mb 5 \<lparr> mb_pool = [7, 8], mb_size = 2, mb_entry = 1, in_offset = 0, out_offset = 1 \<rparr> sched_demo"

lemma mb_demo_facts:
  "kernel_inv 0 mb_demo" "mb_ok (mailboxes mb_demo 5)" "rt_current_thread mb_demo = Some 1" "ready mb_demo 1"
  "interrupt_nest mb_demo = 0" "obj_flags x mb_demo = 0" "mails_of mb_demo 5 = [8]"
  "mb_size (mailboxes mb_demo 5) = 2"
proof -
  show "kernel_inv 0 mb_demo" using demo_inv by (simp add: mb_demo_def)
  show "ready mb_demo 1" using sched_demo_ready by (simp add: mb_demo_def ready_def)
  show "rt_current_thread mb_demo = Some 1" using sched_demo_current by (simp add: mb_demo_def)
qed (simp_all add: mb_demo_def mb_ok_def mails_of_def mails_def set_mb_def obj_flags_def sched_demo_def kernel0_def)

theorem rt_mb_send_wait_correct_witness:
  "\<exists>k'. rt_mb_send_wait 5 9 50 mb_demo = Some (Returned RT_EOK, k') \<and> mails_of k' 5 = [8, 9]"
  using rt_mb_send_wait_correct [OF mb_demo_facts(1-4) _ mb_demo_facts(5), of 50 9] mb_demo_facts
  by (auto simp: good_time_def)

theorem rt_mb_recv_correct_witness:
  "\<exists>k'. rt_mb_recv 5 50 mb_demo = Some (Returned RT_EOK, Some 8, k') \<and> mails_of k' 5 = []"
  using rt_mb_recv_correct [OF mb_demo_facts(1-4) _ mb_demo_facts(5), of 50] mb_demo_facts
  by (auto simp: good_time_def)

theorem mailbox_fifo_witness:
  "\<exists>ins outs k'. fifo_run (mb_put 5) (mb_get 5) mb_demo [Put [9], Put [10], Get 1] = Some (ins, outs, k')
     \<and> [8] @ ins = outs @ mails_of k' 5"
  using mailbox_fifo [of 0 5 mb_demo "[Put [9], Put [10], Get 1]"] mb_demo_facts by (auto simp: mb_inv_def)

end
