(* ===== verification/MqBlocks.thy ===== *)
theory MqBlocks
  imports Kernel
begin

text \<open>
  The blocks of a message queue (src/ipc.c, struct rt_mq_message): every block is in the chain
  of free blocks, in the chain of queued messages, or in the hands of a thread between two
  critical sections of a send or a receive. The critical sections are definitions of their own;
  \<open>mq_step\<close> interleaves them arbitrarily and is shown to refine a queue of messages with a
  count of free blocks.
\<close>

section \<open>Critical sections\<close>

text \<open>The accesses \<^verbatim>\<open>msg->next\<close>; \<open>None\<close> when the block is not in the pool.\<close>

definition mq_get_next :: "nat \<Rightarrow> rt_messagequeue \<Rightarrow> nat option option" where
  "mq_get_next m q = (if m < unat (max_msgs q) then Some (mq_next q m) else None)"

definition mq_set_next :: "nat \<Rightarrow> nat option \<Rightarrow> rt_messagequeue \<Rightarrow> rt_messagequeue option" where
  "mq_set_next m n q =
     (if m < unat (max_msgs q) then Some (q\<lparr> mq_next := (mq_next q)(m := n) \<rparr>) else None)"

text \<open>\<^verbatim>\<open>RT_ALIGN(msg_size, RT_ALIGN_SIZE)\<close> stored in 16 bits, and the number of blocks of a pool. A
  block is the message behind a 4-byte header.\<close>

definition mq_align :: "u32 \<Rightarrow> u16" where
  "mq_align msz = ucast (RT_ALIGN msz)"

definition mq_stride :: "u16 \<Rightarrow> u32" where
  "mq_stride msz = ucast msz + 4"

text \<open>The loop of \<^verbatim>\<open>rt_mq_init\<close> and \<^verbatim>\<open>rt_mq_create\<close>: block \<open>temp\<close> is put in front of the free chain.
  It has to lie in the pool.\<close>

fun mq_carve :: "nat list \<Rightarrow> u8 list \<Rightarrow> rt_messagequeue \<Rightarrow> rt_messagequeue option" where
  "mq_carve [] pool q = Some q"
| "mq_carve (temp # temps) pool q = do {
     let stride = unat (msg_size q) + 4;
     rt_assert (temp * stride + stride \<le> length pool);
     let q = q\<lparr> mq_next := (mq_next q)(temp := msg_queue_free q),
                mq_data := (mq_data q)(temp := slice (temp * stride + 4) (unat (msg_size q)) pool) \<rparr>;
     mq_carve temps pool (q\<lparr> msg_queue_free := Some temp \<rparr>) }"

definition mq_setup :: "u8 list \<Rightarrow> rt_messagequeue \<Rightarrow> rt_messagequeue option" where
  "mq_setup pool q = do {
     let q = q\<lparr> msg_queue_head := None, msg_queue_tail := None, msg_queue_free := None \<rparr>;
     q \<leftarrow> mq_carve [0..<unat (max_msgs q)] pool q;
     Some (q\<lparr> mq_entry := 0 \<rparr>) }"

definition mq_alloc :: "rt_messagequeue \<Rightarrow> (nat option \<times> rt_messagequeue) option" where
  "mq_alloc q =
     (case msg_queue_free q of
        None \<Rightarrow> Some (None, q)
      | Some m \<Rightarrow> do {
          n \<leftarrow> mq_get_next m q;
          Some (Some m, q\<lparr> msg_queue_free := n \<rparr>) })"

definition mq_write :: "nat \<Rightarrow> u8 list \<Rightarrow> rt_messagequeue \<Rightarrow> rt_messagequeue option" where
  "mq_write m buf q = do {
     rt_assert (m < unat (max_msgs q));
     d \<leftarrow> mem_write (mq_data q m) 0 buf;
     Some (q\<lparr> mq_data := (mq_data q)(m := d) \<rparr>) }"

text \<open>The unlocked part of a send: an ordinary message is terminated here, an urgent one is not.\<close>

definition mq_fill :: "bool \<Rightarrow> nat \<Rightarrow> u8 list \<Rightarrow> rt_messagequeue \<Rightarrow> rt_messagequeue option" where
  "mq_fill urgent m buf q = do {
     q \<leftarrow> (if urgent then Some q else mq_set_next m None q);
     mq_write m buf q }"

definition mq_link_tail :: "nat \<Rightarrow> rt_messagequeue \<Rightarrow> rt_messagequeue option" where
  "mq_link_tail m q = do {
     q \<leftarrow> (case msg_queue_tail q of None \<Rightarrow> Some q | Some t \<Rightarrow> mq_set_next t (Some m) q);
     let q = q\<lparr> msg_queue_tail := Some m \<rparr>;
     let q = (if msg_queue_head q = None then q\<lparr> msg_queue_head := Some m \<rparr> else q);
     Some (q\<lparr> mq_entry := mq_entry q + 1 \<rparr>) }"

definition mq_link_head :: "nat \<Rightarrow> rt_messagequeue \<Rightarrow> rt_messagequeue option" where
  "mq_link_head m q = do {
     q \<leftarrow> mq_set_next m (msg_queue_head q) q;
     let q = q\<lparr> msg_queue_head := Some m \<rparr>;
     let q = (if msg_queue_tail q = None then q\<lparr> msg_queue_tail := Some m \<rparr> else q);
     Some (q\<lparr> mq_entry := mq_entry q + 1 \<rparr>) }"

definition mq_link :: "bool \<Rightarrow> nat \<Rightarrow> rt_messagequeue \<Rightarrow> rt_messagequeue option" where
  "mq_link urgent m q = (if urgent then mq_link_head m q else mq_link_tail m q)"

definition mq_unlink :: "rt_messagequeue \<Rightarrow> (nat \<times> rt_messagequeue) option" where
  "mq_unlink q = do {
     m \<leftarrow> msg_queue_head q;
     n \<leftarrow> mq_get_next m q;
     let q = q\<lparr> msg_queue_head := n \<rparr>;
     Some (m, if msg_queue_tail q = Some m then q\<lparr> msg_queue_tail := None \<rparr> else q) }"

definition mq_take :: "rt_messagequeue \<Rightarrow> (nat \<times> rt_messagequeue) option" where
  "mq_take q = do {
     (m, q) \<leftarrow> mq_unlink q;
     Some (m, q\<lparr> mq_entry := mq_entry q - 1 \<rparr>) }"

definition mq_copy :: "nat \<Rightarrow> u32 \<Rightarrow> rt_messagequeue \<Rightarrow> u8 list option" where
  "mq_copy m sz q = do {
     rt_assert (m < unat (max_msgs q));
     mem_read (mq_data q m) 0 (uint (if sz > ucast (msg_size q) then ucast (msg_size q) else sz)) }"

definition mq_release :: "nat \<Rightarrow> rt_messagequeue \<Rightarrow> rt_messagequeue option" where
  "mq_release m q = do {
     q \<leftarrow> mq_set_next m (msg_queue_free q) q;
     Some (q\<lparr> msg_queue_free := Some m \<rparr>) }"

partial_function (option) mq_flush :: "rt_messagequeue \<Rightarrow> rt_messagequeue option" where
  "mq_flush q =
     (if msg_queue_head q = None then Some q
      else do {
        (m, q) \<leftarrow> mq_unlink q;
        q \<leftarrow> mq_release m q;
        mq_flush q })"

text \<open>The reset of \<^verbatim>\<open>rt_mq_control\<close>: the loop and the entry count.\<close>

definition mq_reset :: "rt_messagequeue \<Rightarrow> rt_messagequeue option" where
  "mq_reset q = do {
     q \<leftarrow> mq_flush q;
     Some (q\<lparr> mq_entry := 0 \<rparr>) }"

section \<open>The two chains of a queue\<close>

definition mq_messages :: "rt_messagequeue \<Rightarrow> u8 list list" where
  "mq_messages q = map (mq_data q) (walk (unat (mq_entry q)) (mq_next q) (msg_queue_head q))"

definition mq_free_blocks :: "rt_messagequeue \<Rightarrow> nat list" where
  "mq_free_blocks q = walk (unat (max_msgs q)) (mq_next q) (msg_queue_free q)"

text \<open>The two chains of a queue.\<close>

definition mq_wf :: "rt_messagequeue \<Rightarrow> nat list \<Rightarrow> nat list \<Rightarrow> bool" where
  "mq_wf q fl ql \<longleftrightarrow>
     chain (mq_next q) (msg_queue_free q) fl \<and> chain (mq_next q) (msg_queue_head q) ql
   \<and> msg_queue_tail q = (if ql = [] then None else Some (last ql))
   \<and> unat (mq_entry q) = length ql
   \<and> distinct (fl @ ql) \<and> (\<forall>b \<in> set (fl @ ql). b < unat (max_msgs q))
   \<and> (\<forall>b < unat (max_msgs q). length (mq_data q b) = unat (msg_size q))"

lemma mq_wfD:
  assumes "mq_wf q fl ql"
  shows "chain (mq_next q) (msg_queue_free q) fl" "chain (mq_next q) (msg_queue_head q) ql"
    "msg_queue_tail q = (if ql = [] then None else Some (last ql))" "unat (mq_entry q) = length ql"
    "distinct (fl @ ql)" "b \<in> set (fl @ ql) \<Longrightarrow> b < unat (max_msgs q)"
    "b < unat (max_msgs q) \<Longrightarrow> length (mq_data q b) = unat (msg_size q)"
  using assms by (auto simp: mq_wf_def)

lemma mq_wf_count:
  assumes "mq_wf q fl ql"
  shows "length fl + length ql \<le> unat (max_msgs q)"
proof -
  have "set (fl @ ql) \<subseteq> {..<unat (max_msgs q)}" using mq_wfD(6) [OF assms] by auto
  then have "card (set (fl @ ql)) \<le> unat (max_msgs q)"
    using card_mono [of "{..<unat (max_msgs q)}" "set (fl @ ql)"] by simp
  then show ?thesis using distinct_card [OF mq_wfD(5) [OF assms]] by simp
qed

lemma mq_messages_wf: "mq_wf q fl ql \<Longrightarrow> mq_messages q = map (mq_data q) ql"
  using walk_chain [OF mq_wfD(2), of q fl ql] by (simp add: mq_messages_def mq_wfD(4))

lemma mq_free_wf: "mq_wf q fl ql \<Longrightarrow> mq_free_blocks q = fl"
  using walk_chain [OF mq_wfD(1), of q fl ql] mq_wf_count [of q fl ql] by (simp add: mq_free_blocks_def)

section \<open>What the sections do to the chains\<close>

lemma mq_alloc_Nil: "mq_wf q [] ql \<Longrightarrow> mq_alloc q = Some (None, q)"
  using mq_wfD(1) [of q "[]" ql] by (simp add: mq_alloc_def)

lemma mq_alloc_Cons:
  assumes wf: "mq_wf q (m # fl) ql"
  shows "\<exists>q'. mq_alloc q = Some (Some m, q') \<and> mq_wf q' fl ql \<and> q' = q\<lparr> msg_queue_free := mq_next q m \<rparr>"
  using wf by (auto simp: mq_alloc_def mq_get_next_def mq_wf_def)

lemma mq_fill_wf:
  assumes wf: "mq_wf q fl ql" and m: "m < unat (max_msgs q)" "m \<notin> set fl" "m \<notin> set ql"
    and l: "length buf \<le> unat (msg_size q)"
  shows "\<exists>q'. mq_fill u m buf q = Some q' \<and> mq_wf q' fl ql
     \<and> mq_data q' = (mq_data q)(m := buf @ drop (length buf) (mq_data q m))
     \<and> mq_next q' = (if u then mq_next q else (mq_next q)(m := None))
     \<and> msg_size q' = msg_size q \<and> max_msgs q' = max_msgs q"
proof -
  have d: "length (mq_data q m) = unat (msg_size q)" using mq_wfD(7) [OF wf m(1)] .
  then have w: "mem_write (mq_data q m) 0 buf = Some (buf @ drop (length buf) (mq_data q m))"
    using l unfolding d [symmetric] by (simp add: mem_write_def)
  let ?q = "(if u then q else q\<lparr> mq_next := (mq_next q)(m := None) \<rparr>)\<lparr> mq_data := (mq_data q)(m := buf @ drop (length buf) (mq_data q m)) \<rparr>"
  have "mq_fill u m buf q = Some ?q" using m(1) w by (simp add: mq_fill_def mq_set_next_def mq_write_def)
  moreover have "mq_wf ?q fl ql" using wf m l d by (auto simp: mq_wf_def)
  ultimately show ?thesis by auto
qed

text \<open>The block that is linked is neither free nor queued, so there is room to count it.\<close>

lemma mq_entry_Suc:
  assumes wf: "mq_wf q fl ql" and m: "m < unat (max_msgs q)" "m \<notin> set fl" "m \<notin> set ql"
  shows "unat (mq_entry q + 1) = Suc (length ql)"
proof -
  have "set (m # fl @ ql) \<subseteq> {..<unat (max_msgs q)}" using mq_wfD(6) [OF wf] m by auto
  then have "card (set (m # fl @ ql)) \<le> unat (max_msgs q)"
    using card_mono [of "{..<unat (max_msgs q)}" "set (m # fl @ ql)"] by simp
  moreover have "distinct (m # fl @ ql)" using mq_wfD(5) [OF wf] m by simp
  ultimately have "Suc (length fl + length ql) \<le> unat (max_msgs q)" using distinct_card by fastforce
  then have "unat (mq_entry q) + 1 < 2 ^ 16"
    using unsigned_less [of "max_msgs q", where ?'a = nat] mq_wfD(4) [OF wf] by simp
  then show ?thesis using unat_plus_small [of "mq_entry q" 1] mq_wfD(4) [OF wf] by simp
qed

lemma mq_link_wf:
  assumes wf: "mq_wf q fl ql" and m: "m < unat (max_msgs q)" "m \<notin> set fl" "m \<notin> set ql"
    and n: "\<not> u \<Longrightarrow> mq_next q m = None"
  shows "\<exists>q'. mq_link u m q = Some q' \<and> mq_wf q' fl (if u then m # ql else ql @ [m])
     \<and> mq_data q' = mq_data q \<and> msg_size q' = msg_size q \<and> max_msgs q' = max_msgs q
     \<and> (\<forall>b. b \<noteq> m \<longrightarrow> b \<notin> set ql \<longrightarrow> mq_next q' b = mq_next q b)"
proof -
  note e = mq_entry_Suc [OF wf m]
  show ?thesis
  proof (cases u)
    case True
    have "\<exists>q'. mq_link_head m q = Some q' \<and> mq_wf q' fl (m # ql)
       \<and> mq_data q' = mq_data q \<and> msg_size q' = msg_size q \<and> max_msgs q' = max_msgs q
       \<and> (\<forall>b. b \<noteq> m \<longrightarrow> b \<notin> set ql \<longrightarrow> mq_next q' b = mq_next q b)"
      using wf m e by (auto simp: mq_link_head_def mq_set_next_def mq_wf_def Let_def)
    then show ?thesis using True by (simp add: mq_link_def)
  next
    case False
    show ?thesis
    proof (cases ql rule: rev_cases)
      case Nil
      then show ?thesis
        using wf m e n False by (auto simp: mq_link_def mq_link_tail_def mq_wf_def Let_def)
    next
      case (snoc us t)
      have tl: "msg_queue_tail q = Some t" "t < unat (max_msgs q)"
        using mq_wfD(3) [OF wf] mq_wfD(6) [OF wf, of t] snoc by auto
      have hd: "msg_queue_head q \<noteq> None" using mq_wfD(2) [OF wf] snoc by (metis chain_None snoc_eq_iff_butlast)
      have c: "chain ((mq_next q)(t := Some m)) (msg_queue_head q) (us @ [t, m])"
        using chain_snoc [of "mq_next q" "msg_queue_head q" us t m] mq_wfD(2,5) [OF wf] m(3) n False snoc by simp
      let ?q = "q\<lparr> mq_next := (mq_next q)(t := Some m), msg_queue_tail := Some m, mq_entry := mq_entry q + 1 \<rparr>"
      have "mq_link u m q = Some ?q"
        using tl hd False by (simp add: mq_link_def mq_link_tail_def mq_set_next_def Let_def)
      moreover have "mq_wf ?q fl (ql @ [m])"
        using wf m e c unfolding snoc by (auto simp: mq_wf_def)
      ultimately show ?thesis using False snoc by auto
    qed
  qed
qed

lemma mq_unlink_wf:
  assumes wf: "mq_wf q fl (m # ql)"
  shows "\<exists>q'. mq_unlink q = Some (m, q') \<and> mq_wf (q'\<lparr> mq_entry := mq_entry q - 1 \<rparr>) fl ql
     \<and> mq_data q' = mq_data q \<and> mq_next q' = mq_next q \<and> msg_size q' = msg_size q \<and> max_msgs q' = max_msgs q
     \<and> mq_entry q' = mq_entry q"
proof -
  have h: "msg_queue_head q = Some m" "m < unat (max_msgs q)" "chain (mq_next q) (mq_next q m) ql"
    using mq_wfD(2) [OF wf] mq_wfD(6) [OF wf, of m] by auto
  have ne: "mq_entry q \<noteq> 0" using mq_wfD(4) [OF wf] by auto
  have "unat (mq_entry q - 1) = length ql" using mq_wfD(4) [OF wf] by (simp add: unat_minus_one [OF ne])
  then show ?thesis
    using wf h by (auto simp: mq_unlink_def mq_get_next_def mq_wf_def Let_def)
qed

lemma mq_take_wf:
  assumes wf: "mq_wf q fl (m # ql)"
  shows "\<exists>q'. mq_take q = Some (m, q') \<and> mq_wf q' fl ql \<and> mq_data q' = mq_data q \<and> mq_next q' = mq_next q
     \<and> msg_size q' = msg_size q \<and> max_msgs q' = max_msgs q"
  using mq_unlink_wf [OF wf] by (auto simp: mq_take_def)

lemma mq_release_wf:
  assumes wf: "mq_wf q fl ql" and m: "m < unat (max_msgs q)" "m \<notin> set fl" "m \<notin> set ql"
  shows "\<exists>q'. mq_release m q = Some q' \<and> mq_wf q' (m # fl) ql \<and> mq_data q' = mq_data q
     \<and> msg_size q' = msg_size q \<and> max_msgs q' = max_msgs q
     \<and> (\<forall>b. b \<noteq> m \<longrightarrow> mq_next q' b = mq_next q b)"
  using wf m by (auto simp: mq_release_def mq_set_next_def mq_wf_def)

lemma mq_copy_wf:
  assumes wf: "mq_wf q fl ql" and m: "m < unat (max_msgs q)"
  shows "mq_copy m sz q = Some (take (min (unat sz) (unat (msg_size q))) (mq_data q m))"
proof -
  have c: "unat (ucast (msg_size q) :: u32) = unat (msg_size q)"
    by (rule unat_ucast_small) (use unsigned_less [of "msg_size q", where ?'a = nat] in simp)
  have "uint (if sz > ucast (msg_size q) then ucast (msg_size q) else sz) = int (min (unat sz) (unat (msg_size q)))"
    unfolding uint_int_unat using c by (auto simp: word_less_nat_alt min_def simp del: uint_int_unat of_nat_unat)
  moreover have "int (min (unat sz) (unat (msg_size q))) \<le> int (length (mq_data q m))"
    unfolding mq_wfD(7) [OF wf m] by linarith
  ultimately show ?thesis
    using m by (simp add: mq_copy_def mem_read_def del: of_nat_le_iff)
qed

text \<open>The reset empties the queue: the loop ends, and every message's block is free.\<close>

lemma mq_flush_wf:
  assumes "chain (mq_next q) (msg_queue_free q) fl" "chain (mq_next q) (msg_queue_head q) ql"
    "msg_queue_tail q = (if ql = [] then None else Some (last ql))"
    "distinct (fl @ ql)" "\<forall>b \<in> set (fl @ ql). b < unat (max_msgs q)"
  shows "\<exists>q'. mq_flush q = Some q' \<and> chain (mq_next q') (msg_queue_free q') (rev ql @ fl)
     \<and> msg_queue_head q' = None \<and> msg_queue_tail q' = None \<and> mq_data q' = mq_data q
     \<and> msg_size q' = msg_size q \<and> max_msgs q' = max_msgs q
     \<and> (\<forall>b. b \<notin> set ql \<longrightarrow> mq_next q' b = mq_next q b)"
  using assms
proof (induction ql arbitrary: q fl)
  case Nil
  then show ?case by (subst mq_flush.simps) auto
next
  case (Cons m ql)
  let ?q1 = "q\<lparr> msg_queue_head := mq_next q m, msg_queue_tail := (if ql = [] then None else Some (last ql)) \<rparr>"
  let ?q2 = "?q1\<lparr> mq_next := (mq_next q)(m := msg_queue_free q), msg_queue_free := Some m \<rparr>"
  have h: "msg_queue_head q = Some m" "m < unat (max_msgs q)" "chain (mq_next q) (mq_next q m) ql" "m \<notin> set ql"
    "m \<notin> set fl" using Cons.prems by auto
  have lm: "ql \<noteq> [] \<Longrightarrow> last ql \<noteq> m" using h(4) by auto
  have "mq_unlink q = Some (m, ?q1)"
    using h lm Cons.prems(3) by (auto simp: mq_unlink_def mq_get_next_def)
  moreover have "mq_release m ?q1 = Some ?q2" using h by (simp add: mq_release_def mq_set_next_def)
  ultimately have step: "mq_flush q = mq_flush ?q2" using h by (subst mq_flush.simps) simp
  have "\<exists>q'. mq_flush ?q2 = Some q' \<and> chain (mq_next q') (msg_queue_free q') (rev ql @ m # fl)
     \<and> msg_queue_head q' = None \<and> msg_queue_tail q' = None \<and> mq_data q' = mq_data ?q2
     \<and> msg_size q' = msg_size ?q2 \<and> max_msgs q' = max_msgs ?q2
     \<and> (\<forall>b. b \<notin> set ql \<longrightarrow> mq_next q' b = mq_next ?q2 b)"
    by (rule Cons.IH) (use Cons.prems h in auto)
  then show ?case unfolding step by fastforce
qed

lemma mq_reset_wf:
  assumes wf: "mq_wf q fl ql"
  shows "\<exists>q'. mq_reset q = Some q' \<and> mq_wf q' (rev ql @ fl) [] \<and> mq_data q' = mq_data q
     \<and> msg_size q' = msg_size q \<and> max_msgs q' = max_msgs q \<and> (\<forall>b. b \<notin> set ql \<longrightarrow> mq_next q' b = mq_next q b)"
proof -
  have "\<forall>b \<in> set (fl @ ql). b < unat (max_msgs q)" using mq_wfD(6) [OF wf] by blast
  from mq_flush_wf [OF mq_wfD(1,2,3,5) [OF wf] this] show ?thesis
    using wf by (auto simp: mq_reset_def mq_wf_def)
qed

text \<open>The loop that builds the free chain.\<close>

lemma mq_carve_wf:
  assumes "chain (mq_next q) (msg_queue_free q) fl" "distinct (ts @ fl)" "\<forall>t \<in> set ts. t < n"
    "n * (unat (msg_size q) + 4) \<le> length pool"
  shows "\<exists>q'. mq_carve ts pool q = Some q' \<and> chain (mq_next q') (msg_queue_free q') (rev ts @ fl)
     \<and> msg_queue_head q' = msg_queue_head q \<and> msg_queue_tail q' = msg_queue_tail q \<and> mq_entry q' = mq_entry q
     \<and> msg_size q' = msg_size q \<and> max_msgs q' = max_msgs q
     \<and> (\<forall>b. length (mq_data q' b) = (if b \<in> set ts then unat (msg_size q) else length (mq_data q b)))"
  using assms
proof (induction ts arbitrary: q fl)
  case (Cons t ts)
  let ?s = "unat (msg_size q) + 4"
  have "(t + 1) * ?s \<le> n * ?s" by (rule mult_le_mono1) (use Cons.prems(3) in simp)
  then have in_pool: "t * ?s + ?s \<le> length pool" using Cons.prems(4) by (simp add: algebra_simps)
  let ?q = "q\<lparr> mq_next := (mq_next q)(t := msg_queue_free q),
      mq_data := (mq_data q)(t := slice (t * ?s + 4) (unat (msg_size q)) pool), msg_queue_free := Some t \<rparr>"
  have step: "mq_carve (t # ts) pool q = mq_carve ts pool ?q" using in_pool by (simp add: Let_def)
  have l: "length (slice (t * ?s + 4) (unat (msg_size q)) pool) = unat (msg_size q)"
    by (rule length_slice) (use in_pool in simp)
  have "\<exists>q'. mq_carve ts pool ?q = Some q' \<and> chain (mq_next q') (msg_queue_free q') (rev ts @ t # fl)
     \<and> msg_queue_head q' = msg_queue_head ?q \<and> msg_queue_tail q' = msg_queue_tail ?q \<and> mq_entry q' = mq_entry ?q
     \<and> msg_size q' = msg_size ?q \<and> max_msgs q' = max_msgs ?q
     \<and> (\<forall>b. length (mq_data q' b) = (if b \<in> set ts then unat (msg_size ?q) else length (mq_data ?q b)))"
    by (rule Cons.IH) (use Cons.prems in auto)
  then show ?case unfolding step using l by fastforce
qed simp

lemma mq_setup_wf:
  assumes "unat (max_msgs q) * (unat (msg_size q) + 4) \<le> length pool"
  shows "\<exists>q'. mq_setup pool q = Some q' \<and> mq_wf q' (rev [0..<unat (max_msgs q)]) []
     \<and> msg_size q' = msg_size q \<and> max_msgs q' = max_msgs q"
proof -
  let ?q = "q\<lparr> msg_queue_head := None, msg_queue_tail := None, msg_queue_free := None \<rparr>"
  have "\<exists>q'. mq_carve [0..<unat (max_msgs q)] pool ?q = Some q'
     \<and> chain (mq_next q') (msg_queue_free q') (rev [0..<unat (max_msgs q)] @ [])
     \<and> msg_queue_head q' = msg_queue_head ?q \<and> msg_queue_tail q' = msg_queue_tail ?q \<and> mq_entry q' = mq_entry ?q
     \<and> msg_size q' = msg_size ?q \<and> max_msgs q' = max_msgs ?q
     \<and> (\<forall>b. length (mq_data q' b) = (if b \<in> set [0..<unat (max_msgs q)] then unat (msg_size ?q) else length (mq_data ?q b)))"
    by (rule mq_carve_wf [where n = "unat (max_msgs q)"]) (use assms in auto)
  then show ?thesis by (auto simp: mq_setup_def mq_wf_def Let_def)
qed

section \<open>Interleaving\<close>

text \<open>Where an agent (a thread or an interrupt handler) is: outside, with a block allocated and
  the bytes to send, with a block filled and not yet linked, with a block taken out of the queue
  and not yet given back. Interrupts may arrive between any two sections.\<close>

datatype mq_pc = MqIdle | MqFilling bool nat "u8 list" | MqLinking bool nat | MqCopying nat u32

datatype mq_label = MqTau | MqAccept bool "u8 list" | MqDeliver "u8 list"

inductive mq_step ::
  "rt_messagequeue \<times> (nat \<Rightarrow> mq_pc) \<Rightarrow> mq_label \<Rightarrow> rt_messagequeue \<times> (nat \<Rightarrow> mq_pc) \<Rightarrow> bool" where
  alloc: "pc a = MqIdle \<Longrightarrow> buf \<noteq> [] \<Longrightarrow> length buf \<le> unat (msg_size q) \<Longrightarrow> mq_alloc q = Some (Some m, q') \<Longrightarrow>
    mq_step (q, pc) MqTau (q', pc(a := MqFilling u m buf))"
| fill: "pc a = MqFilling u m buf \<Longrightarrow> mq_fill u m buf q = Some q' \<Longrightarrow>
    mq_step (q, pc) MqTau (q', pc(a := MqLinking u m))"
| link: "pc a = MqLinking u m \<Longrightarrow> mq_link u m q = Some q' \<Longrightarrow>
    mq_step (q, pc) (MqAccept u (mq_data q m)) (q', pc(a := MqIdle))"
| take: "pc a = MqIdle \<Longrightarrow> mq_entry q \<noteq> 0 \<Longrightarrow> mq_take q = Some (m, q') \<Longrightarrow>
    mq_step (q, pc) MqTau (q', pc(a := MqCopying m sz))"
| release: "pc a = MqCopying m sz \<Longrightarrow> mq_copy m sz q = Some bs \<Longrightarrow> mq_release m q = Some q' \<Longrightarrow>
    mq_step (q, pc) (MqDeliver bs) (q', pc(a := MqIdle))"
| reset: "mq_reset q = Some q' \<Longrightarrow> mq_step (q, pc) MqTau (q', pc)"

inductive_cases mq_stepE: "mq_step (q, pc) l s'"

text \<open>The specification: a list of messages, a number of free places, and what each agent is
  about to put in or has taken out.\<close>

datatype mqa_pc = AIdle | ASending bool "u8 list" | ASent bool "u8 list" | AReceiving u32 "u8 list"

record mqa =
  a_msgs :: "u8 list list"
  a_free :: nat
  a_pc :: "nat \<Rightarrow> mqa_pc"

inductive mqa_step :: "nat \<Rightarrow> mqa \<Rightarrow> mq_label \<Rightarrow> mqa \<Rightarrow> bool" for sz :: nat where
  a_alloc: "a_pc s a = AIdle \<Longrightarrow> a_free s = Suc n \<Longrightarrow> length buf \<le> sz \<Longrightarrow>
    mqa_step sz s MqTau (s\<lparr> a_free := n, a_pc := (a_pc s)(a := ASending u buf) \<rparr>)"
| a_fill: "a_pc s a = ASending u buf \<Longrightarrow> length d = sz \<Longrightarrow> take (length buf) d = buf \<Longrightarrow>
    mqa_step sz s MqTau (s\<lparr> a_pc := (a_pc s)(a := ASent u d) \<rparr>)"
| a_link: "a_pc s a = ASent u d \<Longrightarrow>
    mqa_step sz s (MqAccept u d) (s\<lparr> a_msgs := (if u then d # a_msgs s else a_msgs s @ [d]), a_pc := (a_pc s)(a := AIdle) \<rparr>)"
| a_take: "a_pc s a = AIdle \<Longrightarrow> a_msgs s = d # ds \<Longrightarrow>
    mqa_step sz s MqTau (s\<lparr> a_msgs := ds, a_pc := (a_pc s)(a := AReceiving n d) \<rparr>)"
| a_release: "a_pc s a = AReceiving n d \<Longrightarrow>
    mqa_step sz s (MqDeliver (take (min (unat n) sz) d)) (s\<lparr> a_free := Suc (a_free s), a_pc := (a_pc s)(a := AIdle) \<rparr>)"
| a_reset: "mqa_step sz s MqTau (s\<lparr> a_msgs := [], a_free := a_free s + length (a_msgs s) \<rparr>)"

fun mq_held :: "mq_pc \<Rightarrow> nat option" where
  "mq_held MqIdle = None"
| "mq_held (MqFilling u m buf) = Some m"
| "mq_held (MqLinking u m) = Some m"
| "mq_held (MqCopying m sz) = Some m"

fun mq_abs_pc :: "rt_messagequeue \<Rightarrow> mq_pc \<Rightarrow> mqa_pc" where
  "mq_abs_pc q MqIdle = AIdle"
| "mq_abs_pc q (MqFilling u m buf) = ASending u buf"
| "mq_abs_pc q (MqLinking u m) = ASent u (mq_data q m)"
| "mq_abs_pc q (MqCopying m sz) = AReceiving sz (mq_data q m)"

fun mq_pc_ok :: "rt_messagequeue \<Rightarrow> mq_pc \<Rightarrow> bool" where
  "mq_pc_ok q (MqFilling u m buf) \<longleftrightarrow> length buf \<le> unat (msg_size q)"
| "mq_pc_ok q (MqLinking u m) \<longleftrightarrow> u \<or> mq_next q m = None"
| "mq_pc_ok q _ \<longleftrightarrow> True"

definition mq_abs :: "rt_messagequeue \<times> (nat \<Rightarrow> mq_pc) \<Rightarrow> mqa" where
  "mq_abs s = (case s of (q, pc) \<Rightarrow>
     \<lparr> a_msgs = mq_messages q, a_free = length (mq_free_blocks q), a_pc = (\<lambda>a. mq_abs_pc q (pc a)) \<rparr>)"

text \<open>The invariant: every block of the pool is free, queued or held by exactly one agent.\<close>

definition mq_parts :: "rt_messagequeue \<Rightarrow> (nat \<Rightarrow> mq_pc) \<Rightarrow> nat list \<Rightarrow> nat list \<Rightarrow> bool" where
  "mq_parts q pc fl ql \<longleftrightarrow> mq_wf q fl ql
   \<and> (\<forall>a m. mq_held (pc a) = Some m \<longrightarrow> m < unat (max_msgs q) \<and> m \<notin> set fl \<and> m \<notin> set ql)
   \<and> (\<forall>a b m. mq_held (pc a) = Some m \<longrightarrow> mq_held (pc b) = Some m \<longrightarrow> a = b)
   \<and> (\<forall>m < unat (max_msgs q). m \<in> set fl \<or> m \<in> set ql \<or> (\<exists>a. mq_held (pc a) = Some m))
   \<and> (\<forall>a. mq_pc_ok q (pc a))"

definition mq_inv :: "rt_messagequeue \<times> (nat \<Rightarrow> mq_pc) \<Rightarrow> bool" where
  "mq_inv s \<longleftrightarrow> (\<exists>fl ql. mq_parts (fst s) (snd s) fl ql)"

lemma mq_partsD:
  assumes "mq_parts q pc fl ql"
  shows "mq_wf q fl ql" "mq_held (pc a) = Some m \<Longrightarrow> m < unat (max_msgs q)"
    "mq_held (pc a) = Some m \<Longrightarrow> m \<notin> set fl" "mq_held (pc a) = Some m \<Longrightarrow> m \<notin> set ql"
    "mq_held (pc a) = Some m \<Longrightarrow> mq_held (pc b) = Some m \<Longrightarrow> a = b"
    "m < unat (max_msgs q) \<Longrightarrow> m \<in> set fl \<or> m \<in> set ql \<or> (\<exists>a. mq_held (pc a) = Some m)"
    "mq_pc_ok q (pc a)"
  using assms unfolding mq_parts_def by blast+

lemma mq_abs_parts:
  "mq_wf q fl ql \<Longrightarrow> mq_abs (q, pc) =
     \<lparr> a_msgs = map (mq_data q) ql, a_free = length fl, a_pc = (\<lambda>a. mq_abs_pc q (pc a)) \<rparr>"
  by (simp add: mq_abs_def mq_messages_wf mq_free_wf)

lemma held_cases:
  "mq_held p = None \<Longrightarrow> p = MqIdle"
  by (cases p) auto

text \<open>An agent whose block is untouched is where it was.\<close>

lemma abs_pc_frame:
  "(\<And>m. mq_held p = Some m \<Longrightarrow> mq_data q' m = mq_data q m) \<Longrightarrow> mq_abs_pc q' p = mq_abs_pc q p"
  by (cases p) auto

lemma pc_ok_frame:
  "(\<And>m. mq_held p = Some m \<Longrightarrow> mq_next q' m = mq_next q m) \<Longrightarrow> msg_size q' = msg_size q \<Longrightarrow>
   mq_pc_ok q p \<Longrightarrow> mq_pc_ok q' p"
  by (cases p) auto

lemma mq_parts_upd:
  assumes P: "mq_parts q pc fl ql" and wf: "mq_wf q' fl' ql'"
    and sz: "max_msgs q' = max_msgs q" "msg_size q' = msg_size q"
    and same: "set fl' \<union> set ql' \<union> set_option (mq_held p) = set fl \<union> set ql \<union> set_option (mq_held (pc a))"
    and out: "\<And>m. mq_held p = Some m \<Longrightarrow> m \<notin> set fl' \<and> m \<notin> set ql'"
    and ok: "mq_pc_ok q' p"
    and nx: "\<And>b m. b \<noteq> a \<Longrightarrow> mq_held (pc b) = Some m \<Longrightarrow> mq_next q' m = mq_next q m"
  shows "mq_parts q' (pc(a := p)) fl' ql'"
proof -
  let ?B = "set fl \<union> set ql \<union> set_option (mq_held (pc a))"
  have other: "m \<notin> ?B" if "b \<noteq> a" "mq_held (pc b) = Some m" for b m
    using mq_partsD(3-5) [OF P] that by auto
  have inB: "m \<in> ?B" if "mq_held p = Some m" for m using same that by auto
  have lt: "m < unat (max_msgs q)" if "m \<in> ?B" for m
    using that mq_wfD(6) [OF mq_partsD(1) [OF P]] mq_partsD(2) [OF P] by auto
  show ?thesis
    unfolding mq_parts_def
  proof (intro conjI allI impI)
    fix b m assume h: "mq_held ((pc(a := p)) b) = Some m"
    show "m < unat (max_msgs q')"
      using h lt inB mq_partsD(2) [OF P] sz by (cases "b = a") auto
    show "m \<notin> set fl'" "m \<notin> set ql'"
      using h out other same by (cases "b = a"; auto)+
  next
    fix b c m assume h: "mq_held ((pc(a := p)) b) = Some m" "mq_held ((pc(a := p)) c) = Some m"
    consider "b = a" "c = a" | "b = a" "c \<noteq> a" | "b \<noteq> a" "c = a" | "b \<noteq> a" "c \<noteq> a" by blast
    then show "b = c"
    proof cases
      case 2
      then show ?thesis using h inB [of m] other [of c m] by simp
    next
      case 3
      then show ?thesis using h inB [of m] other [of b m] by simp
    next
      case 4
      then show ?thesis using h mq_partsD(5) [OF P, of b m c] by simp
    qed simp
  next
    fix m assume "m < unat (max_msgs q')"
    then have "m \<in> set fl \<or> m \<in> set ql \<or> (\<exists>b. mq_held (pc b) = Some m)" using mq_partsD(6) [OF P] sz by simp
    then have "m \<in> ?B \<or> (\<exists>b. b \<noteq> a \<and> mq_held (pc b) = Some m)" by auto
    then show "m \<in> set fl' \<or> m \<in> set ql' \<or> (\<exists>b. mq_held ((pc(a := p)) b) = Some m)"
      unfolding same [symmetric] by auto
  next
    fix b show "mq_pc_ok q' ((pc(a := p)) b)"
      using ok pc_ok_frame [OF nx sz(2) mq_partsD(7) [OF P]] by (cases "b = a") auto
  qed (rule wf)
qed

lemma mq_abs_upd:
  assumes "mq_wf q' fl' ql'" "\<And>b m. b \<noteq> a \<Longrightarrow> mq_held (pc b) = Some m \<Longrightarrow> mq_data q' m = mq_data q m"
  shows "mq_abs (q', pc(a := p)) = \<lparr> a_msgs = map (mq_data q') ql', a_free = length fl',
    a_pc = (\<lambda>b. mq_abs_pc q (pc b))(a := mq_abs_pc q' p) \<rparr>"
proof -
  have "(\<lambda>b. mq_abs_pc q' ((pc(a := p)) b)) = (\<lambda>b. mq_abs_pc q (pc b))(a := mq_abs_pc q' p)"
    using abs_pc_frame assms(2) by fastforce
  then show ?thesis by (simp add: mq_abs_parts [OF assms(1)])
qed

text \<open>One step: the invariant is kept and the specification can follow.\<close>

definition mq_follows ::
  "rt_messagequeue \<Rightarrow> (nat \<Rightarrow> mq_pc) \<Rightarrow> mq_label \<Rightarrow> rt_messagequeue \<Rightarrow> (nat \<Rightarrow> mq_pc) \<Rightarrow> bool" where
  "mq_follows q pc l q' pc' \<longleftrightarrow>
     mq_inv (q', pc') \<and> mqa_step (unat (msg_size q)) (mq_abs (q, pc)) l (mq_abs (q', pc'))
   \<and> msg_size q' = msg_size q \<and> max_msgs q' = max_msgs q"

lemma mq_followsI:
  assumes "mq_parts q' pc' fl' ql'" "mq_abs (q', pc') = A" "mqa_step (unat (msg_size q)) (mq_abs (q, pc)) l A"
    "msg_size q' = msg_size q" "max_msgs q' = max_msgs q"
  shows "mq_follows q pc l q' pc'"
  using assms by (auto simp: mq_follows_def mq_inv_def)

lemma follows_alloc:
  assumes P: "mq_parts q pc fl ql" and alloc: "pc a = MqIdle" "length buf \<le> unat (msg_size q)" "mq_alloc q = Some (Some m, q')"
  shows "mq_follows q pc MqTau q' (pc(a := MqFilling u m buf))"
proof -
  note wf = mq_partsD(1) [OF P]
  note abs = mq_abs_parts [OF wf, of pc]
  obtain x fl' where fx: "fl = x # fl'" using mq_alloc_Nil [of q ql] wf alloc by (cases fl) auto
  then have fl: "fl = m # fl'" using mq_alloc_Cons [of q x fl' ql] wf alloc by auto
  have q': "q' = q\<lparr> msg_queue_free := mq_next q m \<rparr>" "mq_wf q' fl' ql"
    using mq_alloc_Cons [of q m fl' ql] wf alloc fl by auto
  have m: "m \<notin> set fl'" "m \<notin> set ql" using mq_wfD(5) [OF wf] fl by auto
  have "mq_parts q' (pc(a := MqFilling u m buf)) fl' ql"
    by (rule mq_parts_upd [OF P q'(2)]) (use alloc m in \<open>auto simp: q' fl\<close>)
  moreover have "mq_abs (q', (pc(a := MqFilling u m buf))) = (mq_abs (q, pc))\<lparr> a_free := length fl', a_pc := (a_pc (mq_abs (q, pc)))(a := ASending u buf) \<rparr>"
    by (subst mq_abs_upd [OF q'(2)]) (simp_all add: abs q')
  moreover have "mqa_step (unat (msg_size q)) (mq_abs (q, pc)) MqTau
      ((mq_abs (q, pc))\<lparr> a_free := length fl', a_pc := (a_pc (mq_abs (q, pc)))(a := ASending u buf) \<rparr>)"
    by (rule a_alloc) (use alloc in \<open>simp_all add: abs fl\<close>)
  ultimately show ?thesis using q' by (intro mq_followsI) simp_all
qed

lemma follows_fill:
  assumes P: "mq_parts q pc fl ql" and fill: "pc a = MqFilling u m buf" "mq_fill u m buf q = Some q'"
  shows "mq_follows q pc MqTau q' (pc(a := MqLinking u m))"
proof -
  note wf = mq_partsD(1) [OF P]
  note abs = mq_abs_parts [OF wf, of pc]
  have h: "mq_held (pc a) = Some m" using fill by simp
  have l: "length buf \<le> unat (msg_size q)" using mq_partsD(7) [OF P, of a] fill by simp
  note m = mq_partsD(2-4) [OF P h]
  have q': "mq_wf q' fl ql" "mq_data q' = (mq_data q)(m := buf @ drop (length buf) (mq_data q m))"
    "mq_next q' = (if u then mq_next q else (mq_next q)(m := None))" "msg_size q' = msg_size q" "max_msgs q' = max_msgs q"
    using mq_fill_wf [OF wf m l, of u] fill by auto
  have oth: "n \<noteq> m" if "b \<noteq> a" "mq_held (pc b) = Some n" for b n using mq_partsD(5) [OF P h] that by auto
  have "mq_parts q' (pc(a := MqLinking u m)) fl ql"
    by (rule mq_parts_upd [OF P q'(1)]) (use fill m q'(4,5) oth in \<open>auto simp: q'(3)\<close>)
  moreover have mq: "map (mq_data q') ql = map (mq_data q) ql" using m by (auto simp: q'(2))
  have "mq_abs (q', (pc(a := MqLinking u m))) = (mq_abs (q, pc))\<lparr> a_pc := (a_pc (mq_abs (q, pc)))(a := ASent u (mq_data q' m)) \<rparr>"
    by (subst mq_abs_upd [OF q'(1), where q = q]) (use oth mq in \<open>auto simp: abs q'(2)\<close>)
  moreover have "mqa_step (unat (msg_size q)) (mq_abs (q, pc)) MqTau
      ((mq_abs (q, pc))\<lparr> a_pc := (a_pc (mq_abs (q, pc)))(a := ASent u (mq_data q' m)) \<rparr>)"
      by (rule a_fill [where buf = buf]) (use fill l mq_wfD(7) [OF wf m(1)] in \<open>simp_all add: abs q'(2)\<close>)
  ultimately show ?thesis using q' by (intro mq_followsI) simp_all
qed

lemma follows_link:
  assumes P: "mq_parts q pc fl ql" and link: "pc a = MqLinking u m" "mq_link u m q = Some q'"
  shows "mq_follows q pc (MqAccept u (mq_data q m)) q' (pc(a := MqIdle))"
proof -
  note wf = mq_partsD(1) [OF P]
  note abs = mq_abs_parts [OF wf, of pc]
  have h: "mq_held (pc a) = Some m" using link by simp
  note m = mq_partsD(2-4) [OF P h]
  have n: "\<not> u \<Longrightarrow> mq_next q m = None" using mq_partsD(7) [OF P, of a] link by simp
  let ?ql = "if u then m # ql else ql @ [m]"
  have q': "mq_wf q' fl ?ql" "mq_data q' = mq_data q" "msg_size q' = msg_size q" "max_msgs q' = max_msgs q"
    "\<forall>b. b \<noteq> m \<longrightarrow> b \<notin> set ql \<longrightarrow> mq_next q' b = mq_next q b"
    using mq_link_wf [OF wf m, where u = u] n link by auto
  have oth: "n \<noteq> m" "n \<notin> set ql" if "b \<noteq> a" "mq_held (pc b) = Some n" for b n
    using mq_partsD(5) [OF P h, of b] mq_partsD(4) [OF P that(2)] that by auto
  have "mq_parts q' (pc(a := MqIdle)) fl ?ql"
    by (rule mq_parts_upd [OF P q'(1)]) (use link q'(3-5) oth in auto)
  moreover have "mq_abs (q', (pc(a := MqIdle))) = (mq_abs (q, pc))\<lparr>
      a_msgs := (if u then mq_data q m # a_msgs (mq_abs (q, pc)) else a_msgs (mq_abs (q, pc)) @ [mq_data q m]),
      a_pc := (a_pc (mq_abs (q, pc)))(a := AIdle) \<rparr>"
    by (subst mq_abs_upd [OF q'(1), where q = q]) (simp_all add: abs q'(2))
  moreover have "mqa_step (unat (msg_size q)) (mq_abs (q, pc)) (MqAccept u (mq_data q m)) ((mq_abs (q, pc))\<lparr>
      a_msgs := (if u then mq_data q m # a_msgs (mq_abs (q, pc)) else a_msgs (mq_abs (q, pc)) @ [mq_data q m]),
      a_pc := (a_pc (mq_abs (q, pc)))(a := AIdle) \<rparr>)"
    by (rule a_link) (use link in \<open>simp add: abs\<close>)
  ultimately show ?thesis using q' by (intro mq_followsI) simp_all
qed

lemma follows_take:
  assumes P: "mq_parts q pc fl ql" and take: "pc a = MqIdle" "mq_entry q \<noteq> 0" "mq_take q = Some (m, q')"
  shows "mq_follows q pc MqTau q' (pc(a := MqCopying m sz))"
proof -
  note wf = mq_partsD(1) [OF P]
  note abs = mq_abs_parts [OF wf, of pc]
  obtain x ql' where qx: "ql = x # ql'" using mq_wfD(4) [OF wf] take by (cases ql) (auto simp: unat_eq_0)
  then have ql: "ql = m # ql'" using mq_take_wf [of q fl x ql'] wf take by auto
  have q': "mq_wf q' fl ql'" "mq_data q' = mq_data q" "mq_next q' = mq_next q" "msg_size q' = msg_size q"
    "max_msgs q' = max_msgs q"
    using mq_take_wf [of q fl m ql'] wf take ql by auto
  have m: "m \<notin> set fl" "m \<notin> set ql'" using mq_wfD(5) [OF wf] ql by auto
  have "mq_parts q' (pc(a := MqCopying m sz)) fl ql'"
    by (rule mq_parts_upd [OF P q'(1)]) (use take m q' in \<open>auto simp: ql\<close>)
  moreover have "mq_abs (q', (pc(a := MqCopying m sz))) = (mq_abs (q, pc))\<lparr> a_msgs := map (mq_data q) ql',
      a_pc := (a_pc (mq_abs (q, pc)))(a := AReceiving sz (mq_data q m)) \<rparr>"
    by (subst mq_abs_upd [OF q'(1), where q = q]) (simp_all add: abs q'(2))
  moreover have "mqa_step (unat (msg_size q)) (mq_abs (q, pc)) MqTau ((mq_abs (q, pc))\<lparr> a_msgs := map (mq_data q) ql',
      a_pc := (a_pc (mq_abs (q, pc)))(a := AReceiving sz (mq_data q m)) \<rparr>)"
    by (rule a_take) (use take in \<open>simp_all add: abs ql\<close>)
  ultimately show ?thesis using q' by (intro mq_followsI) simp_all
qed

lemma follows_release:
  assumes P: "mq_parts q pc fl ql" and release: "pc a = MqCopying m sz" "mq_copy m sz q = Some bs" "mq_release m q = Some q'"
  shows "mq_follows q pc (MqDeliver bs) q' (pc(a := MqIdle))"
proof -
  note wf = mq_partsD(1) [OF P]
  note abs = mq_abs_parts [OF wf, of pc]
  have h: "mq_held (pc a) = Some m" using release by simp
  note m = mq_partsD(2-4) [OF P h]
  have q': "mq_wf q' (m # fl) ql" "mq_data q' = mq_data q" "msg_size q' = msg_size q" "max_msgs q' = max_msgs q"
    "\<forall>b. b \<noteq> m \<longrightarrow> mq_next q' b = mq_next q b"
    using mq_release_wf [OF wf m] release by auto
  have bs: "bs = List.take (min (unat sz) (unat (msg_size q))) (mq_data q m)"
    using release mq_copy_wf [OF wf m(1), of sz] by simp
  have oth: "n \<noteq> m" if "b \<noteq> a" "mq_held (pc b) = Some n" for b n using mq_partsD(5) [OF P h] that by auto
  have "mq_parts q' (pc(a := MqIdle)) (m # fl) ql"
    by (rule mq_parts_upd [OF P q'(1)]) (use release q'(3-5) oth m in auto)
  moreover have "mq_abs (q', (pc(a := MqIdle))) = (mq_abs (q, pc))\<lparr> a_free := Suc (a_free (mq_abs (q, pc))),
      a_pc := (a_pc (mq_abs (q, pc)))(a := AIdle) \<rparr>"
    by (subst mq_abs_upd [OF q'(1), where q = q]) (simp_all add: abs q'(2))
  moreover have "mqa_step (unat (msg_size q)) (mq_abs (q, pc)) (MqDeliver bs) ((mq_abs (q, pc))\<lparr> a_free := Suc (a_free (mq_abs (q, pc))),
      a_pc := (a_pc (mq_abs (q, pc)))(a := AIdle) \<rparr>)"
    unfolding bs by (rule a_release) (use release in \<open>simp add: abs\<close>)
  ultimately show ?thesis using q' by (intro mq_followsI) simp_all
qed

lemma follows_reset:
  assumes P: "mq_parts q pc fl ql" and reset: "mq_reset q = Some q'"
  shows "mq_follows q pc MqTau q' pc"
proof -
  note wf = mq_partsD(1) [OF P]
  note abs = mq_abs_parts [OF wf, of pc]
  have q': "mq_wf q' (rev ql @ fl) []" "mq_data q' = mq_data q" "msg_size q' = msg_size q" "max_msgs q' = max_msgs q"
    "\<forall>b. b \<notin> set ql \<longrightarrow> mq_next q' b = mq_next q b"
    using mq_reset_wf [OF wf] reset by auto
  have nx: "mq_next q' m = mq_next q m" if "mq_held (pc b) = Some m" for b m
    using q'(5) mq_partsD(4) [OF P that] by simp
  have "mq_pc_ok q' (pc 0)" by (rule pc_ok_frame [OF nx q'(3) mq_partsD(7) [OF P]])
  then have "mq_parts q' (pc(0 := pc 0)) (rev ql @ fl) []"
    by (intro mq_parts_upd [OF P q'(1,4,3)]) (use mq_partsD(3,4) [OF P, of 0] nx in auto)
  then have "mq_parts q' pc (rev ql @ fl) []" by simp
  moreover have "mq_abs_pc q' (pc b) = mq_abs_pc q (pc b)" for b by (rule abs_pc_frame) (simp add: q'(2))
  then have "mq_abs (q', pc) = (mq_abs (q, pc))\<lparr> a_msgs := [],
      a_free := a_free (mq_abs (q, pc)) + length (a_msgs (mq_abs (q, pc))) \<rparr>"
    by (simp add: abs mq_abs_parts [OF q'(1)])
  ultimately show ?thesis by (rule mq_followsI) (rule a_reset q'(3,4))+
qed

lemma mq_step_follows:
  assumes "mq_inv (q, pc)" "mq_step (q, pc) l (q', pc')"
  shows "mq_follows q pc l q' pc'"
proof -
  obtain fl ql where P: "mq_parts q pc fl ql" using assms(1) by (auto simp: mq_inv_def)
  from assms(2) show ?thesis
    by (cases rule: mq_step.cases)
      (auto intro: follows_alloc [OF P] follows_fill [OF P] follows_link [OF P] follows_take [OF P]
        follows_release [OF P] follows_reset [OF P])
qed

section \<open>Properties\<close>

lemma mq_inv_setup:
  assumes "mq_setup pool q = Some q0" "unat (max_msgs q) * (unat (msg_size q) + 4) \<le> length pool"
  shows "mq_inv (q0, \<lambda>_. MqIdle)" "msg_size q0 = msg_size q" "max_msgs q0 = max_msgs q"
    "mq_abs (q0, \<lambda>_. MqIdle) = \<lparr> a_msgs = [], a_free = unat (max_msgs q), a_pc = (\<lambda>_. AIdle) \<rparr>"
proof -
  obtain wf: "mq_wf q0 (rev [0..<unat (max_msgs q)]) []" and sz: "msg_size q0 = msg_size q" "max_msgs q0 = max_msgs q"
    using mq_setup_wf [OF assms(2)] assms(1) by auto
  show "msg_size q0 = msg_size q" "max_msgs q0 = max_msgs q" by (rule sz)+
  have "mq_parts q0 (\<lambda>_. MqIdle) (rev [0..<unat (max_msgs q)]) []" using wf sz by (simp add: mq_parts_def)
  then show "mq_inv (q0, \<lambda>_. MqIdle)" by (auto simp: mq_inv_def)
  show "mq_abs (q0, \<lambda>_. MqIdle) = \<lparr> a_msgs = [], a_free = unat (max_msgs q), a_pc = (\<lambda>_. AIdle) \<rparr>"
    by (simp add: mq_abs_parts [OF wf])
qed

lemma mq_steps_inv:
  assumes "steps mq_step s ls s'" "mq_inv s" "msg_size (fst s) = z" "max_msgs (fst s) = n"
  shows "(mq_inv s' \<and> msg_size (fst s') = z \<and> max_msgs (fst s') = n) \<and> steps (mqa_step (unat z)) (mq_abs s) ls (mq_abs s')"
proof (rule steps_simulation [OF assms(1), where I = "\<lambda>s. mq_inv s \<and> msg_size (fst s) = z \<and> max_msgs (fst s) = n"])
  fix s l s'
  assume a: "mq_inv s \<and> msg_size (fst s) = z \<and> max_msgs (fst s) = n" and st: "mq_step s l s'"
  obtain q pc q' pc' where s: "s = (q, pc)" "s' = (q', pc')" by (metis surj_pair)
  show "(mq_inv s' \<and> msg_size (fst s') = z \<and> max_msgs (fst s') = n) \<and> mqa_step (unat z) (mq_abs s) l (mq_abs s')"
    using mq_step_follows [of q pc l q' pc'] a st by (auto simp: s mq_follows_def)
qed (use assms in simp)

text \<open>C16. The interleaving theorem of the message queue. A queue is set up on a pool that is large
  enough; any number of threads and interrupt handlers then send, send urgently, receive and
  reset, their critical sections interleaved in any order. Every such run is a run of the
  specification with the same messages accepted and delivered: a list of messages in which
  ordinary messages are appended and urgent ones put in front, a receive takes the first message
  and later delivers exactly its bytes, even when other agents ran in between.\<close>

theorem mq_interleaving_refines:
  assumes "mq_setup pool q = Some q0" "unat (max_msgs q) * (unat (msg_size q) + 4) \<le> length pool"
    and "steps mq_step (q0, \<lambda>_. MqIdle) ls s"
  shows "steps (mqa_step (unat (msg_size q))) \<lparr> a_msgs = [], a_free = unat (max_msgs q), a_pc = (\<lambda>_. AIdle) \<rparr> ls (mq_abs s)"
  using mq_steps_inv [OF assms(3) mq_inv_setup(1) [OF assms(1,2)] refl refl] mq_inv_setup [OF assms(1,2)] by simp

lemma mq_blocks_count:
  assumes P: "mq_parts q pc fl ql"
  shows "finite {a. pc a \<noteq> MqIdle} \<and> length fl + length ql + card {a. pc a \<noteq> MqIdle} = unat (max_msgs q)"
proof -
  let ?A = "{a. pc a \<noteq> MqIdle}" and ?f = "\<lambda>a. the (mq_held (pc a))"
  note wf = mq_partsD(1) [OF P]
  have held: "\<exists>m. mq_held (pc a) = Some m" if "a \<in> ?A" for a using that held_cases [of "pc a"] by auto
  have inj: "inj_on ?f ?A"
  proof (rule inj_onI)
    fix a b assume "a \<in> ?A" "b \<in> ?A" "?f a = ?f b"
    moreover obtain m n where "mq_held (pc a) = Some m" "mq_held (pc b) = Some n" using held calculation(1,2) by blast
    ultimately show "a = b" using mq_partsD(5) [OF P] by simp
  qed
  have img: "{..<unat (max_msgs q)} = set (fl @ ql) \<union> ?f ` ?A"
  proof (intro equalityI subsetI)
    fix m assume "m \<in> {..<unat (max_msgs q)}"
    then have "m \<in> set fl \<or> m \<in> set ql \<or> (\<exists>a. mq_held (pc a) = Some m)" using mq_partsD(6) [OF P] by simp
    moreover have "m \<in> ?f ` ?A" if "mq_held (pc a) = Some m" for a using that by (intro image_eqI [of _ _ a]) auto
    ultimately show "m \<in> set (fl @ ql) \<union> ?f ` ?A" by auto
  next
    fix m assume "m \<in> set (fl @ ql) \<union> ?f ` ?A"
    then show "m \<in> {..<unat (max_msgs q)}" using mq_wfD(6) [OF wf] held mq_partsD(2) [OF P] by fastforce
  qed
  have sub: "?f ` ?A \<subseteq> {..<unat (max_msgs q)}" unfolding img by (rule Un_upper2)
  have fin: "finite (?f ` ?A)" by (rule finite_subset [OF sub finite_lessThan])
  have disj: "set (fl @ ql) \<inter> ?f ` ?A = {}" using held mq_partsD(3,4) [OF P] by fastforce
  have "unat (max_msgs q) = card (set (fl @ ql)) + card (?f ` ?A)"
    using card_Un_disjoint [OF _ fin disj] img by (metis List.finite_set card_lessThan)
  then show ?thesis
    using finite_imageD [OF fin inj] card_image [OF inj] distinct_card [OF mq_wfD(5) [OF wf]] by simp
qed

text \<open>Blocks are neither lost nor duplicated, and no critical section ever faults: in every
  reachable state the free blocks, the queued messages and the agents inside a send or a receive
  add up to the size of the pool, and whatever section an agent is at can run, in particular the
  block a receive takes is there whenever the entry count is not zero, and a reset ends.\<close>

theorem mq_interleaving_safe:
  assumes "mq_setup pool q = Some q0" "unat (max_msgs q) * (unat (msg_size q) + 4) \<le> length pool"
    and "steps mq_step (q0, \<lambda>_. MqIdle) ls (q', pc)"
  shows "length (mq_free_blocks q') + length (mq_messages q') + card {a. pc a \<noteq> MqIdle} = unat (max_msgs q)
     \<and> mq_alloc q' \<noteq> None \<and> (mq_entry q' \<noteq> 0 \<longrightarrow> mq_take q' \<noteq> None) \<and> mq_reset q' \<noteq> None
     \<and> (\<forall>a. case pc a of
          MqIdle \<Rightarrow> True
        | MqFilling u m buf \<Rightarrow> mq_fill u m buf q' \<noteq> None
        | MqLinking u m \<Rightarrow> mq_link u m q' \<noteq> None
        | MqCopying m sz \<Rightarrow> mq_copy m sz q' \<noteq> None \<and> mq_release m q' \<noteq> None)"
proof -
  have "mq_inv (q', pc)" and n: "max_msgs q' = max_msgs q"
    using mq_steps_inv [OF assms(3) mq_inv_setup(1) [OF assms(1,2)] refl refl] mq_inv_setup [OF assms(1,2)] by simp_all
  then obtain fl ql where P: "mq_parts q' pc fl ql" by (auto simp: mq_inv_def)
  note wf = mq_partsD(1) [OF P]
  have count: "length (mq_free_blocks q') + length (mq_messages q') + card {a. pc a \<noteq> MqIdle} = unat (max_msgs q)"
    using mq_blocks_count [OF P] n by (simp add: mq_free_wf [OF wf] mq_messages_wf [OF wf])
  have alloc: "mq_alloc q' \<noteq> None"
    using mq_alloc_Nil [of q' ql] mq_alloc_Cons [of q' _ _ ql] wf by (cases fl) fastforce+
  have take: "mq_entry q' \<noteq> 0 \<longrightarrow> mq_take q' \<noteq> None"
    using mq_take_wf [of q' fl _ _] wf mq_wfD(4) [OF wf] by (cases ql) (fastforce simp: unat_eq_0)+
  have reset: "mq_reset q' \<noteq> None" using mq_reset_wf [OF wf] by auto
  have "case pc a of MqIdle \<Rightarrow> True | MqFilling u m buf \<Rightarrow> mq_fill u m buf q' \<noteq> None
      | MqLinking u m \<Rightarrow> mq_link u m q' \<noteq> None
      | MqCopying m sz \<Rightarrow> mq_copy m sz q' \<noteq> None \<and> mq_release m q' \<noteq> None" for a
  proof (cases "pc a")
    case (MqFilling u m buf)
    then show ?thesis using mq_fill_wf [OF wf, of m buf u] mq_partsD(2-4,7) [OF P, of a] by fastforce
  next
    case (MqLinking u m)
    then show ?thesis using mq_link_wf [OF wf, of m u] mq_partsD(2-4,7) [OF P, of a] by fastforce
  next
    case (MqCopying m sz)
    then show ?thesis using mq_copy_wf [OF wf, of m sz] mq_release_wf [OF wf, of m] mq_partsD(2-4) [OF P, of a] by fastforce
  qed simp
  then show ?thesis using count alloc take reset by blast
qed

text \<open>A pool of two 8-byte messages, and a thread that has allocated a block.\<close>

definition mq_blank :: rt_messagequeue where
  "mq_blank = \<lparr> msg_size = 8, max_msgs = 2, mq_entry = 0, mq_next = (\<lambda>_. None), mq_data = (\<lambda>_. []),
     msg_queue_head = None, msg_queue_tail = None, msg_queue_free = None \<rparr>"

definition mq_demo :: rt_messagequeue where
  "mq_demo = mq_blank\<lparr> mq_next := [1 \<mapsto> 0], mq_data := (\<lambda>_. [])(0 := replicate 8 0, 1 := replicate 8 0),
     msg_queue_free := Some 1 \<rparr>"

lemma mq_demo_setup:
  "mq_setup (replicate 24 0) mq_blank = Some mq_demo"
  "unat (max_msgs mq_blank) * (unat (msg_size mq_blank) + 4) \<le> length (replicate 24 (0 :: u8))"
  by (simp_all add: mq_setup_def mq_blank_def mq_demo_def slice_def upt_rec fun_eq_iff)

lemma mq_demo_steps:
  "steps mq_step (mq_demo, \<lambda>_. MqIdle) [MqTau] (mq_demo\<lparr> msg_queue_free := Some 0 \<rparr>, (\<lambda>_. MqIdle)(3 := MqFilling False 1 [5]))"
proof -
  have "mq_step (mq_demo, \<lambda>_. MqIdle) MqTau (mq_demo\<lparr> msg_queue_free := Some 0 \<rparr>, (\<lambda>_. MqIdle)(3 := MqFilling False 1 [5]))"
    by (rule mq_step.alloc) (simp_all add: mq_demo_def mq_blank_def mq_alloc_def mq_get_next_def)
  then show ?thesis using steps_snoc [OF steps_Nil] by fastforce
qed

theorem mq_interleaving_refines_witness:
  "\<exists>s. steps (mqa_step 8) \<lparr> a_msgs = [], a_free = 2, a_pc = (\<lambda>_. AIdle) \<rparr> [MqTau] s"
  using mq_interleaving_refines [OF mq_demo_setup mq_demo_steps] by (auto simp: mq_blank_def)

theorem mq_interleaving_safe_witness:
  "mq_fill False 1 [5] (mq_demo\<lparr> msg_queue_free := Some 0 \<rparr>) \<noteq> None"
  using mq_interleaving_safe [OF mq_demo_setup mq_demo_steps] by (auto dest!: spec [of _ 3])

end
