(* ===== verification/MessageQueue.thy ===== *)
theory MessageQueue
  imports IpcBase MqBlocks
begin

text \<open>
  The message queue operations of src/ipc.c on the kernel: the sections of MqBlocks.thy one after
  the other, the waiting receivers, creation and deletion. \<open>mq_ok\<close> is the shape of a queue on
  which no send or receive is half done.
\<close>

section \<open>Operations\<close>

abbreviation mq_recvq :: "nat \<Rightarrow> tlist_head" where
  "mq_recvq m \<equiv> SuspQ (ObjMq m)"

definition set_mq :: "nat \<Rightarrow> rt_messagequeue \<Rightarrow> kernel \<Rightarrow> kernel" where
  "set_mq m q k = k\<lparr> mqs := (mqs k)(m := q) \<rparr>"

definition rt_mq_init ::
  "nat \<Rightarrow> string \<Rightarrow> u8 list \<Rightarrow> u32 \<Rightarrow> u32 \<Rightarrow> u8 \<Rightarrow> kernel \<Rightarrow> (rt_err \<times> kernel) option" where
  "rt_mq_init m name msgpool msz pool_size flag k = do {
     k \<leftarrow> rt_object_init (ObjMq m) RT_Object_Class_MessageQueue name k;
     k \<leftarrow> rt_ipc_object_init (mq_recvq m) (set_obj_flags (ObjMq m) flag k);
     let q = (mqs k m)\<lparr> msg_size := mq_align msz \<rparr>;
     let q = q\<lparr> max_msgs := ucast (pool_size div mq_stride (msg_size q)) \<rparr>;
     q \<leftarrow> mq_setup msgpool q;
     Some (RT_EOK, set_mq m q k) }"

definition rt_mq_detach :: "nat \<Rightarrow> kernel \<Rightarrow> (rt_err \<times> kernel) option" where
  "rt_mq_detach m k = do {
     k \<leftarrow> rt_ipc_list_resume_all (mq_recvq m) k;
     Some (RT_EOK, rt_object_detach (ObjMq m) k) }"

definition rt_mq_delete :: "nat \<Rightarrow> kernel \<Rightarrow> (rt_err \<times> kernel) option" where
  "rt_mq_delete m k = do {
     rt_debug_not_in_interrupt k;
     k \<leftarrow> rt_ipc_list_resume_all (mq_recvq m) k;
     k \<leftarrow> rt_object_delete (ObjMq m) k;
     Some (RT_EOK, k) }"

text \<open>\<open>pool\<close> is what \<^verbatim>\<open>RT_KERNEL_MALLOC\<close> returned for the number of bytes asked for.\<close>

definition rt_mq_create ::
  "nat option \<Rightarrow> (nat \<Rightarrow> u8 list option) \<Rightarrow> string \<Rightarrow> u32 \<Rightarrow> u32 \<Rightarrow> u8 \<Rightarrow> kernel \<Rightarrow> (nat option \<times> kernel) option" where
  "rt_mq_create mem pool name msz n flag k = do {
     rt_debug_not_in_interrupt k;
     (_, k) \<leftarrow> rt_object_allocate (map_option ObjMq mem) RT_Object_Class_MessageQueue name k;
     case mem of
       None \<Rightarrow> Some (None, k)
     | Some m \<Rightarrow> do {
         k \<leftarrow> rt_ipc_object_init (mq_recvq m) (set_obj_flags (ObjMq m) flag k);
         let q = (mqs k m)\<lparr> msg_size := mq_align msz, max_msgs := ucast n \<rparr>;
         case pool (unat (mq_stride (msg_size q) * ucast (max_msgs q))) of
           None \<Rightarrow> do {
             (_, k) \<leftarrow> rt_mq_delete m (set_mq m q k);
             Some (None, k) }
         | Some p \<Rightarrow> do {
             q \<leftarrow> mq_setup p q;
             Some (Some m, set_mq m q k) } } }"

definition rt_mq_send :: "nat \<Rightarrow> u8 list \<Rightarrow> kernel \<Rightarrow> (rt_err \<times> kernel) option" where
  "rt_mq_send m buffer k = do {
     rt_assert (buffer \<noteq> []);
     if length buffer > unat (msg_size (mqs k m)) then Some (RT_ERROR, k)
     else do {
       (msg, q) \<leftarrow> mq_alloc (mqs k m);
       case msg of
         None \<Rightarrow> Some (RT_EFULL, k)
       | Some b \<Rightarrow> do {
           q \<leftarrow> mq_fill False b buffer q;
           q \<leftarrow> mq_link_tail b q;
           k \<leftarrow> ipc_wake (mq_recvq m) (set_mq m q k);
           Some (RT_EOK, k) } } }"

definition rt_mq_urgent :: "nat \<Rightarrow> u8 list \<Rightarrow> kernel \<Rightarrow> (rt_err \<times> kernel) option" where
  "rt_mq_urgent m buffer k = do {
     rt_assert (buffer \<noteq> []);
     if length buffer > unat (msg_size (mqs k m)) then Some (RT_ERROR, k)
     else do {
       (msg, q) \<leftarrow> mq_alloc (mqs k m);
       case msg of
         None \<Rightarrow> Some (RT_EFULL, k)
       | Some b \<Rightarrow> do {
           q \<leftarrow> mq_fill True b buffer q;
           q \<leftarrow> mq_link_head b q;
           k \<leftarrow> ipc_wake (mq_recvq m) (set_mq m q k);
           Some (RT_EOK, k) } } }"

text \<open>The loop of \<^verbatim>\<open>rt_mq_recv\<close> and what follows it; the bytes are those copied to the caller's
  buffer of \<open>sz\<close> bytes.\<close>

definition mq_recv_loop ::
  "nat \<Rightarrow> u32 \<Rightarrow> nat option \<Rightarrow> u32 \<Rightarrow> u32 \<Rightarrow> kernel \<Rightarrow> ((u32 \<times> u32) call \<times> u8 list option \<times> kernel) option" where
  "mq_recv_loop m sz thread timeout tick_delta k =
     (if mq_entry (mqs k m) = 0 then do {
        rt_debug_in_thread_context k;
        t \<leftarrow> thread;
        let k = set_error t RT_EOK k;
        if timeout = 0 then Some (Returned RT_ETIMEOUT, None, set_error t RT_ETIMEOUT k)
        else do {
          (w, k) \<leftarrow> ipc_wait (mq_recvq m) t (obj_flags (ObjMq m) k) timeout tick_delta k;
          Some (w, None, k) } }
      else do {
        (b, q) \<leftarrow> mq_take (mqs k m);
        bytes \<leftarrow> mq_copy b sz q;
        q \<leftarrow> mq_release b q;
        Some (Returned RT_EOK, Some bytes, set_mq m q k) })"

definition rt_mq_recv ::
  "nat \<Rightarrow> u32 \<Rightarrow> u32 \<Rightarrow> kernel \<Rightarrow> ((u32 \<times> u32) call \<times> u8 list option \<times> kernel) option" where
  "rt_mq_recv m sz timeout k = do {
     rt_assert (sz \<noteq> 0);
     if mq_entry (mqs k m) = 0 \<and> timeout = 0 then Some (Returned RT_ETIMEOUT, None, k)
     else mq_recv_loop m sz (rt_current_thread k) timeout 0 k }"

definition rt_mq_recv_resumed ::
  "nat \<Rightarrow> u32 \<Rightarrow> nat \<Rightarrow> u32 \<times> u32 \<Rightarrow> kernel \<Rightarrow> ((u32 \<times> u32) call \<times> u8 list option \<times> kernel) option" where
  "rt_mq_recv_resumed m sz t w k =
     (if t_error (threads k t) \<noteq> RT_EOK then Some (Returned (t_error (threads k t)), None, k)
      else case ipc_remaining (fst w) (snd w) k of (timeout, tick_delta) \<Rightarrow>
        mq_recv_loop m sz (Some t) timeout tick_delta k)"

definition rt_mq_control :: "nat \<Rightarrow> u8 \<Rightarrow> kernel \<Rightarrow> (rt_err \<times> kernel) option" where
  "rt_mq_control m cmd k =
     (if cmd = 0x01 then do {
        k \<leftarrow> rt_ipc_list_resume_all (mq_recvq m) k;
        q \<leftarrow> mq_reset (mqs k m);
        k \<leftarrow> rt_schedule (set_mq m q k);
        Some (RT_EOK, k) }
      else Some (RT_ERROR, k))"

section \<open>The queue of messages\<close>

definition mq_ok :: "rt_messagequeue \<Rightarrow> bool" where
  "mq_ok q \<longleftrightarrow> (\<exists>fl ql. mq_wf q fl ql \<and> set fl \<union> set ql = {..<unat (max_msgs q)})"

lemma mq_okI: "mq_wf q fl ql \<Longrightarrow> set fl \<union> set ql = {..<unat (max_msgs q)} \<Longrightarrow> mq_ok q"
  by (auto simp: mq_ok_def)

definition messages :: "kernel \<Rightarrow> nat \<Rightarrow> u8 list list" where
  "messages k m = mq_messages (mqs k m)"

lemma set_mq_simps [simp]:
  "mqs (set_mq m b k) = (mqs k)(m := b)" "tlists (set_mq m b k) = tlists k"
  "threads (set_mq m b k) = threads k" "kernel_inv idle (set_mq m b k) = kernel_inv idle k"
  "lock_nest (set_mq m b k) = lock_nest k" "rt_current_thread (set_mq m b k) = rt_current_thread k"
  "ipc_woke q (set_mq m b k) k' = ipc_woke q k k'"
  by (simp_all add: set_mq_def kernel_inv_def kernel_ok_def quiet_def alive_def timer_activated_def timer_flag_def
      ipc_woke_def split: list.split)

lemma mq_ok_count: "mq_ok q \<Longrightarrow> length (mq_free_blocks q) + length (mq_messages q) = unat (max_msgs q)"
proof -
  assume "mq_ok q"
  then obtain fl ql where wf: "mq_wf q fl ql" and s: "set fl \<union> set ql = {..<unat (max_msgs q)}" by (auto simp: mq_ok_def)
  have "card (set (fl @ ql)) = unat (max_msgs q)" using s by simp
  then show ?thesis
    using distinct_card [OF mq_wfD(5) [OF wf]] by (simp add: mq_free_wf [OF wf] mq_messages_wf [OF wf])
qed

text \<open>A whole send, between alloc and link.\<close>

lemma mq_put_wf:
  assumes ok: "mq_ok q" and room: "length (mq_messages q) < unat (max_msgs q)" and l: "length buf \<le> unat (msg_size q)"
  shows "\<exists>b q1 q2 q3 d. mq_alloc q = Some (Some b, q1) \<and> mq_fill u b buf q1 = Some q2 \<and> mq_link u b q2 = Some q3
     \<and> mq_ok q3 \<and> length d = unat (msg_size q) \<and> take (length buf) d = buf
     \<and> mq_messages q3 = (if u then d # mq_messages q else mq_messages q @ [d])
     \<and> msg_size q3 = msg_size q \<and> max_msgs q3 = max_msgs q"
proof -
  obtain fl ql where wf: "mq_wf q fl ql" and s: "set fl \<union> set ql = {..<unat (max_msgs q)}" using ok by (auto simp: mq_ok_def)
  have "fl \<noteq> []" using mq_ok_count [OF ok] room by (auto simp: mq_free_wf [OF wf])
  then obtain b fl' where fl: "fl = b # fl'" by (cases fl) auto
  obtain q1 where q1: "mq_alloc q = Some (Some b, q1)" "mq_wf q1 fl' ql" "q1 = q\<lparr> msg_queue_free := mq_next q b \<rparr>"
    using mq_alloc_Cons [of q b fl' ql] wf fl by auto
  have b: "b < unat (max_msgs q1)" "b \<notin> set fl'" "b \<notin> set ql"
    using mq_wfD(5) [OF wf] mq_wfD(6) [OF wf, of b] q1 fl by auto
  define d where "d = buf @ drop (length buf) (mq_data q b)"
  obtain q2 where q2: "mq_fill u b buf q1 = Some q2" "mq_wf q2 fl' ql" "mq_data q2 = (mq_data q)(b := d)"
    "mq_next q2 = (if u then mq_next q1 else (mq_next q1)(b := None))" "msg_size q2 = msg_size q" "max_msgs q2 = max_msgs q"
    using mq_fill_wf [OF q1(2) b, of buf u] l by (auto simp: q1(3) d_def)
  obtain q3 where q3: "mq_link u b q2 = Some q3" "mq_wf q3 fl' (if u then b # ql else ql @ [b])" "mq_data q3 = mq_data q2"
    "msg_size q3 = msg_size q2" "max_msgs q3 = max_msgs q2"
    using mq_link_wf [OF q2(2), of b u] b q2(4,6) q1(3) by auto
  have "mq_messages q3 = (if u then d # mq_messages q else mq_messages q @ [d])"
    using b(3) unfolding mq_messages_wf [OF q3(2)] mq_messages_wf [OF wf] by (auto simp: q3(3) q2(3))
  moreover have "mq_ok q3"
    by (rule mq_okI [OF q3(2)]) (simp only: q2(6) q3(5) s [symmetric] fl, auto)
  moreover have "length d = unat (msg_size q)" "take (length buf) d = buf"
    using l mq_wfD(7) [OF wf, of b] b(1) by (auto simp: d_def q1(3))
  ultimately show ?thesis
    using q1(1) q2(1,5,6) q3(1,4,5)
    by (intro exI [of _ b] exI [of _ q1] exI [of _ q2] exI [of _ q3] exI [of _ d]) simp
qed

lemma mq_full: "mq_ok q \<Longrightarrow> length (mq_messages q) = unat (max_msgs q) \<Longrightarrow> mq_alloc q = Some (None, q)"
proof -
  assume ok: "mq_ok q" and f: "length (mq_messages q) = unat (max_msgs q)"
  then obtain fl ql where wf: "mq_wf q fl ql" by (auto simp: mq_ok_def)
  have "fl = []" using mq_ok_count [OF ok] f by (simp add: mq_free_wf [OF wf])
  then show "mq_alloc q = Some (None, q)" using mq_alloc_Nil wf by blast
qed

lemma mq_get_wf:
  assumes ok: "mq_ok q" and ne: "mq_messages q = d # ds"
  shows "\<exists>b q1 q2. mq_take q = Some (b, q1) \<and> mq_copy b sz q1 = Some (take (min (unat sz) (unat (msg_size q))) d)
     \<and> mq_release b q1 = Some q2 \<and> mq_ok q2 \<and> mq_messages q2 = ds \<and> msg_size q2 = msg_size q \<and> max_msgs q2 = max_msgs q"
proof -
  obtain fl ql where wf: "mq_wf q fl ql" and s: "set fl \<union> set ql = {..<unat (max_msgs q)}" using ok by (auto simp: mq_ok_def)
  obtain b ql' where ql: "ql = b # ql'" "d = mq_data q b" "ds = map (mq_data q) ql'"
    using ne mq_messages_wf [OF wf] by auto
  obtain q1 where q1: "mq_take q = Some (b, q1)" "mq_wf q1 fl ql'" "mq_data q1 = mq_data q" "msg_size q1 = msg_size q"
    "max_msgs q1 = max_msgs q"
    using mq_take_wf [of q fl b ql'] wf ql by auto
  have b: "b < unat (max_msgs q1)" "b \<notin> set fl" "b \<notin> set ql'"
    using mq_wfD(5) [OF wf] mq_wfD(6) [OF wf, of b] q1 ql by auto
  obtain q2 where q2: "mq_release b q1 = Some q2" "mq_wf q2 (b # fl) ql'" "mq_data q2 = mq_data q1"
    "msg_size q2 = msg_size q1" "max_msgs q2 = max_msgs q1"
    using mq_release_wf [OF q1(2) b] by auto
  have "mq_ok q2"
    by (rule mq_okI [OF q2(2)]) (simp add: q1(5) q2(5) s [symmetric] ql(1))
  moreover have "mq_messages q2 = ds" unfolding mq_messages_wf [OF q2(2)] by (simp add: ql(3) q2(3) q1(3))
  ultimately show ?thesis
    using q1(1,3-5) q2(1,4,5) mq_copy_wf [OF q1(2) b(1), of sz] ql(2)
    by (intro exI [of _ b] exI [of _ q1] exI [of _ q2]) simp
qed

lemma mq_messages_Nil:
  assumes "mq_ok q"
  shows "mq_messages q = [] \<longleftrightarrow> mq_entry q = 0"
proof -
  obtain fl ql where wf: "mq_wf q fl ql" using assms by (auto simp: mq_ok_def)
  show ?thesis
    using mq_wfD(4) [OF wf] by (simp add: mq_messages_wf [OF wf]) (metis length_0_conv unat_eq_0)
qed

text \<open>\<open>rt_mq_init\<close> divides the pool it is given: the message size is rounded up to eight bytes,
  the blocks with their headers fit into the pool, all of them are free and no message is queued.
  For sizes the 16-bit fields can hold, the queue takes messages of the size asked for and uses
  the pool up to less than one block.\<close>

theorem rt_mq_init_correct:
  assumes pool: "unat psz = length pool" and o: "home (containers k) (ObjMq m) = None"
    and e: "items (tlists k) (mq_recvq m) = []"
  shows "\<exists>k'. rt_mq_init m name pool msz psz flag k = Some (RT_EOK, k')
     \<and> (let q = mqs k' m; stride = unat (msg_size q) + 4 in
          mq_ok q \<and> mq_messages q = [] \<and> unat (max_msgs q) * stride \<le> length pool
        \<and> (unat msz \<le> 65528 \<longrightarrow> unat msz \<le> unat (msg_size q) \<and> unat (msg_size q) < unat msz + 8)
        \<and> (length pool < 65536 * stride \<longrightarrow> length pool < (unat (max_msgs q) + 1) * stride))"
proof -
  let ?z = "mq_align msz" and ?q = "(mqs k m)\<lparr> msg_size := mq_align msz \<rparr>"
  let ?s = "unat ?z + 4" and ?n = "ucast (psz div mq_stride ?z) :: u16"
  have str: "unat (mq_stride ?z) = ?s"
  proof -
    have "unat ?z < 2 ^ 16" using unsigned_less [of ?z, where ?'a = nat] by simp
    then have "unat (ucast ?z :: u32) = unat ?z" "unat ?z + 4 < 2 ^ 32" by (simp_all add: unat_ucast_small)
    then show ?thesis using unat_plus_small [of "ucast ?z :: u32" 4] by (simp add: mq_stride_def)
  qed
  have n: "unat ?n = (length pool div ?s) mod 65536"
    by (simp add: unsigned_ucast_eq take_bit_eq_mod unat_div str pool)
  then have "unat ?n \<le> length pool div ?s" by simp
  then have fit: "unat ?n * ?s \<le> length pool" by (metis mult.commute div_times_less_eq_dividend le_trans mult_le_mono1)
  have rest: "length pool < (unat ?n + 1) * ?s" if "length pool < 65536 * ?s"
  proof -
    have "length pool div ?s < 65536" using that by (simp add: div_less_iff_less_mult)
    then have "unat ?n = length pool div ?s" using n by simp
    then show ?thesis using dividend_less_div_times [of ?s "length pool"] by (simp add: algebra_simps)
  qed
  have al: "unat msz \<le> unat ?z \<and> unat ?z < unat msz + 8" if "unat msz \<le> 65528"
  proof -
    have "unat (RT_ALIGN msz) = (unat msz + 7) div 8 * 8" using that by (intro unat_RT_ALIGN) simp
    moreover have "(unat msz + 7) div 8 * 8 < 2 ^ 16" using that by simp
    ultimately have "unat ?z = (unat msz + 7) div 8 * 8" by (simp add: mq_align_def unat_ucast_small)
    then show ?thesis by linarith
  qed
  obtain q0 where q0: "mq_setup pool (?q\<lparr> max_msgs := ?n \<rparr>) = Some q0"
    "mq_wf q0 (rev [0..<unat ?n]) []" "msg_size q0 = ?z" "max_msgs q0 = ?n"
    using mq_setup_wf [of "?q\<lparr> max_msgs := ?n \<rparr>" pool] fit by auto
  have "mq_ok q0" by (rule mq_okI [OF q0(2)]) (auto simp: q0(4))
  moreover have "\<exists>k'. rt_mq_init m name pool msz psz flag k = Some (RT_EOK, k') \<and> mqs k' m = q0"
    using o e q0(1)
    by (simp add: rt_mq_init_def rt_object_init_def ls_push_def rt_ipc_object_init_def ls_init_def set_obj_flags_def
        upd_obj_def Let_def)
  ultimately show ?thesis
    using fit rest al mq_messages_wf [OF q0(2)] q0(3,4) by (fastforce simp: Let_def)
qed

text \<open>C17. \<open>rt_mq_send\<close> and \<open>rt_mq_urgent\<close> on every path: a message that is too long is refused, a
  full queue refuses, otherwise the message (padded with what was in the block) goes to the end of
  the queue, or to the front when it is urgent, and the receiver that waits first becomes ready.
  The invariants are kept and nothing else in the queue changes.\<close>

theorem rt_mq_send_correct:
  assumes k: "kernel_inv idle k" and ok: "mq_ok (mqs k m)" and b: "buf \<noteq> []"
  shows "\<exists>e k'. (if urgent then rt_mq_urgent m buf k else rt_mq_send m buf k) = Some (e, k')
     \<and> kernel_inv idle k' \<and> mq_ok (mqs k' m)
     \<and> (if length buf > unat (msg_size (mqs k m)) then e = RT_ERROR \<and> k' = k
        else if length (messages k m) = unat (max_msgs (mqs k m)) then e = RT_EFULL \<and> k' = k
        else e = RT_EOK \<and> ipc_woke (mq_recvq m) k k'
           \<and> (\<exists>d. length d = unat (msg_size (mqs k m)) \<and> take (length buf) d = buf
                \<and> messages k' m = (if urgent then d # messages k m else messages k m @ [d])))"
proof -
  let ?q = "mqs k m"
  consider (long) "length buf > unat (msg_size ?q)"
    | (full) "length buf \<le> unat (msg_size ?q)" "length (messages k m) = unat (max_msgs ?q)"
    | (room) "length buf \<le> unat (msg_size ?q)" "length (messages k m) < unat (max_msgs ?q)"
    using mq_ok_count [OF ok] by (fastforce simp: messages_def)
  then show ?thesis
  proof cases
    case long
    then show ?thesis using k ok b by (simp add: rt_mq_send_def rt_mq_urgent_def)
  next
    case full
    then show ?thesis
      using k ok b mq_full [OF ok] by (simp add: rt_mq_send_def rt_mq_urgent_def messages_def)
  next
    case room
    obtain n q1 q2 q3 d where q: "mq_alloc ?q = Some (Some n, q1)" "mq_fill urgent n buf q1 = Some q2"
      "mq_link urgent n q2 = Some q3" "mq_ok q3" "length d = unat (msg_size ?q)" "take (length buf) d = buf"
      "mq_messages q3 = (if urgent then d # mq_messages ?q else mq_messages ?q @ [d])"
      using mq_put_wf [OF ok _ room(1), of urgent] room(2) unfolding messages_def by blast
    obtain k' where k': "ipc_wake (mq_recvq m) (set_mq m q3 k) = Some k'" "kernel_inv idle k'"
      "mqs k' = mqs (set_mq m q3 k)" "ipc_woke (mq_recvq m) k k'"
      using ipc_wake_runs [of idle "set_mq m q3 k" "mq_recvq m"] k by auto
    have "(if urgent then rt_mq_urgent m buf k else rt_mq_send m buf k) = Some (RT_EOK, k')"
      using q(1-3) k'(1) room(1) b
      by (cases urgent) (simp_all add: rt_mq_send_def rt_mq_urgent_def mq_link_def)
    then show ?thesis
      using room k'(2-4) q(4-7) by (auto simp: messages_def)
  qed
qed

text \<open>C18. \<open>rt_mq_recv\<close> on every path: the first message is copied out, as many bytes as the buffer
  and the message size allow, and its block is free again; an empty queue times out at once or
  queues the caller. The invariants are kept.\<close>

theorem rt_mq_recv_correct:
  assumes k: "kernel_inv idle k" and ok: "mq_ok (mqs k m)" and c: "rt_current_thread k = Some t"
    and r: "ready k t" and i: "t \<noteq> idle" and n: "interrupt_nest k = 0" and tm: "good_time time"
    and f: "obj_flags (ObjMq m) k \<in> {0x00, 0x01}" and z: "sz \<noteq> 0"
  shows "\<exists>res got k'. rt_mq_recv m sz time k = Some (res, got, k') \<and> kernel_inv idle k' \<and> mq_ok (mqs k' m)
     \<and> (case messages k m of
          d # ds \<Rightarrow> res = Returned RT_EOK \<and> got = Some (take (min (unat sz) (unat (msg_size (mqs k m)))) d)
            \<and> messages k' m = ds \<and> tlists k' = tlists k
        | [] \<Rightarrow> got = None \<and>
            (if time = 0 then res = Returned RT_ETIMEOUT \<and> k' = k
             else res = Waits (time, if 0 < sint time then rt_tick k else 0)
               \<and> messages k' m = [] \<and> waits_in (mq_recvq m) (obj_flags (ObjMq m) k) t k k'))"
proof (cases "messages k m")
  case (Cons d ds)
  then obtain b q1 q2 where q: "mq_take (mqs k m) = Some (b, q1)"
    "mq_copy b sz q1 = Some (take (min (unat sz) (unat (msg_size (mqs k m)))) d)" "mq_release b q1 = Some q2"
    "mq_ok q2" "mq_messages q2 = ds"
    using mq_get_wf [OF ok, of d ds sz] unfolding messages_def by blast
  have "mq_entry (mqs k m) \<noteq> 0" using Cons mq_messages_Nil [OF ok] by (auto simp: messages_def)
  then have "rt_mq_recv m sz time k = Some (Returned RT_EOK, Some (take (min (unat sz) (unat (msg_size (mqs k m)))) d), set_mq m q2 k)"
    using q(1-3) z by (simp add: rt_mq_recv_def mq_recv_loop_def)
  then show ?thesis using Cons q(4,5) k by (simp add: messages_def)
next
  case Nil
  then have e: "mq_entry (mqs k m) = 0" using mq_messages_Nil [OF ok] by (simp add: messages_def)
  show ?thesis
  proof (cases "time = 0")
    case True
    then show ?thesis using Nil e k ok z by (simp add: rt_mq_recv_def)
  next
    case False
    obtain k' where k': "ipc_wait (mq_recvq m) t (obj_flags (ObjMq m) k) time 0 (set_error t RT_EOK k)
         = Some (Waits (time, if 0 < sint time then rt_tick k else 0), k')" "kernel_inv idle k'"
      "waits_in (mq_recvq m) (obj_flags (ObjMq m) k) t k k'"
      using ipc_wait_runs [OF k c r i n, of "mq_recvq m" _ time 0] f tm by auto
    have "rt_mq_recv m sz time k = Some (Waits (time, if 0 < sint time then rt_tick k else 0), None, k')"
      using False e c z n k'(1)
      by (simp add: rt_mq_recv_def mq_recv_loop_def obj_flags_def rt_debug_in_thread_context_def
          rt_debug_not_in_interrupt_def)
    moreover have "mqs k' = mqs k" using k'(3) by (simp add: waits_in_def)
    moreover from this have "messages k' m = []" using Nil by (simp add: messages_def)
    ultimately show ?thesis using k' False Nil ok by simp
  qed
qed

text \<open>Resetting a message queue: the loop that frees the queued messages ends, the queue is empty
  with every block free, every waiting receiver is woken with an error, the invariants hold.\<close>

theorem rt_mq_control_reset:
  assumes k: "kernel_inv idle k" and ok: "mq_ok (mqs k m)"
  shows "\<exists>k'. rt_mq_control m 0x01 k = Some (RT_EOK, k') \<and> kernel_inv idle k' \<and> mq_ok (mqs k' m)
     \<and> messages k' m = [] \<and> length (mq_free_blocks (mqs k' m)) = unat (max_msgs (mqs k m))
     \<and> items (tlists k') (mq_recvq m) = []
     \<and> (\<forall>t \<in> set (items (tlists k) (mq_recvq m)). ready k' t
          \<and> rt_mq_recv_resumed m sz t w k' = Some (Returned RT_ERROR, None, k'))"
proof -
  obtain fl ql where wf: "mq_wf (mqs k m) fl ql" and s: "set fl \<union> set ql = {..<unat (max_msgs (mqs k m))}"
    using ok by (auto simp: mq_ok_def)
  obtain q where q: "mq_reset (mqs k m) = Some q" "mq_wf q (rev ql @ fl) []" "max_msgs q = max_msgs (mqs k m)"
    using mq_reset_wf [OF wf] by auto
  have okq: "mq_ok q" by (rule mq_okI [OF q(2)]) (simp only: q(3) s [symmetric], auto)
  then have fq: "mq_messages q = []" "length (mq_free_blocks q) = unat (max_msgs (mqs k m))"
    using mq_ok_count [OF okq] mq_messages_wf [OF q(2)] q(3) by simp_all
  let ?P = "\<lambda>k'. kernel_inv idle k' \<and> mqs k' m = q \<and> items (tlists k') (mq_recvq m) = []
     \<and> (\<forall>t \<in> set (items (tlists k) (mq_recvq m)). ready k' t \<and> t_error (threads k' t) = RT_ERROR)"
  have "runs (\<lambda>k1. mqs k1 = mqs k \<and> runs ?P (rt_schedule (set_mq m q k1))) (rt_ipc_list_resume_all (mq_recvq m) k)"
  proof (rule resume_all_runs [OF k])
    fix k1 assume inv: "kernel_inv idle k1" and w: "woken_all (mq_recvq m) (items (tlists k) (mq_recvq m)) k k1"
    have inv2: "kernel_inv idle (set_mq m q k1)" using inv by simp
    have "runs ?P (rt_schedule (set_mq m q k1))"
      by (rule schedule_inv_runs [OF inv2])
        (use woken_allD(1,3) [OF w] in \<open>simp add: switchedD ready_def\<close>)
    then show "mqs k1 = mqs k \<and> runs ?P (rt_schedule (set_mq m q k1))" using woken_allD(14) [OF w] by simp
  qed simp
  then obtain k1 k' where "rt_ipc_list_resume_all (mq_recvq m) k = Some k1" "mqs k1 = mqs k"
    "rt_schedule (set_mq m q k1) = Some k'" "?P k'"
    unfolding runs_ex by blast
  then show ?thesis
    using q(1) okq fq by (auto simp: rt_mq_control_def messages_def rt_mq_recv_resumed_def)
qed

section \<open>The small system\<close>

text \<open>Message queue 6 of the demo pool, with one message of eight bytes.\<close>

definition mq_one :: rt_messagequeue where
  "mq_one = mq_demo\<lparr> msg_queue_free := Some 0, msg_queue_head := Some 1, msg_queue_tail := Some 1, mq_entry := 1,
     mq_next := (\<lambda>_. None) \<rparr>"

lemma mq_one_ok: "mq_ok mq_one" "mq_messages mq_one = [replicate 8 0]" "msg_size mq_one = 8" "max_msgs mq_one = 2"
proof -
  have wf: "mq_wf mq_one [0] [1]"
    by (auto simp: mq_wf_def mq_one_def mq_demo_def mq_blank_def less_2_cases_iff)
  show "max_msgs mq_one = 2" "msg_size mq_one = 8" by (simp_all add: mq_one_def mq_demo_def mq_blank_def)
  then show "mq_ok mq_one" by (intro mq_okI [OF wf]) (auto simp: less_2_cases_iff)
  show "mq_messages mq_one = [replicate 8 0]"
    by (simp add: mq_messages_wf [OF wf]) (simp add: mq_one_def mq_demo_def)
qed

definition mq_kernel :: kernel where
  "mq_kernel = set_mq 6 mq_one sched_demo"

lemma mq_kernel_facts:
  "kernel_inv 0 mq_kernel" "mq_ok (mqs mq_kernel 6)" "rt_current_thread mq_kernel = Some 1" "ready mq_kernel 1"
  "interrupt_nest mq_kernel = 0" "obj_flags x mq_kernel = 0" "messages mq_kernel 6 = [replicate 8 0]"
  "mqs mq_kernel 6 = mq_one" "items (tlists mq_kernel) (mq_recvq 6) = []" "home (containers mq_kernel) (ObjMq 6) = None"
proof -
  show "kernel_inv 0 mq_kernel" using demo_inv by (simp add: mq_kernel_def)
  show "ready mq_kernel 1" using sched_demo_ready by (simp add: mq_kernel_def ready_def)
  show "rt_current_thread mq_kernel = Some 1" using sched_demo_current by (simp add: mq_kernel_def)
  show "mq_ok (mqs mq_kernel 6)" "messages mq_kernel 6 = [replicate 8 0]"
    using mq_one_ok by (simp_all add: mq_kernel_def messages_def)
qed (simp_all add: mq_kernel_def set_mq_def obj_flags_def sched_demo_def kernel0_def)

theorem rt_mq_init_correct_witness:
  "\<exists>k'. rt_mq_init 6 ''mq'' (replicate 30 0) 5 30 0 mq_kernel = Some (RT_EOK, k') \<and> mq_ok (mqs k' 6)"
  using rt_mq_init_correct [of 30 "replicate 30 0" mq_kernel 6 "''mq''" 5 0] mq_kernel_facts by (auto simp: Let_def)

theorem rt_mq_send_correct_witness:
  "\<exists>k' d. rt_mq_urgent 6 [1, 2] mq_kernel = Some (RT_EOK, k') \<and> take (Suc (Suc 0)) d = [1, 2]
      \<and> messages k' 6 = [d, replicate 8 0]"
  using rt_mq_send_correct [OF mq_kernel_facts(1,2), of "[1, 2]" True] mq_kernel_facts mq_one_ok by auto

theorem rt_mq_recv_correct_witness:
  "\<exists>k'. rt_mq_recv 6 3 50 mq_kernel = Some (Returned RT_EOK, Some (replicate 3 0), k') \<and> messages k' 6 = []"
  using rt_mq_recv_correct [OF mq_kernel_facts(1-4) _ mq_kernel_facts(5), of 50 3] mq_kernel_facts mq_one_ok
  by (auto simp: good_time_def)

theorem rt_mq_control_reset_witness:
  "\<exists>k'. rt_mq_control 6 0x01 mq_kernel = Some (RT_EOK, k') \<and> messages k' 6 = []"
  using rt_mq_control_reset [OF mq_kernel_facts(1,2), of 1 "(0, 0)"] by auto

end
