(* ===== verification/Mempool.thy ===== *)
theory Mempool
  imports IpcBase
begin

text \<open>
  The memory pools of src/mempool.c: blocks of one size, chained through the word in front of each
  block while they are free, and a list of threads waiting for a block. \<open>mp_ok\<close> is the shape of a
  pool. Threads that wait are served last come, first served (\<^verbatim>\<open>rt_list_insert_after\<close> at the head
  of the list). Two sections at the end follow the runs in which the code goes wrong.
\<close>

section \<open>Operations\<close>

abbreviation mp_queue :: "nat \<Rightarrow> tlist_head" where
  "mp_queue m \<equiv> SuspQ (ObjMempool m)"

definition set_mp :: "nat \<Rightarrow> rt_mempool \<Rightarrow> kernel \<Rightarrow> kernel" where
  "set_mp m p k = k\<lparr> mempools := (mempools k)(m := p) \<rparr>"

text \<open>The distance between two blocks, and a store to the word in front of block \<open>b\<close>, which has to
  lie in the pool.\<close>

definition mp_stride :: "rt_mempool \<Rightarrow> nat" where
  "mp_stride p = unat (mp_block_size p) + 4"

definition mp_write :: "nat \<Rightarrow> mp_header \<Rightarrow> rt_mempool \<Rightarrow> rt_mempool option" where
  "mp_write b h p =
     (if b * mp_stride p + 4 \<le> unat (mp_size p)
      then Some (p\<lparr> mp_header_of := (mp_header_of p)(b := h) \<rparr>) else None)"

text \<open>The loop of \<^verbatim>\<open>rt_mp_init\<close> and \<^verbatim>\<open>rt_mp_create\<close> and the store to the last block behind it, at index
  \<^verbatim>\<open>offset - 1\<close>: in front of the pool when there is no block.\<close>

fun mp_carve :: "nat list \<Rightarrow> rt_mempool \<Rightarrow> rt_mempool option" where
  "mp_carve [] p = Some p"
| "mp_carve (b # bs) p = do {
     p \<leftarrow> mp_write b (MpNext (Some (b + 1))) p;
     mp_carve bs p }"

definition mp_setup :: "rt_mempool \<Rightarrow> rt_mempool option" where
  "mp_setup p = do {
     p \<leftarrow> mp_carve [0..<unat (block_total_count p)] p;
     rt_assert (block_total_count p \<noteq> 0);
     p \<leftarrow> mp_write (unat (block_total_count p) - 1) (MpNext None) p;
     Some (p\<lparr> mp_block_list := Some 0 \<rparr>) }"

definition rt_mp_init :: "nat \<Rightarrow> string \<Rightarrow> u32 \<Rightarrow> u32 \<Rightarrow> kernel \<Rightarrow> (rt_err \<times> kernel) option" where
  "rt_mp_init m name sz block_size k = do {
     k \<leftarrow> rt_object_init (ObjMempool m) RT_Object_Class_MemPool name k;
     let p = (mempools k m)\<lparr> mp_size := RT_ALIGN_DOWN sz \<rparr>;
     let block_size = RT_ALIGN block_size;
     let p = p\<lparr> mp_block_size := block_size \<rparr>;
     let p = p\<lparr> block_total_count := mp_size p div (mp_block_size p + 4) \<rparr>;
     let p = p\<lparr> block_free_count := block_total_count p \<rparr>;
     ls \<leftarrow> ls_init (mp_queue m) (tlists k);
     p \<leftarrow> mp_setup (p\<lparr> suspend_thread_count := 0 \<rparr>);
     Some (RT_EOK, set_mp m p (k\<lparr> tlists := ls \<rparr>)) }"

text \<open>The loop of \<^verbatim>\<open>rt_mp_detach\<close> and \<^verbatim>\<open>rt_mp_delete\<close>.\<close>

partial_function (option) mp_resume_all :: "nat \<Rightarrow> kernel \<Rightarrow> kernel option" where
  "mp_resume_all m k =
     (if ls_isempty (mp_queue m) (tlists k) then Some k
      else do {
        t \<leftarrow> ls_first (mp_queue m) (tlists k);
        (_, k) \<leftarrow> rt_thread_resume t (set_error t RT_ERROR k);
        mp_resume_all m (set_mp m ((mempools k m)\<lparr> suspend_thread_count := suspend_thread_count (mempools k m) - 1 \<rparr>) k) })"

definition rt_mp_detach :: "nat \<Rightarrow> kernel \<Rightarrow> (rt_err \<times> kernel) option" where
  "rt_mp_detach m k = do {
     k \<leftarrow> mp_resume_all m k;
     Some (RT_EOK, rt_object_detach (ObjMempool m) k) }"

text \<open>\<open>heap n\<close> tells whether \<^verbatim>\<open>rt_malloc\<close> has \<open>n\<close> bytes; the size asked for is computed in 32 bits.\<close>

definition rt_mp_create ::
  "nat option \<Rightarrow> (u32 \<Rightarrow> bool) \<Rightarrow> string \<Rightarrow> u32 \<Rightarrow> u32 \<Rightarrow> kernel \<Rightarrow> (nat option \<times> kernel) option" where
  "rt_mp_create mem heap name block_count block_size k = do {
     rt_debug_not_in_interrupt k;
     (_, k) \<leftarrow> rt_object_allocate (map_option ObjMempool mem) RT_Object_Class_MemPool name k;
     case mem of
       None \<Rightarrow> Some (None, k)
     | Some m \<Rightarrow> do {
         let block_size = RT_ALIGN block_size;
         let p = (mempools k m)\<lparr> mp_block_size := block_size, mp_size := (block_size + 4) * block_count \<rparr>;
         if \<not> heap (mp_size p) then do {
           k \<leftarrow> rt_object_delete (ObjMempool m) (set_mp m p k);
           Some (None, k) }
         else do {
           ls \<leftarrow> ls_init (mp_queue m) (tlists k);
           p \<leftarrow> mp_setup (p\<lparr> block_total_count := block_count, block_free_count := block_count,
                            suspend_thread_count := 0 \<rparr>);
           Some (Some m, set_mp m p (k\<lparr> tlists := ls \<rparr>)) } } }"

definition rt_mp_delete :: "nat \<Rightarrow> kernel \<Rightarrow> (rt_err \<times> kernel) option" where
  "rt_mp_delete m k = do {
     rt_debug_not_in_interrupt k;
     k \<leftarrow> mp_resume_all m k;
     k \<leftarrow> rt_object_delete (ObjMempool m) k;
     Some (RT_EOK, k) }"

text \<open>Taking the first free block: the word in front of it is read as a link, so it has to be one.\<close>

definition mp_take :: "nat \<Rightarrow> kernel \<Rightarrow> (nat \<times> kernel) option" where
  "mp_take m k = do {
     let p = mempools k m;
     let p = p\<lparr> block_free_count := block_free_count p - 1 \<rparr>;
     b \<leftarrow> mp_block_list p;
     n \<leftarrow> (case mp_header_of p b of MpNext n \<Rightarrow> Some n | MpPool _ \<Rightarrow> None);
     p \<leftarrow> mp_write b (MpPool m) (p\<lparr> mp_block_list := n \<rparr>);
     Some (b, set_mp m p k) }"

datatype mp_call = MpReturned "nat option" | MpWaits

definition rt_mp_alloc :: "nat \<Rightarrow> u32 \<Rightarrow> kernel \<Rightarrow> (mp_call \<times> kernel) option" where
  "rt_mp_alloc m time k =
     (if block_free_count (mempools k m) \<noteq> 0 then do {
        (b, k) \<leftarrow> mp_take m k;
        Some (MpReturned (Some b), k) }
      else if time = 0 then Some (MpReturned None, k)
      else do {
        rt_debug_not_in_interrupt k;
        t \<leftarrow> rt_thread_self k;
        (_, k) \<leftarrow> rt_thread_suspend t k;
        ls \<leftarrow> ls_push (mp_queue m) t (tlists k);
        let k = set_mp m ((mempools k m)\<lparr> suspend_thread_count := suspend_thread_count (mempools k m) + 1 \<rparr>)
                  (k\<lparr> tlists := ls \<rparr>);
        k \<leftarrow> (if 0 < sint time then start_thread_timer t time k else Some k);
        k \<leftarrow> rt_schedule k;
        Some (MpWaits, k) })"

definition rt_mp_alloc_resumed :: "nat \<Rightarrow> nat \<Rightarrow> kernel \<Rightarrow> (nat option \<times> kernel) option" where
  "rt_mp_alloc_resumed m t k =
     (if t_error (threads k t) \<noteq> RT_EOK then Some (None, k)
      else do {
        (b, k) \<leftarrow> mp_take m k;
        Some (Some b, k) })"

text \<open>\<open>rt_mp_free\<close> finds the pool through the word in front of the block; a block of pool \<open>m\<close> that is
  not allocated does not name its pool.\<close>

definition rt_mp_free :: "nat \<Rightarrow> nat \<Rightarrow> kernel \<Rightarrow> kernel option" where
  "rt_mp_free m b k = do {
     let p = mempools k m;
     rt_assert (mp_header_of p b = MpPool m);
     let p = p\<lparr> block_free_count := block_free_count p + 1 \<rparr>;
     p \<leftarrow> mp_write b (MpNext (mp_block_list p)) p;
     let p = p\<lparr> mp_block_list := Some b \<rparr>;
     let k = set_mp m p k;
     if suspend_thread_count p > 0 then do {
       t \<leftarrow> ls_first (mp_queue m) (tlists k);
       (_, k) \<leftarrow> rt_thread_resume t (set_error t RT_EOK k);
       let k = set_mp m ((mempools k m)\<lparr> suspend_thread_count := suspend_thread_count (mempools k m) - 1 \<rparr>) k;
       rt_schedule k }
     else Some k }"

section \<open>The shape of a pool\<close>

definition mp_next :: "rt_mempool \<Rightarrow> nat \<Rightarrow> nat option" where
  "mp_next p b = (case mp_header_of p b of MpNext n \<Rightarrow> n | MpPool _ \<Rightarrow> None)"

definition mp_wf :: "nat \<Rightarrow> rt_mempool \<Rightarrow> nat list \<Rightarrow> bool" where
  "mp_wf m p fl \<longleftrightarrow>
     chain (mp_next p) (mp_block_list p) fl \<and> distinct fl \<and> (\<forall>b \<in> set fl. b < unat (block_total_count p))
   \<and> (\<forall>b < unat (block_total_count p). if b \<in> set fl then mp_header_of p b = MpNext (mp_next p b)
                                       else mp_header_of p b = MpPool m)
   \<and> unat (block_free_count p) = length fl
   \<and> unat (block_total_count p) * mp_stride p \<le> unat (mp_size p)"

definition mp_blocks :: "kernel \<Rightarrow> nat \<Rightarrow> nat list" where
  "mp_blocks k m = walk (unat (block_free_count (mempools k m))) (mp_next (mempools k m)) (mp_block_list (mempools k m))"

definition mp_ok :: "kernel \<Rightarrow> nat \<Rightarrow> bool" where
  "mp_ok k m \<longleftrightarrow> mp_wf m (mempools k m) (mp_blocks k m)"

lemma mp_wf_blocks: "mp_wf m (mempools k m) fl \<Longrightarrow> mp_blocks k m = fl"
  by (simp add: mp_wf_def mp_blocks_def walk_chain)

lemma mp_okI: "mp_wf m (mempools k m) fl \<Longrightarrow> mp_ok k m \<and> mp_blocks k m = fl"
  by (simp add: mp_ok_def mp_wf_blocks)

lemma set_mp_simps [simp]:
  "mempools (set_mp m p k) = (mempools k)(m := p)" "tlists (set_mp m p k) = tlists k"
  "threads (set_mp m p k) = threads k" "kernel_inv idle (set_mp m p k) = kernel_inv idle k"
  "kernel_ok lb (set_mp m p k) = kernel_ok lb k" "quiet A (set_mp m p k) = quiet A k"
  "lock_nest (set_mp m p k) = lock_nest k" "rt_current_thread (set_mp m p k) = rt_current_thread k"
  "ready (set_mp m p k) = ready k" "objs (set_mp m p k) = objs k" "rt_tick (set_mp m p k) = rt_tick k"
  "interrupt_nest (set_mp m p k) = interrupt_nest k"
  by (simp_all add: set_mp_def kernel_inv_def kernel_ok_def quiet_def alive_def timer_activated_def timer_flag_def)

lemma mp_in_pool: "mp_wf m p fl \<Longrightarrow> b < unat (block_total_count p) \<Longrightarrow> b * mp_stride p + 4 \<le> unat (mp_size p)"
proof -
  assume wf: "mp_wf m p fl" and b: "b < unat (block_total_count p)"
  have "(b + 1) * mp_stride p \<le> unat (block_total_count p) * mp_stride p"
    by (rule mult_le_mono1) (use b in simp)
  then show ?thesis using wf by (simp add: mp_wf_def mp_stride_def algebra_simps)
qed

lemma mp_take_wf:
  assumes wf: "mp_wf m (mempools k m) (b # fl)"
  shows "\<exists>p. mp_take m k = Some (b, set_mp m p k) \<and> mp_wf m p fl
     \<and> p = (mempools k m)\<lparr> block_free_count := block_free_count (mempools k m) - 1,
            mp_block_list := mp_next (mempools k m) b, mp_header_of := (mp_header_of (mempools k m))(b := MpPool m) \<rparr>"
proof -
  let ?p = "mempools k m"
  let ?q = "?p\<lparr> block_free_count := block_free_count ?p - 1, mp_block_list := mp_next ?p b,
      mp_header_of := (mp_header_of ?p)(b := MpPool m) \<rparr>"
  have b: "b < unat (block_total_count ?p)" "mp_block_list ?p = Some b" "mp_header_of ?p b = MpNext (mp_next ?p b)"
    "b \<notin> set fl" "chain (mp_next ?p) (mp_next ?p b) fl"
    using wf by (auto simp: mp_wf_def)
  have "block_free_count ?p \<noteq> 0" using wf by (auto simp: mp_wf_def)
  then have "unat (block_free_count ?p - 1) = length fl" using wf by (simp add: mp_wf_def unat_minus_one)
  moreover have "mp_next ?q = (mp_next ?p)(b := None)" by (auto simp: mp_next_def fun_eq_iff)
  ultimately have "mp_wf m ?q fl" using wf b by (auto simp: mp_wf_def mp_stride_def)
  moreover have "mp_take m k = Some (b, set_mp m ?q k)"
    using b mp_in_pool [OF wf b(1)] by (simp add: mp_take_def mp_write_def mp_stride_def Let_def)
  ultimately show ?thesis by blast
qed

lemma mp_give_wf:
  assumes wf: "mp_wf m p fl" and b: "b < unat (block_total_count p)" "b \<notin> set fl"
  shows "mp_header_of p b = MpPool m"
    "mp_write b (MpNext (mp_block_list p)) (p\<lparr> block_free_count := block_free_count p + 1 \<rparr>)
       = Some (p\<lparr> block_free_count := block_free_count p + 1, mp_header_of := (mp_header_of p)(b := MpNext (mp_block_list p)) \<rparr>)"
    "mp_wf m (p\<lparr> block_free_count := block_free_count p + 1,
                 mp_header_of := (mp_header_of p)(b := MpNext (mp_block_list p)), mp_block_list := Some b \<rparr>) (b # fl)"
proof -
  let ?q = "p\<lparr> block_free_count := block_free_count p + 1,
                 mp_header_of := (mp_header_of p)(b := MpNext (mp_block_list p)), mp_block_list := Some b \<rparr>"
  show "mp_header_of p b = MpPool m" using wf b by (simp add: mp_wf_def)
  show "mp_write b (MpNext (mp_block_list p)) (p\<lparr> block_free_count := block_free_count p + 1 \<rparr>)
       = Some (p\<lparr> block_free_count := block_free_count p + 1, mp_header_of := (mp_header_of p)(b := MpNext (mp_block_list p)) \<rparr>)"
    using mp_in_pool [OF wf b(1)] by (simp add: mp_write_def mp_stride_def)
  have "set (b # fl) \<subseteq> {..<unat (block_total_count p)}" using wf b by (auto simp: mp_wf_def)
  then have "card (set (b # fl)) \<le> unat (block_total_count p)"
    using card_mono [of "{..<unat (block_total_count p)}" "set (b # fl)"] by simp
  moreover have "card (set (b # fl)) = Suc (length fl)" using wf b by (simp add: mp_wf_def distinct_card)
  ultimately have "unat (block_free_count p) + 1 < 2 ^ 32"
    using wf unsigned_less [of "block_total_count p", where ?'a = nat] by (simp add: mp_wf_def)
  then have "unat (block_free_count p + 1) = Suc (length fl)"
    using unat_plus_small [of "block_free_count p" 1] wf by (simp add: mp_wf_def)
  moreover have "mp_next ?q = (mp_next p)(b := mp_block_list p)" by (auto simp: mp_next_def fun_eq_iff)
  ultimately show "mp_wf m ?q (b # fl)" using wf b by (auto simp: mp_wf_def mp_stride_def)
qed

section \<open>Allocating\<close>

text \<open>The caller goes to the front of the waiting list.\<close>

lemma mp_wait_runs:
  assumes k: "kernel_inv idle k" and r: "ready k t" and i: "t \<noteq> idle" and tm: "good_time time"
    and k0: "k0 = set_mp m p k" and xs: "xs = t # items (tlists k) (mp_queue m)"
    and Q: "\<And>k1 k'. blocked_in (mp_queue m) xs t k0 k1 \<Longrightarrow> switched k1 k' \<Longrightarrow> kernel_inv idle k' \<Longrightarrow> Q k'"
  shows "runs (\<lambda>(_, k). runs (\<lambda>ls. runs (\<lambda>k. runs Q (rt_schedule k))
      (if 0 < sint time then start_thread_timer t time (set_mp m p (k\<lparr> tlists := ls \<rparr>))
       else Some (set_mp m p (k\<lparr> tlists := ls \<rparr>)))) (ls_push (mp_queue m) t (tlists k))) (rt_thread_suspend t k)"
proof (rule suspend_runs [OF kernel_invD(1) [OF k] r])
  fix k1 g
  assume k1: "k1 = k\<lparr> threads := (threads k)(t := (threads k t)\<lparr> t_stat := RT_THREAD_SUSPEND \<rparr>),
      tlists := ls_remove t (tlists k), ready_group := g \<rparr>" and ok1: "kernel_ok 1 k1"
  let ?q = "mp_queue m" and ?k1 = "set_mp m p k1"
  have inv: "kernel_inv idle k0" and r0: "ready k0 t" using k r by (simp_all add: k0)
  have k1s: "?k1 = k0\<lparr> threads := (threads k0)(t := (threads k0 t)\<lparr> t_stat := RT_THREAD_SUSPEND \<rparr>),
      tlists := ls_remove t (tlists k0), ready_group := g \<rparr>"
    by (rule kernel.equality) (simp_all add: k0 k1 set_mp_def)
  define ls where "ls = (tlists k1)\<lparr> items := (items (tlists k1))(?q := xs), home := (home (tlists k1))(t \<mapsto> ?q) \<rparr>"
  have iq: "items (tlists k1) ?q = items (tlists k) ?q"
    using ready_not_waiting(2) [OF kernel_invD(1) [OF k] r, of ?q] by (simp add: k1)
  have push: "ls_push ?q t (tlists k1) = Some ls" unfolding ls_push_def iq ls_def xs by (simp add: k1)
  have lsf: "items ls = (items (tlists ?k1))(?q := xs)" "home ls = (home (tlists ?k1))(t \<mapsto> ?q)"
    "set xs = insert t (set (items (tlists k0) ?q))" "length xs = Suc (length (items (tlists k0) ?q))"
    by (simp_all add: ls_def xs k0)
  have ok1s: "kernel_ok 1 ?k1" using ok1 by simp
  note lw = link_waiting [OF kernel_invD(1) [OF inv] r0 _ k1s ok1s lsf]
  have ke: "set_mp m p (k1\<lparr> tlists := ls \<rparr>) = ?k1\<lparr> tlists := ls \<rparr>" by (simp add: set_mp_def)
  have "runs (\<lambda>k. runs Q (rt_schedule k)) (if 0 < sint time then start_thread_timer t time (?k1\<lparr> tlists := ls \<rparr>)
       else Some (?k1\<lparr> tlists := ls \<rparr>))"
  proof (rule wait_timer_runs [OF kernel_invD(4) [OF inv] r0 tm])
    show "kernel_ok 1 (?k1\<lparr> tlists := ls \<rparr>)" "blocked_in ?q xs t k0 (?k1\<lparr> tlists := ls \<rparr>)" using lw by simp_all
    show "objs (?k1\<lparr> tlists := ls \<rparr>) = objs k0" by (simp add: k1 k0)
    fix k2 assume k2: "kernel_ok 1 k2" "quiet {} k2" and b: "blocked_in ?q xs t k0 k2"
    have idl: "ready k2 idle" using blocked_inD(15) [OF b] kernel_invD(6) [OF inv] i by simp
    then have "sched_inv k2" "running k2"
      using k2(1) blocked_inD(6) [OF b] kernel_invD(7) [OF inv] by (auto simp: kernel_ok_def running_def)
    then show "runs Q (rt_schedule k2)"
    proof (rule switch_runs)
      fix k' assume sw: "switched k2 k'"
      show "Q k'" by (rule Q [OF b sw]) (use kernel_inv_switched [OF sw] k2 idl in simp)
    qed
  qed
  then show "case (RT_EOK, k1) of (_, k) \<Rightarrow> runs (\<lambda>ls. runs (\<lambda>k. runs Q (rt_schedule k))
      (if 0 < sint time then start_thread_timer t time (set_mp m p (k\<lparr> tlists := ls \<rparr>))
       else Some (set_mp m p (k\<lparr> tlists := ls \<rparr>)))) (ls_push ?q t (tlists k))"
    by (cases "0 < sint time") (simp_all add: push ke)
qed

text \<open>The pool after a caller has started to wait.\<close>

definition mp_waiting :: "nat \<Rightarrow> nat \<Rightarrow> kernel \<Rightarrow> kernel \<Rightarrow> bool" where
  "mp_waiting m t k k' \<longleftrightarrow>
     items (tlists k') (mp_queue m) = t # items (tlists k) (mp_queue m)
   \<and> mempools k' = (mempools k)(m := (mempools k m)\<lparr> suspend_thread_count := suspend_thread_count (mempools k m) + 1 \<rparr>)
   \<and> t_stat (threads k' t) = RT_THREAD_SUSPEND
   \<and> (lock_nest k = 0 \<longrightarrow> rt_current_thread k' \<noteq> Some t)"

lemma rt_mp_alloc_waits:
  assumes k: "kernel_inv idle k" and c: "rt_current_thread k = Some t" and r: "ready k t" and i: "t \<noteq> idle"
    and n: "interrupt_nest k = 0" and tm: "good_time time" "time \<noteq> 0" and f: "block_free_count (mempools k m) = 0"
  shows "\<exists>k'. rt_mp_alloc m time k = Some (MpWaits, k') \<and> kernel_inv idle k' \<and> mp_waiting m t k k'"
proof -
  let ?p = "(mempools k m)\<lparr> suspend_thread_count := suspend_thread_count (mempools k m) + 1 \<rparr>"
  let ?P = "\<lambda>k'. kernel_inv idle k' \<and> mp_waiting m t k k'"
  have "runs (\<lambda>(_, k1). runs (\<lambda>ls. runs (\<lambda>k. runs ?P (rt_schedule k))
      (if 0 < sint time then start_thread_timer t time (set_mp m ?p (k1\<lparr> tlists := ls \<rparr>))
       else Some (set_mp m ?p (k1\<lparr> tlists := ls \<rparr>)))) (ls_push (mp_queue m) t (tlists k1))) (rt_thread_suspend t k)"
  proof (rule mp_wait_runs [OF k r i tm(1) refl refl])
    fix k1 k'
    assume b: "blocked_in (mp_queue m) (t # items (tlists k) (mp_queue m)) t (set_mp m ?p k) k1" and sw: "switched k1 k'"
      and inv: "kernel_inv idle k'"
    have "rt_current_thread k' \<noteq> Some t" if "lock_nest k = 0"
      using switched_current [OF sw] that blocked_inD(7) [OF b] blocked_inD(15) [OF b, of t]
      by (auto simp: most_urgent_def)
    then show "?P k'"
      using inv blocked_inD(1,16) [OF b] blocked_inD(3) [OF b, of "mp_queue m"]
      by (simp add: mp_waiting_def switchedD [OF sw])
  qed
  moreover have "mempools k1 = mempools k" if "rt_thread_suspend t k = Some (e, k1)" for e k1
    using suspend_runs [OF kernel_invD(1) [OF k] r, of "\<lambda>x. mempools (snd x) = mempools k"] that by simp
  ultimately show ?thesis
    using f tm(2) c n
    by (auto simp: rt_mp_alloc_def rt_debug_not_in_interrupt_def rt_thread_self_def runs_ex Let_def split: if_splits)
qed

text \<open>C30. \<open>rt_mp_alloc\<close> on every path: the first free block is handed out and marked as belonging to
  the pool; without a free block the call fails at once, or puts the caller in front of the
  waiting list, counts it, and another thread runs. The kernel's invariant and the shape of the
  pool are kept.\<close>

theorem rt_mp_alloc_correct:
  assumes k: "kernel_inv idle k" and ok: "mp_ok k m" and c: "rt_current_thread k = Some t"
    and r: "ready k t" and i: "t \<noteq> idle" and n: "interrupt_nest k = 0" and tm: "good_time time"
  shows "\<exists>res k'. rt_mp_alloc m time k = Some (res, k') \<and> kernel_inv idle k' \<and> mp_ok k' m
     \<and> (case mp_blocks k m of
          b # bs \<Rightarrow> res = MpReturned (Some b) \<and> mp_blocks k' m = bs \<and> mp_header_of (mempools k' m) b = MpPool m
            \<and> tlists k' = tlists k
        | [] \<Rightarrow> if time = 0 then res = MpReturned None \<and> k' = k
               else res = MpWaits \<and> mp_waiting m t k k')"
proof (cases "mp_blocks k m")
  case (Cons b bs)
  then have wf: "mp_wf m (mempools k m) (b # bs)" using ok by (simp add: mp_ok_def)
  obtain p where p: "mp_take m k = Some (b, set_mp m p k)" "mp_wf m p bs" "mp_header_of p b = MpPool m"
    using mp_take_wf [OF wf] by auto
  have "block_free_count (mempools k m) \<noteq> 0" using wf by (auto simp: mp_wf_def)
  then have "rt_mp_alloc m time k = Some (MpReturned (Some b), set_mp m p k)" using p(1) by (simp add: rt_mp_alloc_def)
  then show ?thesis using Cons k p(2,3) mp_okI [of m "set_mp m p k" bs] by simp
next
  case Nil
  then have wf: "mp_wf m (mempools k m) []" using ok by (simp add: mp_ok_def)
  then have f: "block_free_count (mempools k m) = 0" by (simp add: mp_wf_def unat_eq_0)
  show ?thesis
  proof (cases "time = 0")
    case True
    then show ?thesis using Nil k ok f by (simp add: rt_mp_alloc_def)
  next
    case False
    obtain k' where k': "rt_mp_alloc m time k = Some (MpWaits, k')" "kernel_inv idle k'" "mp_waiting m t k k'"
      using rt_mp_alloc_waits [OF k c r i n tm False f] by blast
    have "mp_next (p\<lparr> suspend_thread_count := x \<rparr>) = mp_next p" for p x by (simp add: mp_next_def fun_eq_iff)
    then have "mp_wf m (mempools k' m) []"
      using wf k'(3) by (simp add: mp_waiting_def mp_wf_def mp_stride_def)
    then have "mp_ok k' m" using mp_okI by blast
    then show ?thesis using Nil False k' by simp
  qed
qed

text \<open>Allocating a block and freeing it again is the identity on the kernel, when no thread waits
  for the pool: the block, its link word, the list and the counters are as they were.\<close>

theorem rt_mp_alloc_free_roundtrip:
  assumes ok: "mp_ok k m" and b: "mp_blocks k m = b # bs" and w: "suspend_thread_count (mempools k m) = 0"
  shows "\<exists>k1. rt_mp_alloc m time k = Some (MpReturned (Some b), k1) \<and> rt_mp_free m b k1 = Some k"
proof -
  let ?p = "mempools k m"
  have wf: "mp_wf m ?p (b # bs)" using ok b by (simp add: mp_ok_def)
  obtain p where p: "mp_take m k = Some (b, set_mp m p k)" "mp_wf m p bs" "p = ?p\<lparr> block_free_count := block_free_count ?p - 1,
      mp_block_list := mp_next ?p b, mp_header_of := (mp_header_of ?p)(b := MpPool m) \<rparr>"
    using mp_take_wf [OF wf] by blast
  have bb: "b < unat (block_total_count p)" "b \<notin> set bs" "mp_header_of ?p b = MpNext (mp_next ?p b)" "mp_block_list ?p = Some b"
    using wf by (auto simp: mp_wf_def p(3))
  note give = mp_give_wf [OF p(2) bb(1,2)]
  have same: "p\<lparr> block_free_count := block_free_count p + 1, mp_header_of := (mp_header_of p)(b := MpNext (mp_block_list p)),
      mp_block_list := Some b \<rparr> = ?p"
    by (rule rt_mempool.equality) (simp_all add: p(3) bb(3,4) fun_upd_idem)
  have "rt_mp_free m b (set_mp m p k) = Some (set_mp m ?p (set_mp m p k))"
    using give(1,2) w by (simp add: rt_mp_free_def Let_def same) (simp add: p(3))
  also have "set_mp m ?p (set_mp m p k) = k" by (simp add: set_mp_def)
  finally have "rt_mp_free m b (set_mp m p k) = Some k" .
  moreover have "block_free_count ?p \<noteq> 0" using wf by (auto simp: mp_wf_def)
  ultimately show ?thesis using p(1) by (simp add: rt_mp_alloc_def)
qed

lemma rt_mp_free_runs:
  assumes k: "kernel_inv idle k" and ok: "mp_ok k m" and b: "b < unat (block_total_count (mempools k m))" "b \<notin> set (mp_blocks k m)"
    and w: "unat (suspend_thread_count (mempools k m)) = length (items (tlists k) (mp_queue m))"
  shows "\<exists>k'. rt_mp_free m b k = Some k' \<and> kernel_inv idle k' \<and> mp_ok k' m \<and> mp_blocks k' m = b # mp_blocks k m
     \<and> unat (suspend_thread_count (mempools k' m)) = length (items (tlists k') (mp_queue m))
     \<and> (case items (tlists k) (mp_queue m) of
          [] \<Rightarrow> tlists k' = tlists k
        | t # ts \<Rightarrow> ready k' t \<and> items (tlists k') (mp_queue m) = ts
            \<and> (\<exists>k''. rt_mp_alloc_resumed m t k' = Some (Some b, k'') \<and> mp_blocks k'' m = mp_blocks k m))"
proof -
  let ?p = "mempools k m"
  let ?q = "?p\<lparr> block_free_count := block_free_count ?p + 1,
      mp_header_of := (mp_header_of ?p)(b := MpNext (mp_block_list ?p)), mp_block_list := Some b \<rparr>"
  have wf: "mp_wf m ?p (mp_blocks k m)" using ok by (simp add: mp_ok_def)
  note give = mp_give_wf [OF wf b]
  have cnt: "mp_wf m (q\<lparr> suspend_thread_count := x \<rparr>) fl = mp_wf m q fl" for q x fl
  proof -
    have "mp_next (q\<lparr> suspend_thread_count := x \<rparr>) = mp_next q" by (simp add: mp_next_def fun_eq_iff)
    then show ?thesis by (simp add: mp_wf_def mp_stride_def)
  qed
  show ?thesis
  proof (cases "items (tlists k) (mp_queue m)")
    case Nil
    then have "suspend_thread_count ?p = 0" using w by (simp add: unat_eq_0)
    then have "rt_mp_free m b k = Some (set_mp m ?q k)" using give(1,2) by (simp add: rt_mp_free_def Let_def)
    then show ?thesis using Nil k w mp_okI [of m "set_mp m ?q k"] give(3) by simp
  next
    case (Cons t ts)
    have pos: "suspend_thread_count ?p \<noteq> 0" "unat (suspend_thread_count ?p) = Suc (length ts)" using w Cons by auto
    let ?q' = "?q\<lparr> suspend_thread_count := suspend_thread_count ?p - 1 \<rparr>" and ?k = "set_error t RT_EOK (set_mp m ?q k)"
    let ?P = "\<lambda>k'. kernel_inv idle k' \<and> mempools k' m = ?q' \<and> ready k' t \<and> items (tlists k') (mp_queue m) = ts
        \<and> t_error (threads k' t) = RT_EOK"
    have inv: "kernel_inv idle ?k" and inq: "t \<in> set (items (tlists ?k) (mp_queue m))" using k Cons by simp_all
    have "runs (\<lambda>x. runs ?P (rt_schedule (set_mp m ((mempools (snd x) m)\<lparr> suspend_thread_count :=
        suspend_thread_count (mempools (snd x) m) - 1 \<rparr>) (snd x)))) (rt_thread_resume t ?k)"
    proof (rule wake_inv_runs [OF inv _ inq])
      fix k1 assume inv1: "kernel_inv idle k1" and wk: "woken t (threads ?k t) ?k k1"
      let ?k1 = "set_mp m ((mempools k1 m)\<lparr> suspend_thread_count := suspend_thread_count (mempools k1 m) - 1 \<rparr>) k1"
      have inv2: "kernel_inv idle ?k1" using inv1 by simp
      have "runs ?P (rt_schedule ?k1)"
        by (rule schedule_inv_runs [OF inv2])
          (use Cons wokenD(1,19) [OF wk] wokenD(18) [OF wk, of t] woken_waitq [OF wk, of "mp_queue m"]
            in \<open>simp add: switchedD\<close>)
      then show "runs ?P (rt_schedule (set_mp m ((mempools (snd (RT_EOK, k1)) m)\<lparr> suspend_thread_count :=
        suspend_thread_count (mempools (snd (RT_EOK, k1)) m) - 1 \<rparr>) (snd (RT_EOK, k1))))" by simp
    qed simp
    then obtain x k' where x: "rt_thread_resume t ?k = Some x" "rt_schedule (set_mp m ((mempools (snd x) m)\<lparr> suspend_thread_count :=
        suspend_thread_count (mempools (snd x) m) - 1 \<rparr>) (snd x)) = Some k'" and P: "?P k'"
      unfolding runs_ex by blast
    have free: "rt_mp_free m b k = Some k'"
      using give(1,2) pos(1) Cons x by (simp add: rt_mp_free_def Let_def word_neq_0_conv ls_first_def case_prod_unfold)
    have wf': "mp_wf m (mempools k' m) (b # mp_blocks k m)" using P give(3) cnt by metis
    obtain p2 where p2: "mp_take m k' = Some (b, set_mp m p2 k')" "mp_wf m p2 (mp_blocks k m)"
      using mp_take_wf [OF wf'] by blast
    have "rt_mp_alloc_resumed m t k' = Some (Some b, set_mp m p2 k')" "mp_blocks (set_mp m p2 k') m = mp_blocks k m"
      using P p2 mp_okI [of m "set_mp m p2 k'"] by (simp_all add: rt_mp_alloc_resumed_def)
    moreover have "unat (suspend_thread_count ?p - 1) = length ts" using pos by (simp add: unat_minus_one)
    ultimately show ?thesis using free P Cons mp_okI [OF wf'] by auto
  qed
qed

text \<open>C31. \<open>rt_mp_free\<close> puts the block in front of the free blocks and, when threads wait and the count
  agrees with the list, wakes the first of them without an error; the woken allocation, if it is
  the next to look at the pool, gets exactly that block. The invariants are kept.\<close>

theorem rt_mp_free_correct:
  assumes k: "kernel_inv idle k" and ok: "mp_ok k m" and b: "b < unat (block_total_count (mempools k m))" "b \<notin> set (mp_blocks k m)"
    and w: "unat (suspend_thread_count (mempools k m)) = length (items (tlists k) (mp_queue m))"
  shows "\<exists>k'. rt_mp_free m b k = Some k' \<and> kernel_inv idle k' \<and> mp_ok k' m \<and> mp_blocks k' m = b # mp_blocks k m
     \<and> unat (suspend_thread_count (mempools k' m)) = length (items (tlists k') (mp_queue m))
     \<and> (case items (tlists k) (mp_queue m) of
          [] \<Rightarrow> tlists k' = tlists k
        | t # ts \<Rightarrow> ready k' t \<and> items (tlists k') (mp_queue m) = ts
            \<and> (\<exists>k''. rt_mp_alloc_resumed m t k' = Some (Some b, k'') \<and> mp_blocks k'' m = mp_blocks k m))"
  by (rule rt_mp_free_runs [OF assms])

section \<open>Setting up\<close>

lemma mp_carve_all:
  "\<forall>b \<in> set bs. b * mp_stride p + 4 \<le> unat (mp_size p) \<Longrightarrow>
   mp_carve bs p = Some (p\<lparr> mp_header_of := (\<lambda>b. if b \<in> set bs then MpNext (Some (b + 1)) else mp_header_of p b) \<rparr>)"
  by (induction bs arbitrary: p) (auto simp: mp_write_def mp_stride_def fun_eq_iff intro!: rt_mempool.equality)

lemma chain_upt:
  "i < n \<Longrightarrow> (\<And>b. i \<le> b \<Longrightarrow> b < n - 1 \<Longrightarrow> nx b = Some (b + 1)) \<Longrightarrow> nx (n - 1) = None \<Longrightarrow> chain nx (Some i) [i..<n]"
proof (induction "n - i" arbitrary: i)
  case (Suc x)
  then show ?case
  proof (cases "i + 1 = n")
    case False
    then have "chain nx (Some (i + 1)) [i + 1..<n]" using Suc by (intro Suc.hyps(1)) auto
    then show ?thesis using Suc.prems False by (simp add: upt_conv_Cons)
  qed (use Suc in auto)
qed simp

lemma mp_setup_wf:
  assumes n: "block_total_count p \<noteq> 0" and fit: "unat (block_total_count p) * mp_stride p \<le> unat (mp_size p)"
    and f: "block_free_count p = block_total_count p"
  shows "\<exists>q. mp_setup p = Some q \<and> mp_wf m q [0..<unat (block_total_count p)]"
proof -
  let ?n = "unat (block_total_count p)"
  have in_pool: "b * mp_stride p + 4 \<le> unat (mp_size p)" if "b < ?n" for b
  proof -
    have "(b + 1) * mp_stride p \<le> ?n * mp_stride p" by (rule mult_le_mono1) (use that in simp)
    then show ?thesis using fit by (simp add: mp_stride_def algebra_simps)
  qed
  have n0: "0 < ?n" using n by (simp add: unat_gt_0)
  define q where "q = p\<lparr> mp_header_of := (\<lambda>b. if b < ?n then MpNext (Some (b + 1)) else mp_header_of p b)(?n - 1 := MpNext None),
      mp_block_list := Some 0 \<rparr>"
  have "mp_setup p = Some q"
    using mp_carve_all [of "[0..<?n]" p] in_pool n n0
    by (simp add: mp_setup_def mp_write_def mp_stride_def q_def fun_eq_iff)
  moreover have "chain (mp_next q) (Some 0) [0..<?n]"
    by (rule chain_upt) (use n0 in \<open>auto simp: mp_next_def q_def\<close>)
  then have "mp_wf m q [0..<?n]"
    using fit f by (auto simp: mp_wf_def q_def mp_stride_def mp_next_def)
  ultimately show ?thesis by blast
qed

text \<open>\<open>rt_mp_init\<close> on a pool of \<open>sz\<close> bytes: both sizes are rounded to eight bytes, the pool down and
  the block up; when a block with its link word fits, all the blocks that fit are free, in order,
  and lie in the pool; when none fits, the store behind the loop goes to the word in front of a
  block that does not exist, outside the pool.\<close>

theorem rt_mp_init_correct:
  assumes o: "home (containers k) (ObjMempool m) = None" and e: "items (tlists k) (mp_queue m) = []"
    and bs: "unat bs + 7 < 2 ^ 32"
  shows "let S = unat sz div 8 * 8; B = (unat bs + 7) div 8 * 8 + 4 in
     if B \<le> S
     then \<exists>k'. rt_mp_init m name sz bs k = Some (RT_EOK, k') \<and> mp_ok k' m \<and> mp_blocks k' m = [0..<S div B]
        \<and> (S div B) * B \<le> unat sz
     else rt_mp_init m name sz bs k = None"
proof -
  let ?S = "unat sz div 8 * 8" and ?B = "(unat bs + 7) div 8 * 8"
  define q where "q = (mempools k m)\<lparr> mp_size := RT_ALIGN_DOWN sz, mp_block_size := RT_ALIGN bs,
      block_total_count := RT_ALIGN_DOWN sz div (RT_ALIGN bs + 4),
      block_free_count := RT_ALIGN_DOWN sz div (RT_ALIGN bs + 4), suspend_thread_count := 0 \<rparr>"
  have S: "unat (RT_ALIGN_DOWN sz) = ?S" by (rule unat_RT_ALIGN_DOWN)
  have B: "unat (RT_ALIGN bs) = ?B" by (rule unat_RT_ALIGN [OF bs])
  have "(unat bs + 7) div 8 < 536870912" using bs by (simp add: less_mult_imp_div_less)
  then have "?B + 4 < 2 ^ 32" by simp
  then have B4: "unat (RT_ALIGN bs + 4) = ?B + 4"
    using unat_plus_small [of "RT_ALIGN bs" 4] B by simp
  have tot: "unat (block_total_count q) = ?S div (?B + 4)" by (simp add: q_def unat_div S B4)
  have str: "mp_stride q = ?B + 4" "unat (mp_size q) = ?S" by (simp_all add: mp_stride_def q_def B S)
  have run: "rt_mp_init m name sz bs k = (case mp_setup q of None \<Rightarrow> None
      | Some p \<Rightarrow> Some (RT_EOK, set_mp m p ((upd_obj (ObjMempool m) (\<lambda>ob. ob\<lparr> obj_class := RT_Object_Class_MemPool, obj_static := True,
          obj_name := take RT_NAME_MAX name \<rparr>) k)\<lparr> containers := (containers k)\<lparr> items := (items (containers k))
            (RT_Object_Class_MemPool := ObjMempool m # items (containers k) RT_Object_Class_MemPool),
          home := (home (containers k))(ObjMempool m \<mapsto> RT_Object_Class_MemPool) \<rparr>\<rparr>)))"
    using o e by (simp add: rt_mp_init_def rt_object_init_def ls_push_def ls_init_def upd_obj_def q_def Let_def
        split: option.split)
  show ?thesis
  proof (cases "?B + 4 \<le> ?S")
    case True
    then have "0 < ?S div (?B + 4)" by (simp add: div_greater_zero_iff)
    then have n: "block_total_count q \<noteq> 0" using tot by (metis unat_0 less_irrefl)
    have fit: "unat (block_total_count q) * mp_stride q \<le> unat (mp_size q)" unfolding tot str by simp
    obtain p where p: "mp_setup q = Some p" "mp_wf m p [0..<unat (block_total_count q)]"
      using mp_setup_wf [OF n fit] by (auto simp: q_def)
    have "?S div (?B + 4) * (?B + 4) \<le> unat sz"
      using div_times_less_eq_dividend [of ?S "?B + 4"] div_times_less_eq_dividend [of "unat sz" 8] by linarith
    then show ?thesis
      unfolding Let_def using True run p mp_okI [of m "set_mp m p _"] tot by auto
  next
    case False
    then have "unat (block_total_count q) = 0" using tot by simp
    then have "mp_setup q = None" by (simp add: mp_setup_def unat_eq_0)
    then show ?thesis using False run by (simp add: Let_def)
  qed
qed

section \<open>Runs that go wrong\<close>

text \<open>C33. A wait for a block that times out leaves the count of waiting threads at one although
  nobody waits: from then on giving a block back follows an empty list to a thread that does not
  exist.\<close>

theorem rt_mp_free_after_timeout:
  assumes k: "kernel_inv idle k" and c: "rt_current_thread k = Some t" and r: "ready k t" and i: "t \<noteq> idle"
    and n: "interrupt_nest k = 0" and tm: "good_time time" "time \<noteq> 0"
    and f: "block_free_count (mempools k m) = 0" and w: "items (tlists k) (mp_queue m) = []"
    and z: "suspend_thread_count (mempools k m) = 0"
  shows "\<exists>k1 k2. rt_mp_alloc m time k = Some (MpWaits, k1)
     \<and> rt_thread_timeout t (rt_timer_remove (ThreadTimer t) k1) = Some k2
     \<and> ready k2 t \<and> items (tlists k2) (mp_queue m) = [] \<and> suspend_thread_count (mempools k2 m) = 1
     \<and> (\<forall>b. rt_mp_free m b k2 = None)"
proof -
  obtain k1 where k1: "rt_mp_alloc m time k = Some (MpWaits, k1)" "kernel_inv idle k1" "mp_waiting m t k k1"
    using rt_mp_alloc_waits [OF k c r i n tm f] by blast
  let ?k = "rt_timer_remove (ThreadTimer t) k1"
  have ts: "timers_ok 1 k1" by (rule kernel_invD(3) [OF k1(2)])
  have nin: "ThreadTimer t \<notin> set (timer_list ?k)"
    using ts by (auto simp: rt_timer_remove_def timers_ok_def timers_sorted_def)
  have ok: "kernel_ok 1 ?k"
    using ts kernel_invD(2) [OF k1(2)] timers_sorted_remove [of 1 k1 "ThreadTimer t"]
    by (auto simp: kernel_ok_def timers_ok_def thread_timers_def rt_timer_remove_def timer_live_def
        timer_activated_def timer_periodic_def timer_flag_def split: timer_id.splits dest: set_mp [OF set_remove1_subset])
  have st: "t_stat (threads ?k t) = RT_THREAD_SUSPEND" "rt_current_thread ?k \<noteq> None"
    using k1(3) kernel_invD(7) [OF k1(2)] by (simp_all add: rt_timer_remove_def mp_waiting_def)
  let ?P = "\<lambda>k2. ready k2 t \<and> items (tlists k2) (mp_queue m) = [] \<and> suspend_thread_count (mempools k2 m) = 1"
  have "runs ?P (rt_thread_timeout t ?k)"
  proof (rule timeout_runs [OF ok st(2,1) nin])
    fix k2 k' assume wk: "woken t ((threads ?k t)\<lparr> t_error := RT_ETIMEOUT \<rparr>) ?k k2" and sw: "switched k2 k'"
    show "?P k'"
      using woken_waitq [OF wk, of "mp_queue m"] wokenD(19) [OF wk] wokenD(18) [OF wk, of t] k1(3) w z
      by (simp add: switchedD [OF sw] mp_waiting_def rt_timer_remove_def)
  qed
  then obtain k2 where k2: "rt_thread_timeout t ?k = Some k2" "?P k2" unfolding runs_ex by blast
  have "rt_mp_free m b k2 = None" for b
    using k2(2) by (simp add: rt_mp_free_def mp_write_def Let_def ls_first_def rt_assert_def)
  then show ?thesis using k1(1) k2 by blast
qed

text \<open>The allocation that was woken does not look again whether there is a block: when another
  thread allocates first, the woken thread decrements a count of zero and follows a null
  pointer.\<close>

theorem rt_mp_alloc_stolen:
  assumes k: "kernel_inv idle k" and ok: "mp_ok k m" and e: "mp_blocks k m = []"
    and w: "items (tlists k) (mp_queue m) = [t]" "suspend_thread_count (mempools k m) = 1"
    and b: "b < unat (block_total_count (mempools k m))"
  shows "\<exists>k1 k2. rt_mp_free m b k = Some k1 \<and> ready k1 t
     \<and> rt_mp_alloc m time k1 = Some (MpReturned (Some b), k2) \<and> rt_mp_alloc_resumed m t k2 = None"
proof -
  obtain k1 k3 where k1: "rt_mp_free m b k = Some k1" "mp_ok k1 m" "mp_blocks k1 m = [b]" "ready k1 t"
    "rt_mp_alloc_resumed m t k1 = Some (Some b, k3)"
    using rt_mp_free_runs [OF k ok b] e w by auto
  have er: "t_error (threads k1 t) = RT_EOK" using k1(5) by (auto simp: rt_mp_alloc_resumed_def split: if_splits)
  have wf: "mp_wf m (mempools k1 m) [b]" using k1(2,3) by (simp add: mp_ok_def)
  obtain p where p: "mp_take m k1 = Some (b, set_mp m p k1)" "mp_wf m p []" using mp_take_wf [OF wf] by blast
  have "block_free_count (mempools k1 m) \<noteq> 0" using wf by (auto simp: mp_wf_def)
  then have "rt_mp_alloc m time k1 = Some (MpReturned (Some b), set_mp m p k1)" using p(1) by (simp add: rt_mp_alloc_def)
  moreover have "rt_mp_alloc_resumed m t (set_mp m p k1) = None"
    using p(2) er by (simp add: rt_mp_alloc_resumed_def mp_take_def mp_wf_def Let_def)
  ultimately show ?thesis using k1(1,4) by blast
qed

text \<open>The size that \<open>rt_mp_create\<close> asks for is computed in 32 bits: for 0x15555556 blocks of 8 bytes it
  is 8, and the second block already lies outside the memory that was allocated.\<close>

lemma rt_mp_create_too_small:
  assumes i: "interrupt_nest k = 0" and s: "(RT_ALIGN bs + 4) * bc = s" "heap s"
    and f: "\<And>p. mp_block_size p = RT_ALIGN bs \<Longrightarrow> mp_size p = s \<Longrightarrow> mp_carve [0..<unat bc] p = None"
  shows "rt_mp_create (Some m) heap name bc bs k = None"
  using assms by (auto simp: rt_mp_create_def mp_setup_def Let_def rt_object_allocate_def rt_debug_not_in_interrupt_def
      split: bind_splits)

lemma mp_carve_too_small:
  assumes "mp_block_size p = 8" "mp_size p = 8" "1 < n"
  shows "mp_carve [0..<n] p = None"
proof -
  have e: "[0..<n] = 0 # 1 # [2..<n]" using assms(3) by (simp add: upt_conv_Cons numeral_2_eq_2)
  show ?thesis unfolding e using assms(1,2) by (auto simp: mp_write_def mp_stride_def)
qed

theorem rt_mp_create_overflow:
  assumes "interrupt_nest k = 0" "heap 8"
  shows "rt_mp_create (Some m) heap name 0x15555556 8 k = None"
proof (rule rt_mp_create_too_small [where s = 8])
  show "(RT_ALIGN 8 + 4) * 0x15555556 = 8" by (simp add: RT_ALIGN_def)
  fix p :: rt_mempool assume "mp_block_size p = RT_ALIGN 8" "mp_size p = 8"
  then show "mp_carve [0..<unat (0x15555556 :: u32)] p = None"
    by (intro mp_carve_too_small) (simp_all add: RT_ALIGN_def)
qed (use assms in simp_all)

section \<open>The small system\<close>

text \<open>Pool 7 has two blocks of eight bytes, block 0 is allocated.\<close>

definition mp_two :: rt_mempool where
  "mp_two = \<lparr> mp_size = 24, mp_block_size = 8, mp_block_list = Some 1, block_total_count = 2, block_free_count = 1,
     suspend_thread_count = 0, mp_header_of = (\<lambda>b. if b = 1 then MpNext None else MpPool 7) \<rparr>"

definition mp_kernel :: kernel where
  "mp_kernel = set_mp 7 mp_two sched_demo"

lemma mp_two_wf: "mp_wf 7 mp_two [1]"
  by (auto simp: mp_wf_def mp_two_def mp_next_def mp_stride_def)

lemma mp_kernel_facts:
  "kernel_inv 0 mp_kernel" "mp_ok mp_kernel 7" "rt_current_thread mp_kernel = Some 1" "ready mp_kernel 1"
  "interrupt_nest mp_kernel = 0" "mp_blocks mp_kernel 7 = [1]" "mempools mp_kernel 7 = mp_two"
  "items (tlists mp_kernel) (mp_queue m) = []" "home (containers mp_kernel) (ObjMempool m) = None"
proof -
  show "kernel_inv 0 mp_kernel" using demo_inv by (simp add: mp_kernel_def)
  show "ready mp_kernel 1" using sched_demo_ready by (simp add: mp_kernel_def)
  show "rt_current_thread mp_kernel = Some 1" using sched_demo_current by (simp add: mp_kernel_def)
  show "mp_ok mp_kernel 7" "mp_blocks mp_kernel 7 = [1]"
    using mp_okI [of 7 mp_kernel "[1]"] mp_two_wf by (simp_all add: mp_kernel_def)
qed (simp_all add: mp_kernel_def set_mp_def sched_demo_def kernel0_def)

text \<open>The same pool with no block left, and with thread 3 waiting for one.\<close>

definition mp_empty :: kernel where
  "mp_empty = set_mp 7 (mp_two\<lparr> mp_block_list := None, block_free_count := 0, mp_header_of := (\<lambda>_. MpPool 7) \<rparr>) sched_demo"

lemma mp_empty_facts:
  "kernel_inv 0 mp_empty" "rt_current_thread mp_empty = Some 1" "ready mp_empty 1" "interrupt_nest mp_empty = 0"
  "block_free_count (mempools mp_empty 7) = 0" "items (tlists mp_empty) (mp_queue 7) = []"
  "suspend_thread_count (mempools mp_empty 7) = 0"
proof -
  show "kernel_inv 0 mp_empty" using demo_inv by (simp add: mp_empty_def)
  show "ready mp_empty 1" using sched_demo_ready by (simp add: mp_empty_def)
  show "rt_current_thread mp_empty = Some 1" using sched_demo_current by (simp add: mp_empty_def)
qed (simp_all add: mp_empty_def mp_two_def set_mp_def sched_demo_def kernel0_def)

lemma mp_contended:
  "\<exists>k t. kernel_inv 0 k \<and> mp_ok k 7 \<and> mp_blocks k 7 = [] \<and> items (tlists k) (mp_queue 7) = [t]
     \<and> suspend_thread_count (mempools k 7) = 1 \<and> block_total_count (mempools k 7) = 2"
proof -
  obtain k where k: "kernel_inv 0 k" "mp_waiting 7 1 mp_empty k"
    using rt_mp_alloc_waits [OF mp_empty_facts(1-3) _ mp_empty_facts(4), of 50 7] mp_empty_facts(5)
    by (auto simp: good_time_def)
  have "mp_wf 7 (mempools k 7) []"
    using k(2) by (auto simp: mp_waiting_def mp_wf_def mp_empty_def mp_two_def mp_stride_def mp_next_def)
  then show ?thesis
    using k mp_okI [of 7 k "[]"] mp_empty_facts(6,7)
    by (auto simp: mp_waiting_def mp_empty_def mp_two_def)
qed

theorem rt_mp_alloc_correct_witness:
  "\<exists>k'. rt_mp_alloc 7 50 mp_kernel = Some (MpReturned (Some 1), k') \<and> kernel_inv 0 k' \<and> mp_blocks k' 7 = []"
  using rt_mp_alloc_correct [OF mp_kernel_facts(1-4) _ mp_kernel_facts(5), of 50] mp_kernel_facts
  by (auto simp: good_time_def)

theorem rt_mp_alloc_free_roundtrip_witness:
  "\<exists>k1. rt_mp_alloc 7 50 mp_kernel = Some (MpReturned (Some 1), k1) \<and> rt_mp_free 7 1 k1 = Some mp_kernel"
  using rt_mp_alloc_free_roundtrip [OF mp_kernel_facts(2), of 1 "[]" 50] mp_kernel_facts by (simp add: mp_two_def)

theorem rt_mp_free_correct_witness:
  "\<exists>k'. rt_mp_free 7 0 mp_kernel = Some k' \<and> mp_blocks k' 7 = [0, 1]"
  using rt_mp_free_correct [OF mp_kernel_facts(1,2), of 0] mp_kernel_facts by (auto simp: mp_two_def)

theorem rt_mp_init_correct_witness:
  "\<exists>k'. rt_mp_init 8 ''mp'' 30 5 mp_kernel = Some (RT_EOK, k') \<and> mp_blocks k' 8 = [0, 1]"
  using rt_mp_init_correct [OF mp_kernel_facts(9,8), of 5 30 8 "''mp''"] by (auto simp: Let_def upt_rec)

theorem rt_mp_free_after_timeout_witness:
  "\<exists>k1 k2. rt_mp_alloc 7 50 mp_empty = Some (MpWaits, k1)
     \<and> rt_thread_timeout 1 (rt_timer_remove (ThreadTimer 1) k1) = Some k2 \<and> rt_mp_free 7 0 k2 = None"
  using rt_mp_free_after_timeout [OF mp_empty_facts(1-3) _ mp_empty_facts(4), of 50 7] mp_empty_facts(5-7)
  by (auto simp: good_time_def)

theorem rt_mp_alloc_stolen_witness:
  "\<exists>k k1 k2 t. rt_mp_free 7 0 k = Some k1 \<and> rt_mp_alloc 7 0 k1 = Some (MpReturned (Some 0), k2)
     \<and> rt_mp_alloc_resumed 7 t k2 = None"
proof -
  obtain k t where "kernel_inv 0 k" "mp_ok k 7" "mp_blocks k 7 = []" "items (tlists k) (mp_queue 7) = [t]"
    "suspend_thread_count (mempools k 7) = 1" "block_total_count (mempools k 7) = 2"
    using mp_contended by blast
  then show ?thesis using rt_mp_alloc_stolen [of 0 k 7 t 0 0] by auto
qed

end
