(* ===== verification/Heap.thy ===== *)
theory Heap
  imports Prelude
begin

text \<open>
  The heap of src/mem.c: blocks one behind the other, each with a header that gives the offset of the
  next and of the previous block, first fit from the lowest free block, neighbours joined when a block
  is freed. Offsets and sizes are numbers below 2 ^ 32 with the wrap-around of \<^verbatim>\<open>rt_size_t\<close> written out.
  Headers and the bytes of the user are kept apart; the invariant says that they do not overlap. The
  operations are serialised by the semaphore \<^verbatim>\<open>heap_sem\<close>, so each is one step.
\<close>

section \<open>State\<close>

record heap_mem =
  hm_magic :: nat
  hm_used :: nat
  hm_next :: nat
  hm_prev :: nat

text \<open>Pointers to headers are offsets from \<open>heap_ptr\<close>.\<close>

record heap =
  heap_ptr :: nat
  heap_end :: nat
  hdr :: "nat \<Rightarrow> heap_mem"
  lfree :: nat
  mem_size_aligned :: nat
  used_mem :: nat
  max_mem :: nat
  heap_data :: "nat \<Rightarrow> u8"

definition HEAP_MAGIC :: nat where "HEAP_MAGIC = 0x1ea0"
definition MIN_SIZE :: nat where "MIN_SIZE = 12"
definition MIN_SIZE_ALIGNED :: nat where "MIN_SIZE_ALIGNED = 16"
definition SIZEOF_STRUCT_MEM :: nat where "SIZEOF_STRUCT_MEM = 16"

definition size_add :: "nat \<Rightarrow> nat \<Rightarrow> nat" where
  "size_add a b = (a + b) mod 2 ^ 32"

definition size_sub :: "nat \<Rightarrow> nat \<Rightarrow> nat" where
  "size_sub a b = (a + (2 ^ 32 - b)) mod 2 ^ 32"

text \<open>Access to the twelve bytes of a header, which have to lie in the heap.\<close>

definition get_mem :: "heap \<Rightarrow> nat \<Rightarrow> heap_mem option" where
  "get_mem h p = (if p + 12 \<le> mem_size_aligned h + 2 * SIZEOF_STRUCT_MEM then Some (hdr h p) else None)"

definition upd_mem :: "nat \<Rightarrow> (heap_mem \<Rightarrow> heap_mem) \<Rightarrow> heap \<Rightarrow> heap option" where
  "upd_mem p f h = do { m \<leftarrow> get_mem h p; Some (h\<lparr> hdr := (hdr h)(p := f m) \<rparr>) }"

section \<open>Operations\<close>

definition plug_forward :: "nat \<Rightarrow> heap \<Rightarrow> heap option" where
  "plug_forward mem h = do {
     m \<leftarrow> get_mem h mem;
     let nmem = hm_next m;
     n \<leftarrow> get_mem h nmem;
     if mem \<noteq> nmem \<and> hm_used n = 0 \<and> nmem \<noteq> heap_end h then do {
         let h = (if lfree h = nmem then h\<lparr> lfree := mem \<rparr> else h);
         h \<leftarrow> upd_mem mem (\<lambda>m. m\<lparr> hm_next := hm_next n \<rparr>) h;
         upd_mem (hm_next n) (\<lambda>m. m\<lparr> hm_prev := mem \<rparr>) h }
       else Some h }"

definition plug_backward :: "nat \<Rightarrow> heap \<Rightarrow> heap option" where
  "plug_backward mem h = do {
     m \<leftarrow> get_mem h mem;
     let pmem = hm_prev m;
     p \<leftarrow> get_mem h pmem;
     if pmem \<noteq> mem \<and> hm_used p = 0 then do {
       let h = (if lfree h = mem then h\<lparr> lfree := pmem \<rparr> else h);
       h \<leftarrow> upd_mem pmem (\<lambda>p. p\<lparr> hm_next := hm_next m \<rparr>) h;
       upd_mem (hm_next m) (\<lambda>m. m\<lparr> hm_prev := pmem \<rparr>) h }
     else Some h }"

definition plug_holes :: "nat \<Rightarrow> heap \<Rightarrow> heap option" where
  "plug_holes mem h = do {
     rt_assert (mem < heap_end h);
     m \<leftarrow> get_mem h mem;
     rt_assert (hm_used m = 0);
     h \<leftarrow> plug_forward mem h;
     plug_backward mem h }"

text \<open>Too little memory leaves the state as it is. The addresses are \<^verbatim>\<open>rt_uint32_t\<close>.\<close>

definition rt_system_heap_init :: "u32 \<Rightarrow> u32 \<Rightarrow> heap \<Rightarrow> heap" where
  "rt_system_heap_init begin_addr end_addr h =
     (let begin_align = unat (RT_ALIGN begin_addr); end_align = unat (RT_ALIGN_DOWN end_addr) in
      if end_align > 2 * SIZEOF_STRUCT_MEM \<and> end_align - 2 * SIZEOF_STRUCT_MEM \<ge> begin_align then
        let size = end_align - begin_align - 2 * SIZEOF_STRUCT_MEM;
            e = size + SIZEOF_STRUCT_MEM
        in h\<lparr> mem_size_aligned := size, heap_ptr := begin_align, heap_end := e,
             hdr := (hdr h)(0 := \<lparr> hm_magic = HEAP_MAGIC, hm_used = 0, hm_next = e, hm_prev = 0 \<rparr>,
                            e := \<lparr> hm_magic = HEAP_MAGIC, hm_used = 1, hm_next = e, hm_prev = e \<rparr>),
             lfree := 0 \<rparr>
      else h)"

text \<open>The search for the next free block behind one that has been taken.\<close>

partial_function (option) next_free :: "heap \<Rightarrow> nat \<Rightarrow> nat option" where
  "next_free h f = do {
     m \<leftarrow> get_mem h f;
     if hm_used m \<noteq> 0 \<and> f \<noteq> heap_end h then next_free h (hm_next m) else Some f }"

definition count_used :: "nat \<Rightarrow> heap \<Rightarrow> heap" where
  "count_used n h = (let u = size_add (used_mem h) n in
     h\<lparr> used_mem := u, max_mem := (if max_mem h < u then u else max_mem h) \<rparr>)"

text \<open>Taking the free block at \<open>ptr\<close>: all of it, or its front with a new header behind.\<close>

definition malloc_mark :: "nat \<Rightarrow> nat \<Rightarrow> heap \<Rightarrow> heap option" where
  "malloc_mark len ptr h = do {
     m \<leftarrow> get_mem h ptr;
     h \<leftarrow> (if size_sub (hm_next m) (size_add ptr SIZEOF_STRUCT_MEM) \<ge> size_add (size_add len SIZEOF_STRUCT_MEM) MIN_SIZE_ALIGNED then do {
          let ptr2 = size_add (size_add ptr SIZEOF_STRUCT_MEM) len;
          h \<leftarrow> upd_mem ptr2 (\<lambda>m2. m2\<lparr> hm_used := 0, hm_next := hm_next m, hm_prev := ptr \<rparr>) h;
          h \<leftarrow> upd_mem ptr (\<lambda>m. m\<lparr> hm_next := ptr2, hm_used := 1 \<rparr>) h;
          h \<leftarrow> (if hm_next m \<noteq> mem_size_aligned h + SIZEOF_STRUCT_MEM
                then upd_mem (hm_next m) (\<lambda>m. m\<lparr> hm_prev := ptr2 \<rparr>) h else Some h);
          Some (count_used (size_add len SIZEOF_STRUCT_MEM) h) }
        else do {
          h \<leftarrow> upd_mem ptr (\<lambda>m. m\<lparr> hm_used := 1 \<rparr>) h;
          Some (count_used (size_sub (hm_next m) ptr) h) });
     upd_mem ptr (\<lambda>m. m\<lparr> hm_magic := HEAP_MAGIC \<rparr>) h }"

definition malloc_take :: "nat \<Rightarrow> nat \<Rightarrow> heap \<Rightarrow> heap option" where
  "malloc_take len ptr h = do {
     h \<leftarrow> malloc_mark len ptr h;
     if ptr = lfree h then do {
       f \<leftarrow> next_free h (lfree h);
       m \<leftarrow> get_mem h f;
       rt_assert (f = heap_end h \<or> hm_used m = 0);
       Some (h\<lparr> lfree := f \<rparr>) }
     else Some h }"

partial_function (option) malloc_loop :: "nat \<Rightarrow> nat \<Rightarrow> heap \<Rightarrow> (nat option \<times> heap) option" where
  "malloc_loop len ptr h =
     (if ptr < size_sub (mem_size_aligned h) len then do {
        m \<leftarrow> get_mem h ptr;
        if hm_used m = 0 \<and> size_sub (hm_next m) (size_add ptr SIZEOF_STRUCT_MEM) \<ge> len then do {
          h \<leftarrow> malloc_take len ptr h;
          Some (Some ptr, h) }
        else malloc_loop len (hm_next m) h }
      else Some (None, h))"

definition rt_malloc :: "u32 \<Rightarrow> heap \<Rightarrow> (nat option \<times> heap) option" where
  "rt_malloc sz h =
     (if sz = 0 then Some (None, h)
      else let len = unat (RT_ALIGN sz) in
        if len > mem_size_aligned h then Some (None, h)
        else do {
          let len = (if len < MIN_SIZE_ALIGNED then MIN_SIZE_ALIGNED else len);
          (r, h) \<leftarrow> malloc_loop len (lfree h) h;
          case r of
            None \<Rightarrow> Some (None, h)
          | Some mem \<Rightarrow> do {
              rt_assert (heap_ptr h + mem + SIZEOF_STRUCT_MEM + len \<le> heap_ptr h + heap_end h);
              rt_assert ((heap_ptr h + mem + SIZEOF_STRUCT_MEM) mod 8 = 0);
              rt_assert ((heap_ptr h + mem) mod 8 = 0);
              Some (Some (heap_ptr h + mem + SIZEOF_STRUCT_MEM), h) } })"

definition rt_free :: "nat option \<Rightarrow> heap \<Rightarrow> heap option" where
  "rt_free rmem h =
     (case rmem of
        None \<Rightarrow> Some h
      | Some a \<Rightarrow> do {
          rt_assert (a mod 8 = 0);
          rt_assert (heap_ptr h \<le> a \<and> a < heap_ptr h + heap_end h);
          rt_assert (heap_ptr h + SIZEOF_STRUCT_MEM \<le> a);
          let mem = a - SIZEOF_STRUCT_MEM - heap_ptr h;
          m \<leftarrow> get_mem h mem;
          rt_assert (hm_used m \<noteq> 0);
          rt_assert (hm_magic m = HEAP_MAGIC);
          h \<leftarrow> upd_mem mem (\<lambda>m. m\<lparr> hm_used := 0, hm_magic := 0 \<rparr>) h;
          let h = (if mem < lfree h then h\<lparr> lfree := mem \<rparr> else h);
          let h = h\<lparr> used_mem := size_sub (used_mem h) (size_sub (hm_next m) mem) \<rparr>;
          plug_holes mem h })"

text \<open>The bytes that \<^verbatim>\<open>rt_memcpy\<close> and \<^verbatim>\<open>rt_memset\<close> write are those of a block of the user.\<close>

definition copy_data :: "nat \<Rightarrow> nat \<Rightarrow> nat \<Rightarrow> heap \<Rightarrow> heap" where
  "copy_data dst src n h = h\<lparr> heap_data := (\<lambda>a. if dst \<le> a \<and> a < dst + n then heap_data h (src + (a - dst)) else heap_data h a) \<rparr>"

definition rt_realloc :: "nat option \<Rightarrow> u32 \<Rightarrow> heap \<Rightarrow> (nat option \<times> heap) option" where
  "rt_realloc rmem newsz h =
     (let newsize = unat (RT_ALIGN newsz) in
      if newsize > mem_size_aligned h then Some (None, h)
      else case rmem of
        None \<Rightarrow> rt_malloc (RT_ALIGN newsz) h
      | Some a \<Rightarrow>
          if a < heap_ptr h \<or> a \<ge> heap_ptr h + heap_end h then Some (Some a, h)
          else do {
            rt_assert (heap_ptr h + SIZEOF_STRUCT_MEM \<le> a);
            let ptr = a - SIZEOF_STRUCT_MEM - heap_ptr h;
            m \<leftarrow> get_mem h ptr;
            let len = size_sub (size_sub (hm_next m) ptr) SIZEOF_STRUCT_MEM;
            if len = newsize then Some (Some a, h)
            else if size_add newsize (SIZEOF_STRUCT_MEM + MIN_SIZE) < len then do {
              let h = h\<lparr> used_mem := size_sub (used_mem h) (len - newsize) \<rparr>;
              let ptr2 = size_add (size_add ptr SIZEOF_STRUCT_MEM) newsize;
              h \<leftarrow> upd_mem ptr2 (\<lambda>m2. m2\<lparr> hm_magic := HEAP_MAGIC, hm_used := 0, hm_next := hm_next m, hm_prev := ptr \<rparr>) h;
              h \<leftarrow> upd_mem ptr (\<lambda>m. m\<lparr> hm_next := ptr2 \<rparr>) h;
              h \<leftarrow> (if hm_next m \<noteq> mem_size_aligned h + SIZEOF_STRUCT_MEM
                    then upd_mem (hm_next m) (\<lambda>m. m\<lparr> hm_prev := ptr2 \<rparr>) h else Some h);
              h \<leftarrow> plug_holes ptr2 h;
              Some (Some a, h) }
            else do {
              (nmem, h) \<leftarrow> rt_malloc (RT_ALIGN newsz) h;
              case nmem of
                None \<Rightarrow> Some (None, h)
              | Some d \<Rightarrow> do {
                  let h = copy_data d a (if len < newsize then len else newsize) h;
                  h \<leftarrow> rt_free (Some a) h;
                  Some (Some d, h) } } })"

definition rt_calloc :: "u32 \<Rightarrow> u32 \<Rightarrow> heap \<Rightarrow> (nat option \<times> heap) option" where
  "rt_calloc count sz h = do {
     (p, h) \<leftarrow> rt_malloc (count * sz) h;
     case p of
       None \<Rightarrow> Some (None, h)
     | Some a \<Rightarrow> Some (Some a, h\<lparr> heap_data := (\<lambda>x. if a \<le> x \<and> x < a + unat (count * sz) then 0 else heap_data h x) \<rparr>) }"

definition rt_memory_info :: "heap \<Rightarrow> nat \<times> nat \<times> nat" where
  "rt_memory_info h = (mem_size_aligned h, used_mem h, max_mem h)"

lemma size_sub_le: "b \<le> a \<Longrightarrow> a < 2 ^ 32 \<Longrightarrow> size_sub a b = a - b"
proof -
  assume "b \<le> a" "a < 2 ^ 32"
  then have "a + (2 ^ 32 - b) = (a - b) + 2 ^ 32" "a - b < 2 ^ 32" by simp_all
  then show ?thesis by (simp add: size_sub_def)
qed

lemma size_add_less: "a + b < 2 ^ 32 \<Longrightarrow> size_add a b = a + b"
  by (simp add: size_add_def)

section \<open>The heap as a list of blocks\<close>

text \<open>A block is its length, header included, and whether it is in use.\<close>

type_synonym blocks = "(nat \<times> bool) list"

definition blen :: "blocks \<Rightarrow> nat" where
  "blen bs = sum_list (map fst bs)"

fun repr :: "(nat \<Rightarrow> heap_mem) \<Rightarrow> nat \<Rightarrow> nat \<Rightarrow> blocks \<Rightarrow> bool" where
  "repr H q p [] \<longleftrightarrow> True"
| "repr H q p ((n, u) # bs) \<longleftrightarrow> hm_prev (H p) = q \<and> hm_next (H p) = p + n \<and> hm_used (H p) = of_bool u
     \<and> (u \<longrightarrow> hm_magic (H p) = HEAP_MAGIC) \<and> repr H p (p + n) bs"

fun last_off :: "nat \<Rightarrow> nat \<Rightarrow> blocks \<Rightarrow> nat" where
  "last_off q p [] = q"
| "last_off q p ((n, u) # bs) = last_off p (p + n) bs"

fun first_free :: "nat \<Rightarrow> blocks \<Rightarrow> nat" where
  "first_free p [] = p"
| "first_free p ((n, u) # bs) = (if u then first_free (p + n) bs else p)"

text \<open>A free block starts at offset \<open>x\<close> when the blocks start at \<open>p\<close>.\<close>

fun starts_free :: "nat \<Rightarrow> blocks \<Rightarrow> nat \<Rightarrow> bool" where
  "starts_free p [] x \<longleftrightarrow> False"
| "starts_free p ((n, u) # bs) x \<longleftrightarrow> \<not> u \<and> x = p \<or> starts_free (p + n) bs x"

definition used_len :: "blocks \<Rightarrow> nat" where
  "used_len bs = sum_list (map fst (filter snd bs))"

definition sized :: "blocks \<Rightarrow> bool" where
  "sized bs \<longleftrightarrow> (\<forall>b \<in> set bs. 16 \<le> fst b \<and> fst b mod 8 = 0)"

definition coalesced :: "blocks \<Rightarrow> bool" where
  "coalesced bs = successively (\<lambda>a b. snd a \<or> snd b) bs"

lemma blen_simps [simp]: "blen [] = 0" "blen (b # bs) = fst b + blen bs" "blen (xs @ ys) = blen xs + blen ys"
  by (simp_all add: blen_def)

lemma used_len_simps [simp]: "used_len [] = 0" "used_len (b # bs) = (if snd b then fst b else 0) + used_len bs"
  "used_len (xs @ ys) = used_len xs + used_len ys"
  by (simp_all add: used_len_def)

lemma sized_simps [simp]: "sized []" "sized (b # bs) \<longleftrightarrow> 16 \<le> fst b \<and> fst b mod 8 = 0 \<and> sized bs"
  "sized (xs @ ys) \<longleftrightarrow> sized xs \<and> sized ys"
  by (auto simp: sized_def)

lemma coalesced_simps [simp]: "coalesced []" "coalesced [b]" "coalesced (a # b # bs) \<longleftrightarrow> (snd a \<or> snd b) \<and> coalesced (b # bs)"
  by (simp_all add: coalesced_def)

lemma coalesced_Cons: "coalesced (b # bs) \<longleftrightarrow> coalesced bs \<and> (bs = [] \<or> snd b \<or> snd (hd bs))"
  by (cases bs) auto

lemma coalesced_append:
  "coalesced (xs @ ys) \<longleftrightarrow> coalesced xs \<and> coalesced ys \<and> (xs = [] \<or> ys = [] \<or> snd (last xs) \<or> snd (hd ys))"
  by (auto simp: coalesced_def successively_append_iff)

lemma sized_dvd: "sized bs \<Longrightarrow> blen bs mod 8 = 0"
  by (induction bs) (auto simp: mod_add_eq [symmetric])

lemma used_le_blen: "used_len bs \<le> blen bs"
  by (induction bs) auto

lemma repr_append: "repr H q p (xs @ ys) \<longleftrightarrow> repr H q p xs \<and> repr H (last_off q p xs) (p + blen xs) ys"
proof (induction xs arbitrary: q p)
  case (Cons b xs)
  then show ?case by (cases b) (simp add: add.assoc)
qed simp

lemma last_off_snoc [simp]: "last_off q p (xs @ [b]) = p + blen xs"
proof (induction xs arbitrary: q p)
  case Nil
  then show ?case by (cases b) simp
next
  case (Cons c xs)
  then show ?case by (cases c) simp
qed

lemma repr_cong: "sized bs \<Longrightarrow> (\<And>x. p \<le> x \<Longrightarrow> x < p + blen bs \<Longrightarrow> H' x = H x) \<Longrightarrow> repr H' q p bs = repr H q p bs"
proof (induction bs arbitrary: q p)
  case (Cons b bs)
  obtain n u where b: "b = (n, u)" by (cases b)
  have "H' p = H p" using Cons.prems by (simp add: b)
  moreover have "repr H' p (p + n) bs = repr H p (p + n) bs"
    by (rule Cons.IH) (use Cons.prems in \<open>auto simp: b\<close>)
  ultimately show ?case by (simp add: b)
qed simp

lemma first_free_append:
  "first_free p (xs @ ys) = (if \<forall>b \<in> set xs. snd b then first_free (p + blen xs) ys else first_free p xs)"
proof (induction xs arbitrary: p)
  case (Cons b xs)
  then show ?case by (cases b) (auto simp: add.assoc)
qed simp

lemma first_free_ge: "p \<le> first_free p bs"
proof (induction bs arbitrary: p)
  case (Cons b bs)
  obtain n u where b: "b = (n, u)" by (cases b)
  show ?case using Cons.IH [of "p + n"] by (simp add: b)
qed simp

lemma first_free_less: "sized xs \<Longrightarrow> \<not> (\<forall>b \<in> set xs. snd b) \<Longrightarrow> first_free p xs < p + blen xs"
proof (induction xs arbitrary: p)
  case (Cons b xs)
  obtain n u where b: "b = (n, u)" by (cases b)
  show ?case using Cons.prems Cons.IH [of "p + n"] by (simp add: b add.assoc)
qed simp

lemma starts_free_append [simp]: "starts_free p (xs @ ys) x \<longleftrightarrow> starts_free p xs x \<or> starts_free (p + blen xs) ys x"
proof (induction xs arbitrary: p)
  case (Cons b xs)
  then show ?case by (cases b) (simp add: add.assoc)
qed simp

lemma starts_free_bounds: "starts_free p bs x \<Longrightarrow> sized bs \<Longrightarrow> p \<le> x \<and> x + 16 \<le> p + blen bs"
proof (induction bs arbitrary: p)
  case (Cons b bs)
  obtain n u where b: "b = (n, u)" by (cases b)
  show ?case using Cons.prems Cons.IH [of "p + n"] by (auto simp: b)
qed simp

lemma first_free_starts: "first_free p bs = p + blen bs \<or> starts_free p bs (first_free p bs)"
proof (induction bs arbitrary: p)
  case (Cons b bs)
  obtain n u where b: "b = (n, u)" by (cases b)
  show ?case using Cons.IH [of "p + n"] by (auto simp: b add.assoc)
qed simp

lemma starts_free_split: "starts_free p bs x \<Longrightarrow> \<exists>xs n ys. bs = xs @ (n, False) # ys \<and> x = p + blen xs"
proof (induction bs arbitrary: p)
  case (Cons b bs)
  obtain n u where b: "b = (n, u)" by (cases b)
  show ?case
  proof (cases "\<not> u \<and> x = p")
    case True
    then show ?thesis by (intro exI [of _ "[]"] exI [of _ n] exI [of _ bs]) (simp add: b)
  next
    case False
    then obtain xs m ys where "bs = xs @ (m, False) # ys" "x = p + n + blen xs"
      using Cons.prems Cons.IH [of "p + n"] by (auto simp: b)
    then show ?thesis by (intro exI [of _ "b # xs"] exI [of _ m] exI [of _ ys]) (simp add: b)
  qed
qed simp

text \<open>The headers \<open>H\<close> of a heap of \<open>M\<close> bytes hold the blocks \<open>bs\<close>, with the end of the heap behind them.\<close>

definition rep :: "(nat \<Rightarrow> heap_mem) \<Rightarrow> nat \<Rightarrow> blocks \<Rightarrow> bool" where
  "rep H M bs \<longleftrightarrow> repr H 0 0 bs \<and> sized bs \<and> blen bs = M + 16 \<and> hm_used (H (M + 16)) = 1"

definition bounds_ok :: "heap \<Rightarrow> bool" where
  "bounds_ok h \<longleftrightarrow> heap_end h = mem_size_aligned h + 16 \<and> 16 \<le> mem_size_aligned h \<and> heap_ptr h mod 8 = 0
     \<and> heap_ptr h + mem_size_aligned h + 32 < 2 ^ 32"

definition heap_ok :: "heap \<Rightarrow> blocks \<Rightarrow> bool" where
  "heap_ok h bs \<longleftrightarrow> bounds_ok h \<and> rep (hdr h) (mem_size_aligned h) bs \<and> coalesced bs
     \<and> (lfree h = blen bs \<or> starts_free 0 bs (lfree h)) \<and> used_mem h = used_len bs"

lemma rep_at:
  assumes "rep H M (xs @ (n, u) # ys)"
  shows "hm_prev (H (blen xs)) = last_off 0 0 xs" "hm_next (H (blen xs)) = blen xs + n" "hm_used (H (blen xs)) = of_bool u"
    "u \<Longrightarrow> hm_magic (H (blen xs)) = HEAP_MAGIC"
    "16 \<le> n" "n mod 8 = 0" "blen xs mod 8 = 0" "blen xs + n + blen ys = M + 16"
    "hm_used (H (blen xs + n)) = (case ys of [] \<Rightarrow> 1 | b # _ \<Rightarrow> of_bool (snd b))"
  using assms sized_dvd [of xs]
  by (auto simp: rep_def repr_append add.assoc split: list.splits)

lemma rep_free: "rep H M bs \<Longrightarrow> starts_free 0 bs x \<Longrightarrow> hm_used (H x) = 0 \<and> x \<le> M"
  using starts_free_split [of 0 bs x] rep_at(3,5,8) by fastforce

lemma rep_header:
  assumes "rep (hdr h) (mem_size_aligned h) (xs @ ys)"
  shows "get_mem h (blen xs) = Some (hdr h (blen xs))" "upd_mem (blen xs) f h = Some (h\<lparr> hdr := (hdr h)(blen xs := f (hdr h (blen xs))) \<rparr>)"
  using assms by (auto simp: rep_def get_mem_def upd_mem_def SIZEOF_STRUCT_MEM_def)

text \<open>Joining two free neighbours, forward and backward.\<close>

lemma rep_join:
  assumes r: "rep H M (xs @ (n, False) # (m, False) # ys)"
  shows "rep (H(blen xs := (H (blen xs))\<lparr> hm_next := blen xs + n + m \<rparr>,
              blen xs + n + m := (H (blen xs + n + m))\<lparr> hm_prev := blen xs \<rparr>)) M (xs @ (n + m, False) # ys)"
    (is "rep ?H M _")
proof -
  let ?p = "blen xs" and ?r = "blen xs + n + m"
  have s: "sized xs" "16 \<le> n" "n mod 8 = 0" "16 \<le> m" "m mod 8 = 0" "sized ys" "?r + blen ys = M + 16"
    and x: "repr H 0 0 xs" and y: "repr H (?p + n) ?r ys"
    and p: "hm_prev (H ?p) = last_off 0 0 xs" "hm_used (H ?p) = 0"
    using r by (auto simp: rep_def repr_append add.assoc)
  have "repr ?H 0 0 xs" using x repr_cong [OF s(1), of 0 ?H H] by (simp add: s(2,4))
  moreover have "repr ?H ?p ?r ys"
  proof (cases ys)
    case (Cons b zs)
    obtain k v where b: "b = (k, v)" by (cases b)
    have "repr ?H ?r (?r + k) zs = repr H ?r (?r + k) zs"
      by (rule repr_cong) (use s Cons b in auto)
    then show ?thesis using y s(2,4) by (simp add: Cons b)
  qed simp
  moreover have "hm_used (?H (M + 16)) = 1" using r s by (auto simp: rep_def)
  ultimately show ?thesis using s p
    by (auto simp: rep_def repr_append mod_add_eq [symmetric] add.assoc)
qed

text \<open>Cutting the front of a block off.\<close>

lemma rep_split:
  assumes r: "rep H M (xs @ (n, u) # ys)" and k: "16 \<le> k" "k mod 8 = 0" "k + 16 \<le> n"
    and p: "hm_prev (H' (blen xs)) = hm_prev (H (blen xs))" "hm_next (H' (blen xs)) = blen xs + k" "hm_used (H' (blen xs)) = 1"
      "hm_magic (H' (blen xs)) = HEAP_MAGIC"
    and p2: "hm_prev (H' (blen xs + k)) = blen xs" "hm_next (H' (blen xs + k)) = blen xs + n" "hm_used (H' (blen xs + k)) = 0"
    and nx: "H' (blen xs + n) = (if blen xs + n = M + 16 then H (blen xs + n) else (H (blen xs + n))\<lparr> hm_prev := blen xs + k \<rparr>)"
    and rest: "\<And>x. x \<noteq> blen xs \<Longrightarrow> x \<noteq> blen xs + k \<Longrightarrow> x \<noteq> blen xs + n \<Longrightarrow> H' x = H x"
  shows "rep H' M (xs @ (k, True) # (n - k, False) # ys)"
proof -
  let ?p = "blen xs" and ?r = "blen xs + n"
  have s: "sized xs" "n mod 8 = 0" "sized ys" "?r + blen ys = M + 16"
    and x: "repr H 0 0 xs" and y: "repr H ?p ?r ys" and e: "hm_used (H (M + 16)) = 1"
    and q: "hm_prev (H ?p) = last_off 0 0 xs"
    using r by (auto simp: rep_def repr_append add.assoc)
  have "repr H' 0 0 xs" using x repr_cong [OF s(1), of 0 H' H] rest k by simp
  moreover have "repr H' (?p + k) ?r ys"
  proof (cases ys)
    case (Cons b zs)
    obtain j v where b: "b = (j, v)" by (cases b)
    have "repr H' ?r (?r + j) zs = repr H ?r (?r + j) zs"
      by (rule repr_cong) (use s Cons b k rest in auto)
    then show ?thesis using y s nx by (auto simp: Cons b)
  qed simp
  moreover have "hm_used (H' (M + 16)) = 1" using e s k nx rest [of "M + 16"] by (cases ys) auto
  moreover have "(n - k) mod 8 = 0" using s(2) k(2,3) by (simp add: mod_eq_0_iff_dvd)
  ultimately show ?thesis using s p p2 k q by (simp add: rep_def repr_append)
qed

subsection \<open>Freeing\<close>

text \<open>The free block of \<open>n\<close> bytes between \<open>xs\<close> and \<open>ys\<close>, joined with its free neighbours.\<close>

fun absorb :: "nat \<Rightarrow> blocks \<Rightarrow> nat \<times> blocks" where
  "absorb n ((m, False) # zs) = (n + m, zs)"
| "absorb n ys = (n, ys)"

definition insert_free :: "blocks \<Rightarrow> nat \<Rightarrow> blocks \<Rightarrow> blocks" where
  "insert_free xs n ys =
     (if xs \<noteq> [] \<and> \<not> snd (last xs)
      then butlast xs @ (fst (last xs) + fst (absorb n ys), False) # snd (absorb n ys)
      else xs @ (fst (absorb n ys), False) # snd (absorb n ys))"

lemma get_mem_in: "p \<le> mem_size_aligned h + 16 \<Longrightarrow> get_mem h p = Some (hdr h p)"
  by (simp add: get_mem_def SIZEOF_STRUCT_MEM_def)

lemma upd_mem_in: "p \<le> mem_size_aligned h + 16 \<Longrightarrow> upd_mem p f h = Some (h\<lparr> hdr := (hdr h)(p := f (hdr h p)) \<rparr>)"
  by (simp add: upd_mem_def get_mem_in)

lemma plug_forward:
  assumes b: "bounds_ok h" and r: "rep (hdr h) (mem_size_aligned h) (xs @ (n, False) # ys)"
  shows "\<exists>H. plug_forward (blen xs) h = Some (h\<lparr> hdr := H,
           lfree := (if lfree h = blen xs + n \<and> ys \<noteq> [] \<and> \<not> snd (hd ys) then blen xs else lfree h) \<rparr>) \<and>
         rep H (mem_size_aligned h) (xs @ (fst (absorb n ys), False) # snd (absorb n ys))"
proof (cases "ys \<noteq> [] \<and> \<not> snd (hd ys)")
  case True
  then obtain m zs where ys: "ys = (m, False) # zs" by (cases ys) auto
  note f = rep_at [OF r [unfolded ys]]
  have g: "hm_next (hdr h (blen xs + n)) = blen xs + n + m" "16 \<le> m"
    using rep_at [of _ _ "xs @ [(n, False)]" m False zs] r by (auto simp: ys)
  have "rep ((hdr h)(blen xs := (hdr h (blen xs))\<lparr> hm_next := blen xs + n + m \<rparr>,
      blen xs + n + m := (hdr h (blen xs + n + m))\<lparr> hm_prev := blen xs \<rparr>)) (mem_size_aligned h) (xs @ (n + m, False) # zs)"
    using rep_join [of "hdr h" "mem_size_aligned h" xs n m zs] r by (simp add: ys)
  then show ?thesis using f(2-9) g b
    by (intro exI [of _ "(hdr h)(blen xs := (hdr h (blen xs))\<lparr> hm_next := blen xs + n + m \<rparr>,
      blen xs + n + m := (hdr h (blen xs + n + m))\<lparr> hm_prev := blen xs \<rparr>)"])
      (simp add: ys plug_forward_def get_mem_in upd_mem_in Let_def bounds_ok_def)
next
  case False
  note f = rep_at [OF r]
  show ?thesis using f(2-9) False b r
    by (intro exI [of _ "hdr h"])
      (cases "(n, ys)" rule: absorb.cases; auto simp: plug_forward_def get_mem_in Let_def bounds_ok_def)
qed

lemma plug_backward:
  assumes b: "bounds_ok h" and r: "rep (hdr h) (mem_size_aligned h) (xs @ (n, False) # ys)"
  shows "\<exists>H. plug_backward (blen xs) h = Some (h\<lparr> hdr := H,
           lfree := (if lfree h = blen xs \<and> xs \<noteq> [] \<and> \<not> snd (last xs) then blen (butlast xs) else lfree h) \<rparr>) \<and>
         rep H (mem_size_aligned h)
           (if xs \<noteq> [] \<and> \<not> snd (last xs) then butlast xs @ (fst (last xs) + n, False) # ys else xs @ (n, False) # ys)"
proof (cases "xs \<noteq> [] \<and> \<not> snd (last xs)")
  case True
  then obtain m zs where xs: "xs = zs @ [(m, False)]" by (cases xs rule: rev_cases) auto
  have r': "rep (hdr h) (mem_size_aligned h) (zs @ (m, False) # (n, False) # ys)" using r by (simp add: xs)
  note f = rep_at [OF r] and g = rep_at [OF r']
  let ?H = "(hdr h)(blen zs := (hdr h (blen zs))\<lparr> hm_next := blen zs + m + n \<rparr>,
      blen zs + m + n := (hdr h (blen zs + m + n))\<lparr> hm_prev := blen zs \<rparr>)"
  show ?thesis using rep_join [OF r'] f(1-9) g(1-9) b
    by (intro exI [of _ ?H]) (simp add: xs plug_backward_def get_mem_in upd_mem_in Let_def bounds_ok_def)
next
  case False
  note f = rep_at [OF r]
  show ?thesis
  proof (cases xs rule: rev_cases)
    case Nil
    then show ?thesis using f(1,2,5,8) r by (intro exI [of _ "hdr h"]) (simp add: plug_backward_def get_mem_in Let_def)
  next
    case (snoc zs c)
    obtain m where c: "c = (m, True)" using False by (cases c) (auto simp: snoc)
    have "hm_used (hdr h (blen zs)) = 1" using rep_at(3) [of "hdr h" _ zs m True "(n, False) # ys"] r by (simp add: snoc c)
    then show ?thesis using f(1,2,5,8) r
      by (intro exI [of _ "hdr h"]) (simp add: plug_backward_def get_mem_in Let_def snoc c)
  qed
qed

lemma plug_holes:
  assumes b: "bounds_ok h" and r: "rep (hdr h) (mem_size_aligned h) (xs @ (n, False) # ys)"
    and l: "l = (if lfree h = blen xs + n \<and> ys \<noteq> [] \<and> \<not> snd (hd ys) then blen xs else lfree h)"
  shows "\<exists>H. plug_holes (blen xs) h = Some (h\<lparr> hdr := H,
           lfree := (if l = blen xs \<and> xs \<noteq> [] \<and> \<not> snd (last xs) then blen (butlast xs) else l) \<rparr>) \<and>
         rep H (mem_size_aligned h) (insert_free xs n ys)"
proof -
  note f = rep_at [OF r]
  obtain k zs where kz: "absorb n ys = (k, zs)" by (cases "absorb n ys")
  obtain H where fw: "plug_forward (blen xs) h = Some (h\<lparr> hdr := H, lfree := l \<rparr>)"
    and H: "rep H (mem_size_aligned h) (xs @ (k, False) # zs)"
    using plug_forward [OF b r] unfolding kz l by auto
  obtain H' where bw: "plug_backward (blen xs) (h\<lparr> hdr := H, lfree := l \<rparr>) = Some (h\<lparr> hdr := H',
           lfree := (if l = blen xs \<and> xs \<noteq> [] \<and> \<not> snd (last xs) then blen (butlast xs) else l) \<rparr>)"
    and H': "rep H' (mem_size_aligned h) (insert_free xs n ys)"
    using plug_backward [of "h\<lparr> hdr := H, lfree := l \<rparr>" xs k zs] b H kz by (auto simp: bounds_ok_def insert_free_def cong: if_cong)
  have "plug_holes (blen xs) h = plug_forward (blen xs) h \<bind> plug_backward (blen xs)"
    using f(3,5,8) b by (simp add: plug_holes_def get_mem_in bounds_ok_def)
  then show ?thesis using fw bw H' by auto
qed

lemma absorb_facts: "fst (absorb n ys) + blen (snd (absorb n ys)) = n + blen ys"
  "used_len (snd (absorb n ys)) = used_len ys" "coalesced ys \<Longrightarrow> coalesced (snd (absorb n ys)) \<and> (snd (absorb n ys) = [] \<or> snd (hd (snd (absorb n ys))))"
  by (cases "(n, ys)" rule: absorb.cases; auto simp: coalesced_Cons; fail)+

lemma insert_free_cases:
  obtains (join) zs m where "xs = zs @ [(m, False)]" "insert_free xs n ys = zs @ (m + fst (absorb n ys), False) # snd (absorb n ys)"
  | (alone) "xs = [] \<or> snd (last xs)" "insert_free xs n ys = xs @ (fst (absorb n ys), False) # snd (absorb n ys)"
proof (cases xs rule: rev_cases)
  case Nil
  then show ?thesis by (intro alone) (simp_all add: insert_free_def)
next
  case (snoc zs b)
  then show ?thesis by (cases b; cases "snd b") (auto simp: insert_free_def intro: join alone)
qed

lemma insert_free_facts:
  "blen (insert_free xs n ys) = blen (xs @ (n, True) # ys)"
  "used_len (insert_free xs n ys) + n = used_len (xs @ (n, True) # ys)"
  "starts_free 0 xs x \<Longrightarrow> starts_free 0 (insert_free xs n ys) x"
  "starts_free 0 (insert_free xs n ys) (if xs \<noteq> [] \<and> \<not> snd (last xs) then blen (butlast xs) else blen xs)"
  "first_free 0 (insert_free xs n ys) = (if \<forall>b \<in> set xs. snd b then blen xs else first_free 0 xs)"
  by (cases rule: insert_free_cases [of xs n ys]; use absorb_facts(1,2) [of n ys] in \<open>auto simp: first_free_append\<close>; fail)+

lemma insert_free_coalesced: "coalesced (xs @ (n, True) # ys) \<Longrightarrow> coalesced (insert_free xs n ys)"
  by (cases rule: insert_free_cases [of xs n ys]; use absorb_facts(3) [of ys n] in \<open>auto simp: coalesced_append coalesced_Cons\<close>)

text \<open>Changing the used flag of a block.\<close>

lemma rep_upd:
  assumes r: "rep H M (xs @ (n, u) # ys)" and m: "hm_prev m = hm_prev (H (blen xs))" "hm_next m = blen xs + n"
    "hm_used m = of_bool v" "v \<Longrightarrow> hm_magic m = HEAP_MAGIC"
  shows "rep (H(blen xs := m)) M (xs @ (n, v) # ys)"
proof -
  have s: "sized xs" "16 \<le> n" "n mod 8 = 0" "sized ys" "blen xs + n + blen ys = M + 16"
    using r by (auto simp: rep_def)
  have "repr (H(blen xs := m)) 0 0 xs = repr H 0 0 xs" by (rule repr_cong) (use s in auto)
  moreover have "repr (H(blen xs := m)) (blen xs) (blen xs + n) ys = repr H (blen xs) (blen xs + n) ys"
    by (rule repr_cong) (use s in auto)
  ultimately show ?thesis using r m s by (auto simp: rep_def repr_append)
qed

lemma rt_free_block:
  assumes ok: "heap_ok h (xs @ (n, True) # ys)" and last: "16 < n \<or> ys \<noteq> []"
  shows "\<exists>h'. rt_free (Some (heap_ptr h + blen xs + 16)) h = Some h' \<and> heap_ok h' (insert_free xs n ys) \<and>
           heap_data h' = heap_data h \<and> heap_ptr h' = heap_ptr h \<and> mem_size_aligned h' = mem_size_aligned h \<and>
           (lfree h = first_free 0 (xs @ (n, True) # ys) \<longrightarrow> lfree h' = first_free 0 (insert_free xs n ys))"
proof -
  let ?bs = "xs @ (n, True) # ys" and ?M = "mem_size_aligned h"
  have b: "bounds_ok h" and r: "rep (hdr h) ?M ?bs" and c: "coalesced ?bs" and u: "used_mem h = used_len ?bs"
    and lf: "lfree h = blen ?bs \<or> starts_free 0 ?bs (lfree h)"
    using ok by (auto simp: heap_ok_def)
  note f = rep_at [OF r]
  have s: "sized xs" "sized ys" using r by (auto simp: rep_def)
  let ?l = "min (blen xs) (lfree h)"
  have l: "?l = blen xs \<or> ?l < blen xs \<and> ?l = lfree h \<and> starts_free 0 xs ?l"
    using lf starts_free_bounds [of "blen xs + n" ys "lfree h"] s f(5) by (auto simp: min_def)
  define h1 where "h1 = h\<lparr> hdr := (hdr h)(blen xs := (hdr h (blen xs))\<lparr> hm_used := 0, hm_magic := 0 \<rparr>),
    lfree := ?l, used_mem := used_mem h - n \<rparr>"
  have r1: "rep (hdr h1) (mem_size_aligned h1) (xs @ (n, False) # ys)" and b1: "bounds_ok h1"
    using rep_upd [OF r, of "(hdr h (blen xs))\<lparr> hm_used := 0, hm_magic := 0 \<rparr>" False] f(1,2) b by (auto simp: h1_def bounds_ok_def)
  have "used_len ?bs < 2 ^ 32" using used_le_blen [of ?bs] f(8) b by (auto simp: bounds_ok_def)
  then have sub: "size_sub (hm_next (hdr h (blen xs))) (blen xs) = n" "size_sub (used_mem h) n = used_mem h - n"
    using f(2,8) b u by (auto simp: size_sub_le bounds_ok_def)
  have "blen xs < mem_size_aligned h" using f(5,8) last s by (cases ys) auto
  then have e: "rt_free (Some (heap_ptr h + blen xs + 16)) h = plug_holes (blen xs) h1"
    using f(2-7) b sub
    by (auto simp: rt_free_def get_mem_in upd_mem_in SIZEOF_STRUCT_MEM_def h1_def Let_def bounds_ok_def min_def mod_add_eq [symmetric])
  define l' where "l' = (if ?l = blen xs \<and> xs \<noteq> [] \<and> \<not> snd (last xs) then blen (butlast xs) else ?l)"
  have h1: "lfree h1 = ?l" "mem_size_aligned h1 = ?M" by (simp_all add: h1_def)
  have "?l \<noteq> blen xs + n" using f(5) by (simp add: min_def)
  then obtain H where p: "plug_holes (blen xs) h1 = Some (h1\<lparr> hdr := H, lfree := l' \<rparr>)" and H: "rep H ?M (insert_free xs n ys)"
    using plug_holes [OF b1 r1 refl] h1 by (auto simp: l'_def simp del: min_less_iff_conj cong: if_cong)
  have fr: "starts_free 0 (insert_free xs n ys) l'"
    using l insert_free_facts(3) [of xs ?l n ys] insert_free_facts(4) [of xs n ys] by (auto simp: l'_def split: if_splits)
  have low: "lfree h = first_free 0 ?bs \<longrightarrow> l' = first_free 0 (insert_free xs n ys)"
  proof
    assume lf: "lfree h = first_free 0 ?bs"
    show "l' = first_free 0 (insert_free xs n ys)"
    proof (cases "\<forall>b \<in> set xs. snd b")
      case True
      then have "blen xs \<le> lfree h" using lf first_free_ge [of "blen xs + n" ys] by (simp add: first_free_append)
      then show ?thesis using True last_in_set [of xs] by (auto simp: insert_free_facts(5) l'_def min_def)
    next
      case False
      then have "lfree h = first_free 0 xs" using lf by (simp only: first_free_append if_False)
      then show ?thesis using False first_free_less [OF s(1) False, of 0]
        by (simp only: l'_def insert_free_facts(5)) auto
    qed
  qed
  show ?thesis
    using insert_free_facts(1,2) [of xs n ys] insert_free_coalesced [OF c] p e H fr low b u
    by (simp add: heap_ok_def h1_def bounds_ok_def)
qed

subsection \<open>Allocation\<close>

definition take_block :: "nat \<Rightarrow> nat \<Rightarrow> blocks" where
  "take_block s n = (if s + 48 \<le> n then [(s + 16, True), (n - (s + 16), False)] else [(n, True)])"

text \<open>
  First fit among the blocks that start at \<open>l\<close> or behind: the offset of the block taken and the blocks
  after that. The block has to start more than \<open>s\<close> bytes below \<open>M\<close>.
\<close>

fun first_fit :: "nat \<Rightarrow> nat \<Rightarrow> nat \<Rightarrow> nat \<Rightarrow> blocks \<Rightarrow> (nat \<times> blocks) option" where
  "first_fit s M l p [] = None"
| "first_fit s M l p ((n, u) # bs) =
     (if \<not> u \<and> l \<le> p \<and> s + 16 \<le> n \<and> p + s < M then Some (p, take_block s n @ bs)
      else map_option (\<lambda>(x, cs). (x, (n, u) # cs)) (first_fit s M l (p + n) bs))"

lemma first_fit_append:
  "first_fit s M l p (xs @ ys) = (case first_fit s M l p xs of
     Some (x, cs) \<Rightarrow> Some (x, cs @ ys)
   | None \<Rightarrow> map_option (\<lambda>(x, cs). (x, xs @ cs)) (first_fit s M l (p + blen xs) ys))"
proof (induction xs arbitrary: p)
  case Nil
  then show ?case by (simp add: case_prod_unfold option.map_ident)
next
  case (Cons b xs)
  obtain n u where b: "b = (n, u)" by (cases b)
  show ?case using Cons.IH [of "p + n"]
    by (auto simp: b add.assoc option.map_comp comp_def case_prod_unfold split: option.splits)
qed

lemma first_fit_below: "p + blen bs \<le> l \<Longrightarrow> sized bs \<Longrightarrow> first_fit s M l p bs = None"
proof (induction bs arbitrary: p)
  case (Cons b bs)
  obtain n u where b: "b = (n, u)" by (cases b)
  show ?case using Cons.prems Cons.IH [of "p + n"] by (auto simp: b)
qed simp

lemma first_fit_used: "\<forall>b \<in> set bs. snd b \<Longrightarrow> first_fit s M l p bs = None"
proof (induction bs arbitrary: p)
  case (Cons b bs)
  then show ?case by (cases b) auto
qed simp

lemma first_fit_Some:
  "first_fit s M l p bs = Some (x, cs) \<Longrightarrow> \<exists>xs n ys. bs = xs @ (n, False) # ys \<and> x = p + blen xs \<and> cs = xs @ take_block s n @ ys
     \<and> l \<le> x \<and> s + 16 \<le> n \<and> x + s < M"
proof (induction bs arbitrary: p cs)
  case (Cons b bs)
  obtain n u where b: "b = (n, u)" by (cases b)
  show ?case
  proof (cases "\<not> u \<and> l \<le> p \<and> s + 16 \<le> n \<and> p + s < M")
    case True
    then show ?thesis using Cons.prems by (intro exI [of _ "[]"] exI [of _ n] exI [of _ bs]) (auto simp: b)
  next
    case False
    then obtain cs' where "first_fit s M l (p + n) bs = Some (x, cs')" "cs = b # cs'" using Cons.prems by (auto simp: b)
    then obtain xs m ys where "bs = xs @ (m, False) # ys \<and> x = p + n + blen xs \<and> cs' = xs @ take_block s m @ ys
     \<and> l \<le> x \<and> s + 16 \<le> m \<and> x + s < M" using Cons.IH by blast
    then show ?thesis using \<open>cs = b # cs'\<close> by (intro exI [of _ "b # xs"] exI [of _ m] exI [of _ ys]) (auto simp: b)
  qed
qed simp

lemma first_fit_None:
  "first_fit s M 0 p bs = None \<longleftrightarrow> (\<forall>xs n ys. bs = xs @ (n, False) # ys \<longrightarrow> n < s + 16 \<or> M \<le> p + blen xs + s)" (is "?l \<longleftrightarrow> ?r")
proof
  show "?r" if ?l
  proof (intro allI impI)
    fix xs n ys
    assume "bs = xs @ (n, False) # ys"
    with that show "n < s + 16 \<or> M \<le> p + blen xs + s"
      by (auto simp: first_fit_append not_less [symmetric] split: option.splits if_splits)
  qed
  show "?l" if ?r
  proof (cases "first_fit s M 0 p bs")
    case (Some z)
    then obtain xs n ys where "bs = xs @ (n, False) # ys" "s + 16 \<le> n" "p + blen xs + s < M"
      using first_fit_Some [of s M 0 p bs "fst z" "snd z"] by auto
    moreover from this have "n < s + 16 \<or> M \<le> p + blen xs + s" using that by blast
    ultimately show ?thesis by simp
  qed
qed

lemma first_fit_end: "M \<le> p + s \<Longrightarrow> first_fit s M l p bs = None"
proof (induction bs arbitrary: p)
  case (Cons b bs)
  then show ?case by (cases b) auto
qed simp

text \<open>The loops of \<^verbatim>\<open>rt_malloc\<close>.\<close>

lemma next_free:
  assumes "rep (hdr h) (mem_size_aligned h) (xs @ ys)" "heap_end h = mem_size_aligned h + 16"
  shows "next_free h (blen xs) = Some (first_free (blen xs) ys)"
  using assms
proof (induction ys arbitrary: xs)
  case Nil
  then show ?case by (subst next_free.simps) (auto simp: rep_def get_mem_in)
next
  case (Cons b ys)
  obtain n u where b: "b = (n, u)" by (cases b)
  note f = rep_at [OF Cons.prems(1) [unfolded b]]
  show ?case using Cons.IH [of "xs @ [b]"] Cons.prems f(2,3,5,8)
    by (subst next_free.simps) (auto simp: b get_mem_in)
qed

lemma malloc_loop:
  assumes "rep (hdr h) (mem_size_aligned h) (xs @ ys)" "mem_size_aligned h < 2 ^ 32 - 32" "len \<le> mem_size_aligned h" "l \<le> blen xs"
  shows "malloc_loop len (blen xs) h = (case first_fit len (mem_size_aligned h) l (blen xs) ys of
    None \<Rightarrow> Some (None, h) | Some (x, _) \<Rightarrow> do { h \<leftarrow> malloc_take len x h; Some (Some x, h) })"
  using assms
proof (induction ys arbitrary: xs)
  case Nil
  then show ?case by (subst malloc_loop.simps) (auto simp: rep_def size_sub_le)
next
  case (Cons b ys)
  obtain n u where b: "b = (n, u)" by (cases b)
  note f = rep_at [OF Cons.prems(1) [unfolded b]]
  have g: "get_mem h (blen xs) = Some (hdr h (blen xs))" "size_sub (mem_size_aligned h) len = mem_size_aligned h - len"
    "size_sub (hm_next (hdr h (blen xs))) (size_add (blen xs) SIZEOF_STRUCT_MEM) = n - 16"
    using Cons.prems f(2,5,8) by (simp_all add: get_mem_in size_sub_le size_add_less SIZEOF_STRUCT_MEM_def)
  show ?case
  proof (cases "blen xs + len < mem_size_aligned h")
    case False
    then have "\<not> blen xs < mem_size_aligned h - len" by linarith
    then show ?thesis using g(2) False by (subst malloc_loop.simps) (simp add: first_fit_end)
  next
    case True
    then show ?thesis
    proof (cases "\<not> u \<and> len + 16 \<le> n")
      case True
      moreover from this have "len \<le> n - 16" "blen xs < mem_size_aligned h - len"
        using \<open>blen xs + len < mem_size_aligned h\<close> by linarith+
      ultimately show ?thesis using \<open>blen xs + len < mem_size_aligned h\<close> Cons.prems(4) f(3) g
        by (subst malloc_loop.simps) (simp add: b)
    next
      case no: False
      have "malloc_loop len (blen xs) h = malloc_loop len (blen xs + n) h"
        using True no f(2,3,5) g by (subst malloc_loop.simps) auto
      then show ?thesis using Cons.IH [of "xs @ [b]"] Cons.prems no
        by (auto simp: b add.assoc split: option.splits)
    qed
  qed
qed

text \<open>Taking a block.\<close>

lemma take_block_facts:
  "blen (take_block s n) = n" "starts_free p (take_block s n) x \<longleftrightarrow> s + 48 \<le> n \<and> x = p + s + 16"
  "take_block s n \<noteq> []" "snd (hd (take_block s n))"
  "used_len (take_block s n) = (if s + 48 \<le> n then s + 16 else n)"
  by (auto simp: take_block_def)

lemma malloc_mark:
  assumes b: "bounds_ok h" and r: "rep (hdr h) (mem_size_aligned h) (xs @ (n, False) # ys)"
    and s: "s mod 8 = 0" "s + 16 \<le> n" "16 \<le> s" and u: "used_mem h = used_len (xs @ (n, False) # ys)"
  shows "\<exists>H m. malloc_mark s (blen xs) h =
     Some (h\<lparr> hdr := H, used_mem := used_len (xs @ take_block s n @ ys), max_mem := m \<rparr>) \<and>
     rep H (mem_size_aligned h) (xs @ take_block s n @ ys)"
proof -
  let ?bs = "xs @ (n, False) # ys" and ?M = "mem_size_aligned h" and ?p = "blen xs" and ?H = "hdr h"
  note f = rep_at [OF r]
  have bd: "?M < 2 ^ 32 - 32" using b by (simp add: bounds_ok_def)
  have "used_len xs + used_len ys + n \<le> ?M + 16" using used_le_blen [of xs] used_le_blen [of ys] f(8) by simp
  then have ua: "size_add (used_mem h) (s + 16) = used_mem h + (s + 16)" "size_add (used_mem h) n = used_mem h + n"
    using u s bd by (simp_all add: size_add_less)
  have a: "size_add ?p 16 = ?p + 16" "size_add (?p + 16) s = ?p + 16 + s" "size_add s 16 = s + 16" "size_add (s + 16) 16 = s + 32"
    "size_sub (?p + n) (?p + 16) = n - 16" "size_sub (?p + n) ?p = n"
    using f(8) s bd by (simp_all add: size_add_less size_sub_le)
  show ?thesis
  proof (cases "s + 48 \<le> n")
    case True
    let ?H1 = "?H(?p + 16 + s := (?H (?p + 16 + s))\<lparr> hm_used := 0, hm_next := ?p + n, hm_prev := ?p \<rparr>,
        ?p := (?H ?p)\<lparr> hm_next := ?p + 16 + s, hm_used := 1, hm_magic := HEAP_MAGIC \<rparr>)"
    let ?H2 = "if ?p + n = ?M + 16 then ?H1 else ?H1(?p + n := (?H (?p + n))\<lparr> hm_prev := ?p + 16 + s \<rparr>)"
    have "rep ?H2 ?M (xs @ (s + 16, True) # (n - (s + 16), False) # ys)"
      by (rule rep_split [OF r]) (use s True in auto)
    moreover have "\<exists>m. malloc_mark s ?p h = Some (h\<lparr> hdr := ?H2, used_mem := used_mem h + (s + 16), max_mem := m \<rparr>)"
      using True s a f(2,3,5,8) ua(1)
      by (intro exI [of _ "max (max_mem h) (used_mem h + (s + 16))"])
        (auto intro!: heap.equality ext simp: malloc_mark_def get_mem_in upd_mem_in Let_def MIN_SIZE_ALIGNED_def SIZEOF_STRUCT_MEM_def count_used_def)
    moreover have t: "take_block s n @ ys = (s + 16, True) # (n - (s + 16), False) # ys" using True by (simp add: take_block_def)
    moreover have "used_len (xs @ take_block s n @ ys) = used_mem h + (s + 16)" using u by (simp add: t)
    ultimately show ?thesis by metis
  next
    case False
    let ?H1 = "?H(?p := (?H ?p)\<lparr> hm_used := 1, hm_magic := HEAP_MAGIC \<rparr>)"
    have "rep ?H1 ?M (xs @ (n, True) # ys)" by (rule rep_upd [OF r]) (simp_all add: f(2))
    moreover have "\<exists>m. malloc_mark s ?p h = Some (h\<lparr> hdr := ?H1, used_mem := used_mem h + n, max_mem := m \<rparr>)"
      using False s a f(2,3,5,8) ua(2)
      by (intro exI [of _ "max (max_mem h) (used_mem h + n)"])
        (auto intro!: heap.equality ext simp: malloc_mark_def get_mem_in upd_mem_in Let_def MIN_SIZE_ALIGNED_def SIZEOF_STRUCT_MEM_def count_used_def)
    moreover have t: "take_block s n @ ys = (n, True) # ys" using False by (simp add: take_block_def)
    moreover have "used_len (xs @ take_block s n @ ys) = used_mem h + n" using u by (simp add: t)
    ultimately show ?thesis by metis
  qed
qed

lemma malloc_take:
  assumes ok: "heap_ok h (xs @ (n, False) # ys)" and s: "s mod 8 = 0" "s + 16 \<le> n" "16 \<le> s"
  shows "\<exists>h'. malloc_take s (blen xs) h = Some h' \<and> heap_ok h' (xs @ take_block s n @ ys) \<and> heap_data h' = heap_data h \<and>
     heap_ptr h' = heap_ptr h \<and> heap_end h' = heap_end h \<and> mem_size_aligned h' = mem_size_aligned h \<and>
     (lfree h = first_free 0 (xs @ (n, False) # ys) \<longrightarrow> lfree h' = first_free 0 (xs @ take_block s n @ ys))"
proof -
  let ?bs = "xs @ (n, False) # ys" and ?bs' = "xs @ take_block s n @ ys" and ?M = "mem_size_aligned h"
  have b: "bounds_ok h" and r: "rep (hdr h) ?M ?bs" and c: "coalesced ?bs" and u: "used_mem h = used_len ?bs"
    and lf: "lfree h = blen ?bs \<or> starts_free 0 ?bs (lfree h)"
    using ok by (auto simp: heap_ok_def)
  obtain H m where k: "malloc_mark s (blen xs) h = Some (h\<lparr> hdr := H, used_mem := used_len ?bs', max_mem := m \<rparr>)"
    and H: "rep H ?M ?bs'"
    using malloc_mark [OF b r s u] by blast
  let ?h = "h\<lparr> hdr := H, used_mem := used_len ?bs', max_mem := m \<rparr>"
  define l' where "l' = (if blen xs = lfree h then first_free (blen xs) (take_block s n @ ys) else lfree h)"
  have len: "blen ?bs' = blen ?bs" by (simp add: take_block_facts)
  have nf: "next_free ?h (blen xs) = Some (first_free (blen xs) (take_block s n @ ys))"
    by (rule next_free) (use H b in \<open>simp_all add: bounds_ok_def\<close>)
  let ?f = "first_free (blen xs) (take_block s n @ ys)"
  have ff: "?f = ?M + 16 \<or> starts_free 0 ?bs' ?f"
    using first_free_starts [of "blen xs" "take_block s n @ ys"] rep_at(8) [OF r] by (auto simp: take_block_facts)
  then have g: "?f \<le> ?M + 16" "?f = ?M + 16 \<or> hm_used (H ?f) = 0"
    using rep_free [OF H, of ?f] by auto
  have tk: "malloc_take s (blen xs) h = Some (?h\<lparr> lfree := l' \<rparr>)"
  proof (cases "blen xs = lfree h")
    case True
    then have "get_mem ?h ?f = Some (H ?f)" "heap_end h = ?M + 16" using g(1) b by (simp_all add: get_mem_in bounds_ok_def)
    then show ?thesis using True k nf g(2) by (simp add: malloc_take_def l'_def)
  next
    case False
    then show ?thesis using k by (simp add: malloc_take_def l'_def)
  qed
  have l': "l' = blen ?bs' \<or> starts_free 0 ?bs' l'"
  proof (cases "blen xs = lfree h")
    case True
    then show ?thesis using ff rep_at(8) [OF r] len by (simp add: l'_def add.assoc)
  next
    case False
    then have "lfree h = blen ?bs \<or> starts_free 0 xs (lfree h) \<or> starts_free (blen xs + n) ys (lfree h)" "l' = lfree h"
      using lf by (auto simp: l'_def)
    then show ?thesis using len by (elim disjE) (simp_all add: take_block_facts)
  qed
  have low: "l' = first_free 0 ?bs'" if lf: "lfree h = first_free 0 ?bs"
  proof (cases "\<forall>b \<in> set xs. snd b")
    case True
    then show ?thesis using lf by (simp add: l'_def first_free_append)
  next
    case False
    then have "first_free 0 xs < blen xs" using first_free_less [of xs 0] r by (simp add: rep_def)
    then show ?thesis using False lf by (simp only: l'_def first_free_append if_False) simp
  qed
  have "coalesced ?bs'"
    using c by (auto simp: coalesced_append coalesced_Cons take_block_def)
  then have "heap_ok (?h\<lparr> lfree := l' \<rparr>) ?bs'" using H b l' by (simp add: heap_ok_def bounds_ok_def del: blen_simps used_len_simps starts_free_append)
  then show ?thesis using tk low by (intro exI [of _ "?h\<lparr> lfree := l' \<rparr>"]) simp
qed

lemma RT_ALIGN_mod8: "unat (RT_ALIGN sz) mod 8 = 0"
  using unat_align [of "sz + 7" 3] by (simp add: RT_ALIGN_def mask_eq_exp_minus_1)

lemma RT_ALIGN_idem: "RT_ALIGN (RT_ALIGN sz) = RT_ALIGN sz"
proof -
  have "unat (RT_ALIGN sz) mod 8 = 0" "unat (RT_ALIGN sz) < 2 ^ 32"
    using RT_ALIGN_mod8 unsigned_less [of "RT_ALIGN sz", where ?'a = nat] by simp_all
  then obtain k where k: "unat (RT_ALIGN sz) = 8 * k" "8 * k + 7 < 2 ^ 32" by (auto simp: mod_eq_0_iff_dvd elim!: dvdE)
  then have "unat (RT_ALIGN (RT_ALIGN sz)) = unat (RT_ALIGN sz)" by (subst unat_RT_ALIGN) simp_all
  then show ?thesis by (simp add: word_unat_eq_iff)
qed

text \<open>The size that \<^verbatim>\<open>rt_malloc\<close> looks for.\<close>

definition malloc_size :: "u32 \<Rightarrow> nat" where
  "malloc_size sz = max 16 (unat (RT_ALIGN sz))"

text \<open>What \<^verbatim>\<open>rt_malloc\<close> promises: first fit from \<open>lfree\<close> on.\<close>

definition malloc_spec :: "u32 \<Rightarrow> nat \<Rightarrow> nat \<Rightarrow> blocks \<Rightarrow> (nat \<times> blocks) option" where
  "malloc_spec sz M l bs = (if sz = 0 then None else first_fit (malloc_size sz) M l 0 bs)"

lemma first_fit_from:
  assumes "sized xs" shows "first_fit s M (blen xs) 0 (xs @ ys) = map_option (\<lambda>(x, cs). (x, xs @ cs)) (first_fit s M (blen xs) (blen xs) ys)"
  using first_fit_below [of 0 xs "blen xs"] assms by (simp add: first_fit_append)

lemma rt_malloc_blocks:
  assumes ok: "heap_ok h bs" and res: "malloc_spec sz (mem_size_aligned h) (lfree h) bs = res"
  shows "\<exists>h'. rt_malloc sz h = Some (map_option (\<lambda>(x, _). heap_ptr h + x + 16) res, h') \<and>
     heap_ok h' (case res of None \<Rightarrow> bs | Some (_, cs) \<Rightarrow> cs) \<and> (res = None \<longrightarrow> h' = h) \<and>
     heap_data h' = heap_data h \<and> heap_ptr h' = heap_ptr h \<and> mem_size_aligned h' = mem_size_aligned h \<and>
     (lfree h = first_free 0 bs \<longrightarrow> lfree h' = first_free 0 (case res of None \<Rightarrow> bs | Some (_, cs) \<Rightarrow> cs))"
proof (cases "sz = 0 \<or> mem_size_aligned h < unat (RT_ALIGN sz)")
  case True
  have "res = None"
    using res True first_fit_end [of "mem_size_aligned h" 0 "malloc_size sz" "lfree h" bs] by (auto simp: malloc_spec_def malloc_size_def)
  then show ?thesis using True ok by (auto simp: rt_malloc_def Let_def)
next
  case False
  let ?M = "mem_size_aligned h" and ?s = "malloc_size sz"
  have b: "bounds_ok h" and r: "rep (hdr h) ?M bs" and lf: "lfree h = blen bs \<or> starts_free 0 bs (lfree h)"
    using ok by (auto simp: heap_ok_def)
  obtain xs ys where bs: "bs = xs @ ys" "lfree h = blen xs"
    using lf starts_free_split [of 0 bs "lfree h"] by auto
  have s: "?s mod 8 = 0" "16 \<le> ?s" "?s \<le> ?M"
    using RT_ALIGN_mod8 [of sz] False b by (auto simp: malloc_size_def bounds_ok_def max_def)
  have M: "?M < 2 ^ 32 - 32" using b by (simp add: bounds_ok_def)
  have "rep (hdr h) ?M (xs @ ys)" "sized xs" using r bs by (auto simp: rep_def)
  note ml = malloc_loop [OF this(1) M s(3) order_refl, folded bs(2)]
  have loop: "malloc_loop ?s (lfree h) h = (case first_fit ?s ?M (lfree h) 0 bs of
    None \<Rightarrow> Some (None, h) | Some (x, _) \<Rightarrow> do { h \<leftarrow> malloc_take ?s x h; Some (Some x, h) })"
    using ml first_fit_from [OF \<open>sized xs\<close>, of ?s ?M ys] bs by (auto split: option.splits)
  have s0: "(if unat (RT_ALIGN sz) < MIN_SIZE_ALIGNED then MIN_SIZE_ALIGNED else unat (RT_ALIGN sz)) = ?s"
    by (simp add: malloc_size_def MIN_SIZE_ALIGNED_def)
  have m: "rt_malloc sz h = do { (r, h) \<leftarrow> malloc_loop ?s (lfree h) h;
         case r of None \<Rightarrow> Some (None, h)
          | Some mem \<Rightarrow> do {
              rt_assert (heap_ptr h + mem + SIZEOF_STRUCT_MEM + ?s \<le> heap_ptr h + heap_end h);
              rt_assert ((heap_ptr h + mem + SIZEOF_STRUCT_MEM) mod 8 = 0);
              rt_assert ((heap_ptr h + mem) mod 8 = 0);
              Some (Some (heap_ptr h + mem + SIZEOF_STRUCT_MEM), h) } }"
    unfolding rt_malloc_def Let_def s0 using False by simp
  show ?thesis
  proof (cases "first_fit ?s ?M (lfree h) 0 bs")
    case None
    then have "res = None" using res None by (auto simp: malloc_spec_def split: if_splits)
    then show ?thesis using None m loop ok by simp
  next
    case (Some z)
    obtain x cs where z: "z = (x, cs)" by (cases z)
    obtain us n vs where f: "bs = us @ (n, False) # vs" "x = blen us" "cs = us @ take_block ?s n @ vs"
      "?s + 16 \<le> n" "x + ?s < ?M"
      using first_fit_Some Some z by (metis add_0)
    obtain h' where h': "malloc_take ?s x h = Some h'" "heap_ok h' cs" "heap_data h' = heap_data h" "heap_ptr h' = heap_ptr h"
      "heap_end h' = heap_end h" "mem_size_aligned h' = ?M" "lfree h = first_free 0 bs \<longrightarrow> lfree h' = first_free 0 cs"
      using malloc_take [OF ok [unfolded f(1)] s(1) f(4) s(2)] f(1-3) by auto
    have "x + n \<le> ?M + 16" "x mod 8 = 0" using rep_at(7,8) [OF r [unfolded f(1)]] f(2) by auto
    then have "rt_malloc sz h = Some (Some (heap_ptr h + x + 16), h')"
      using m loop h' f(4) Some z b by (simp add: bounds_ok_def SIZEOF_STRUCT_MEM_def mod_add_eq [symmetric])
    moreover have "res = Some (x, cs)" using res Some z False by (simp add: malloc_spec_def)
    ultimately show ?thesis using h' by simp
  qed
qed

subsection \<open>Changing the size of a block\<close>

lemma absorb_starts_free:
  "starts_free p ys x \<Longrightarrow> x = p \<and> ys \<noteq> [] \<and> \<not> snd (hd ys) \<or> starts_free (p + fst (absorb n ys) - n) (snd (absorb n ys)) x"
  by (cases "(n, ys)" rule: absorb.cases) (auto simp: add.commute)

lemma rt_realloc_same:
  assumes ok: "heap_ok h (xs @ (n, True) # ys)" and last: "16 < n \<or> ys \<noteq> []" and n: "unat (RT_ALIGN sz) = n - 16"
  shows "rt_realloc (Some (heap_ptr h + blen xs + 16)) sz h =
    Some (if n - 16 > mem_size_aligned h then None else Some (heap_ptr h + blen xs + 16), h)"
proof -
  have b: "bounds_ok h" and r: "rep (hdr h) (mem_size_aligned h) (xs @ (n, True) # ys)" using ok by (auto simp: heap_ok_def)
  note f = rep_at [OF r]
  have "sized ys" using r by (auto simp: rep_def)
  then have "blen xs < mem_size_aligned h" using f(5,8) last by (cases ys) auto
  moreover have "size_sub (hm_next (hdr h (blen xs))) (blen xs) = n" "size_sub n 16 = n - 16"
    using f(2,5,8) b by (simp_all add: size_sub_le bounds_ok_def)
  ultimately show ?thesis using b n by (simp add: rt_realloc_def get_mem_in SIZEOF_STRUCT_MEM_def bounds_ok_def Let_def)
qed

lemma rt_realloc_shrink:
  assumes ok: "heap_ok h (xs @ (n, True) # ys)" and k: "unat (RT_ALIGN sz) = k" "k + 44 < n" "k \<le> mem_size_aligned h"
  shows "\<exists>h'. rt_realloc (Some (heap_ptr h + blen xs + 16)) sz h = Some (Some (heap_ptr h + blen xs + 16), h') \<and>
    heap_ok h' (xs @ (k + 16, True) # (fst (absorb (n - (k + 16)) ys), False) # snd (absorb (n - (k + 16)) ys)) \<and>
    heap_data h' = heap_data h \<and> heap_ptr h' = heap_ptr h \<and> mem_size_aligned h' = mem_size_aligned h \<and>
    lfree h' = (if lfree h = blen xs + n \<and> ys \<noteq> [] \<and> \<not> snd (hd ys) then blen xs + (k + 16) else lfree h)"
proof -
  let ?bs = "xs @ (n, True) # ys" and ?M = "mem_size_aligned h" and ?p = "blen xs" and ?H = "hdr h" and ?q = "blen xs + 16 + k"
  have b: "bounds_ok h" and r: "rep ?H ?M ?bs" and c: "coalesced ?bs" and u: "used_mem h = used_len ?bs"
    and lf: "lfree h = blen ?bs \<or> starts_free 0 ?bs (lfree h)"
    using ok by (auto simp: heap_ok_def)
  note f = rep_at [OF r]
  have k8: "k mod 8 = 0" using RT_ALIGN_mod8 [of sz] k(1) by simp
  let ?H1 = "?H(?q := (?H ?q)\<lparr> hm_magic := HEAP_MAGIC, hm_used := 0, hm_next := ?p + n, hm_prev := ?p \<rparr>, ?p := (?H ?p)\<lparr> hm_next := ?q \<rparr>)"
  let ?H2 = "if ?p + n = ?M + 16 then ?H1 else ?H1(?p + n := (?H (?p + n))\<lparr> hm_prev := ?q \<rparr>)"
  define h1 where "h1 = h\<lparr> used_mem := used_mem h - (n - 16 - k), hdr := ?H2 \<rparr>"
  have r2: "rep ?H2 ?M (xs @ (k + 16, True) # (n - (k + 16), False) # ys)"
    by (rule rep_split [OF r]) (use k k8 f(3,4) in auto)
  then have r1: "rep (hdr h1) (mem_size_aligned h1) ((xs @ [(k + 16, True)]) @ (n - (k + 16), False) # ys)" and b1: "bounds_ok h1"
    using b by (simp_all add: h1_def bounds_ok_def)
  define l where "l = (if lfree h = blen xs + n \<and> ys \<noteq> [] \<and> \<not> snd (hd ys) then blen xs + (k + 16) else lfree h)"
  have l1: "l = (if lfree h1 = blen (xs @ [(k + 16, True)]) + (n - (k + 16)) \<and> ys \<noteq> [] \<and> \<not> snd (hd ys)
      then blen (xs @ [(k + 16, True)]) else lfree h1)"
    using k by (simp add: l_def h1_def)
  obtain H where pl: "plug_holes (blen (xs @ [(k + 16, True)])) h1 = Some (h1\<lparr> hdr := H, lfree := l \<rparr>)"
    and H: "rep H ?M (xs @ (k + 16, True) # (fst (absorb (n - (k + 16)) ys), False) # snd (absorb (n - (k + 16)) ys))"
    using plug_holes [OF b1 r1 l1] by (auto simp: insert_free_def h1_def cong: if_cong)
  have le: "used_len xs + used_len ys + n \<le> ?M + 16" using used_le_blen [of xs] used_le_blen [of ys] f(8) by simp
  have a: "size_sub (hm_next (?H ?p)) ?p = n" "size_sub n 16 = n - 16" "size_add k 28 = k + 28" "size_add ?p 16 = ?p + 16"
    "size_add (?p + 16) k = ?q" "size_sub (used_mem h) (n - 16 - k) = used_mem h - (n - 16 - k)"
    using f(2,5,8) b k le u by (simp_all add: size_sub_le size_add_less bounds_ok_def)
  have e: "rt_realloc (Some (heap_ptr h + ?p + 16)) sz h = do { h2 \<leftarrow> plug_holes ?q h1; Some (Some (heap_ptr h + ?p + 16), h2) }"
    using a k f(2,5,8) b
    by (auto simp: rt_realloc_def get_mem_in upd_mem_in SIZEOF_STRUCT_MEM_def MIN_SIZE_def bounds_ok_def Let_def h1_def)
  have lf': "l = blen ?bs \<or> starts_free 0 (xs @ (k + 16, True) # (fst (absorb (n - (k + 16)) ys), False) # snd (absorb (n - (k + 16)) ys)) l"
    using lf absorb_starts_free [of "blen xs + n" ys "lfree h" "n - (k + 16)"] k
    by (auto simp: l_def ac_simps)
  have "coalesced (xs @ (k + 16, True) # (fst (absorb (n - (k + 16)) ys), False) # snd (absorb (n - (k + 16)) ys))"
    using c absorb_facts(3) [of ys "n - (k + 16)"] by (auto simp: coalesced_append coalesced_Cons)
  moreover have "used_mem h1 = used_len (xs @ (k + 16, True) # (fst (absorb (n - (k + 16)) ys), False) # snd (absorb (n - (k + 16)) ys))"
    using u k by (simp add: h1_def absorb_facts(2))
  moreover have "blen (xs @ (k + 16, True) # (fst (absorb (n - (k + 16)) ys), False) # snd (absorb (n - (k + 16)) ys)) = blen ?bs"
    using absorb_facts(1) [of "n - (k + 16)" ys] k by simp
  ultimately have "heap_ok (h1\<lparr> hdr := H, lfree := l \<rparr>) (xs @ (k + 16, True) # (fst (absorb (n - (k + 16)) ys), False) # snd (absorb (n - (k + 16)) ys))"
    using b1 H lf' by (simp add: heap_ok_def bounds_ok_def h1_def del: blen_simps used_len_simps starts_free_append)
  moreover have "rt_realloc (Some (heap_ptr h + ?p + 16)) sz h = Some (Some (heap_ptr h + ?p + 16), h1\<lparr> hdr := H, lfree := l \<rparr>)"
    using e pl by (simp add: ac_simps)
  ultimately show ?thesis
    by (intro exI [of _ "h1\<lparr> hdr := H, lfree := l \<rparr>"]) (simp add: h1_def l_def)
qed

lemma used_block_kept:
  assumes "first_fit s M l 0 (xs @ (n, True) # ys) = Some (x, cs)"
  obtains xs' ys' where "cs = xs' @ (n, True) # ys'" "blen xs' = blen xs" "ys \<noteq> [] \<longrightarrow> ys' \<noteq> []"
proof -
  obtain us m vs where f: "xs @ (n, True) # ys = us @ (m, False) # vs" "cs = us @ take_block s m @ vs"
    using first_fit_Some [OF assms] by blast
  then consider (left) us' where "xs = us @ (m, False) # us'" "vs = us' @ (n, True) # ys"
    | (right) vs' where "us = xs @ (n, True) # vs'" "ys = vs' @ (m, False) # vs"
    by (auto simp: append_eq_append_conv2 Cons_eq_append_conv append_eq_Cons_conv)
  then show ?thesis
  proof cases
    case left
    then show ?thesis using that [of "us @ take_block s m @ us'" ys] f(2) by (simp add: take_block_facts)
  next
    case right
    then show ?thesis using that [of xs "vs' @ take_block s m @ vs"] f(2) by (simp add: take_block_facts)
  qed
qed

lemma copy_data_facts: "heap_ok (copy_data d a n h) bs = heap_ok h bs" "heap_ptr (copy_data d a n h) = heap_ptr h"
  "i < n \<Longrightarrow> heap_data (copy_data d a n h) (d + i) = heap_data h (a + i)"
  by (auto simp: copy_data_def heap_ok_def bounds_ok_def)

lemma rt_realloc_move:
  assumes ok: "heap_ok h (xs @ (n, True) # ys)" and last: "16 < n \<or> ys \<noteq> []"
    and k: "unat (RT_ALIGN sz) = k" "n \<le> k + 44" "k \<noteq> n - 16" "k \<le> mem_size_aligned h"
    and res: "malloc_spec (RT_ALIGN sz) (mem_size_aligned h) (lfree h) (xs @ (n, True) # ys) = res"
  shows "case res of None \<Rightarrow> rt_realloc (Some (heap_ptr h + blen xs + 16)) sz h = Some (None, h)
    | Some (x, cs) \<Rightarrow> \<exists>xs' ys' h'. cs = xs' @ (n, True) # ys' \<and> blen xs' = blen xs \<and>
        rt_realloc (Some (heap_ptr h + blen xs + 16)) sz h = Some (Some (heap_ptr h + x + 16), h') \<and>
        heap_ok h' (insert_free xs' n ys') \<and>
        (\<forall>i < min (n - 16) k. heap_data h' (heap_ptr h + x + 16 + i) = heap_data h (heap_ptr h + blen xs + 16 + i))"
proof -
  have b: "bounds_ok h" and r: "rep (hdr h) (mem_size_aligned h) (xs @ (n, True) # ys)" using ok by (auto simp: heap_ok_def)
  note f = rep_at [OF r]
  let ?a = "heap_ptr h + blen xs + 16"
  have "sized ys" using r by (auto simp: rep_def)
  then have lt: "blen xs < mem_size_aligned h" using f(5,8) last by (cases ys) auto
  have sz: "size_sub (hm_next (hdr h (blen xs))) (blen xs) = n" "size_sub n 16 = n - 16" "size_add k 28 = k + 28"
    using f(2,5,8) b k(4) by (simp_all add: size_sub_le size_add_less bounds_ok_def)
  obtain h1 where m: "rt_malloc (RT_ALIGN sz) h = Some (map_option (\<lambda>(x, _). heap_ptr h + x + 16) res, h1)"
    "heap_ok h1 (case res of None \<Rightarrow> xs @ (n, True) # ys | Some (_, cs) \<Rightarrow> cs)" "res = None \<longrightarrow> h1 = h"
    "heap_data h1 = heap_data h" "heap_ptr h1 = heap_ptr h"
    using rt_malloc_blocks [OF ok res] by blast
  have e: "rt_realloc (Some ?a) sz h = do {
       (nmem, h1) \<leftarrow> rt_malloc (RT_ALIGN sz) h;
       case nmem of None \<Rightarrow> Some (None, h1)
       | Some d \<Rightarrow> do { h2 \<leftarrow> rt_free (Some ?a) (copy_data d ?a (min (n - 16) k) h1); Some (Some d, h2) } }"
    using sz k lt b by (auto simp: rt_realloc_def get_mem_in SIZEOF_STRUCT_MEM_def MIN_SIZE_def bounds_ok_def Let_def min_def cong: option.case_cong)
  show ?thesis
  proof (cases res)
    case None
    then show ?thesis using e m by simp
  next
    case (Some z)
    obtain x cs where z: "z = (x, cs)" by (cases z)
    have "first_fit (malloc_size (RT_ALIGN sz)) (mem_size_aligned h) (lfree h) 0 (xs @ (n, True) # ys) = Some (x, cs)"
      using res Some z by (simp add: malloc_spec_def split: if_splits)
    then obtain xs' ys' where cs: "cs = xs' @ (n, True) # ys'" "blen xs' = blen xs" "ys \<noteq> [] \<longrightarrow> ys' \<noteq> []"
      by (rule used_block_kept)
    let ?h2 = "copy_data (heap_ptr h + x + 16) ?a (min (n - 16) k) h1"
    have "heap_ok ?h2 (xs' @ (n, True) # ys')" using m(2) Some z cs by (simp add: copy_data_facts)
    moreover have "16 < n \<or> ys' \<noteq> []" using last cs by auto
    ultimately obtain h3 where "rt_free (Some (heap_ptr ?h2 + blen xs' + 16)) ?h2 = Some h3"
      "heap_ok h3 (insert_free xs' n ys')" "heap_data h3 = heap_data ?h2"
      using rt_free_block by blast
    then show ?thesis using e m Some z cs by (auto simp: copy_data_facts)
  qed
qed

section \<open>Properties\<close>

lemma first_fit_le: "l \<le> p \<Longrightarrow> first_fit s M l p bs = first_fit s M 0 p bs"
proof (induction bs arbitrary: p)
  case (Cons b bs)
  then show ?case by (cases b) simp
qed simp

lemma first_fit_lowest: "first_fit s M (first_free p bs) p bs = first_fit s M 0 p bs"
proof (induction bs arbitrary: p)
  case (Cons b bs)
  obtain n u where b: "b = (n, u)" by (cases b)
  show ?case using Cons.IH [of "p + n"] first_fit_le [of p "p + n" s M bs] by (simp add: b)
qed simp

lemma used_beside_free:
  assumes "xs @ (n, True) # ys = us @ (m, False) # vs"
  shows "blen xs + n \<le> blen us \<or> blen us + m \<le> blen xs"
  using assms by (auto simp: append_eq_append_conv2 Cons_eq_append_conv append_eq_Cons_conv)

lemma insert_free_taken:
  assumes "coalesced (us @ (n, False) # vs)"
  shows "insert_free us n vs = us @ (n, False) # vs"
    "k \<le> n \<Longrightarrow> insert_free us k ((n - k, False) # vs) = us @ (n, False) # vs"
proof -
  have u: "us = [] \<or> snd (last us)" and "vs = [] \<or> snd (hd vs)" using assms by (auto simp: coalesced_append coalesced_Cons)
  then have "absorb n vs = (n, vs)" by (cases "(n, vs)" rule: absorb.cases) auto
  with u show "insert_free us n vs = us @ (n, False) # vs"
    "k \<le> n \<Longrightarrow> insert_free us k ((n - k, False) # vs) = us @ (n, False) # vs" by (auto simp: insert_free_def)
qed

lemma rt_malloc_Some:
  assumes "heap_ok h bs" "rt_malloc sz h = Some (Some a, h')"
  obtains us m vs where "bs = us @ (m, False) # vs" "a = heap_ptr h + blen us + 16" "malloc_size sz + 16 \<le> m"
    "heap_ok h' (us @ take_block (malloc_size sz) m @ vs)" "heap_ptr h' = heap_ptr h"
    "lfree h = first_free 0 bs \<longrightarrow> lfree h' = first_free 0 (us @ take_block (malloc_size sz) m @ vs)"
proof -
  define res where "res = malloc_spec sz (mem_size_aligned h) (lfree h) bs"
  have m: "map_option (\<lambda>(x, _). heap_ptr h + x + 16) res = Some a" "heap_ok h' (case res of None \<Rightarrow> bs | Some (_, cs) \<Rightarrow> cs)"
    "heap_ptr h' = heap_ptr h" "lfree h = first_free 0 bs \<longrightarrow> lfree h' = first_free 0 (case res of None \<Rightarrow> bs | Some (_, cs) \<Rightarrow> cs)"
    using rt_malloc_blocks [OF assms(1) res_def [symmetric]] assms(2) by auto
  then obtain x cs where x: "res = Some (x, cs)" "a = heap_ptr h + x + 16" by auto
  then obtain us n vs where "bs = us @ (n, False) # vs" "x = blen us" "cs = us @ take_block (malloc_size sz) n @ vs"
      "malloc_size sz + 16 \<le> n"
    using first_fit_Some [of "malloc_size sz" "mem_size_aligned h" "lfree h" 0 bs x cs] by (auto simp: res_def malloc_spec_def split: if_splits)
  then show ?thesis using m(2-4) x by (intro that [of us n vs]) simp_all
qed

text \<open>A heap of 1 KB and the same heap with 120 bytes in use.\<close>

definition heap0 :: heap where
  "heap0 = \<lparr> heap_ptr = 0, heap_end = 0, hdr = (\<lambda>_. \<lparr> hm_magic = 0, hm_used = 0, hm_next = 0, hm_prev = 0 \<rparr>), lfree = 0,
     mem_size_aligned = 0, used_mem = 0, max_mem = 0, heap_data = (\<lambda>_. 0) \<rparr>"

lemma heap_init:
  assumes "unat (RT_ALIGN b) + 48 \<le> unat (RT_ALIGN_DOWN e)" "used_mem h = 0"
  shows "heap_ok (rt_system_heap_init b e h) [(unat (RT_ALIGN_DOWN e) - unat (RT_ALIGN b) - 16, False)]"
    "lfree (rt_system_heap_init b e h) = 0" "heap_ptr (rt_system_heap_init b e h) = unat (RT_ALIGN b)"
    "mem_size_aligned (rt_system_heap_init b e h) = unat (RT_ALIGN_DOWN e) - unat (RT_ALIGN b) - 32"
proof -
  have "unat (RT_ALIGN_DOWN e) < 2 ^ 32" using unsigned_less [of "RT_ALIGN_DOWN e", where ?'a = nat] by simp
  moreover have "(unat (RT_ALIGN_DOWN e) - unat (RT_ALIGN b) - 16) mod 8 = 0"
    using RT_ALIGN_mod8 [of b] unat_RT_ALIGN_DOWN [of e] by (simp add: mod_eq_0_iff_dvd)
  ultimately show "heap_ok (rt_system_heap_init b e h) [(unat (RT_ALIGN_DOWN e) - unat (RT_ALIGN b) - 16, False)]"
    "lfree (rt_system_heap_init b e h) = 0" "heap_ptr (rt_system_heap_init b e h) = unat (RT_ALIGN b)"
    "mem_size_aligned (rt_system_heap_init b e h) = unat (RT_ALIGN_DOWN e) - unat (RT_ALIGN b) - 32"
    using assms RT_ALIGN_mod8 [of b]
    by (auto simp: rt_system_heap_init_def SIZEOF_STRUCT_MEM_def heap_ok_def bounds_ok_def rep_def Let_def)
qed

definition heap1 :: heap where "heap1 = rt_system_heap_init 0x20000000 0x20000400 heap0"

lemma heap1: "heap_ok heap1 [(1008, False)]" "lfree heap1 = 0" "heap_ptr heap1 = 0x20000000" "mem_size_aligned heap1 = 992"
  using heap_init [of "0x20000000" "0x20000400" heap0] by (simp_all add: RT_ALIGN_def RT_ALIGN_DOWN_def heap0_def heap1_def)

lemma heap1_malloc: "\<exists>h'. rt_malloc 100 heap1 = Some (Some 0x20000010, h') \<and> heap_ok h' [(120, True), (888, False)] \<and>
    heap_ptr h' = 0x20000000 \<and> mem_size_aligned h' = 992 \<and> lfree h' = 120"
  using rt_malloc_blocks [OF heap1(1) refl, of 100] heap1
  by (auto simp: malloc_spec_def malloc_size_def take_block_def RT_ALIGN_def)

text \<open>C19. \<^verbatim>\<open>rt_malloc\<close> always returns and is first fit: on a heap whose blocks are \<open>bs\<close> it takes the lowest free block
  that is large enough, cuts off what is left when that can hold a block of its own, keeps \<open>lfree\<close> at the lowest free
  block, and returns \<^verbatim>\<open>RT_NULL\<close> with the heap as it was only when no block qualifies.\<close>

theorem rt_malloc_first_fit:
  assumes "heap_ok h bs" "lfree h = first_free 0 bs"
  shows "\<exists>r h'. rt_malloc sz h = Some (r, h') \<and> (case malloc_spec sz (mem_size_aligned h) 0 bs of
      None \<Rightarrow> r = None \<and> h' = h
    | Some (x, cs) \<Rightarrow> r = Some (heap_ptr h + x + 16) \<and> heap_ok h' cs \<and> lfree h' = first_free 0 cs)"
proof -
  have "malloc_spec sz (mem_size_aligned h) (lfree h) bs = malloc_spec sz (mem_size_aligned h) 0 bs"
    using assms(2) first_fit_lowest [of _ _ 0 bs] by (simp add: malloc_spec_def)
  then show ?thesis using rt_malloc_blocks [OF assms(1), of sz] assms(2) by (auto split: option.splits)
qed

lemma rt_malloc_first_fit_witness:
  "\<exists>h'. rt_malloc 100 heap1 = Some (Some 0x20000010, h') \<and> heap_ok h' [(120, True), (888, False)]"
  using rt_malloc_first_fit [of heap1 "[(1008, False)]" 100] heap1
  by (auto simp: malloc_spec_def malloc_size_def take_block_def RT_ALIGN_def)

text \<open>C21. What \<^verbatim>\<open>rt_malloc\<close> returns is aligned and lies in the heap, and the requested bytes together with their header do not
  overlap any block that was in use, whichever free block \<open>lfree\<close> points to.\<close>

theorem rt_malloc_safe:
  assumes "heap_ok h bs" "rt_malloc sz h = Some (Some a, h')" "unat sz + 7 < 2 ^ 32"
  shows "a mod 8 = 0 \<and> heap_ptr h + 16 \<le> a \<and> a + unat sz \<le> heap_ptr h + mem_size_aligned h + 16 \<and>
    (\<forall>xs n ys. bs = xs @ (n, True) # ys \<longrightarrow> a + unat sz \<le> heap_ptr h + blen xs \<or> heap_ptr h + blen xs + n \<le> a - 16)"
proof -
  obtain us m vs where f: "bs = us @ (m, False) # vs" "a = heap_ptr h + blen us + 16" "malloc_size sz + 16 \<le> m"
    by (rule rt_malloc_Some [OF assms(1,2)])
  have b: "heap_ptr h mod 8 = 0" and r: "rep (hdr h) (mem_size_aligned h) (us @ (m, False) # vs)"
    using assms(1) f(1) by (auto simp: heap_ok_def bounds_ok_def)
  have "unat sz \<le> malloc_size sz" using unat_RT_ALIGN [OF assms(3)] by (simp add: malloc_size_def)
  then have "unat sz + 16 \<le> m" using f(3) by simp
  moreover have "blen xs + n \<le> blen us \<or> blen us + m \<le> blen xs" if "bs = xs @ (n, True) # ys" for xs n ys
    using used_beside_free [of xs n ys us m vs] that f(1) by simp
  moreover have "a mod 8 = 0" using f(2) b rep_at(7) [OF r] by (simp add: mod_add_eq [symmetric])
  ultimately show ?thesis using f(2) rep_at(8) [OF r] by fastforce
qed

lemma rt_malloc_safe_witness:
  "\<exists>a h'. rt_malloc 100 heap1 = Some (Some a, h') \<and> a mod 8 = 0 \<and> a + 100 \<le> 0x200003f0"
  using rt_malloc_blocks [OF heap1(1) refl, of 100] rt_malloc_safe [of heap1 "[(1008, False)]" 100] heap1
  by (fastforce simp: malloc_spec_def malloc_size_def take_block_def RT_ALIGN_def)

text \<open>C20. \<^verbatim>\<open>rt_free\<close> of a block that is in use always returns: the block becomes free and is joined with the free
  neighbours on both sides, so that no two free blocks are side by side, the count of the bytes in use goes down by its
  length, and \<open>lfree\<close> still is the lowest free block when it was.\<close>

theorem rt_free_correct:
  assumes "heap_ok h (xs @ (n, True) # ys)" "16 < n \<or> ys \<noteq> []"
  shows "\<exists>h'. rt_free (Some (heap_ptr h + blen xs + 16)) h = Some h' \<and> heap_ok h' (insert_free xs n ys) \<and>
    used_mem h' + n = used_mem h \<and> heap_data h' = heap_data h \<and>
    (lfree h = first_free 0 (xs @ (n, True) # ys) \<longrightarrow> lfree h' = first_free 0 (insert_free xs n ys))"
proof -
  obtain h' where "rt_free (Some (heap_ptr h + blen xs + 16)) h = Some h'" "heap_ok h' (insert_free xs n ys)" "heap_data h' = heap_data h"
    "lfree h = first_free 0 (xs @ (n, True) # ys) \<longrightarrow> lfree h' = first_free 0 (insert_free xs n ys)"
    using rt_free_block [OF assms] by blast
  then show ?thesis using insert_free_facts(2) [of xs n ys] assms(1) by (auto simp: heap_ok_def)
qed

lemma rt_free_correct_witness:
  "\<exists>h1 h2. rt_malloc 100 heap1 = Some (Some 0x20000010, h1) \<and> rt_free (Some 0x20000010) h1 = Some h2 \<and> used_mem h2 + 120 = used_mem h1"
proof -
  obtain h1 where h1: "rt_malloc 100 heap1 = Some (Some 0x20000010, h1)" "heap_ok h1 [(120, True), (888, False)]" "heap_ptr h1 = 0x20000000"
    using heap1_malloc by blast
  then show ?thesis using rt_free_correct [of h1 "[]" 120 "[(888, False)]"] by auto
qed

text \<open>C23. Giving back what \<^verbatim>\<open>rt_malloc\<close> returned restores the heap: the blocks, the lowest free block and the count of the
  bytes in use are those before the allocation, whether the block had been split or taken whole.\<close>

theorem rt_malloc_free:
  assumes "heap_ok h bs" "lfree h = first_free 0 bs" "rt_malloc sz h = Some (Some a, h1)"
  shows "\<exists>h2. rt_free (Some a) h1 = Some h2 \<and> heap_ok h2 bs \<and> lfree h2 = first_free 0 bs \<and> used_mem h2 = used_mem h"
proof -
  let ?s = "malloc_size sz"
  obtain us m vs where f: "bs = us @ (m, False) # vs" "a = heap_ptr h + blen us + 16" "?s + 16 \<le> m"
    and h1: "heap_ok h1 (us @ take_block ?s m @ vs)" "heap_ptr h1 = heap_ptr h"
      "lfree h = first_free 0 bs \<longrightarrow> lfree h1 = first_free 0 (us @ take_block ?s m @ vs)"
    by (rule rt_malloc_Some [OF assms(1,3)])
  have s: "16 \<le> ?s" by (simp add: malloc_size_def)
  define k where "k = (if ?s + 48 \<le> m then ?s + 16 else m)"
  define ws where "ws = (if ?s + 48 \<le> m then (m - k, False) # vs else vs)"
  have cs: "us @ take_block ?s m @ vs = us @ (k, True) # ws" "16 < k" using f(3) s by (auto simp: k_def ws_def take_block_def)
  have c: "coalesced (us @ (m, False) # vs)" using assms(1) f(1) by (simp add: heap_ok_def)
  have "k \<le> m" by (simp add: k_def)
  then have bs: "insert_free us k ws = bs" using insert_free_taken [OF c] f(1) by (auto simp: ws_def k_def)
  have "heap_ok h1 (us @ (k, True) # ws)" "lfree h1 = first_free 0 (us @ (k, True) # ws)" "a = heap_ptr h1 + blen us + 16"
    using h1 assms(2) f(2) unfolding cs(1) by auto
  then obtain h2 where "rt_free (Some a) h1 = Some h2" "heap_ok h2 bs" "lfree h2 = first_free 0 bs"
    using rt_free_block [of h1 us k ws] cs(2) unfolding bs by auto
  then show ?thesis using assms(1) by (simp add: heap_ok_def)
qed

lemma rt_malloc_free_witness:
  "\<exists>h1 h2. rt_malloc 100 heap1 = Some (Some 0x20000010, h1) \<and> rt_free (Some 0x20000010) h1 = Some h2 \<and> heap_ok h2 [(1008, False)]"
proof -
  obtain h1 where "rt_malloc 100 heap1 = Some (Some 0x20000010, h1)"
    using rt_malloc_blocks [OF heap1(1) refl, of 100] heap1
    by (auto simp: malloc_spec_def malloc_size_def take_block_def RT_ALIGN_def)
  then show ?thesis using rt_malloc_free [where h = heap1 and bs = "[(1008, False)]"] heap1 by fastforce
qed

text \<open>A size above \<open>2 ^ 32 - 8\<close> wraps to zero when it is rounded up, and so asks for the smallest block.\<close>

lemma RT_ALIGN_wraps: "2 ^ 32 - 8 < unat sz \<Longrightarrow> RT_ALIGN sz = 0"
proof -
  assume "2 ^ 32 - 8 < unat sz"
  then have "unat (sz + 7) = unat sz + 7 - 2 ^ 32"
    using unsigned_less [of sz, where ?'a = nat] by (simp add: unat_word_ariths mod_if)
  then have "unat (RT_ALIGN sz) = 0"
    using unat_align [of "sz + 7" 3] unsigned_less [of sz, where ?'a = nat] by (simp add: RT_ALIGN_def mask_eq_exp_minus_1)
  then show ?thesis by (simp add: word_unat_eq_iff)
qed

text \<open>A request of more than \<open>2 ^ 32 - 8\<close> bytes is not refused: \<^verbatim>\<open>RT_ALIGN\<close> wraps to 0 and \<^verbatim>\<open>rt_malloc\<close> does just
  what it does for one byte, so that the caller gets 16 bytes.\<close>

theorem rt_malloc_wraps:
  assumes "2 ^ 32 - 8 < unat sz" "8 \<le> mem_size_aligned h"
  shows "rt_malloc sz h = rt_malloc 1 h"
proof -
  have "sz \<noteq> 0" using assms(1) by auto
  then show ?thesis using RT_ALIGN_wraps [OF assms(1)] assms(2)
    by (simp add: rt_malloc_def Let_def RT_ALIGN_def MIN_SIZE_ALIGNED_def)
qed

lemma rt_malloc_wraps_witness: "rt_malloc 0xFFFFFFFF heap1 = rt_malloc 1 heap1"
  by (rule rt_malloc_wraps) (simp_all add: heap1)

text \<open>A block in use survives the freeing of another one.\<close>

lemma absorb_append: "absorb n (ws @ (m, True) # vs) = (fst (absorb n ws), snd (absorb n ws) @ (m, True) # vs)"
  by (cases "(n, ws)" rule: absorb.cases) auto

lemma insert_free_keeps:
  assumes "xs @ (n, True) # ys = us @ (m, True) # vs" "blen us \<noteq> blen xs"
  obtains us' vs' where "insert_free xs n ys = us' @ (m, True) # vs'" "blen us' = blen us"
proof -
  consider (left) ws where "xs = us @ (m, True) # ws" | (right) ws where "us = xs @ (n, True) # ws" "ys = ws @ (m, True) # vs"
    using assms by (auto simp: append_eq_append_conv2 Cons_eq_append_conv append_eq_Cons_conv)
  then show ?thesis
  proof cases
    case left
    have "insert_free (us @ (m, True) # ws) n ys = us @ (m, True) # insert_free ws n ys"
      by (cases ws rule: rev_cases) (auto simp: insert_free_def butlast_append)
    with left show ?thesis by (intro that [of us]) simp_all
  next
    case right
    have f: "fst (absorb n ws) + blen (snd (absorb n ws)) = n + blen ws" by (rule absorb_facts(1))
    show ?thesis
    proof (cases "xs \<noteq> [] \<and> \<not> snd (last xs)")
      case True
      then obtain j zs where "xs = zs @ [(j, False)]" by (cases xs rule: rev_cases) auto
      then show ?thesis using right f
        by (intro that [of "zs @ (j + fst (absorb n ws), False) # snd (absorb n ws)" vs]) (auto simp: insert_free_def absorb_append)
    next
      case False
      then show ?thesis using right f
        by (intro that [of "xs @ (fst (absorb n ws), False) # snd (absorb n ws)" vs]) (auto simp: insert_free_def absorb_append)
    qed
  qed
qed

text \<open>C22. \<^verbatim>\<open>rt_realloc\<close> of a block in use always returns. It either fails and leaves everything as it was, the old block
  included, or returns a block of at least the new size that holds the old contents up to the smaller of the two sizes, in a
  heap that is well formed again.\<close>

theorem rt_realloc_correct:
  assumes "heap_ok h (xs @ (n, True) # ys)" "16 < n \<or> ys \<noteq> []"
  shows "\<exists>r h'. rt_realloc (Some (heap_ptr h + blen xs + 16)) sz h = Some (r, h') \<and>
    (case r of None \<Rightarrow> h' = h
     | Some d \<Rightarrow> (\<exists>us m vs. heap_ok h' (us @ (m, True) # vs) \<and> d = heap_ptr h + blen us + 16 \<and> unat (RT_ALIGN sz) + 16 \<le> m) \<and>
         (\<forall>i < min (n - 16) (unat (RT_ALIGN sz)). heap_data h' (d + i) = heap_data h (heap_ptr h + blen xs + 16 + i)))"
proof -
  have "16 \<le> n" using assms(1) by (auto simp: heap_ok_def rep_def)
  consider (big) "mem_size_aligned h < unat (RT_ALIGN sz)" | (same) "unat (RT_ALIGN sz) = n - 16" "unat (RT_ALIGN sz) \<le> mem_size_aligned h"
    | (shrink) "unat (RT_ALIGN sz) + 44 < n" "unat (RT_ALIGN sz) \<le> mem_size_aligned h"
    | (move) "n \<le> unat (RT_ALIGN sz) + 44" "unat (RT_ALIGN sz) \<noteq> n - 16" "unat (RT_ALIGN sz) \<le> mem_size_aligned h"
    by linarith
  then show ?thesis
  proof cases
    case big
    then show ?thesis by (simp add: rt_realloc_def)
  next
    case same
    then show ?thesis using rt_realloc_same [OF assms same(1)] assms(1) \<open>16 \<le> n\<close> by auto
  next
    case shrink
    then show ?thesis using rt_realloc_shrink [OF assms(1) refl shrink] by fastforce
  next
    case move
    define res where "res = malloc_spec (RT_ALIGN sz) (mem_size_aligned h) (lfree h) (xs @ (n, True) # ys)"
    note mv = rt_realloc_move [OF assms refl move(1,2,3) res_def [symmetric]]
    show ?thesis
    proof (cases res)
      case None
      then show ?thesis using mv by simp
    next
      case (Some z)
      obtain x cs where z: "z = (x, cs)" by (cases z)
      obtain xs' ys' h' where r: "cs = xs' @ (n, True) # ys'" "blen xs' = blen xs"
        "rt_realloc (Some (heap_ptr h + blen xs + 16)) sz h = Some (Some (heap_ptr h + x + 16), h')" "heap_ok h' (insert_free xs' n ys')"
        "\<forall>i < min (n - 16) (unat (RT_ALIGN sz)). heap_data h' (heap_ptr h + x + 16 + i) = heap_data h (heap_ptr h + blen xs + 16 + i)"
        using mv by (auto simp: Some z)
      let ?s = "malloc_size (RT_ALIGN sz)"
      obtain us m vs where f: "xs @ (n, True) # ys = us @ (m, False) # vs" "x = blen us" "cs = us @ take_block ?s m @ vs" "?s + 16 \<le> m"
        using first_fit_Some [of ?s "mem_size_aligned h" "lfree h" 0 "xs @ (n, True) # ys" x cs] Some z
        by (auto simp: res_def malloc_spec_def split: if_splits)
      have "blen us \<noteq> blen xs" using used_beside_free [OF f(1)] f(4) \<open>16 \<le> n\<close> by auto
      moreover obtain k ws where k: "take_block ?s m @ vs = (k, True) # ws" "?s + 16 \<le> k"
        by (cases "?s + 48 \<le> m") (use f(4) in \<open>auto simp: take_block_def\<close>)
      moreover have "xs' @ (n, True) # ys' = us @ (k, True) # ws" using r(1) f(3) k(1) by simp
      ultimately obtain us' vs' where "insert_free xs' n ys' = us' @ (k, True) # vs'" "blen us' = blen us"
        using insert_free_keeps r(2) by metis
      moreover have "unat (RT_ALIGN sz) \<le> ?s" by (simp add: malloc_size_def RT_ALIGN_idem)
      ultimately show ?thesis using r(3-5) k(2) f(2) by fastforce
    qed
  qed
qed

lemma rt_realloc_correct_witness:
  "\<exists>h1 r h2. rt_malloc 100 heap1 = Some (Some 0x20000010, h1) \<and> rt_realloc (Some 0x20000010) 200 h1 = Some (r, h2) \<and>
     (case r of None \<Rightarrow> h2 = h1 | Some d \<Rightarrow> \<forall>i < 104. heap_data h2 (d + i) = heap_data h1 (0x20000010 + i))"
proof -
  obtain h1 where h1: "rt_malloc 100 heap1 = Some (Some 0x20000010, h1)" "heap_ok h1 [(120, True), (888, False)]" "heap_ptr h1 = 0x20000000"
    using heap1_malloc by blast
  have "unat (RT_ALIGN 200) = 200" by (simp add: RT_ALIGN_def)
  then obtain r h2 where "rt_realloc (Some 0x20000010) 200 h1 = Some (r, h2)"
    "case r of None \<Rightarrow> h2 = h1 | Some d \<Rightarrow> \<forall>i < 104. heap_data h2 (d + i) = heap_data h1 (0x20000010 + i)"
    using rt_realloc_correct [of h1 "[]" 120 "[(888, False)]" 200] h1(2,3) by (auto split: option.splits)
  then show ?thesis using h1(1) by blast
qed

text \<open>C32. When \<^verbatim>\<open>rt_realloc\<close> shrinks a block in place and the block behind it is in use, the part that becomes free lies below
  \<open>lfree\<close>, which stays where it is: later calls of \<^verbatim>\<open>rt_malloc\<close>, whose search starts at \<open>lfree\<close>, do not see it.\<close>

theorem rt_realloc_hides_block:
  assumes "heap_ok h (xs @ (n, True) # (m, True) # ys)" "unat (RT_ALIGN sz) + 44 < n" "unat (RT_ALIGN sz) \<le> mem_size_aligned h"
    "blen xs < lfree h"
  shows "\<exists>h' bs. rt_realloc (Some (heap_ptr h + blen xs + 16)) sz h = Some (Some (heap_ptr h + blen xs + 16), h') \<and>
    heap_ok h' bs \<and> starts_free 0 bs (blen xs + unat (RT_ALIGN sz) + 16) \<and> blen xs + unat (RT_ALIGN sz) + 16 < lfree h' \<and> lfree h' = lfree h"
proof -
  have lf: "lfree h = blen (xs @ (n, True) # (m, True) # ys) \<or> starts_free 0 (xs @ (n, True) # (m, True) # ys) (lfree h)"
    and s: "sized xs" "sized ys" using assms(1) by (auto simp: heap_ok_def rep_def)
  then have "blen xs + n \<le> lfree h"
    using starts_free_bounds [of 0 xs "lfree h"] starts_free_bounds [of "blen xs + n + m" ys "lfree h"] assms(4) by auto
  then show ?thesis using rt_realloc_shrink [OF assms(1) refl assms(2,3)] assms(2) by fastforce
qed

lemma rt_realloc_hides_block_witness:
  "\<exists>h2 h3. rt_malloc 100 heap1 \<bind> (\<lambda>(_, h1). rt_malloc 100 h1) = Some (Some 0x20000088, h2) \<and> lfree h2 = 240 \<and>
     rt_realloc (Some 0x20000010) 40 h2 = Some (Some 0x20000010, h3) \<and> lfree h3 = 240 \<and> (\<exists>bs. heap_ok h3 bs \<and> starts_free 0 bs 56)"
proof -
  obtain h1 where h1: "rt_malloc 100 heap1 = Some (Some 0x20000010, h1)" "heap_ok h1 [(120, True), (888, False)]" "heap_ptr h1 = 0x20000000"
    "mem_size_aligned h1 = 992" "lfree h1 = 120"
    using heap1_malloc by blast
  have a: "malloc_size 100 = 104" "unat (RT_ALIGN 40) = 40" by (simp_all add: malloc_size_def RT_ALIGN_def)
  obtain h2 where h2: "rt_malloc 100 h1 = Some (Some 0x20000088, h2)" "heap_ok h2 [(120, True), (120, True), (768, False)]"
    "heap_ptr h2 = 0x20000000" "mem_size_aligned h2 = 992" "lfree h2 = 240"
    using rt_malloc_blocks [OF h1(2) refl, of 100] h1(3-5) a(1) by (auto simp: malloc_spec_def take_block_def)
  show ?thesis using rt_realloc_hides_block [of h2 "[]" 120 120 "[(768, False)]" 40] h1(1) h2 a(2) by auto
qed

text \<open>\<^verbatim>\<open>rt_system_heap_init\<close> of at least 48 bytes between the aligned addresses makes a well-formed heap of one free block
  with every byte between the two headers in it, and the search of \<^verbatim>\<open>rt_malloc\<close> never hands out all of them: a request
  of just \<^verbatim>\<open>mem_size_aligned\<close> bytes fails on the empty heap.\<close>

theorem rt_system_heap_init_correct:
  assumes "unat (RT_ALIGN b) + 48 \<le> unat (RT_ALIGN_DOWN e)" "used_mem h = 0"
  shows "heap_ok (rt_system_heap_init b e h) [(mem_size_aligned (rt_system_heap_init b e h) + 16, False)] \<and>
    mem_size_aligned (rt_system_heap_init b e h) = unat (RT_ALIGN_DOWN e) - unat (RT_ALIGN b) - 32 \<and>
    rt_malloc (RT_ALIGN_DOWN e - RT_ALIGN b - 32) (rt_system_heap_init b e h) = Some (None, rt_system_heap_init b e h)"
proof -
  let ?h = "rt_system_heap_init b e h" and ?sz = "RT_ALIGN_DOWN e - RT_ALIGN b - 32"
  note i = heap_init [OF assms]
  have eq: "mem_size_aligned ?h + 16 = unat (RT_ALIGN_DOWN e) - unat (RT_ALIGN b) - 16" using i(4) assms(1) by simp
  have ok: "heap_ok ?h [(mem_size_aligned ?h + 16, False)]" using i(1) unfolding eq .
  have "unat (RT_ALIGN_DOWN e - RT_ALIGN b) = unat (RT_ALIGN_DOWN e) - unat (RT_ALIGN b)"
    using assms(1) by (simp add: unat_sub_if')
  then have "unat ?sz = mem_size_aligned ?h" using i(4) assms(1) by (simp add: unat_sub_if')
  moreover have "mem_size_aligned ?h + 7 < 2 ^ 32" using ok by (auto simp: heap_ok_def bounds_ok_def)
  moreover have "mem_size_aligned ?h mod 8 = 0"
    using RT_ALIGN_mod8 [of b] unat_RT_ALIGN_DOWN [of e] by (simp add: i(4) mod_eq_0_iff_dvd)
  ultimately have sz: "unat (RT_ALIGN ?sz) = mem_size_aligned ?h" by (subst unat_RT_ALIGN) (auto elim!: dvdE simp: mod_eq_0_iff_dvd)
  then have "malloc_spec ?sz (mem_size_aligned ?h) (lfree ?h) [(mem_size_aligned ?h + 16, False)] = None"
    using first_fit_end [of "mem_size_aligned ?h" 0 "malloc_size ?sz"] by (simp add: malloc_spec_def malloc_size_def sz)
  then show ?thesis using rt_malloc_blocks [OF ok, of ?sz None] ok i(4) by simp
qed

lemma rt_system_heap_init_correct_witness: "rt_malloc 992 heap1 = Some (None, heap1) \<and> heap_ok heap1 [(1008, False)]"
  using rt_system_heap_init_correct [of "0x20000000" "0x20000400" heap0] heap1(4)
  by (simp add: RT_ALIGN_def RT_ALIGN_DOWN_def heap1_def [symmetric]) (simp add: heap0_def)

text \<open>The loop of \<^verbatim>\<open>rt_malloc\<close> never leaves a header that is in use and whose next block is itself.\<close>

lemma malloc_loop_stuck:
  "malloc_loop len p h = Some y \<Longrightarrow> \<not> (p < size_sub (mem_size_aligned h) len \<and> hm_used (hdr h p) \<noteq> 0 \<and> hm_next (hdr h p) = p)"
proof (erule malloc_loop.raw_induct [where P = "\<lambda>len p h y. \<not> (p < size_sub (mem_size_aligned h) len \<and> hm_used (hdr h p) \<noteq> 0 \<and> hm_next (hdr h p) = p)", rotated])
  fix f len p h and y :: "nat option \<times> heap"
  assume IH: "\<And>len p h y. f len p h = Some y \<Longrightarrow> \<not> (p < size_sub (mem_size_aligned h) len \<and> hm_used (hdr h p) \<noteq> 0 \<and> hm_next (hdr h p) = p)"
    and body: "(if p < size_sub (mem_size_aligned h) len then do {
       m \<leftarrow> get_mem h p;
       if hm_used m = 0 \<and> size_sub (hm_next m) (size_add p SIZEOF_STRUCT_MEM) \<ge> len then do {
         h \<leftarrow> malloc_take len p h;
         Some (Some p, h) }
       else f len (hm_next m) h }
     else Some (None, h)) = Some y"
  show "\<not> (p < size_sub (mem_size_aligned h) len \<and> hm_used (hdr h p) \<noteq> 0 \<and> hm_next (hdr h p) = p)"
  proof
    assume a: "p < size_sub (mem_size_aligned h) len \<and> hm_used (hdr h p) \<noteq> 0 \<and> hm_next (hdr h p) = p"
    then have "f len p h = Some y" using body by (auto simp: get_mem_def split: if_splits)
    then show False using IH a by blast
  qed
qed

text \<open>A heap of 8 bytes, which \<^verbatim>\<open>rt_system_heap_init\<close> accepts, makes \<^verbatim>\<open>rt_malloc\<close> search for ever: the smallest block is
  larger than the heap, the bound of the loop wraps around, and the loop stays at the end of the heap.\<close>

theorem rt_malloc_small_heap:
  assumes "unat (RT_ALIGN b) + 40 = unat (RT_ALIGN_DOWN e)"
  shows "rt_malloc 1 (rt_system_heap_init b e h) = None"
proof -
  let ?h = "rt_system_heap_init b e h"
  have h: "mem_size_aligned ?h = 8" "lfree ?h = 0" "hdr ?h 0 = \<lparr> hm_magic = HEAP_MAGIC, hm_used = 0, hm_next = 24, hm_prev = 0 \<rparr>"
    "hdr ?h 24 = \<lparr> hm_magic = HEAP_MAGIC, hm_used = 1, hm_next = 24, hm_prev = 24 \<rparr>"
    using assms [symmetric] by (simp_all add: rt_system_heap_init_def SIZEOF_STRUCT_MEM_def Let_def)
  have n: "size_sub 8 16 = 2 ^ 32 - 8" "size_sub 24 (size_add 0 16) = 8" by (simp_all add: size_sub_def size_add_def)
  have "malloc_loop 16 24 ?h = None"
    using malloc_loop_stuck [of 16 24 ?h] h n by (cases "malloc_loop 16 24 ?h") auto
  then have "malloc_loop 16 0 ?h = None"
    using h n by (subst malloc_loop.simps) (simp add: get_mem_in SIZEOF_STRUCT_MEM_def)
  then show ?thesis using h by (simp add: rt_malloc_def Let_def RT_ALIGN_def MIN_SIZE_ALIGNED_def)
qed

lemma rt_malloc_small_heap_witness: "rt_malloc 1 (rt_system_heap_init 0x20000000 0x20000028 heap0) = None"
  by (rule rt_malloc_small_heap) (simp add: RT_ALIGN_def RT_ALIGN_DOWN_def)

end
