(* ===== verification/DriverIpc.thy ===== *)
theory DriverIpc
  imports IpcBase
begin

text \<open>
  What device drivers use to wait for each other (components/drivers/src): completions
  (completion.c), on which one thread waits for an event, and data queues (dataqueue.c), a ring
  of data pointers between two ends. The structure is an argument of an operation and part of its
  result; its lists of waiting threads are in the kernel under the number of the structure.
\<close>

section \<open>Waiting in the list of a driver\<close>

text \<open>The part that both share: no error, suspended at the end of the list, the timer, the
  scheduler.\<close>

definition driver_wait :: "tlist_head \<Rightarrow> nat \<Rightarrow> u32 \<Rightarrow> kernel \<Rightarrow> kernel option" where
  "driver_wait q t timeout k = do {
     k \<leftarrow> ipc_block q t 0x00 timeout (set_error t RT_EOK k);
     rt_schedule k }"

lemma driver_wait_runs:
  assumes k: "kernel_inv idle k" and c: "rt_current_thread k = Some t" and r: "ready k t" and i: "t \<noteq> idle"
    and n: "interrupt_nest k = 0" and w: "waitq q" and tm: "good_time time"
  shows "\<exists>k'. driver_wait q t time k = Some k' \<and> kernel_inv idle k' \<and> waits_in q 0x00 t k k'"
proof -
  obtain k' where "ipc_wait q t 0x00 time 0 (set_error t RT_EOK k) = Some (Waits (time, if 0 < sint time then rt_tick k else 0), k')"
    "kernel_inv idle k'" "waits_in q 0x00 t k k'"
    using ipc_wait_runs [OF k c r i n w, where flag = "0x00" and time = time and td = 0] tm by auto
  then show ?thesis by (auto simp: ipc_wait_def driver_wait_def bind_eq_Some_conv)
qed

section \<open>Completions\<close>

record rt_completion =
  cmp_flag :: u32

definition RT_COMPLETED :: u32 where "RT_COMPLETED = 1"
definition RT_UNCOMPLETED :: u32 where "RT_UNCOMPLETED = 0"

abbreviation cmp_queue :: "nat \<Rightarrow> tlist_head" where
  "cmp_queue c \<equiv> DriverQ (CompletionQ c)"

definition rt_completion_init :: "nat \<Rightarrow> kernel \<Rightarrow> (rt_completion \<times> kernel) option" where
  "rt_completion_init c k = do {
     ls \<leftarrow> ls_init (cmp_queue c) (tlists k);
     Some (\<lparr> cmp_flag = RT_UNCOMPLETED \<rparr>, k\<lparr> tlists := ls \<rparr>) }"

definition rt_completion_wait :: "nat \<Rightarrow> u32 \<Rightarrow> rt_completion \<Rightarrow> kernel \<Rightarrow> (unit call \<times> kernel) option" where
  "rt_completion_wait c timeout cmp k =
     (if cmp_flag cmp \<noteq> RT_COMPLETED then do {
        rt_assert (ls_isempty (cmp_queue c) (tlists k));
        if timeout = 0 then Some (Returned RT_ETIMEOUT, k)
        else do {
          t \<leftarrow> rt_current_thread k;
          rt_debug_not_in_interrupt k;
          k \<leftarrow> driver_wait (cmp_queue c) t timeout k;
          Some (Waits (), k) } }
      else Some (Returned RT_EOK, k))"

text \<open>When the thread \<open>t\<close> runs again.\<close>

definition rt_completion_wait_resumed :: "nat \<Rightarrow> rt_completion \<Rightarrow> kernel \<Rightarrow> rt_err \<times> rt_completion" where
  "rt_completion_wait_resumed t cmp k = (t_error (threads k t), cmp\<lparr> cmp_flag := RT_UNCOMPLETED \<rparr>)"

definition rt_completion_done :: "nat \<Rightarrow> rt_completion \<Rightarrow> kernel \<Rightarrow> (rt_completion \<times> kernel) option" where
  "rt_completion_done c cmp k =
     (if cmp_flag cmp = RT_COMPLETED then Some (cmp, k)
      else do {
        let cmp = cmp\<lparr> cmp_flag := RT_COMPLETED \<rparr>;
        k \<leftarrow> ipc_wake (cmp_queue c) k;
        Some (cmp, k) })"

section \<open>Data queues\<close>

text \<open>An item is a pointer with a size. \<open>dq_notify\<close> says whether there is a function to notify; the
  operations return the event that it is called with.\<close>

record rt_data_queue =
  dq_size :: u16
  dq_lwm :: u16
  waiting_lwm :: bool
  get_index :: u16
  put_index :: u16
  dq_items :: "(u32 \<times> u32) list"
  dq_notify :: bool

definition RT_DATAQUEUE_EVENT_POP :: u32 where "RT_DATAQUEUE_EVENT_POP = 1"
definition RT_DATAQUEUE_EVENT_PUSH :: u32 where "RT_DATAQUEUE_EVENT_PUSH = 2"
definition RT_DATAQUEUE_EVENT_LWM :: u32 where "RT_DATAQUEUE_EVENT_LWM = 3"

abbreviation push_queue :: "nat \<Rightarrow> tlist_head" where
  "push_queue q \<equiv> DriverQ (PushQ q)"
abbreviation pop_queue :: "nat \<Rightarrow> tlist_head" where
  "pop_queue q \<equiv> DriverQ (PopQ q)"

text \<open>\<open>mem\<close> is what \<^verbatim>\<open>rt_malloc\<close> returned: memory for the items, with whatever it contains.\<close>

definition rt_data_queue_init ::
  "nat \<Rightarrow> u16 \<Rightarrow> u16 \<Rightarrow> bool \<Rightarrow> (u32 \<times> u32) list option \<Rightarrow> kernel \<Rightarrow> (rt_err \<times> rt_data_queue \<times> kernel) option" where
  "rt_data_queue_init q sz lwm notify mem k = do {
     ls \<leftarrow> ls_init (push_queue q) (tlists k);
     ls \<leftarrow> ls_init (pop_queue q) ls;
     Some (case mem of None \<Rightarrow> RT_ENOMEM | Some _ \<Rightarrow> RT_EOK,
       \<lparr> dq_size = sz, dq_lwm = lwm, waiting_lwm = False, get_index = 0, put_index = 0,
         dq_items = (case mem of None \<Rightarrow> [] | Some m \<Rightarrow> m), dq_notify = notify \<rparr>,
       k\<lparr> tlists := ls \<rparr>) }"

text \<open>\<^verbatim>\<open>put_index - get_index\<close>: both are promoted to \<^verbatim>\<open>int\<close>.\<close>

definition dq_used :: "rt_data_queue \<Rightarrow> int" where
  "dq_used d = uint (put_index d) - uint (get_index d)"

definition dq_store :: "u32 \<times> u32 \<Rightarrow> rt_data_queue \<Rightarrow> rt_data_queue option" where
  "dq_store x d = do {
     its \<leftarrow> mem_set (dq_items d) (uint (put_index d AND (dq_size d - 1))) x;
     Some (d\<lparr> dq_items := its, put_index := put_index d + 1 \<rparr>) }"

definition dq_fetch :: "rt_data_queue \<Rightarrow> (u32 \<times> u32) option" where
  "dq_fetch d = mem_get (dq_items d) (uint (get_index d AND (dq_size d - 1)))"

definition rt_data_queue_push ::
  "nat \<Rightarrow> u32 \<times> u32 \<Rightarrow> u32 \<Rightarrow> rt_data_queue \<Rightarrow> kernel \<Rightarrow> (unit call \<times> u32 option \<times> rt_data_queue \<times> kernel) option" where
  "rt_data_queue_push q x timeout d k =
     (if dq_used d = uint (dq_size d) then
        let d = d\<lparr> waiting_lwm := True \<rparr> in
        if timeout = 0 then Some (Returned RT_ETIMEOUT, None, d, k)
        else do {
          rt_debug_not_in_interrupt k;
          t \<leftarrow> rt_current_thread k;
          k \<leftarrow> driver_wait (push_queue q) t timeout k;
          Some (Waits (), None, d, k) }
      else do {
        d \<leftarrow> dq_store x d;
        let event = (if ls_isempty (pop_queue q) (tlists k) \<and> dq_notify d then Some RT_DATAQUEUE_EVENT_PUSH else None);
        k \<leftarrow> ipc_wake (pop_queue q) k;
        Some (Returned RT_EOK, event, d, k) })"

definition rt_data_queue_push_resumed ::
  "nat \<Rightarrow> nat \<Rightarrow> u32 \<times> u32 \<Rightarrow> u32 \<Rightarrow> rt_data_queue \<Rightarrow> kernel \<Rightarrow> (unit call \<times> u32 option \<times> rt_data_queue \<times> kernel) option" where
  "rt_data_queue_push_resumed t q x timeout d k =
     (if t_error (threads k t) \<noteq> RT_EOK then Some (Returned (t_error (threads k t)), None, d, k)
      else rt_data_queue_push q x timeout d k)"

text \<open>The boolean in the result of a pop says whether interrupts are enabled again at its end.\<close>

definition rt_data_queue_pop ::
  "nat \<Rightarrow> u32 \<Rightarrow> rt_data_queue \<Rightarrow> kernel
   \<Rightarrow> (unit call \<times> (u32 \<times> u32) option \<times> u32 option \<times> bool \<times> rt_data_queue \<times> kernel) option" where
  "rt_data_queue_pop q timeout d k =
     (if get_index d = put_index d then
        if timeout = 0 then Some (Returned RT_ETIMEOUT, None, None, True, d, k)
        else do {
          rt_debug_not_in_interrupt k;
          t \<leftarrow> rt_current_thread k;
          k \<leftarrow> driver_wait (pop_queue q) t timeout k;
          Some (Waits (), None, None, True, d, k) }
      else do {
        x \<leftarrow> dq_fetch d;
        let d = d\<lparr> get_index := get_index d + 1 \<rparr>;
        if waiting_lwm d \<and> dq_used d \<le> uint (dq_lwm d) then do {
          let d = d\<lparr> waiting_lwm := False \<rparr>;
          let enabled = (\<not> ls_isempty (push_queue q) (tlists k));
          k \<leftarrow> ipc_wake (push_queue q) k;
          Some (Returned RT_EOK, Some x, if dq_notify d then Some RT_DATAQUEUE_EVENT_LWM else None, enabled, d, k) }
        else Some (Returned RT_EOK, Some x, if dq_notify d then Some RT_DATAQUEUE_EVENT_POP else None, True, d, k) })"

definition rt_data_queue_pop_resumed ::
  "nat \<Rightarrow> nat \<Rightarrow> u32 \<Rightarrow> rt_data_queue \<Rightarrow> kernel
   \<Rightarrow> (unit call \<times> (u32 \<times> u32) option \<times> u32 option \<times> bool \<times> rt_data_queue \<times> kernel) option" where
  "rt_data_queue_pop_resumed t q timeout d k =
     (if t_error (threads k t) \<noteq> RT_EOK then Some (Returned (t_error (threads k t)), None, None, True, d, k)
      else rt_data_queue_pop q timeout d k)"

definition rt_data_queue_peak :: "rt_data_queue \<Rightarrow> (rt_err \<times> (u32 \<times> u32) option) option" where
  "rt_data_queue_peak d =
     (if get_index d = put_index d then Some (RT_EEMPTY, None)
      else do { x \<leftarrow> dq_fetch d; Some (RT_EOK, Some x) })"

definition rt_data_queue_reset :: "nat \<Rightarrow> kernel \<Rightarrow> kernel option" where
  "rt_data_queue_reset q k = do {
     k \<leftarrow> rt_ipc_list_resume_all (pop_queue q) (rt_enter_critical k);
     k \<leftarrow> rt_ipc_list_resume_all (push_queue q) k;
     k \<leftarrow> rt_exit_critical k;
     rt_schedule k }"

section \<open>The queue in the ring\<close>

text \<open>The indices run through all 16-bit numbers; the position in the ring is what is left modulo the
  size, which has to be a power of two.\<close>

definition dq_count :: "rt_data_queue \<Rightarrow> nat" where
  "dq_count d = unat (put_index d - get_index d)"

definition dq_ok :: "rt_data_queue \<Rightarrow> bool" where
  "dq_ok d \<longleftrightarrow> (\<exists>m \<le> 15. unat (dq_size d) = 2 ^ m) \<and> length (dq_items d) = unat (dq_size d) \<and> dq_count d \<le> unat (dq_size d)"

definition dq_contents :: "rt_data_queue \<Rightarrow> (u32 \<times> u32) list" where
  "dq_contents d = map (\<lambda>i. dq_items d ! ((unat (get_index d) + i) mod unat (dq_size d))) [0..<dq_count d]"

lemma length_dq_contents [simp]: "length (dq_contents d) = dq_count d"
  by (simp add: dq_contents_def)

lemma dq_contents_Nil: "dq_contents d = [] \<longleftrightarrow> get_index d = put_index d"
  by (auto simp: dq_contents_def dq_count_def unat_eq_0)

lemma ring_other: "j < e \<Longrightarrow> e < n \<Longrightarrow> (p + j) mod n \<noteq> (p + e) mod n" for n :: nat
proof
  assume "j < e" "e < n" "(p + j) mod n = (p + e) mod n"
  then have "n dvd (p + e) - (p + j)" using mod_eq_dvd_iff_nat [of "p + j" "p + e" n] by simp
  then have "n \<le> e - j" using \<open>j < e\<close> by (intro dvd_imp_le) simp_all
  then show False using \<open>j < e\<close> \<open>e < n\<close> by simp
qed

lemma dq_position:
  assumes "dq_ok d"
  shows "uint (w AND (dq_size d - 1)) = int (unat w mod unat (dq_size d))" "0 < unat (dq_size d)"
    "unat (dq_size d) dvd 2 ^ 16"
proof -
  obtain m where m: "m \<le> 15" "unat (dq_size d) = 2 ^ m" using assms by (auto simp: dq_ok_def)
  have "(2::nat) ^ m < 2 ^ 16" using m by (intro power_strict_increasing) simp_all
  then have "unat (of_nat (2 ^ m) :: u16) = 2 ^ m" using m(1) unfolding unsigned_of_nat by (simp add: take_bit_nat_eq_self)
  then have "dq_size d = 2 ^ m" using m by (simp add: word_unat_eq_iff)
  then have "w AND (dq_size d - 1) = take_bit m w" by (simp add: take_bit_eq_mask mask_eq_exp_minus_1)
  moreover have "uint (take_bit m w) = uint w mod 2 ^ m"
    unfolding unsigned_take_bit_eq by (rule take_bit_eq_mod)
  ultimately show "uint (w AND (dq_size d - 1)) = int (unat w mod unat (dq_size d))"
    using m by (simp add: zmod_int)
  show "0 < unat (dq_size d)" "unat (dq_size d) dvd 2 ^ 16"
    using m le_imp_power_dvd [of m 16 "2 :: nat"] by simp_all
qed

lemma dq_put_position:
  assumes "dq_ok d"
  shows "unat (put_index d) mod unat (dq_size d) = (unat (get_index d) + dq_count d) mod unat (dq_size d)"
proof -
  have "unat (get_index d + (put_index d - get_index d)) = (unat (get_index d) + dq_count d) mod 2 ^ 16"
    unfolding dq_count_def by (subst unat_word_ariths(1)) simp
  then have "unat (put_index d) = (unat (get_index d) + dq_count d) mod 2 ^ 16" by simp
  then show ?thesis using dq_position(3) [OF assms] by (simp only: mod_mod_cancel)
qed

lemma dq_count_put: "dq_count d < 2 ^ 16 - 1 \<Longrightarrow> unat (put_index d + 1 - get_index d) = dq_count d + 1"
proof -
  assume "dq_count d < 2 ^ 16 - 1"
  then have "unat (put_index d - get_index d + 1) = dq_count d + 1"
    using unat_plus_small [of "put_index d - get_index d" 1] by (simp add: dq_count_def)
  moreover have "put_index d + 1 - get_index d = put_index d - get_index d + 1" by simp
  ultimately show ?thesis by (simp only:)
qed

lemma dq_store_queue:
  assumes ok: "dq_ok d" and room: "dq_count d < unat (dq_size d)"
  shows "\<exists>d'. dq_store x d = Some d' \<and> dq_ok d' \<and> dq_contents d' = dq_contents d @ [x]
    \<and> dq_size d' = dq_size d \<and> get_index d' = get_index d \<and> dq_notify d' = dq_notify d \<and> waiting_lwm d' = waiting_lwm d \<and> dq_lwm d' = dq_lwm d"
proof -
  let ?n = "unat (dq_size d)" and ?g = "unat (get_index d)" and ?p = "unat (put_index d) mod unat (dq_size d)"
  have n: "0 < ?n" "?n < 2 ^ 16" "length (dq_items d) = ?n"
    using dq_position(2) [OF ok] unsigned_less [of "dq_size d", where ?'a = nat] ok by (simp_all add: dq_ok_def)
  define d' where "d' = d\<lparr> dq_items := (dq_items d)[?p := x], put_index := put_index d + 1 \<rparr>"
  have "dq_store x d = Some d'"
    using n dq_position(1) [OF ok] by (simp add: dq_store_def d'_def)
  moreover have c: "dq_count d' = dq_count d + 1"
    using dq_count_put [of d] room n(2) by (simp add: dq_count_def d'_def)
  moreover have "dq_ok d'" using ok room c by (auto simp: dq_ok_def d'_def)
  moreover have "dq_contents d' = dq_contents d @ [x]"
  proof -
    have "dq_contents d' = map (\<lambda>i. (dq_items d)[?p := x] ! ((?g + i) mod ?n)) [0..<dq_count d + 1]"
      unfolding dq_contents_def c by (simp add: d'_def)
    also have "\<dots> = dq_contents d @ [x]"
      using dq_put_position [OF ok] not_sym [OF ring_other [of _ "dq_count d" ?n ?g]] room n by (auto simp: dq_contents_def)
    finally show ?thesis .
  qed
  ultimately show ?thesis by (auto simp: d'_def)
qed

lemma dq_fetch_queue:
  assumes ok: "dq_ok d" and ne: "get_index d \<noteq> put_index d"
  shows "dq_fetch d = Some (hd (dq_contents d))" "dq_contents (d\<lparr> get_index := get_index d + 1 \<rparr>) = tl (dq_contents d)"
    "dq_ok (d\<lparr> get_index := get_index d + 1 \<rparr>)"
proof -
  let ?n = "unat (dq_size d)" and ?g = "unat (get_index d)" and ?d = "d\<lparr> get_index := get_index d + 1 \<rparr>"
  have n: "0 < ?n" "length (dq_items d) = ?n" using dq_position(2) [OF ok] ok by (simp_all add: dq_ok_def)
  have "put_index d - get_index d \<noteq> 0" using ne by simp
  then have c: "dq_count d = Suc (dq_count ?d)"
    using unat_minus_one [of "put_index d - get_index d"] by (simp add: dq_count_def diff_diff_eq unat_gt_0)
  have "dq_contents d = dq_items d ! (?g mod ?n) # map (\<lambda>i. dq_items d ! ((?g + Suc i) mod ?n)) [0..<dq_count ?d]"
    unfolding dq_contents_def c by (simp add: upt_conv_Cons map_Suc_upt [symmetric] comp_def del: upt_Suc)
  moreover have "unat (get_index d + 1) mod ?n = (?g + 1) mod ?n"
  proof -
    have "unat (get_index d + 1) = (?g + 1) mod 2 ^ 16" by (simp add: unat_word_ariths)
    then show ?thesis using dq_position(3) [OF ok] by (simp only: mod_mod_cancel)
  qed
  then have "(unat (get_index d + 1) + i) mod ?n = (?g + Suc i) mod ?n" for i
    by (metis add.assoc add.commute mod_add_left_eq plus_1_eq_Suc)
  ultimately show "dq_fetch d = Some (hd (dq_contents d))" "dq_contents ?d = tl (dq_contents d)"
    using n dq_position(1) [OF ok, of "get_index d"] by (simp_all add: dq_fetch_def dq_contents_def)
  show "dq_ok ?d" using ok c by (auto simp: dq_ok_def)
qed

text \<open>The test for a full queue is right as long as \<^verbatim>\<open>put_index\<close> has not wrapped around before \<^verbatim>\<open>get_index\<close>.\<close>

lemma dq_full:
  assumes "get_index d \<le> put_index d"
  shows "dq_used d = uint (dq_size d) \<longleftrightarrow> dq_count d = unat (dq_size d)" "dq_used d = int (dq_count d)"
proof -
  have "dq_count d = unat (put_index d) - unat (get_index d)" "unat (get_index d) \<le> unat (put_index d)"
    using assms by (simp_all add: dq_count_def unat_sub word_le_nat_alt)
  then show u: "dq_used d = int (dq_count d)" by (simp add: dq_used_def)
  show "dq_used d = uint (dq_size d) \<longleftrightarrow> dq_count d = unat (dq_size d)" unfolding u by (simp only: uint_int_unat of_nat_eq_iff)
qed

lemma dq_wrapped:
  assumes "put_index d < get_index d"
  shows "dq_used d < 0"
  using assms by (simp add: dq_used_def word_less_def)

section \<open>Properties\<close>

lemma driver_running:
  assumes "kernel_inv idle k" "ipc_woke q k k'" "items (tlists k) q = t # ts"
  shows "items (tlists k') q = ts" "ready k' t" "threads k' = (threads k)(t := (threads k t)\<lparr> t_stat := RT_THREAD_READY \<rparr>)"
  using assms(2,3) by (auto simp: ipc_woke_def)

text \<open>C37. The hand-over through a completion. A thread that waits for an event which has not happened is
  suspended and another thread runs; when the event is signalled the thread becomes ready, and when it runs again
  it returns the error it was woken with, which is none, and clears the flag for the next event. The kernel's
  invariant holds after each step.\<close>

theorem completion_handshake:
  assumes k: "kernel_inv idle k" and c: "rt_current_thread k = Some t" and r: "ready k t" and i: "t \<noteq> idle"
    and n: "interrupt_nest k = 0" and tm: "good_time time" "time \<noteq> 0"
    and f: "cmp_flag cmp \<noteq> RT_COMPLETED" and e: "items (tlists k) (cmp_queue c) = []"
  shows "\<exists>k1 k2 cmp2. rt_completion_wait c time cmp k = Some (Waits (), k1) \<and> kernel_inv idle k1
    \<and> (lock_nest k = 0 \<longrightarrow> rt_current_thread k1 \<noteq> Some t) \<and> \<not> ready k1 t
    \<and> rt_completion_done c cmp k1 = Some (cmp2, k2) \<and> kernel_inv idle k2 \<and> ready k2 t
    \<and> cmp_flag cmp2 = RT_COMPLETED \<and> items (tlists k2) (cmp_queue c) = []
    \<and> rt_completion_wait_resumed t cmp2 k2 = (RT_EOK, cmp\<lparr> cmp_flag := RT_UNCOMPLETED \<rparr>)"
proof -
  obtain k1 where k1: "driver_wait (cmp_queue c) t time k = Some k1" "kernel_inv idle k1" "waits_in (cmp_queue c) 0x00 t k k1"
    using driver_wait_runs [OF k c r i n _ tm(1), of "cmp_queue c"] by auto
  then have q1: "items (tlists k1) (cmp_queue c) = [t]" and th: "t_error (threads k1 t) = RT_EOK" "\<not> ready k1 t"
    using e by (auto simp: waits_in_def ipc_insert_def ready_def)
  obtain k2 where k2: "ipc_wake (cmp_queue c) k1 = Some k2" "kernel_inv idle k2" "ipc_woke (cmp_queue c) k1 k2"
    using ipc_wake_runs [OF k1(2), of "cmp_queue c"] by auto
  note w = driver_running [OF k1(2) k2(3) q1]
  have "rt_completion_wait c time cmp k = Some (Waits (), k1)"
    using f e tm(2) c n k1(1) by (simp add: rt_completion_wait_def ls_isempty_def rt_debug_not_in_interrupt_def)
  moreover have "rt_completion_done c cmp k1 = Some (cmp\<lparr> cmp_flag := RT_COMPLETED \<rparr>, k2)"
    using f k2(1) by (simp add: rt_completion_done_def)
  moreover have "lock_nest k = 0 \<longrightarrow> rt_current_thread k1 \<noteq> Some t" using k1(3) by (simp add: waits_in_def)
  ultimately show ?thesis
    using k1(2) k2(2) w th by (simp add: rt_completion_wait_resumed_def)
qed

text \<open>A signal that comes before the wait is seen by every wait: the flag is cleared only on the path that
  slept, so that a completed completion lets all later waits pass, and a signal on it is lost.\<close>

theorem completion_not_consumed:
  assumes "cmp_flag cmp \<noteq> RT_COMPLETED" "items (tlists k) (cmp_queue c) = []"
  shows "\<exists>cmp'. rt_completion_done c cmp k = Some (cmp', k)
    \<and> rt_completion_wait c time cmp' k = Some (Returned RT_EOK, k) \<and> rt_completion_done c cmp' k = Some (cmp', k)"
  using assms by (simp add: rt_completion_done_def rt_completion_wait_def ipc_wake_def ls_isempty_def)

lemma completion_not_consumed_witness:
  "rt_completion_wait 3 50 \<lparr> cmp_flag = RT_COMPLETED \<rparr> kernel0 = Some (Returned RT_EOK, kernel0)"
  using completion_not_consumed [of "\<lparr> cmp_flag = RT_UNCOMPLETED \<rparr>" kernel0 3 50]
  by (simp add: RT_COMPLETED_def RT_UNCOMPLETED_def kernel0_def rt_completion_done_def ipc_wake_def ls_isempty_def)

text \<open>C38. \<^verbatim>\<open>rt_data_queue_push\<close> on every path, as long as \<^verbatim>\<open>put_index\<close> has not wrapped around before \<^verbatim>\<open>get_index\<close> or
  there is room. With room the item goes behind the others and the thread that waits first at the other end is woken,
  or the function of the queue is notified when there is none; a full queue refuses at once or puts the caller into the
  list of the pushers, and remembers that somebody waits for the low-water mark. The invariants are kept.\<close>

theorem rt_data_queue_push_correct:
  assumes k: "kernel_inv idle k" and ok: "dq_ok d" and c: "rt_current_thread k = Some t" and r: "ready k t" and i: "t \<noteq> idle"
    and n: "interrupt_nest k = 0" and tm: "good_time time" and wr: "get_index d \<le> put_index d \<or> dq_count d < unat (dq_size d)"
  shows "\<exists>res ev d' k'. rt_data_queue_push q x time d k = Some (res, ev, d', k') \<and> kernel_inv idle k' \<and> dq_ok d'
    \<and> (if dq_count d < unat (dq_size d) then
         res = Returned RT_EOK \<and> dq_contents d' = dq_contents d @ [x] \<and> ipc_woke (pop_queue q) k k'
         \<and> ev = (if items (tlists k) (pop_queue q) = [] \<and> dq_notify d then Some RT_DATAQUEUE_EVENT_PUSH else None)
       else dq_contents d' = dq_contents d \<and> waiting_lwm d' \<and> ev = None
         \<and> (if time = 0 then res = Returned RT_ETIMEOUT \<and> k' = k
            else res = Waits () \<and> waits_in (push_queue q) 0x00 t k k'))"
proof (cases "dq_count d < unat (dq_size d)")
  case True
  have nf: "dq_used d \<noteq> uint (dq_size d)"
  proof (cases "get_index d \<le> put_index d")
    case True
    then show ?thesis using dq_full(1) [OF True] \<open>dq_count d < _\<close> by simp
  next
    case False
    then have "dq_used d < 0" by (intro dq_wrapped) simp
    then show ?thesis using uint_nonnegative [of "dq_size d"] by linarith
  qed
  obtain d' where d': "dq_store x d = Some d'" "dq_ok d'" "dq_contents d' = dq_contents d @ [x]" "dq_notify d' = dq_notify d"
    using dq_store_queue [OF ok True] by blast
  obtain k' where k': "ipc_wake (pop_queue q) k = Some k'" "kernel_inv idle k'" "ipc_woke (pop_queue q) k k'"
    using ipc_wake_runs [OF k, of "pop_queue q"] by auto
  then show ?thesis using True nf d' by (auto simp: rt_data_queue_push_def ls_isempty_def Let_def)
next
  case False
  then have "dq_count d = unat (dq_size d)" "get_index d \<le> put_index d" using ok wr by (auto simp: dq_ok_def)
  then have full: "dq_used d = uint (dq_size d)" using dq_full(1) by simp
  let ?d = "d\<lparr> waiting_lwm := True \<rparr>"
  have d: "dq_ok ?d" "dq_contents ?d = dq_contents d" using ok by (simp_all add: dq_ok_def dq_contents_def dq_count_def)
  obtain k' where "driver_wait (push_queue q) t time k = Some k'" "kernel_inv idle k'" "waits_in (push_queue q) 0x00 t k k'"
    using driver_wait_runs [OF k c r i n _ tm, of "push_queue q"] by auto
  then show ?thesis
    using full False d k c n by (cases "time = 0") (auto simp: rt_data_queue_push_def rt_debug_not_in_interrupt_def)
qed

text \<open>C39. \<^verbatim>\<open>rt_data_queue_pop\<close> on every path. The oldest item is handed out. When a push has been refused or has waited
  and the queue is now down to the low-water mark, the pusher that waits first is woken; but when none waits, the call
  ends with the interrupts disabled. An empty queue times out at once or puts the caller into the list of the poppers.
  The invariants are kept.\<close>

theorem rt_data_queue_pop_correct:
  assumes k: "kernel_inv idle k" and ok: "dq_ok d" and c: "rt_current_thread k = Some t" and r: "ready k t" and i: "t \<noteq> idle"
    and n: "interrupt_nest k = 0" and tm: "good_time time"
  shows "\<exists>res got ev enabled d' k'. rt_data_queue_pop q time d k = Some (res, got, ev, enabled, d', k') \<and> kernel_inv idle k' \<and> dq_ok d'
    \<and> (case dq_contents d of
         x # xs \<Rightarrow> res = Returned RT_EOK \<and> got = Some x \<and> dq_contents d' = xs
           \<and> (if waiting_lwm d \<and> dq_used d' \<le> uint (dq_lwm d)
              then \<not> waiting_lwm d' \<and> ipc_woke (push_queue q) k k' \<and> enabled = (items (tlists k) (push_queue q) \<noteq> [])
                \<and> ev = (if dq_notify d then Some RT_DATAQUEUE_EVENT_LWM else None)
              else waiting_lwm d' = waiting_lwm d \<and> k' = k \<and> enabled
                \<and> ev = (if dq_notify d then Some RT_DATAQUEUE_EVENT_POP else None))
       | [] \<Rightarrow> got = None \<and> ev = None \<and> enabled \<and> d' = d
           \<and> (if time = 0 then res = Returned RT_ETIMEOUT \<and> k' = k
              else res = Waits () \<and> waits_in (pop_queue q) 0x00 t k k'))"
proof (cases "dq_contents d")
  case Nil
  then have "get_index d = put_index d" by (simp add: dq_contents_Nil)
  moreover obtain k' where "driver_wait (pop_queue q) t time k = Some k'" "kernel_inv idle k'" "waits_in (pop_queue q) 0x00 t k k'"
    using driver_wait_runs [OF k c r i n _ tm, of "pop_queue q"] by auto
  ultimately show ?thesis
    using Nil ok k c n by (cases "time = 0") (auto simp: rt_data_queue_pop_def rt_debug_not_in_interrupt_def)
next
  case (Cons x xs)
  then have ne: "get_index d \<noteq> put_index d" using dq_contents_Nil [of d] by auto
  let ?d = "d\<lparr> get_index := get_index d + 1 \<rparr>"
  note f = dq_fetch_queue [OF ok ne]
  have u: "dq_used (?d\<lparr> waiting_lwm := b \<rparr>) = dq_used ?d" "dq_contents (?d\<lparr> waiting_lwm := b \<rparr>) = dq_contents ?d"
    "dq_ok (?d\<lparr> waiting_lwm := b \<rparr>) = dq_ok ?d" for b
    by (simp_all add: dq_used_def dq_contents_def dq_count_def dq_ok_def)
  obtain k' where "ipc_wake (push_queue q) k = Some k'" "kernel_inv idle k'" "ipc_woke (push_queue q) k k'"
    using ipc_wake_runs [OF k, of "push_queue q"] by auto
  then show ?thesis
    using ne Cons f u k
    by (cases "waiting_lwm d \<and> dq_used ?d \<le> uint (dq_lwm d)") (auto simp: rt_data_queue_pop_def ls_isempty_def Let_def)
qed

text \<open>C40. Once \<^verbatim>\<open>put_index\<close> has wrapped around and \<^verbatim>\<open>get_index\<close> has not, the difference of the two is negative and a full queue
  is not seen: the push succeeds and overwrites the oldest item, which the next pop should have returned.\<close>

theorem rt_data_queue_push_overflows:
  assumes k: "kernel_inv idle k" and ok: "dq_ok d" and wr: "put_index d < get_index d" and full: "dq_count d = unat (dq_size d)"
  shows "\<exists>ev d' k'. rt_data_queue_push q x time d k = Some (Returned RT_EOK, ev, d', k') \<and> kernel_inv idle k'
    \<and> get_index d' = get_index d \<and> dq_fetch d' = Some x"
proof -
  have nf: "dq_used d \<noteq> uint (dq_size d)" using dq_wrapped [OF wr] uint_nonnegative [of "dq_size d"] by linarith
  have p: "unat (put_index d) mod unat (dq_size d) = unat (get_index d) mod unat (dq_size d)"
    using dq_put_position [OF ok] full by simp
  have l: "length (dq_items d) = unat (dq_size d)" using ok by (simp add: dq_ok_def)
  let ?d = "d\<lparr> dq_items := (dq_items d)[unat (get_index d) mod unat (dq_size d) := x], put_index := put_index d + 1 \<rparr>"
  have "dq_store x d = Some ?d"
    using dq_position(1,2) [OF ok] p l by (simp add: dq_store_def)
  moreover have "dq_fetch ?d = Some x"
    using dq_position(1,2) [OF ok] l by (simp add: dq_fetch_def)
  moreover obtain k' where "ipc_wake (pop_queue q) k = Some k'" "kernel_inv idle k'"
    using ipc_wake_runs [OF k, of "pop_queue q"] by auto
  ultimately show ?thesis using nf by (auto simp: rt_data_queue_push_def Let_def)
qed

text \<open>\<^verbatim>\<open>rt_data_queue_peak\<close> returns the oldest item, \<^verbatim>\<open>rt_data_queue_init\<close> makes an empty queue.\<close>

lemma rt_data_queue_peak_correct:
  "dq_ok d \<Longrightarrow> rt_data_queue_peak d = Some (case dq_contents d of [] \<Rightarrow> (RT_EEMPTY, None) | x # _ \<Rightarrow> (RT_EOK, Some x))"
  using dq_contents_Nil [of d] dq_fetch_queue(1) [of d] by (cases "dq_contents d") (auto simp: rt_data_queue_peak_def)

section \<open>The small system\<close>

text \<open>A queue of two items just before \<^verbatim>\<open>get_index\<close> wraps around, with two items, and one with room.\<close>

definition dq_demo :: rt_data_queue where
  "dq_demo = \<lparr> dq_size = 2, dq_lwm = 1, waiting_lwm = True, get_index = 65535, put_index = 1, dq_items = [(7, 1), (8, 1)], dq_notify = True \<rparr>"

lemma dq_demo: "dq_ok dq_demo" "dq_contents dq_demo = [(8, 1), (7, 1)]" "dq_count dq_demo = 2"
  by (auto simp: dq_demo_def dq_ok_def dq_contents_def dq_count_def upt_rec intro: exI [of _ 1])

lemma driver_demo: "interrupt_nest sched_demo = 0" "items (tlists sched_demo) (DriverQ q) = []" "good_time 50" "ready sched_demo 1"
  "rt_current_thread sched_demo = Some 1"
  using sched_demo_ready sched_demo_current by (simp_all add: sched_demo_def kernel0_def good_time_def)

lemma completion_handshake_witness:
  "\<exists>k1 k2 cmp2. rt_completion_wait 3 50 \<lparr> cmp_flag = 0 \<rparr> sched_demo = Some (Waits (), k1) \<and> \<not> ready k1 1
    \<and> rt_completion_done 3 \<lparr> cmp_flag = 0 \<rparr> k1 = Some (cmp2, k2) \<and> ready k2 1"
  using completion_handshake [OF demo_inv driver_demo(5,4) _ driver_demo(1,3), where c = 3 and cmp = "\<lparr> cmp_flag = 0 \<rparr>"] driver_demo(2)
  by (auto simp: RT_COMPLETED_def)

lemma rt_data_queue_push_correct_witness:
  "\<exists>d' k'. rt_data_queue_push 3 (9, 1) 50 (dq_demo\<lparr> put_index := 0 \<rparr>) sched_demo = Some (Returned RT_EOK, Some 2, d', k')
    \<and> dq_contents d' = [(8, 1), (9, 1)]"
proof -
  let ?d = "dq_demo\<lparr> put_index := 0 \<rparr>"
  have d: "dq_ok ?d" "dq_contents ?d = [(8, 1)]" "dq_count ?d = 1" "dq_size ?d = 2" "dq_notify ?d"
    by (auto simp: dq_demo_def dq_ok_def dq_contents_def dq_count_def upt_rec intro: exI [of _ 1])
  show ?thesis
    using rt_data_queue_push_correct [OF demo_inv d(1) driver_demo(5,4) _ driver_demo(1,3), where q = 3 and x = "(9, 1)"] d driver_demo(2)
    by (auto simp: RT_DATAQUEUE_EVENT_PUSH_def)
qed

lemma rt_data_queue_pop_correct_witness:
  "\<exists>d' k'. rt_data_queue_pop 3 50 dq_demo sched_demo = Some (Returned RT_EOK, Some (8, 1), Some 3, False, d', k') \<and> dq_contents d' = [(7, 1)]"
proof -
  obtain res got ev enabled d' k' where p: "rt_data_queue_pop 3 50 dq_demo sched_demo = Some (res, got, ev, enabled, d', k')"
    "res = Returned RT_EOK" "got = Some (8, 1)" "dq_contents d' = [(7, 1)]" "dq_ok d'"
    "if waiting_lwm dq_demo \<and> dq_used d' \<le> uint (dq_lwm dq_demo)
              then \<not> waiting_lwm d' \<and> ipc_woke (push_queue 3) sched_demo k' \<and> enabled = (items (tlists sched_demo) (push_queue 3) \<noteq> [])
                \<and> ev = (if dq_notify dq_demo then Some RT_DATAQUEUE_EVENT_LWM else None)
              else waiting_lwm d' = waiting_lwm dq_demo \<and> k' = sched_demo \<and> enabled
                \<and> ev = (if dq_notify dq_demo then Some RT_DATAQUEUE_EVENT_POP else None)"
    using rt_data_queue_pop_correct [OF demo_inv dq_demo(1) driver_demo(5,4) _ driver_demo(1,3), where q = 3] dq_demo(2) by auto
  have "d' = dq_demo\<lparr> get_index := 0, waiting_lwm := False \<rparr>"
    using p(1) by (auto simp: rt_data_queue_pop_def dq_demo_def dq_fetch_def mem_get_def dq_used_def bind_eq_Some_conv split: if_splits)
  then have "dq_used d' \<le> uint (dq_lwm dq_demo)" by (simp add: dq_used_def dq_demo_def)
  then show ?thesis using p driver_demo(2) by (simp add: dq_demo_def RT_DATAQUEUE_EVENT_LWM_def)
qed

lemma rt_data_queue_push_overflows_witness:
  "\<exists>ev d' k'. rt_data_queue_push 3 (9, 1) 50 dq_demo sched_demo = Some (Returned RT_EOK, ev, d', k') \<and> dq_fetch d' = Some (9, 1)"
  using rt_data_queue_push_overflows [OF demo_inv dq_demo(1), of 3 "(9, 1)" 50] dq_demo(3) by (auto simp: dq_demo_def)

end
