(* ===== verification/FinshVm.thy ===== *)
theory FinshVm
  imports Prelude "HOL-Library.Signed_Division"
begin

text \<open>
  components/finsh/finsh_vm.c and finsh_ops.c: the machine that runs the code of the shell. A cell of the stack is
  the union \<^verbatim>\<open>finsh_value\<close>, 32 bits of which an operation uses the low 8, the low 16 or all. On
  the ARM \<^verbatim>\<open>char\<close> is unsigned and \<^verbatim>\<open>long\<close> has 32 bits; signed arithmetic wraps around. Memory is
  the map of the bytes that the commands may read and write; the arrays of the machine itself are not in it.
  The C functions that commands call are a parameter.
\<close>

section \<open>Values\<close>

datatype width = Byte | Word | Dword

fun cell_get :: "width \<Rightarrow> u32 \<Rightarrow> int" where
  "cell_get Byte c = uint (ucast c :: u8)"
| "cell_get Word c = sint (ucast c :: u16)"
| "cell_get Dword c = sint c"

fun cell_put :: "width \<Rightarrow> int \<Rightarrow> u32 \<Rightarrow> u32" where
  "cell_put Byte v c = (c AND NOT (mask 8)) OR ucast (word_of_int v :: u8)"
| "cell_put Word v c = (c AND NOT (mask 16)) OR ucast (word_of_int v :: u16)"
| "cell_put Dword v c = word_of_int v"

text \<open>The value that is left of \<open>v\<close> in a field.\<close>

definition norm :: "width \<Rightarrow> int \<Rightarrow> int" where
  "norm w v = cell_get w (word_of_int v)"

fun n_bytes :: "width \<Rightarrow> nat" where
  "n_bytes Byte = 1" | "n_bytes Word = 2" | "n_bytes Dword = 4"

lemma ucast_replace_low:
  fixes b :: "'a::len word" and c :: u32
  assumes "LENGTH('a) \<le> 32"
  shows "ucast ((c AND NOT (mask LENGTH('a))) OR ucast b) = b"
  by (rule bit_word_eqI) (use assms in \<open>auto simp: bit_simps\<close>)

lemma ucast_word_of_int_u32:
  assumes "LENGTH('a::len) \<le> 32"
  shows "ucast (word_of_int v :: u32) = (word_of_int v :: 'a word)"
  by (rule bit_word_eqI) (use assms in \<open>auto simp: bit_simps\<close>)

lemma cell_get_put [simp]: "cell_get w (cell_put w v c) = norm w v"
  using ucast_replace_low [where ?'a = 8, of c "word_of_int v"] ucast_replace_low [where ?'a = 16, of c "word_of_int v"]
    ucast_word_of_int_u32 [where ?'a = 8, of v] ucast_word_of_int_u32 [where ?'a = 16, of v]
  by (cases w) (simp_all add: norm_def)

text \<open>Words as bytes, the low byte first.\<close>

fun split_bytes :: "nat \<Rightarrow> u32 \<Rightarrow> u8 list" where
  "split_bytes 0 v = []"
| "split_bytes (Suc n) v = ucast v # split_bytes n (drop_bit 8 v)"

fun join_bytes :: "u8 list \<Rightarrow> u32" where
  "join_bytes [] = 0"
| "join_bytes (b # bs) = ucast b OR push_bit 8 (join_bytes bs)"

lemma length_split_bytes [simp]: "length (split_bytes n v) = n"
  by (induction n arbitrary: v) auto

lemma join_split: "join_bytes (split_bytes n v) = take_bit (8 * n) v"
proof (induction n arbitrary: v)
  case (Suc n)
  show ?case by (rule bit_word_eqI) (auto simp: Suc bit_simps)
qed simp

lemma join_split_4 [simp]: "join_bytes (split_bytes 4 v) = v"
proof -
  have "take_bit 32 v = v" by (rule bit_word_eqI) (auto simp: bit_simps)
  then show ?thesis by (simp add: join_split)
qed

lemma cell_get_join_split: "cell_get w (join_bytes (split_bytes (n_bytes w) v)) = cell_get w v"
proof -
  have "ucast (take_bit 8 v) = (ucast v :: u8)" and "ucast (take_bit 16 v) = (ucast v :: u16)"
    by (rule bit_word_eqI, auto simp: bit_simps)+
  then show ?thesis using join_split_4 [of v] by (cases w) (simp_all add: join_split del: join_split_4 split_bytes.simps join_bytes.simps)
qed

text \<open>finsh.h: \<^verbatim>\<open>FINSH_GET16\<close>, \<^verbatim>\<open>FINSH_GET32\<close>, \<^verbatim>\<open>FINSH_SET16\<close>, \<^verbatim>\<open>FINSH_SET32\<close>, which take the bytes one by one.\<close>

definition FINSH_GET16 :: "u8 list \<Rightarrow> nat \<Rightarrow> int option" where
  "FINSH_GET16 t i = do {
     b0 \<leftarrow> mem_get t (int i);
     b1 \<leftarrow> mem_get t (int i + 1);
     Some (uint b0 OR push_bit 8 (uint b1)) }"

definition FINSH_GET32 :: "u8 list \<Rightarrow> nat \<Rightarrow> u32 option" where
  "FINSH_GET32 t i = do {
     b0 \<leftarrow> mem_get t (int i);
     b1 \<leftarrow> mem_get t (int i + 1);
     b2 \<leftarrow> mem_get t (int i + 2);
     b3 \<leftarrow> mem_get t (int i + 3);
     Some (ucast b0 OR push_bit 8 (ucast b1) OR push_bit 16 (ucast b2) OR push_bit 24 (ucast b3)) }"

definition FINSH_SET16 :: "u32 \<Rightarrow> u8 list" where
  "FINSH_SET16 v = [ucast (v AND 0x00ff), ucast (drop_bit 8 v)]"

definition FINSH_SET32 :: "u32 \<Rightarrow> u8 list" where
  "FINSH_SET32 v = [ucast (v AND 0x000000ff), ucast (drop_bit 8 v AND 0x000000ff),
     ucast (drop_bit 16 v AND 0x000000ff), ucast (drop_bit 24 v)]"

lemma ucast_u8_mask: "ucast (v AND 0xff :: u32) = (ucast v :: u8)"
proof -
  have "ucast (v AND mask 8) = (ucast v :: u8)" by (rule bit_word_eqI) (auto simp: bit_simps)
  then show ?thesis by (simp add: mask_eq_exp_minus_1)
qed

lemma FINSH_SET32_split: "FINSH_SET32 v = split_bytes 4 v"
  by (simp add: FINSH_SET32_def ucast_u8_mask numeral_eq_Suc drop_bit_drop_bit)

lemma FINSH_SET16_split: "FINSH_SET16 v = split_bytes 2 v"
  using ucast_u8_mask by (simp add: FINSH_SET16_def numeral_eq_Suc)

lemma bytes_4:
  "split_bytes 4 v = [ucast v, ucast (drop_bit 8 v), ucast (drop_bit 16 v), ucast (drop_bit 24 v)]"
  "split_bytes 2 v = [ucast v, ucast (drop_bit 8 v)]"
  by (simp_all add: numeral_eq_Suc drop_bit_drop_bit)

text \<open>The code segment contains \<open>c\<close> at position \<open>pc\<close>.\<close>

definition code_at :: "u8 list \<Rightarrow> nat \<Rightarrow> u8 list \<Rightarrow> bool" where
  "code_at t pc c \<longleftrightarrow> pc + length c \<le> length t \<and> take (length c) (drop pc t) = c"

lemma code_at_Nil: "code_at t pc [] \<longleftrightarrow> pc \<le> length t"
  by (simp add: code_at_def)

lemma code_at_Cons: "code_at t pc (x # c) \<longleftrightarrow> pc < length t \<and> t ! pc = x \<and> code_at t (Suc pc) c"
proof (cases "pc < length t")
  case True
  then have "drop pc t = t ! pc # drop (Suc pc) t" by (rule Cons_nth_drop_Suc [symmetric])
  then show ?thesis using True by (auto simp: code_at_def)
qed (auto simp: code_at_def)

lemma code_at_append: "code_at t pc (c @ d) \<longleftrightarrow> code_at t pc c \<and> code_at t (pc + length c) d"
proof (induction c arbitrary: pc)
  case Nil
  then show ?case by (auto simp: code_at_def)
next
  case (Cons x c)
  then show ?case by (simp add: code_at_Cons)
qed

lemma FINSH_GET32_split:
  assumes "code_at t pc (split_bytes 4 v)"
  shows "FINSH_GET32 t pc = Some v"
proof -
  have "take 4 (drop pc t) = split_bytes 4 v" and l: "pc + 4 \<le> length t"
    using assms by (simp_all add: code_at_def)
  have n: "t ! pc = ucast v" "t ! Suc pc = ucast (drop_bit 8 v)" "t ! Suc (Suc pc) = ucast (drop_bit 16 v)"
    "t ! Suc (Suc (Suc pc)) = ucast (drop_bit 24 v)"
    using assms by (simp_all add: numeral_eq_Suc code_at_Cons drop_bit_drop_bit)
  have v: "v = ucast (ucast v :: u8) OR push_bit 8 (ucast (ucast (drop_bit 8 v) :: u8))
      OR push_bit 16 (ucast (ucast (drop_bit 16 v) :: u8)) OR push_bit 24 (ucast (ucast (drop_bit 24 v) :: u8))"
    (is "v = ?r")
  proof (rule bit_word_eqI)
    fix n :: nat assume "n < LENGTH(32)"
    then show "bit v n = bit ?r n" by (cases "n < 8"; cases "n < 16"; cases "n < 24") (auto simp: bit_simps)
  qed
  have m: "mem_get t (int pc) = Some (t ! pc)" "mem_get t (int pc + 1) = Some (t ! Suc pc)"
    "mem_get t (int pc + 2) = Some (t ! Suc (Suc pc))" "mem_get t (int pc + 3) = Some (t ! Suc (Suc (Suc pc)))"
    using l by (auto simp: mem_get_def nat_add_distrib numeral_eq_Suc)
  show ?thesis unfolding FINSH_GET32_def m n using v by simp
qed

section \<open>Memory\<close>

type_synonym memory = "u32 \<rightharpoonup> u8"

fun read_bytes :: "memory \<Rightarrow> u32 \<Rightarrow> nat \<Rightarrow> u8 list option" where
  "read_bytes m a 0 = Some []"
| "read_bytes m a (Suc n) = do { b \<leftarrow> m a; bs \<leftarrow> read_bytes m (a + 1) n; Some (b # bs) }"

fun write_bytes :: "memory \<Rightarrow> u32 \<Rightarrow> u8 list \<Rightarrow> memory option" where
  "write_bytes m a [] = Some m"
| "write_bytes m a (b # bs) = (if m a = None then None else write_bytes (m(a \<mapsto> b)) (a + 1) bs)"

text \<open>Reading and writing through a \<^verbatim>\<open>char *\<close>, \<^verbatim>\<open>short *\<close> or \<^verbatim>\<open>long *\<close>.\<close>

definition mem_load :: "width \<Rightarrow> memory \<Rightarrow> u32 \<Rightarrow> int option" where
  "mem_load w m a = map_option (\<lambda>bs. cell_get w (join_bytes bs)) (read_bytes m a (n_bytes w))"

definition mem_store :: "width \<Rightarrow> memory \<Rightarrow> u32 \<Rightarrow> int \<Rightarrow> memory option" where
  "mem_store w m a v = write_bytes m a (split_bytes (n_bytes w) (word_of_int v))"

lemma read_bytes_4:
  "read_bytes m a 4 = do { b0 \<leftarrow> m a; b1 \<leftarrow> m (a + 1); b2 \<leftarrow> m (a + 2); b3 \<leftarrow> m (a + 3); Some [b0, b1, b2, b3] }"
  "read_bytes m a 2 = do { b0 \<leftarrow> m a; b1 \<leftarrow> m (a + 1); Some [b0, b1] }"
  by (simp_all add: numeral_eq_Suc add.assoc Option.bind_assoc)

lemma Suc_4: "(4::nat) = Suc (Suc (Suc (Suc 0)))"
  by simp

lemma mem_load_store:
  assumes "mem_store w m a v = Some m'"
  shows "mem_load w m' a = Some (norm w v)"
proof -
  have d: "(2::u32) \<noteq> 0" "(3::u32) \<noteq> 0" by simp_all
  then have "read_bytes m' a (n_bytes w) = Some (split_bytes (n_bytes w) (word_of_int v))"
    using assms by (cases w) (auto simp: mem_store_def numeral_2_eq_2 Suc_4 add.assoc split: if_splits)
  then show ?thesis by (simp add: mem_load_def cell_get_join_split norm_def)
qed

section \<open>The machine (finsh_vm.c)\<close>

definition FINSH_STACK_MAX :: nat where "FINSH_STACK_MAX = 64"
definition FINSH_TEXT_MAX :: nat where "FINSH_TEXT_MAX = 128"

record finsh_vm =
  vm_stack :: "u32 list"
  vm_sp :: nat
  vm_text :: "u8 list"
  vm_pc :: nat
  vm_memory :: memory

type_synonym syscalls = "u32 \<Rightarrow> u32 list \<Rightarrow> memory \<Rightarrow> (u32 \<times> memory) option"

text \<open>The cell \<open>k\<close> below the stack pointer: \<^verbatim>\<open>(finsh_sp - k)->char_value\<close> and so on.\<close>

definition sp_get :: "width \<Rightarrow> nat \<Rightarrow> finsh_vm \<Rightarrow> int option" where
  "sp_get w k vm = map_option (cell_get w) (mem_get (vm_stack vm) (int (vm_sp vm) - int k))"

definition sp_put :: "width \<Rightarrow> nat \<Rightarrow> int \<Rightarrow> finsh_vm \<Rightarrow> finsh_vm option" where
  "sp_put w k v vm = do {
     c \<leftarrow> mem_get (vm_stack vm) (int (vm_sp vm) - int k);
     st \<leftarrow> mem_set (vm_stack vm) (int (vm_sp vm) - int k) (cell_put w v c);
     Some (vm\<lparr> vm_stack := st \<rparr>) }"

definition sp_inc :: "finsh_vm \<Rightarrow> finsh_vm" where
  "sp_inc vm = vm\<lparr> vm_sp := vm_sp vm + 1 \<rparr>"

definition sp_dec :: "finsh_vm \<Rightarrow> finsh_vm option" where
  "sp_dec vm = (if vm_sp vm = 0 then None else Some (vm\<lparr> vm_sp := vm_sp vm - 1 \<rparr>))"

definition pc_add :: "nat \<Rightarrow> finsh_vm \<Rightarrow> finsh_vm" where
  "pc_add n vm = vm\<lparr> vm_pc := vm_pc vm + n \<rparr>"

section \<open>Operations (finsh_ops.c)\<close>

text \<open>The binary operators of C on the promoted operands. A division by zero and a shift by a count that is
  negative or at least 32 are undefined.\<close>

datatype binop = Add | Sub | Div | Mod | Mul | And | Or | Xor | Shl | Shr

fun c_binop :: "binop \<Rightarrow> int \<Rightarrow> int \<Rightarrow> int option" where
  "c_binop Add x y = Some (x + y)"
| "c_binop Sub x y = Some (x - y)"
| "c_binop Div x y = (if y = 0 then None else Some (x sdiv y))"
| "c_binop Mod x y = (if y = 0 then None else Some (x smod y))"
| "c_binop Mul x y = Some (x * y)"
| "c_binop And x y = Some (x AND y)"
| "c_binop Or x y = Some (x OR y)"
| "c_binop Xor x y = Some (x XOR y)"
| "c_binop Shl x y = (if 0 \<le> y \<and> y < 32 then Some (push_bit (nat y) x) else None)"
| "c_binop Shr x y = (if 0 \<le> y \<and> y < 32 then Some (drop_bit (nat y) x) else None)"

definition OP_BIN :: "width \<Rightarrow> binop \<Rightarrow> finsh_vm \<Rightarrow> finsh_vm option" where
  "OP_BIN w f vm = do {
     x \<leftarrow> sp_get w 2 vm;
     y \<leftarrow> sp_get w 1 vm;
     r \<leftarrow> c_binop f x y;
     vm \<leftarrow> sp_put w 2 r vm;
     sp_dec vm }"

text \<open>\<^verbatim>\<open>OP_add_byte\<close>, \<^verbatim>\<open>OP_add_word\<close>, \<^verbatim>\<open>OP_add_dword\<close>, and so on.\<close>

definition OP_add :: "width \<Rightarrow> finsh_vm \<Rightarrow> finsh_vm option" where "OP_add w = OP_BIN w Add"
definition OP_sub :: "width \<Rightarrow> finsh_vm \<Rightarrow> finsh_vm option" where "OP_sub w = OP_BIN w Sub"
definition OP_div :: "width \<Rightarrow> finsh_vm \<Rightarrow> finsh_vm option" where "OP_div w = OP_BIN w Div"
definition OP_mod :: "width \<Rightarrow> finsh_vm \<Rightarrow> finsh_vm option" where "OP_mod w = OP_BIN w Mod"
definition OP_mul :: "width \<Rightarrow> finsh_vm \<Rightarrow> finsh_vm option" where "OP_mul w = OP_BIN w Mul"
definition OP_and :: "width \<Rightarrow> finsh_vm \<Rightarrow> finsh_vm option" where "OP_and w = OP_BIN w And"
definition OP_or :: "width \<Rightarrow> finsh_vm \<Rightarrow> finsh_vm option" where "OP_or w = OP_BIN w Or"
definition OP_xor :: "width \<Rightarrow> finsh_vm \<Rightarrow> finsh_vm option" where "OP_xor w = OP_BIN w Xor"
definition OP_shl :: "width \<Rightarrow> finsh_vm \<Rightarrow> finsh_vm option" where "OP_shl w = OP_BIN w Shl"
definition OP_shr :: "width \<Rightarrow> finsh_vm \<Rightarrow> finsh_vm option" where "OP_shr w = OP_BIN w Shr"

lemmas OP_BIN_defs = OP_add_def OP_sub_def OP_div_def OP_mod_def OP_mul_def
  OP_and_def OP_or_def OP_xor_def OP_shl_def OP_shr_def

definition OP_no_op :: "finsh_vm \<Rightarrow> finsh_vm option" where
  "OP_no_op vm = Some vm"

definition OP_bw :: "width \<Rightarrow> finsh_vm \<Rightarrow> finsh_vm option" where
  "OP_bw w vm = do { x \<leftarrow> sp_get w 1 vm; sp_put w 1 (NOT x) vm }"

definition OP_ld_byte :: "finsh_vm \<Rightarrow> finsh_vm option" where
  "OP_ld_byte vm = do {
     b \<leftarrow> mem_get (vm_text vm) (int (vm_pc vm));
     vm \<leftarrow> sp_put Byte 0 (uint b) vm;
     Some (pc_add 1 (sp_inc vm)) }"

definition OP_ld_word :: "finsh_vm \<Rightarrow> finsh_vm option" where
  "OP_ld_word vm = do {
     v \<leftarrow> FINSH_GET16 (vm_text vm) (vm_pc vm);
     vm \<leftarrow> sp_put Word 0 v vm;
     Some (pc_add 2 (sp_inc vm)) }"

definition OP_ld_dword :: "finsh_vm \<Rightarrow> finsh_vm option" where
  "OP_ld_dword vm = do {
     v \<leftarrow> FINSH_GET32 (vm_text vm) (vm_pc vm);
     vm \<leftarrow> sp_put Dword 0 (uint v) vm;
     Some (pc_add 4 (sp_inc vm)) }"

definition OP_ld_value :: "width \<Rightarrow> finsh_vm \<Rightarrow> finsh_vm option" where
  "OP_ld_value w vm = do {
     a \<leftarrow> FINSH_GET32 (vm_text vm) (vm_pc vm);
     v \<leftarrow> mem_load w (vm_memory vm) a;
     vm \<leftarrow> sp_put w 0 v vm;
     Some (pc_add 4 (sp_inc vm)) }"

definition OP_ld_value_stack :: "width \<Rightarrow> finsh_vm \<Rightarrow> finsh_vm option" where
  "OP_ld_value_stack w vm = do {
     a \<leftarrow> sp_get Dword 1 vm;
     v \<leftarrow> mem_load w (vm_memory vm) (word_of_int a);
     sp_put w 1 v vm }"

definition OP_st :: "width \<Rightarrow> finsh_vm \<Rightarrow> finsh_vm option" where
  "OP_st w vm = do {
     a \<leftarrow> sp_get Dword 2 vm;
     v \<leftarrow> sp_get w 1 vm;
     m \<leftarrow> mem_store w (vm_memory vm) (word_of_int a) v;
     sp_dec (vm\<lparr> vm_memory := m \<rparr>) }"

definition OP_pop :: "finsh_vm \<Rightarrow> finsh_vm option" where
  "OP_pop vm = sp_dec vm"

text \<open>The loop of \<^verbatim>\<open>OP_call\<close>, which fills \<^verbatim>\<open>parameterv\<close> from its end.\<close>

fun pop_parameters :: "nat \<Rightarrow> u32 list \<Rightarrow> finsh_vm \<Rightarrow> (u32 list \<times> finsh_vm) option" where
  "pop_parameters 0 ps vm = Some (ps, vm)"
| "pop_parameters (Suc n) ps vm = do {
     p \<leftarrow> sp_get Dword 0 vm;
     vm \<leftarrow> sp_dec vm;
     pop_parameters n (word_of_int p # ps) vm }"

definition OP_call :: "syscalls \<Rightarrow> finsh_vm \<Rightarrow> finsh_vm option" where
  "OP_call sys vm = do {
     n \<leftarrow> mem_get (vm_text vm) (int (vm_pc vm));
     let vm = pc_add 1 vm;
     vm \<leftarrow> sp_dec vm;
     rt_assert (unat n \<le> 16);
     (ps, vm) \<leftarrow> pop_parameters (unat n) [] vm;
     f \<leftarrow> sp_get Dword 0 vm;
     (r, m) \<leftarrow> sys (word_of_int f) (if n = 0 then [0] else ps) (vm_memory vm);
     vm \<leftarrow> sp_put Dword 0 (uint r) (vm\<lparr> vm_memory := m \<rparr>);
     Some (sp_inc vm) }"

definition op_table :: "syscalls \<Rightarrow> (finsh_vm \<Rightarrow> finsh_vm option) list" where
  "op_table sys = [OP_no_op,
     OP_add Byte, OP_add Word, OP_add Dword,
     OP_sub Byte, OP_sub Word, OP_sub Dword,
     OP_div Byte, OP_div Word, OP_div Dword,
     OP_mod Byte, OP_mod Word, OP_mod Dword,
     OP_mul Byte, OP_mul Word, OP_mul Dword,
     OP_and Byte, OP_and Word, OP_and Dword,
     OP_or Byte, OP_or Word, OP_or Dword,
     OP_xor Byte, OP_xor Word, OP_xor Dword,
     OP_bw Byte, OP_bw Word, OP_bw Dword,
     OP_shl Byte, OP_shl Word, OP_shl Dword,
     OP_shr Byte, OP_shr Word, OP_shr Dword,
     OP_ld_byte, OP_ld_word, OP_ld_dword,
     OP_ld_value Byte, OP_ld_value Word, OP_ld_value Dword,
     OP_st Byte, OP_st Word, OP_st Dword,
     OP_pop, OP_call sys,
     OP_ld_value_stack Byte, OP_ld_value_stack Word, OP_ld_value_stack Dword]"

text \<open>One round of the loop of \<^verbatim>\<open>finsh_vm_run\<close>. The entry behind the last one of the table is null.\<close>

definition vm_step :: "syscalls \<Rightarrow> finsh_vm \<Rightarrow> finsh_vm option" where
  "vm_step sys vm = do {
     op \<leftarrow> mem_get (vm_text vm) (int (vm_pc vm));
     f \<leftarrow> mem_get (op_table sys) (uint op);
     f (pc_add 1 vm) }"

text \<open>No operation moves the program counter back, so the loop ends.\<close>

lemma sp_put_pc: "sp_put w k v vm = Some vm' \<Longrightarrow> vm_pc vm' = vm_pc vm"
  by (auto simp: sp_put_def elim!: bind_eq_SomeD)

lemma sp_dec_pc: "sp_dec vm = Some vm' \<Longrightarrow> vm_pc vm' = vm_pc vm"
  by (auto simp: sp_dec_def split: if_splits)

lemma pop_parameters_pc: "pop_parameters n ps vm = Some (qs, vm') \<Longrightarrow> vm_pc vm' = vm_pc vm"
  by (induction n arbitrary: ps vm) (auto simp: sp_dec_pc elim!: bind_eq_SomeD)

lemma op_table_pc:
  assumes "f \<in> set (op_table sys)" "f vm = Some vm'"
  shows "vm_pc vm \<le> vm_pc vm'"
  using assms
  by (auto simp: op_table_def OP_no_op_def OP_BIN_defs OP_BIN_def OP_bw_def OP_ld_byte_def OP_ld_word_def OP_ld_dword_def
      OP_ld_value_def OP_st_def OP_pop_def OP_call_def OP_ld_value_stack_def sp_inc_def pc_add_def Let_def
      dest!: sp_put_pc sp_dec_pc pop_parameters_pc elim!: bind_eq_SomeD)

lemma vm_step_pc:
  assumes "vm_step sys vm = Some vm'"
  shows "vm_pc vm < vm_pc vm'"
proof -
  have "\<exists>(op :: u8) f. mem_get (op_table sys) (uint op) = Some f \<and> f (pc_add 1 vm) = Some vm'"
    using assms unfolding vm_step_def bind_eq_Some_conv by blast
  then obtain op :: u8 and f where f: "mem_get (op_table sys) (uint op) = Some f" and r: "f (pc_add 1 vm) = Some vm'"
    by blast
  from f have "f \<in> set (op_table sys)"
    by (auto simp: mem_get_def nat_less_iff [symmetric] split: if_splits intro!: nth_mem)
  from op_table_pc [OF this r] show ?thesis by (simp add: pc_add_def)
qed

text \<open>The loop, up to a bound of the program counter; \<^verbatim>\<open>finsh_vm_run\<close> has the size of the code segment.\<close>

function vm_loop :: "syscalls \<Rightarrow> nat \<Rightarrow> finsh_vm \<Rightarrow> finsh_vm option" where
  "vm_loop sys b vm =
     (if vm_pc vm < b then (case vm_step sys vm of None \<Rightarrow> None | Some vm' \<Rightarrow> vm_loop sys b vm') else Some vm)"
  by pat_completeness auto
termination by (relation "measure (\<lambda>(sys, b, vm). b - vm_pc vm)") (auto dest: vm_step_pc)

declare vm_loop.simps [simp del]

definition finsh_vm_run :: "syscalls \<Rightarrow> finsh_vm \<Rightarrow> finsh_vm option" where
  "finsh_vm_run sys vm = vm_loop sys FINSH_TEXT_MAX (vm\<lparr> vm_sp := 0, vm_pc := 0 \<rparr>)"

definition finsh_stack_bottom :: "finsh_vm \<Rightarrow> u32" where
  "finsh_stack_bottom vm = vm_stack vm ! 0"

lemma vm_loop_done [simp]: "b \<le> vm_pc vm \<Longrightarrow> vm_loop sys b vm = Some vm"
  by (simp add: vm_loop.simps)

lemma vm_loop_step: "vm_pc vm < b \<Longrightarrow> vm_loop sys b vm = Option.bind (vm_step sys vm) (vm_loop sys b)"
  by (subst vm_loop.simps) (simp split: option.splits)

lemma vm_loop_split:
  assumes "b \<le> c"
  shows "vm_loop sys c vm = Option.bind (vm_loop sys b vm) (vm_loop sys c)"
  using assms
proof (induction sys b vm rule: vm_loop.induct)
  case (1 sys b vm)
  show ?case
  proof (cases "vm_pc vm < b")
    case True
    then show ?thesis using 1 by (cases "vm_step sys vm") (auto simp: vm_loop_step)
  qed simp
qed

end
