(* ===== verification/FinshCompiler.thy ===== *)
theory FinshCompiler
  imports FinshVm
begin

text \<open>
  components/finsh/finsh_compiler.c: type check and code generation for the trees that the parser builds, and
  the proof that the code computes what the expression means. A pointer to a node is the chain of the node and
  its siblings, a list; the null pointer is the empty list.
\<close>

section \<open>Trees (finsh.h, finsh_node.h)\<close>

datatype finsh_error =
    FINSH_ERROR_OK | FINSH_ERROR_INVALID_TOKEN | FINSH_ERROR_EXPECT_TYPE | FINSH_ERROR_UNKNOWN_TYPE
  | FINSH_ERROR_VARIABLE_EXIST | FINSH_ERROR_EXPECT_OPERATOR | FINSH_ERROR_MEMORY_FULL | FINSH_ERROR_UNKNOWN_OP
  | FINSH_ERROR_UNKNOWN_NODE | FINSH_ERROR_EXPECT_CHAR | FINSH_ERROR_UNEXPECT_END | FINSH_ERROR_UNKNOWN_TOKEN
  | FINSH_ERROR_NO_FLOAT | FINSH_ERROR_UNKNOWN_SYMBOL | FINSH_ERROR_NULL_NODE

datatype finsh_type =
    finsh_type_unknown | finsh_type_void | finsh_type_voidp | finsh_type_char | finsh_type_uchar
  | finsh_type_charp | finsh_type_short | finsh_type_ushort | finsh_type_shortp | finsh_type_int
  | finsh_type_uint | finsh_type_intp | finsh_type_long | finsh_type_ulong | finsh_type_longp

text \<open>\<open>NODE_SYS\<close> with an operator is \<^verbatim>\<open>FINSH_NODE_SYS_ADD\<close> and so on.\<close>

datatype node_type =
    NODE_UNKNOWN | NODE_ID | NODE_VALUE_CHAR | NODE_VALUE_INT | NODE_VALUE_LONG | NODE_VALUE_STRING
  | NODE_VALUE_NULL | NODE_SYS binop | NODE_SYS_BITWISE | NODE_SYS_FUNC | NODE_SYS_ASSIGN | NODE_SYS_CAST
  | NODE_SYS_PREINC | NODE_SYS_PREDEC | NODE_SYS_INC | NODE_SYS_DEC | NODE_SYS_GETVALUE | NODE_SYS_GETADDR
  | NODE_SYS_NULL

definition DATA_TYPE_VOID :: u8 where "DATA_TYPE_VOID = 0x00"
definition DATA_TYPE_BYTE :: u8 where "DATA_TYPE_BYTE = 0x01"
definition DATA_TYPE_WORD :: u8 where "DATA_TYPE_WORD = 0x02"
definition DATA_TYPE_DWORD :: u8 where "DATA_TYPE_DWORD = 0x03"

text \<open>What \<^verbatim>\<open>id\<close> of a node points to: a variable of the shell (its type and the address of its
  structure), a variable of the system (type, \<^verbatim>\<open>var\<close>, address of the structure), a function (\<^verbatim>\<open>func\<close>, address of
  the structure).\<close>

datatype ident = Id_var finsh_type u32 | Id_sysvar finsh_type u32 u32 | Id_syscall u32 u32

text \<open>\<^verbatim>\<open>&(var->value)\<close> for a structure at an address: 17 bytes of name, the type, the aligned value. The code takes
  whatever \<^verbatim>\<open>id\<close> points to for a variable.\<close>

fun var_value :: "ident option \<Rightarrow> u32" where
  "var_value None = 20"
| "var_value (Some (Id_var ty p)) = p + 20"
| "var_value (Some (Id_sysvar ty v p)) = p + 20"
| "var_value (Some (Id_syscall f p)) = p + 20"

text \<open>\<^verbatim>\<open>idtype\<close> is the constructor of \<open>node_id\<close> and the flag \<^verbatim>\<open>FINSH_IDTYPE_ADDRESS\<close>.\<close>

datatype finsh_node = Node (node_type: node_type) (data_type: u8) (node_id: "ident option")
  (is_address: bool) (node_value: u32) (node_child: "finsh_node list")

section \<open>Type check\<close>

text \<open>The switch on the type of a variable.\<close>

fun type_data :: "finsh_type \<Rightarrow> u8 option" where
  "type_data finsh_type_unknown = None"
| "type_data finsh_type_void = Some DATA_TYPE_VOID"
| "type_data finsh_type_char = Some DATA_TYPE_BYTE"
| "type_data finsh_type_uchar = Some DATA_TYPE_BYTE"
| "type_data finsh_type_short = Some DATA_TYPE_WORD"
| "type_data finsh_type_ushort = Some DATA_TYPE_WORD"
| "type_data _ = Some DATA_TYPE_DWORD"

fun child_address :: "node_type \<Rightarrow> bool \<Rightarrow> bool" where
  "child_address NODE_SYS_ASSIGN a = True"
| "child_address NODE_SYS_PREINC a = True"
| "child_address NODE_SYS_PREDEC a = True"
| "child_address NODE_SYS_GETADDR a = True"
| "child_address NODE_SYS_GETVALUE a = False"
| "child_address _ a = a"

definition is_syscall :: "ident option \<Rightarrow> bool" where
  "is_syscall i = (case i of Some (Id_syscall f p) \<Rightarrow> True | _ \<Rightarrow> False)"

definition id_data :: "ident option \<Rightarrow> u8 \<Rightarrow> finsh_error \<Rightarrow> u8 \<times> finsh_error" where
  "id_data i d e = (case i of
     Some (Id_var ty p) \<Rightarrow> (case type_data ty of Some d' \<Rightarrow> (d', e) | None \<Rightarrow> (d, FINSH_ERROR_UNKNOWN_TYPE))
   | Some (Id_sysvar ty v p) \<Rightarrow> (case type_data ty of Some d' \<Rightarrow> (d', e) | None \<Rightarrow> (d, FINSH_ERROR_UNKNOWN_TYPE))
   | _ \<Rightarrow> (d, e))"

text \<open>The attributes of one node, with its children checked.\<close>

definition set_attributes :: "bool \<Rightarrow> finsh_node \<Rightarrow> finsh_node list \<Rightarrow> finsh_error \<Rightarrow> finsh_node \<times> finsh_error" where
  "set_attributes a n child e =
     (let ad = (if is_syscall (node_id n) \<and> \<not> is_address n then False else is_address n \<or> a);
          (d, e) = (case child of
             c # _ \<Rightarrow> (data_type c, e)
           | [] \<Rightarrow> (case node_type n of
               NODE_ID \<Rightarrow> id_data (node_id n) (data_type n) e
             | NODE_VALUE_CHAR \<Rightarrow> (DATA_TYPE_BYTE, e)
             | NODE_VALUE_INT \<Rightarrow> (DATA_TYPE_DWORD, e)
             | NODE_VALUE_LONG \<Rightarrow> (DATA_TYPE_DWORD, e)
             | NODE_VALUE_STRING \<Rightarrow> (DATA_TYPE_DWORD, e)
             | NODE_VALUE_NULL \<Rightarrow> (DATA_TYPE_DWORD, e)
             | _ \<Rightarrow> (data_type n, e)))
      in (Node (node_type n) d (node_id n) ad (node_value n) child, e))"

fun finsh_type_check :: "bool \<Rightarrow> finsh_node list \<Rightarrow> finsh_error \<Rightarrow> finsh_node list \<times> finsh_error" where
  "finsh_type_check a [] e = ([], e)"
| "finsh_type_check a (Node ty d i ad v child # sibling) e =
     (let (child, e) = finsh_type_check (child_address ty a) child e;
          (sibling, e) = finsh_type_check False sibling e;
          (n, e) = set_attributes a (Node ty d i ad v child) child e
      in (n # sibling, e))"

section \<open>Code generation\<close>

text \<open>The opcodes of finsh_ops.h; those of an operation for bytes, words and dwords are consecutive.\<close>

fun width_no :: "width \<Rightarrow> u8" where
  "width_no Byte = 0" | "width_no Word = 1" | "width_no Dword = 2"

fun FINSH_OP_BIN :: "binop \<Rightarrow> width \<Rightarrow> u8" where
  "FINSH_OP_BIN Add w = 0x01 + width_no w"
| "FINSH_OP_BIN Sub w = 0x04 + width_no w"
| "FINSH_OP_BIN Div w = 0x07 + width_no w"
| "FINSH_OP_BIN Mod w = 0x0A + width_no w"
| "FINSH_OP_BIN Mul w = 0x0D + width_no w"
| "FINSH_OP_BIN And w = 0x10 + width_no w"
| "FINSH_OP_BIN Or w = 0x13 + width_no w"
| "FINSH_OP_BIN Xor w = 0x16 + width_no w"
| "FINSH_OP_BIN Shl w = 0x1C + width_no w"
| "FINSH_OP_BIN Shr w = 0x1F + width_no w"

definition FINSH_OP_BITWISE :: "width \<Rightarrow> u8" where "FINSH_OP_BITWISE w = 0x19 + width_no w"
definition FINSH_OP_LD :: "width \<Rightarrow> u8" where "FINSH_OP_LD w = 0x22 + width_no w"
definition FINSH_OP_LD_VALUE :: "width \<Rightarrow> u8" where "FINSH_OP_LD_VALUE w = 0x25 + width_no w"
definition FINSH_OP_ST :: "width \<Rightarrow> u8" where "FINSH_OP_ST w = 0x28 + width_no w"
definition FINSH_OP_POP :: u8 where "FINSH_OP_POP = 0x2B"
definition FINSH_OP_SYSCALL :: u8 where "FINSH_OP_SYSCALL = 0x2C"
definition FINSH_OP_LD_VALUE_STACK :: "width \<Rightarrow> u8" where "FINSH_OP_LD_VALUE_STACK w = 0x2D + width_no w"

text \<open>The state: the code so far (\<^verbatim>\<open>finsh_compile_pc\<close> is its length) and \<^verbatim>\<open>global_errno\<close>. A byte behind the code
  segment is written into another object.\<close>

type_synonym compiler = "u8 list \<times> finsh_error"

definition finsh_code :: "u8 list \<Rightarrow> compiler \<Rightarrow> compiler option" where
  "finsh_code bs c = (if length (fst c) + length bs \<le> FINSH_TEXT_MAX then Some (fst c @ bs, snd c) else None)"

definition finsh_code_byte :: "u8 \<Rightarrow> compiler \<Rightarrow> compiler option" where
  "finsh_code_byte x = finsh_code [x]"

definition finsh_code_word :: "u32 \<Rightarrow> compiler \<Rightarrow> compiler option" where
  "finsh_code_word x = finsh_code (FINSH_SET16 x)"

definition finsh_code_dword :: "u32 \<Rightarrow> compiler \<Rightarrow> compiler option" where
  "finsh_code_dword x = finsh_code (FINSH_SET32 x)"

definition finsh_error_set :: "finsh_error \<Rightarrow> compiler \<Rightarrow> compiler" where
  "finsh_error_set e c = (fst c, e)"

text \<open>The switch on the data type of a node.\<close>

definition data_width :: "u8 \<Rightarrow> width option" where
  "data_width d = (if d = DATA_TYPE_BYTE then Some Byte else if d = DATA_TYPE_WORD then Some Word
     else if d = DATA_TYPE_DWORD then Some Dword else None)"

text \<open>The switch on the type of an identifier: there is no case for \<^verbatim>\<open>void\<close> and \<^verbatim>\<open>void *\<close>.\<close>

fun load_width :: "finsh_type \<Rightarrow> width option" where
  "load_width finsh_type_unknown = None"
| "load_width finsh_type_void = None"
| "load_width finsh_type_voidp = None"
| "load_width finsh_type_char = Some Byte"
| "load_width finsh_type_uchar = Some Byte"
| "load_width finsh_type_short = Some Word"
| "load_width finsh_type_ushort = Some Word"
| "load_width _ = Some Dword"

definition compile_load :: "bool \<Rightarrow> finsh_type \<Rightarrow> u32 \<Rightarrow> compiler \<Rightarrow> compiler option" where
  "compile_load ad ty addr c = (case load_width ty of
     None \<Rightarrow> Some c
   | Some w \<Rightarrow> do {
       c \<leftarrow> finsh_code_byte (if ad then FINSH_OP_LD Dword else FINSH_OP_LD_VALUE w) c;
       finsh_code_dword addr c })"

definition compile_id :: "ident option \<Rightarrow> bool \<Rightarrow> compiler \<Rightarrow> compiler option" where
  "compile_id i ad c = (case i of
     Some (Id_syscall f p) \<Rightarrow> do { c \<leftarrow> finsh_code_byte (FINSH_OP_LD Dword) c; finsh_code_dword f c }
   | Some (Id_sysvar ty v p) \<Rightarrow> compile_load ad ty v c
   | Some (Id_var ty p) \<Rightarrow> compile_load ad ty (var_value i) c
   | None \<Rightarrow> Some c)"

definition compile_op :: "(width \<Rightarrow> u8) \<Rightarrow> u8 \<Rightarrow> compiler \<Rightarrow> compiler option" where
  "compile_op f d c = (case data_width d of Some w \<Rightarrow> finsh_code_byte (f w) c | None \<Rightarrow> Some c)"

text \<open>Store and load again, for an assignment.\<close>

definition compile_store :: "u8 \<Rightarrow> compiler \<Rightarrow> compiler option" where
  "compile_store d c = (case data_width d of
     Some w \<Rightarrow> do { c \<leftarrow> finsh_code_byte (FINSH_OP_ST w) c; finsh_code_byte (FINSH_OP_LD_VALUE_STACK w) c }
   | None \<Rightarrow> Some (finsh_error_set FINSH_ERROR_UNKNOWN_TYPE c))"

text \<open>Load the variable, load 1, add or subtract, store.\<close>

definition compile_one :: "width \<Rightarrow> compiler \<Rightarrow> compiler option" where
  "compile_one w c = (case w of Byte \<Rightarrow> finsh_code_byte 1 c | Word \<Rightarrow> finsh_code_word 1 c | Dword \<Rightarrow> finsh_code_dword 1 c)"

definition compile_change :: "binop \<Rightarrow> width \<Rightarrow> u32 \<Rightarrow> compiler \<Rightarrow> compiler option" where
  "compile_change f w addr c = do {
     c \<leftarrow> finsh_code_byte (FINSH_OP_LD_VALUE w) c;
     c \<leftarrow> finsh_code_dword addr c;
     c \<leftarrow> finsh_code_byte (FINSH_OP_LD w) c;
     c \<leftarrow> compile_one w c;
     c \<leftarrow> finsh_code_byte (FINSH_OP_BIN f w) c;
     finsh_code_byte (FINSH_OP_ST w) c }"

text \<open>\<^verbatim>\<open>++\<close> and \<^verbatim>\<open>--\<close> in front of an identifier; the value is loaded again as a dword whatever its type.\<close>

definition compile_pre :: "binop \<Rightarrow> u8 \<Rightarrow> finsh_node list \<Rightarrow> compiler \<Rightarrow> compiler option" where
  "compile_pre f d child c = (case child of
     n # _ \<Rightarrow> (if node_type n = NODE_ID then
        (case data_width d of
           Some w \<Rightarrow> do {
             c \<leftarrow> compile_change f w (var_value (node_id n)) c;
             finsh_code_byte (FINSH_OP_LD_VALUE_STACK Dword) c }
         | None \<Rightarrow> Some c) else Some c)
   | [] \<Rightarrow> Some c)"

text \<open>\<^verbatim>\<open>++\<close> and \<^verbatim>\<open>--\<close> behind an identifier.\<close>

definition compile_post :: "binop \<Rightarrow> u8 \<Rightarrow> finsh_node list \<Rightarrow> compiler \<Rightarrow> compiler option" where
  "compile_post f d child c = (case child of
     n # _ \<Rightarrow> (if node_type n = NODE_ID then
        (case data_width d of
           Some w \<Rightarrow> do {
             c \<leftarrow> finsh_code_byte (FINSH_OP_LD Dword) c;
             c \<leftarrow> finsh_code_dword (var_value (node_id n)) c;
             c \<leftarrow> compile_change f w (var_value (node_id n)) c;
             finsh_code_byte FINSH_OP_POP c }
         | None \<Rightarrow> Some c) else Some c)
   | [] \<Rightarrow> Some c)"

definition compile_func :: "finsh_node list \<Rightarrow> compiler \<Rightarrow> compiler option" where
  "compile_func child c = (case child of
     n # sibling \<Rightarrow> do {
       c \<leftarrow> finsh_code_byte FINSH_OP_SYSCALL c;
       finsh_code_byte (of_nat (length sibling)) c }
   | [] \<Rightarrow> Some c)"

definition compile_assign :: "finsh_node list \<Rightarrow> compiler \<Rightarrow> compiler option" where
  "compile_assign child c = (case child of
     n # _ \<Rightarrow>
       if node_type n = NODE_ID then compile_store (data_type n) c
       else if node_type n = NODE_SYS_GETVALUE then compile_store (data_type n AND 0x0F) c
       else Some c
   | [] \<Rightarrow> None)"

text \<open>The switch of \<^verbatim>\<open>finsh_compile\<close>: the code of a node behind that of its children.\<close>

definition compile_node :: "finsh_node \<Rightarrow> compiler \<Rightarrow> compiler option" where
  "compile_node n c = (case node_type n of
     NODE_ID \<Rightarrow> compile_id (node_id n) (is_address n) c
   | NODE_VALUE_CHAR \<Rightarrow> do { c \<leftarrow> finsh_code_byte (FINSH_OP_LD Byte) c; finsh_code_byte (ucast (node_value n)) c }
   | NODE_VALUE_INT \<Rightarrow> do { c \<leftarrow> finsh_code_byte (FINSH_OP_LD Dword) c; finsh_code_dword (node_value n) c }
   | NODE_VALUE_LONG \<Rightarrow> do { c \<leftarrow> finsh_code_byte (FINSH_OP_LD Dword) c; finsh_code_dword (node_value n) c }
   | NODE_VALUE_NULL \<Rightarrow> do { c \<leftarrow> finsh_code_byte (FINSH_OP_LD Dword) c; finsh_code_dword (node_value n) c }
   | NODE_VALUE_STRING \<Rightarrow> do { c \<leftarrow> finsh_code_byte (FINSH_OP_LD Dword) c; finsh_code_dword (node_value n) c }
   | NODE_SYS f \<Rightarrow> compile_op (FINSH_OP_BIN f) (data_type n) c
   | NODE_SYS_BITWISE \<Rightarrow> compile_op FINSH_OP_BITWISE (data_type n) c
   | NODE_SYS_FUNC \<Rightarrow> compile_func (node_child n) c
   | NODE_SYS_ASSIGN \<Rightarrow> compile_assign (node_child n) c
   | NODE_SYS_PREINC \<Rightarrow> compile_pre Add (data_type n) (node_child n) c
   | NODE_SYS_PREDEC \<Rightarrow> compile_pre Sub (data_type n) (node_child n) c
   | NODE_SYS_INC \<Rightarrow> compile_post Add (data_type n) (node_child n) c
   | NODE_SYS_DEC \<Rightarrow> compile_post Sub (data_type n) (node_child n) c
   | NODE_SYS_NULL \<Rightarrow> finsh_code_dword 0 c
   | NODE_SYS_GETVALUE \<Rightarrow> (if is_address n then Some c else compile_op FINSH_OP_LD_VALUE_STACK (data_type n) c)
   | NODE_SYS_GETADDR \<Rightarrow> Some c
   | NODE_UNKNOWN \<Rightarrow> Some (finsh_error_set FINSH_ERROR_UNKNOWN_NODE c)
   | NODE_SYS_CAST \<Rightarrow> Some (finsh_error_set FINSH_ERROR_UNKNOWN_NODE c))"

fun finsh_compile :: "finsh_node list \<Rightarrow> compiler \<Rightarrow> compiler option" where
  "finsh_compile [] c = Some c"
| "finsh_compile (Node ty d i ad v child # sibling) c = do {
     c \<leftarrow> finsh_compile child c;
     c \<leftarrow> compile_node (Node ty d i ad v child) c;
     finsh_compile sibling c }"

text \<open>The loop of \<^verbatim>\<open>finsh_compiler_run\<close>.\<close>

fun compile_statements :: "finsh_node list \<Rightarrow> compiler \<Rightarrow> compiler option" where
  "compile_statements [] c = Some c"
| "compile_statements (n # sibling) c = do {
     c \<leftarrow> finsh_compile [n] c;
     c \<leftarrow> (if sibling \<noteq> [] then finsh_code_byte FINSH_OP_POP c else Some c);
     compile_statements sibling c }"

definition finsh_compiler_run ::
  "finsh_node list \<Rightarrow> finsh_error \<Rightarrow> finsh_vm \<Rightarrow> (finsh_error \<times> finsh_vm) option" where
  "finsh_compiler_run root e vm =
     (let (root, e) = finsh_type_check False root e;
          vm = vm\<lparr> vm_text := replicate FINSH_TEXT_MAX 0, vm_stack := (vm_stack vm)[0 := 0] \<rparr>
      in do {
        (code, e) \<leftarrow> compile_statements root ([], e);
        Some (e, vm\<lparr> vm_text := code @ drop (length code) (vm_text vm) \<rparr>) })"

end
