(* ===== verification/FinshExpr.thy ===== *)
theory FinshExpr
  imports FinshCompiler
begin

text \<open>
  The meaning of the expressions of the shell, and the proof that compiler and machine implement it. \<open>eval\<close> is
  the reference: the value of an expression and the memory afterwards, by recursion on the expression. An
  operation is carried out in the type of its first operand.
\<close>

section \<open>Expressions\<close>

datatype expr =
    EChar u8 | EInt u32 | ELong u32 | EString u32 | ENull
  | EId ident | EAddr ident
  | EBin binop expr expr | ECompl expr
  | EDeref expr | EAssign ident expr | EStore expr expr
  | EPre bool ident | EPost bool ident
  | ECall ident "expr list"

text \<open>The tree that the parser builds for an expression.\<close>

definition new_node :: "node_type \<Rightarrow> finsh_node list \<Rightarrow> finsh_node" where
  "new_node ty child = Node ty 0 None False 0 child"

definition new_id :: "ident \<Rightarrow> finsh_node" where
  "new_id i = Node NODE_ID 0 (Some i) False 0 []"

definition new_value :: "node_type \<Rightarrow> u32 \<Rightarrow> finsh_node" where
  "new_value ty v = Node ty 0 None False v []"

fun node_of :: "expr \<Rightarrow> finsh_node" where
  "node_of (EChar c) = new_value NODE_VALUE_CHAR (ucast c)"
| "node_of (EInt v) = new_value NODE_VALUE_INT v"
| "node_of (ELong v) = new_value NODE_VALUE_LONG v"
| "node_of (EString p) = new_value NODE_VALUE_STRING p"
| "node_of ENull = new_value NODE_VALUE_NULL 0"
| "node_of (EId i) = new_id i"
| "node_of (EAddr i) = new_node NODE_SYS_GETADDR [new_id i]"
| "node_of (EBin f a b) = new_node (NODE_SYS f) [node_of a, node_of b]"
| "node_of (ECompl a) = new_node NODE_SYS_BITWISE [node_of a]"
| "node_of (EDeref a) = new_node NODE_SYS_GETVALUE [node_of a]"
| "node_of (EAssign i a) = new_node NODE_SYS_ASSIGN [new_id i, node_of a]"
| "node_of (EStore a b) = new_node NODE_SYS_ASSIGN [new_node NODE_SYS_GETVALUE [node_of a], node_of b]"
| "node_of (EPre up i) = new_node (if up then NODE_SYS_PREINC else NODE_SYS_PREDEC) [new_id i]"
| "node_of (EPost up i) = new_node (if up then NODE_SYS_INC else NODE_SYS_DEC) [new_id i]"
| "node_of (ECall f as) = new_node NODE_SYS_FUNC (new_id f # map node_of as)"

text \<open>The type of an identifier, and the address of its value.\<close>

fun id_width :: "ident \<Rightarrow> width option" where
  "id_width (Id_var ty p) = load_width ty"
| "id_width (Id_sysvar ty v p) = load_width ty"
| "id_width (Id_syscall f p) = None"

fun id_target :: "ident \<Rightarrow> u32" where
  "id_target (Id_var ty p) = p + 20"
| "id_target (Id_sysvar ty v p) = v"
| "id_target (Id_syscall f p) = f"

definition is_var :: "ident \<Rightarrow> bool" where
  "is_var i = (case i of Id_var ty p \<Rightarrow> True | _ \<Rightarrow> False)"

text \<open>The data type of the node, and the part of the cell that holds the value: the two differ for an address, which
  has the type of the variable, and for a call, which has none.\<close>

fun expr_width :: "expr \<Rightarrow> width option" where
  "expr_width (EChar c) = Some Byte"
| "expr_width (EId i) = id_width i"
| "expr_width (EAddr i) = id_width i"
| "expr_width (EBin f a b) = expr_width a"
| "expr_width (ECompl a) = expr_width a"
| "expr_width (EDeref a) = expr_width a"
| "expr_width (EAssign i a) = id_width i"
| "expr_width (EStore a b) = expr_width a"
| "expr_width (EPre up i) = id_width i"
| "expr_width (EPost up i) = id_width i"
| "expr_width (ECall f as) = None"
| "expr_width _ = Some Dword"

fun cell_width :: "expr \<Rightarrow> width" where
  "cell_width (EAddr i) = Dword"
| "cell_width (ECall f as) = Dword"
| "cell_width e = the (expr_width e)"

text \<open>Expressions that the compiler treats as C does: an operand is at least as wide as the operation that reads it, and
  the type of the operation is known.\<close>

fun well_typed :: "expr \<Rightarrow> bool" where
  "well_typed (EId i) \<longleftrightarrow> id_width i \<noteq> None"
| "well_typed (EAddr i) \<longleftrightarrow> id_width i \<noteq> None"
| "well_typed (EBin f a b) \<longleftrightarrow> well_typed a \<and> well_typed b \<and> expr_width a = Some (cell_width a)
     \<and> n_bytes (cell_width a) \<le> n_bytes (cell_width b)"
| "well_typed (ECompl a) \<longleftrightarrow> well_typed a \<and> expr_width a = Some (cell_width a)"
| "well_typed (EDeref a) \<longleftrightarrow> well_typed a \<and> cell_width a = Dword \<and> expr_width a \<noteq> None"
| "well_typed (EAssign i a) \<longleftrightarrow> well_typed a \<and> id_width i \<noteq> None \<and> n_bytes (the (id_width i)) \<le> n_bytes (cell_width a)"
| "well_typed (EStore a b) \<longleftrightarrow> well_typed a \<and> cell_width a = Dword \<and> expr_width a \<noteq> None \<and> well_typed b
     \<and> n_bytes (the (expr_width a)) \<le> n_bytes (cell_width b)"
| "well_typed (EPre up i) \<longleftrightarrow> is_var i \<and> id_width i = Some Dword"
| "well_typed (EPost up i) \<longleftrightarrow> is_var i \<and> id_width i \<noteq> None"
| "well_typed (ECall f as) \<longleftrightarrow> is_syscall (Some f) \<and> length as \<le> 16 \<and> (\<forall>a \<in> set as. well_typed a \<and> cell_width a = Dword)"
| "well_typed _ \<longleftrightarrow> True"

section \<open>The reference\<close>

fun eval :: "syscalls \<Rightarrow> expr \<Rightarrow> memory \<Rightarrow> (int \<times> memory) option"
and eval_list :: "syscalls \<Rightarrow> expr list \<Rightarrow> memory \<Rightarrow> (int list \<times> memory) option" where
  "eval sys (EChar c) m = Some (uint c, m)"
| "eval sys (EInt v) m = Some (sint v, m)"
| "eval sys (ELong v) m = Some (sint v, m)"
| "eval sys (EString p) m = Some (sint p, m)"
| "eval sys ENull m = Some (0, m)"
| "eval sys (EId i) m = do { v \<leftarrow> mem_load (the (id_width i)) m (id_target i); Some (v, m) }"
| "eval sys (EAddr i) m = Some (sint (id_target i), m)"
| "eval sys (EBin f a b) m = do {
     (x, m) \<leftarrow> eval sys a m;
     (y, m) \<leftarrow> eval sys b m;
     r \<leftarrow> c_binop f x (norm (cell_width a) y);
     Some (norm (cell_width a) r, m) }"
| "eval sys (ECompl a) m = do { (x, m) \<leftarrow> eval sys a m; Some (norm (cell_width a) (NOT x), m) }"
| "eval sys (EDeref a) m = do {
     (p, m) \<leftarrow> eval sys a m;
     v \<leftarrow> mem_load (the (expr_width a)) m (word_of_int p);
     Some (v, m) }"
| "eval sys (EAssign i a) m = do {
     (x, m) \<leftarrow> eval sys a m;
     m \<leftarrow> mem_store (the (id_width i)) m (id_target i) x;
     Some (norm (the (id_width i)) x, m) }"
| "eval sys (EStore a b) m = do {
     (p, m) \<leftarrow> eval sys a m;
     (x, m) \<leftarrow> eval sys b m;
     m \<leftarrow> mem_store (the (expr_width a)) m (word_of_int p) x;
     Some (norm (the (expr_width a)) x, m) }"
| "eval sys (EPre up i) m = do {
     x \<leftarrow> mem_load Dword m (id_target i);
     m \<leftarrow> mem_store Dword m (id_target i) (if up then x + 1 else x - 1);
     Some (norm Dword (if up then x + 1 else x - 1), m) }"
| "eval sys (EPost up i) m = do {
     x \<leftarrow> mem_load (the (id_width i)) m (id_target i);
     m \<leftarrow> mem_store (the (id_width i)) m (id_target i) (if up then x + 1 else x - 1);
     Some (x, m) }"
| "eval sys (ECall f as) m = do {
     (vs, m) \<leftarrow> eval_list sys as m;
     (r, m) \<leftarrow> sys (id_target f) (if as = [] then [0] else map word_of_int vs) m;
     Some (sint r, m) }"
| "eval_list sys [] m = Some ([], m)"
| "eval_list sys (a # as) m = do {
     (v, m) \<leftarrow> eval sys a m;
     (vs, m) \<leftarrow> eval_list sys as m;
     Some (v # vs, m) }"

section \<open>The code of an expression\<close>

fun code_one :: "width \<Rightarrow> u8 list" where
  "code_one Byte = [1]" | "code_one Word = split_bytes 2 1" | "code_one Dword = split_bytes 4 1"

definition code_change :: "bool \<Rightarrow> width \<Rightarrow> u32 \<Rightarrow> u8 list" where
  "code_change up w a = (FINSH_OP_LD_VALUE w # split_bytes 4 a) @ (FINSH_OP_LD w # code_one w)
     @ [FINSH_OP_BIN (if up then Add else Sub) w] @ [FINSH_OP_ST w]"

fun code_of :: "expr \<Rightarrow> u8 list" where
  "code_of (EChar c) = [FINSH_OP_LD Byte, c]"
| "code_of (EInt v) = FINSH_OP_LD Dword # split_bytes 4 v"
| "code_of (ELong v) = FINSH_OP_LD Dword # split_bytes 4 v"
| "code_of (EString v) = FINSH_OP_LD Dword # split_bytes 4 v"
| "code_of ENull = FINSH_OP_LD Dword # split_bytes 4 0"
| "code_of (EId i) = FINSH_OP_LD_VALUE (the (id_width i)) # split_bytes 4 (id_target i)"
| "code_of (EAddr i) = FINSH_OP_LD Dword # split_bytes 4 (id_target i)"
| "code_of (EBin f a b) = code_of a @ code_of b @ [FINSH_OP_BIN f (cell_width a)]"
| "code_of (ECompl a) = code_of a @ [FINSH_OP_BITWISE (cell_width a)]"
| "code_of (EDeref a) = code_of a @ [FINSH_OP_LD_VALUE_STACK (the (expr_width a))]"
| "code_of (EAssign i a) = (FINSH_OP_LD Dword # split_bytes 4 (id_target i)) @ code_of a
     @ [FINSH_OP_ST (the (id_width i))] @ [FINSH_OP_LD_VALUE_STACK (the (id_width i))]"
| "code_of (EStore a b) = code_of a @ code_of b
     @ [FINSH_OP_ST (the (expr_width a))] @ [FINSH_OP_LD_VALUE_STACK (the (expr_width a))]"
| "code_of (EPre up i) = (FINSH_OP_LD Dword # split_bytes 4 (id_target i)) @ code_change up Dword (id_target i)
     @ [FINSH_OP_LD_VALUE_STACK Dword]"
| "code_of (EPost up i) = (FINSH_OP_LD_VALUE (the (id_width i)) # split_bytes 4 (id_target i))
     @ (FINSH_OP_LD Dword # split_bytes 4 (id_target i)) @ code_change up (the (id_width i)) (id_target i) @ [FINSH_OP_POP]"
| "code_of (ECall f as) = (FINSH_OP_LD Dword # split_bytes 4 (id_target f)) @ concat (map code_of as)
     @ [FINSH_OP_SYSCALL, of_nat (length as)]"

section \<open>Type check and compilation of well-typed expressions\<close>

definition width_data :: "width option \<Rightarrow> u8" where
  "width_data w = (case w of None \<Rightarrow> DATA_TYPE_VOID | Some Byte \<Rightarrow> DATA_TYPE_BYTE | Some Word \<Rightarrow> DATA_TYPE_WORD
     | Some Dword \<Rightarrow> DATA_TYPE_DWORD)"

lemma data_width_width_data [simp]: "data_width (width_data w) = w"
  by (cases w rule: option.exhaust [case_product width.exhaust])
    (auto simp: data_width_def width_data_def DATA_TYPE_VOID_def DATA_TYPE_BYTE_def DATA_TYPE_WORD_def
      DATA_TYPE_DWORD_def split: width.splits)

lemma type_data_load_width: "load_width ty = Some w \<Longrightarrow> type_data ty = Some (width_data (Some w))"
  by (cases ty) (auto simp: width_data_def)

lemma finsh_code_Nil [simp]: "finsh_code [] c = (if length (fst c) \<le> FINSH_TEXT_MAX then Some c else None)"
  by (simp add: finsh_code_def)

lemma finsh_code_append: "Option.bind (finsh_code xs c) (finsh_code ys) = finsh_code (xs @ ys) c"
  by (auto simp: finsh_code_def)

lemma finsh_code_append': "Option.bind (finsh_code xs c) (\<lambda>c. Option.bind (finsh_code ys c) f)
    = Option.bind (finsh_code (xs @ ys) c) f"
  by (auto simp: finsh_code_def)

lemmas code_simps = finsh_code_byte_def finsh_code_word_def finsh_code_dword_def FINSH_SET32_split FINSH_SET16_split
  finsh_code_append finsh_code_append'


text \<open>\<open>n\<close> is the checked node of \<open>x\<close>.\<close>

definition checked :: "expr \<Rightarrow> finsh_node \<Rightarrow> bool" where
  "checked x n \<longleftrightarrow> (\<forall>sib e. finsh_type_check False (node_of x # sib) e
       = (n # fst (finsh_type_check False sib e), snd (finsh_type_check False sib e)))
     \<and> data_type n = width_data (expr_width x) \<and> (\<forall>c. finsh_compile [n] c = finsh_code (code_of x) c)"

lemma checkedD [simp]:
  assumes "checked x n"
  shows "finsh_type_check False (node_of x # sib) e
       = (n # fst (finsh_type_check False sib e), snd (finsh_type_check False sib e))"
    and "data_type n = width_data (expr_width x)" and "finsh_compile [n] c = finsh_code (code_of x) c"
  using assms by (cases c; simp add: checked_def)+

lemma checked_compile: "checked x n \<Longrightarrow> finsh_compile [n] = finsh_code (code_of x)"
  by (rule ext) simp

lemma finsh_compile_Nil [simp]: "Option.bind m (finsh_compile []) = m"
  by (cases m) simp_all

lemma finsh_compile_Cons: "sib \<noteq> [] \<Longrightarrow> finsh_compile (n # sib) c = Option.bind (finsh_compile [n] c) (finsh_compile sib)"
  by (cases n) (cases sib; auto simp: Option.bind_assoc split: Option.bind_splits)

lemma checked_list:
  assumes "\<And>x. x \<in> set xs \<Longrightarrow> \<exists>n. checked x n"
  shows "\<exists>ns. length ns = length xs \<and> (\<forall>e. finsh_type_check False (map node_of xs) e = (ns, e))
    \<and> (\<forall>bs c. Option.bind (finsh_code bs c) (finsh_compile ns) = finsh_code (bs @ concat (map code_of xs)) c)"
  using assms
proof (induction xs)
  case Nil
  then show ?case by (intro exI [of _ "[]"]) (auto simp: finsh_code_def)
next
  case (Cons x xs)
  then obtain n ns where n: "checked x n" and l: "length ns = length xs"
    and t: "\<And>e. finsh_type_check False (map node_of xs) e = (ns, e)"
    and c: "\<And>bs c. Option.bind (finsh_code bs c) (finsh_compile ns) = finsh_code (bs @ concat (map code_of xs)) c"
    by (metis list.set_intros)
  have "finsh_compile (n # ns) c = Option.bind (finsh_compile [n] c) (finsh_compile ns)" for c
    using finsh_compile_Cons [of ns n c] by (cases ns) (auto simp: fun_eq_iff split: Option.bind_splits)
  then have "finsh_compile (n # ns) = finsh_code (concat (map code_of (x # xs)))"
    using n by (intro ext) (simp add: c)
  then have "Option.bind (finsh_code bs c) (finsh_compile (n # ns)) = finsh_code (bs @ concat (map code_of (x # xs))) c" for bs c
    by (simp only: finsh_code_append)
  then show ?case using n l t by (intro exI [of _ "n # ns"]) simp
qed


lemma finsh_compile_single:
  "finsh_compile [Node ty d i ad v child] c = Option.bind (finsh_compile child c) (compile_node (Node ty d i ad v child))"
  by (simp split: Option.bind_splits)

lemma finsh_compile_two:
  assumes "checked a na" "checked b nb"
  shows "finsh_compile [na, nb] c = finsh_code (code_of a @ code_of b) c"
  using finsh_compile_Cons [of "[nb]" na c] assms by (simp add: finsh_code_append [symmetric] checked_compile)

lemma code_then_compile:
  assumes "\<And>c. f c = finsh_code ys c"
  shows "Option.bind (finsh_code xs c) f = finsh_code (xs @ ys) c"
proof -
  have "f = finsh_code ys" using assms by (rule ext)
  then show ?thesis by (simp add: finsh_code_append)
qed

lemmas type_check_simps = new_node_def new_id_def new_value_def set_attributes_def Let_def split_beta is_syscall_def

lemma checked_leaf:
  assumes "well_typed x" and "node_of x = new_value ty v" and "\<And>c. compile_node (Node ty (width_data (expr_width x)) None False v []) c = finsh_code (code_of x) c"
    and "ty \<in> {NODE_VALUE_CHAR, NODE_VALUE_INT, NODE_VALUE_LONG, NODE_VALUE_STRING, NODE_VALUE_NULL}"
    and "expr_width x = Some (if ty = NODE_VALUE_CHAR then Byte else Dword)"
  shows "\<exists>n. checked x n"
  by (rule exI [of _ "Node ty (width_data (expr_width x)) None False v []"])
    (use assms in \<open>auto simp: checked_def type_check_simps finsh_compile_single width_data_def\<close>)

text \<open>An identifier as a value and as an address.\<close>

lemma id_data_width: "id_width i = Some w \<Longrightarrow> id_data (Some i) d e = (width_data (Some w), e)"
  by (cases i) (simp_all add: id_data_def type_data_load_width)

lemma id_check:
  assumes "id_width i = Some w"
  shows "finsh_type_check a (new_id i # sib) e
     = (Node NODE_ID (width_data (Some w)) (Some i) a 0 [] # fst (finsh_type_check False sib e), snd (finsh_type_check False sib e))"
  using assms id_data_width [OF assms] by (cases i) (auto simp: type_check_simps)

lemma compile_id_value:
  assumes "id_width i = Some w"
  shows "compile_node (Node NODE_ID d (Some i) False 0 []) c = finsh_code (FINSH_OP_LD_VALUE w # split_bytes 4 (id_target i)) c"
    and "compile_node (Node NODE_ID d (Some i) True 0 []) c = finsh_code (FINSH_OP_LD Dword # split_bytes 4 (id_target i)) c"
  using assms by (cases i; simp add: compile_node_def compile_id_def compile_load_def code_simps)+

lemma id_compile:
  assumes "id_width i = Some w"
  shows "finsh_compile [Node NODE_ID d (Some i) a 0 []] c
     = finsh_code ((if a then FINSH_OP_LD Dword else FINSH_OP_LD_VALUE w) # split_bytes 4 (id_target i)) c"
  using compile_id_value [OF assms] by (simp add: finsh_compile_single)

lemma is_var_target: "is_var i \<Longrightarrow> var_value (Some i) = id_target i"
  by (cases i) (auto simp: is_var_def)

lemma compile_change_code: "compile_change (if up then Add else Sub) w a = finsh_code (code_change up w a)"
  by (rule ext, cases w) (simp_all add: compile_change_def compile_one_def code_simps code_change_def)


text \<open>A node whose children have been checked to \<open>child\<close> and compile to \<open>cs\<close>.\<close>

lemma checked_node:
  assumes n: "node_of x = new_node ty ch" and ch: "\<And>e. finsh_type_check (child_address ty False) ch e = (n # child, e)"
    and d: "data_type n = width_data (expr_width x)"
    and c: "\<And>c. finsh_compile (n # child) c = finsh_code cs c"
    and p: "\<And>c. Option.bind (finsh_code cs c)
        (compile_node (Node ty (width_data (expr_width x)) None False 0 (n # child))) = finsh_code (code_of x) c"
  shows "\<exists>n. checked x n"
proof (rule exI [of _ "Node ty (width_data (expr_width x)) None False 0 (n # child)"])
  show "checked x (Node ty (width_data (expr_width x)) None False 0 (n # child))"
    unfolding checked_def n finsh_compile_single c p new_node_def finsh_type_check.simps(2) ch Let_def split_beta
    by (simp add: set_attributes_def Let_def is_syscall_def d)
qed

lemma compile_node_op:
  "compile_node (Node (NODE_SYS f) (width_data (Some w)) i ad v ch) = finsh_code [FINSH_OP_BIN f w]"
  "compile_node (Node NODE_SYS_BITWISE (width_data (Some w)) i ad v ch) = finsh_code [FINSH_OP_BITWISE w]"
  "compile_node (Node NODE_SYS_GETVALUE (width_data (Some w)) i False v ch) = finsh_code [FINSH_OP_LD_VALUE_STACK w]"
  by (auto simp: compile_node_def compile_op_def finsh_code_byte_def fun_eq_iff)

lemma compile_node_pre_post:
  assumes "var_value i = a"
  shows "compile_node (Node (if up then NODE_SYS_PREINC else NODE_SYS_PREDEC) (width_data (Some w)) j ad v (Node NODE_ID d i ad' v' ch # r))
      = finsh_code (code_change up w a @ [FINSH_OP_LD_VALUE_STACK Dword])"
    and "compile_node (Node (if up then NODE_SYS_INC else NODE_SYS_DEC) (width_data (Some w)) j ad v (Node NODE_ID d i ad' v' ch # r))
      = finsh_code ((FINSH_OP_LD Dword # split_bytes 4 a) @ code_change up w a @ [FINSH_OP_POP])"
  using assms compile_change_code [of True w a] compile_change_code [of False w a]
  by (auto simp: compile_node_def compile_pre_def compile_post_def code_simps intro!: ext split: if_splits)

lemma compile_store_code: "compile_store (width_data (Some w)) = finsh_code [FINSH_OP_ST w, FINSH_OP_LD_VALUE_STACK w]"
  by (auto simp: compile_store_def code_simps fun_eq_iff)

lemma compile_node_getaddr: "compile_node (Node NODE_SYS_GETADDR d i ad v ch) = Some"
  by (simp add: compile_node_def fun_eq_iff)

lemma width_data_mask: "width_data w AND 0x0F = width_data w"
  by (cases w rule: option.exhaust [case_product width.exhaust])
    (simp_all add: width_data_def DATA_TYPE_VOID_def DATA_TYPE_BYTE_def DATA_TYPE_WORD_def DATA_TYPE_DWORD_def split: width.splits)

lemma compile_node_assign:
  "compile_node (Node NODE_SYS_ASSIGN d i ad v (Node NODE_ID (width_data (Some w)) j ad' v' ch # r))
     = finsh_code [FINSH_OP_ST w, FINSH_OP_LD_VALUE_STACK w]"
  "compile_node (Node NODE_SYS_ASSIGN d i ad v (Node NODE_SYS_GETVALUE (width_data (Some w)) j ad' v' ch # r))
     = finsh_code [FINSH_OP_ST w, FINSH_OP_LD_VALUE_STACK w]"
  "compile_node (Node NODE_SYS_GETVALUE d i True v ch) = Some"
  by (simp_all add: compile_node_def compile_assign_def compile_store_code width_data_mask fun_eq_iff)

lemma ucast_u8_u32 [simp]: "ucast (ucast (x :: u8) :: u32) = x"
  by (rule bit_word_eqI) (auto simp: bit_simps)

lemma checked_expr:
  "well_typed x \<Longrightarrow> \<exists>n. checked x n"
proof (induction x)
  case (EId i)
  then obtain w where w: "id_width i = Some w" by auto
  show ?case
    by (rule exI [of _ "Node NODE_ID (width_data (Some w)) (Some i) False 0 []"])
      (simp add: checked_def id_check [OF w] id_compile [OF w] w del: finsh_type_check.simps finsh_compile.simps)
next
  case (EAddr i)
  then obtain w where w: "id_width i = Some w" by auto
  show ?case
    by (rule checked_node [OF node_of.simps(7) _ _ id_compile [OF w], where a4 = True])
      (simp_all add: id_check [OF w] w compile_node_getaddr del: finsh_type_check.simps(2))
next
  case (EBin f a b)
  then obtain na nb where n: "checked a na" "checked b nb" by auto
  show ?case
    by (rule checked_node [OF node_of.simps(8) _ _ finsh_compile_two [OF n]])
      (use n EBin.prems in \<open>simp_all add: compile_node_op finsh_code_append\<close>)
next
  case (ECompl a)
  then obtain na where n: "checked a na" by auto
  show ?case
    by (rule checked_node [OF node_of.simps(9) _ _ checkedD(3) [OF n]])
      (use n ECompl.prems in \<open>simp_all add: compile_node_op finsh_code_append\<close>)
next
  case (EDeref a)
  then obtain na w where n: "checked a na" and w: "expr_width a = Some w" by auto
  show ?case
    by (rule checked_node [OF node_of.simps(10) _ _ checkedD(3) [OF n]])
      (use n w in \<open>simp_all add: compile_node_op finsh_code_append\<close>)
next
  case (EAssign i a)
  then obtain na w where n: "checked a na" and w: "id_width i = Some w" by auto
  let ?i = "Node NODE_ID (width_data (Some w)) (Some i) True 0 []"
  have c: "finsh_compile [?i, na] c = finsh_code ((FINSH_OP_LD Dword # split_bytes 4 (id_target i)) @ code_of a) c" for c
    using finsh_compile_Cons [of "[na]" ?i c] n by (simp add: id_compile [OF w] checked_compile finsh_code_append del: finsh_compile.simps)
  show ?case
    by (rule checked_node [OF node_of.simps(11) _ _ c])
      (use n w in \<open>simp_all add: id_check [OF w] compile_node_assign finsh_code_append del: finsh_type_check.simps(2)\<close>)
next
  case (EStore a b)
  then obtain na nb w where n: "checked a na" "checked b nb" and w: "expr_width a = Some w" by auto
  let ?g = "Node NODE_SYS_GETVALUE (width_data (Some w)) None True 0 [na]"
  have "finsh_compile [?g] c = finsh_code (code_of a) c" for c
    using n by (simp add: finsh_compile_single compile_node_assign del: finsh_compile.simps)
  then have c: "finsh_compile [?g, nb] c = finsh_code (code_of a @ code_of b) c" for c
    using finsh_compile_Cons [of "[nb]" ?g c] n by (simp add: checked_compile finsh_code_append del: finsh_compile.simps)
  show ?case
    by (rule checked_node [OF node_of.simps(12) _ _ c])
      (use n w in \<open>simp_all add: type_check_simps compile_node_assign finsh_code_append\<close>)
next
  case (EPre up i)
  then have w: "id_width i = Some Dword" and v: "var_value (Some i) = id_target i" by (auto simp: is_var_target)
  have ty: "child_address (if up then NODE_SYS_PREINC else NODE_SYS_PREDEC) False = True" by simp
  show ?case
    by (rule checked_node [OF node_of.simps(13) _ _ id_compile [OF w], where a4 = True])
      (simp_all only: node_of.simps ty id_check [OF w] w compile_node_pre_post [OF v] finsh_code_append finsh_type_check.simps(1)
        fst_conv snd_conv finsh_node.sel expr_width.simps code_of.simps if_True append_assoc)
next
  case (EPost up i)
  then obtain w where w: "id_width i = Some w" and v: "var_value (Some i) = id_target i" by (auto simp: is_var_target)
  have ty: "child_address (if up then NODE_SYS_INC else NODE_SYS_DEC) False = False" by simp
  show ?case
    by (rule checked_node [OF node_of.simps(14) _ _ id_compile [OF w], where a4 = False])
      (simp_all only: node_of.simps ty id_check [OF w] w compile_node_pre_post [OF v] finsh_code_append finsh_type_check.simps(1)
        fst_conv snd_conv finsh_node.sel expr_width.simps code_of.simps if_False append_assoc option.sel)
next
  case (ECall f as)
  then obtain ns where ns: "length ns = length as" "\<And>e. finsh_type_check False (map node_of as) e = (ns, e)"
    "\<And>bs c. Option.bind (finsh_code bs c) (finsh_compile ns) = finsh_code (bs @ concat (map code_of as)) c"
    using checked_list [of as] by auto
  from ECall.prems obtain p q where f: "f = Id_syscall p q" by (cases f) (auto simp: is_syscall_def)
  let ?f = "Node NODE_ID DATA_TYPE_VOID (Some f) False 0 []"
  have "finsh_compile [?f] c = finsh_code (FINSH_OP_LD Dword # split_bytes 4 p) c" for c
    by (simp add: finsh_compile_single compile_node_def compile_id_def f code_simps del: finsh_compile.simps(2))
  then have c: "finsh_compile (?f # ns) c = finsh_code ((FINSH_OP_LD Dword # split_bytes 4 p) @ concat (map code_of as)) c" for c
    using finsh_compile_Cons [of ns ?f c] ns(1) ns(3) [of "FINSH_OP_LD Dword # split_bytes 4 p" c]
    by (cases ns) (simp_all del: finsh_compile.simps)
  show ?case
    by (rule checked_node [OF node_of.simps(15) _ _ c])
      (use ns f in \<open>simp_all add: type_check_simps id_data_def DATA_TYPE_VOID_def width_data_def compile_node_def compile_func_def
        code_simps code_then_compile\<close>)
qed (auto intro!: checked_leaf simp: compile_node_def code_simps)

end
