(* ===== verification/FinshRun.thy ===== *)
theory FinshRun
  imports FinshExpr
begin

text \<open>
  The machine of the shell runs the code of an expression to what \<open>eval\<close> says, with the same faults. From there:
  the whole path of a line of statements through compiler and machine.
\<close>

section \<open>States of the machine\<close>

text \<open>The stack as the values it holds, each with the part of the cell that counts.\<close>

definition cells :: "u32 list \<Rightarrow> (width \<times> int) list \<Rightarrow> bool" where
  "cells cs us = list_all2 (\<lambda>c (w, v). cell_get w c = v) cs us"

definition vm_state :: "u8 list \<Rightarrow> nat \<Rightarrow> (width \<times> int) list \<Rightarrow> memory \<Rightarrow> finsh_vm \<Rightarrow> bool" where
  "vm_state t pc us m vm \<longleftrightarrow> (\<exists>cs rest. vm = \<lparr> vm_stack = cs @ rest, vm_sp = length cs, vm_text = t, vm_pc = pc, vm_memory = m \<rparr>
     \<and> cells cs us \<and> length cs + length rest = FINSH_STACK_MAX)"

lemma cells_snoc: "cells cs (us @ [(w, v)]) \<longleftrightarrow> (\<exists>ds c. cs = ds @ [c] \<and> cells ds us \<and> cell_get w c = v)"
proof
  show "cells cs (us @ [(w, v)]) \<Longrightarrow> \<exists>ds c. cs = ds @ [c] \<and> cells ds us \<and> cell_get w c = v"
    by (auto simp: cells_def list_all2_append2 list_all2_Cons2)
  show "\<exists>ds c. cs = ds @ [c] \<and> cells ds us \<and> cell_get w c = v \<Longrightarrow> cells cs (us @ [(w, v)])"
    by (auto simp: cells_def intro!: list_all2_appendI)
qed

lemma cells_length: "cells cs us \<Longrightarrow> length cs = length us"
  by (simp add: cells_def list_all2_lengthD)

lemma vm_stateE:
  assumes "vm_state t pc us m vm"
  obtains cs rest where "vm = \<lparr> vm_stack = cs @ rest, vm_sp = length cs, vm_text = t, vm_pc = pc, vm_memory = m \<rparr>"
    and "cells cs us" and "length cs = length us" and "length cs + length rest = FINSH_STACK_MAX"
  using assms by (auto simp: vm_state_def cells_length)

lemma vm_state_pc: "vm_state t pc us m vm \<Longrightarrow> vm_pc vm = pc"
  by (auto simp: vm_state_def)

lemma norm_cell_get [simp]: "norm w (cell_get w c) = cell_get w c"
proof -
  have "ucast (word_of_int (uint (ucast c :: u8)) :: u32) = (ucast c :: u8)"
    and "ucast (word_of_int (sint (ucast c :: u16)) :: u32) = (ucast c :: u16)"
    by (rule bit_word_eqI, auto simp: bit_simps)+
  then show ?thesis by (cases w) (simp_all add: norm_def)
qed

lemma cell_get_norm [simp]: "cell_get w (word_of_int v) = norm w v"
  by (simp add: norm_def)

lemma narrow:
  assumes "n_bytes w \<le> n_bytes w'"
  shows "norm w (cell_get w' c) = cell_get w c"
proof -
  have "ucast (word_of_int (sint c) :: u32) = (ucast c :: u8)" by simp
  moreover have "ucast (word_of_int (sint (ucast c :: u16)) :: u32) = (ucast c :: u8)"
    by (rule bit_word_eqI) (auto simp: bit_simps)
  ultimately show ?thesis using assms norm_cell_get [of w' c]
    by (cases w; cases w') (simp_all add: norm_def)
qed

declare cell_get.simps [simp del] cell_put.simps [simp del]

lemma norm_mem_load: "mem_load w m a = Some v \<Longrightarrow> norm w v = v"
  by (auto simp: mem_load_def)

section \<open>Cells below the stack pointer\<close>

lemma mem_get_top [simp]:
  "mem_get (cs @ [c] @ rest) (int (length cs)) = Some c"
  "mem_get (cs @ c # rest) (int (length cs)) = Some c"
  by (simp_all add: mem_get_def)

lemma mem_set_top [simp]: "mem_set (cs @ c # rest) (int (length cs)) d = Some (cs @ d # rest)"
  by (simp add: mem_set_def)

lemma sp_get_1 [simp]: "sp_get w (Suc 0) \<lparr> vm_stack = cs @ c # rest, vm_sp = Suc (length cs), vm_text = t, vm_pc = pc, vm_memory = m \<rparr>
    = Some (cell_get w c)"
  by (simp add: sp_get_def)

lemma sp_get_21 [simp]: "sp_get w (Suc 0) \<lparr> vm_stack = cs @ c # d # rest, vm_sp = Suc (Suc (length cs)), vm_text = t, vm_pc = pc, vm_memory = m \<rparr>
    = Some (cell_get w d)"
  using sp_get_1 [of w "cs @ [c]" d rest t pc m] by simp

lemma sp_get_2 [simp]: "sp_get w 2 \<lparr> vm_stack = cs @ c # d # rest, vm_sp = Suc (Suc (length cs)), vm_text = t, vm_pc = pc, vm_memory = m \<rparr>
    = Some (cell_get w c)"
  by (simp add: sp_get_def)

lemma sp_get_0 [simp]: "sp_get w 0 \<lparr> vm_stack = cs @ c # rest, vm_sp = length cs, vm_text = t, vm_pc = pc, vm_memory = m \<rparr>
    = Some (cell_get w c)"
  by (simp add: sp_get_def)

lemma sp_put_0 [simp]: "sp_put w 0 v \<lparr> vm_stack = cs @ c # rest, vm_sp = length cs, vm_text = t, vm_pc = pc, vm_memory = m \<rparr>
    = Some \<lparr> vm_stack = cs @ cell_put w v c # rest, vm_sp = length cs, vm_text = t, vm_pc = pc, vm_memory = m \<rparr>"
  by (simp add: sp_put_def)

lemma sp_put_1 [simp]: "sp_put w (Suc 0) v \<lparr> vm_stack = cs @ c # rest, vm_sp = Suc (length cs), vm_text = t, vm_pc = pc, vm_memory = m \<rparr>
    = Some \<lparr> vm_stack = cs @ cell_put w v c # rest, vm_sp = Suc (length cs), vm_text = t, vm_pc = pc, vm_memory = m \<rparr>"
  by (simp add: sp_put_def)

lemma sp_put_2 [simp]: "sp_put w 2 v \<lparr> vm_stack = cs @ c # d # rest, vm_sp = Suc (Suc (length cs)), vm_text = t, vm_pc = pc, vm_memory = m \<rparr>
    = Some \<lparr> vm_stack = cs @ cell_put w v c # d # rest, vm_sp = Suc (Suc (length cs)), vm_text = t, vm_pc = pc, vm_memory = m \<rparr>"
  by (simp add: sp_put_def)

section \<open>One operation\<close>

text \<open>The operation of an opcode.\<close>

lemma op_table_BIN: "mem_get (op_table sys) (uint (FINSH_OP_BIN f w)) = Some (OP_BIN w f)"
  by (cases f; cases w) (simp_all add: mem_get_def op_table_def OP_BIN_defs)

lemma op_table_others:
  "mem_get (op_table sys) (uint (FINSH_OP_BITWISE w)) = Some (OP_bw w)"
  "mem_get (op_table sys) (uint (FINSH_OP_LD_VALUE w)) = Some (OP_ld_value w)"
  "mem_get (op_table sys) (uint (FINSH_OP_ST w)) = Some (OP_st w)"
  "mem_get (op_table sys) (uint (FINSH_OP_LD_VALUE_STACK w)) = Some (OP_ld_value_stack w)"
  by (cases w; simp add: mem_get_def op_table_def FINSH_OP_BITWISE_def FINSH_OP_LD_VALUE_def FINSH_OP_ST_def
      FINSH_OP_LD_VALUE_STACK_def)+

lemma op_table_single:
  "mem_get (op_table sys) (uint (FINSH_OP_LD Byte)) = Some OP_ld_byte"
  "mem_get (op_table sys) (uint (FINSH_OP_LD Word)) = Some OP_ld_word"
  "mem_get (op_table sys) (uint (FINSH_OP_LD Dword)) = Some OP_ld_dword"
  "mem_get (op_table sys) (uint FINSH_OP_POP) = Some OP_pop"
  "mem_get (op_table sys) (uint FINSH_OP_SYSCALL) = Some (OP_call sys)"
  "mem_get (op_table sys) (uint (0 :: u8)) = Some OP_no_op"
  by (simp_all add: mem_get_def op_table_def FINSH_OP_LD_def FINSH_OP_POP_def FINSH_OP_SYSCALL_def)

lemmas op_table_simps = op_table_BIN op_table_others op_table_single

lemma vm_loop_one:
  assumes "vm_pc vm < b" and "\<And>vm'. vm_step sys vm = Some vm' \<Longrightarrow> b \<le> vm_pc vm'"
  shows "vm_loop sys b vm = vm_step sys vm"
  using assms by (auto simp: vm_loop_step split: Option.bind_splits)

lemma vm_step_at:
  assumes "vm_text vm = t" "vm_pc vm = pc" "code_at t pc (op # c)" "mem_get (op_table sys) (uint op) = Some f"
  shows "vm_step sys vm = f (pc_add 1 vm)"
  using assms by (simp add: vm_step_def code_at_Cons)

text \<open>\<open>leaves t pc us w r res\<close>: the machine state \<open>r\<close> and the result \<open>res\<close> of the reference agree, either both are
  faults, or the machine is at \<open>pc\<close> with the value of the result above \<open>us\<close> and its memory.\<close>

definition leaves :: "u8 list \<Rightarrow> nat \<Rightarrow> (width \<times> int) list \<Rightarrow> width \<Rightarrow> finsh_vm option \<Rightarrow> (int \<times> memory) option \<Rightarrow> bool" where
  "leaves t pc us w r res \<longleftrightarrow> rel_option (\<lambda>vm (v, m). vm_state t pc (us @ [(w, v)]) m vm) r res"

lemma leaves_Some [simp]: "leaves t pc us w (Some vm) (Some (v, m)) \<longleftrightarrow> vm_state t pc (us @ [(w, v)]) m vm"
  and leaves_None [simp]: "leaves t pc us w None None"
  by (simp_all add: leaves_def)

lemma leaves_seq:
  assumes "leaves t b us w (vm_loop sys b vm) res" "b \<le> c"
    and "\<And>vm v m. vm_state t b (us @ [(w, v)]) m vm \<Longrightarrow> leaves t c us' w' (vm_loop sys c vm) (g v m)"
  shows "leaves t c us' w' (vm_loop sys c vm) (Option.bind res (\<lambda>(v, m). g v m))"
  using assms(1,3) vm_loop_split [OF assms(2), of sys vm]
  by (cases "vm_loop sys b vm"; cases res) (auto simp: leaves_def)

lemma step_leaves:
  assumes st: "vm_state t pc us m vm" and c: "code_at t pc (op # c)" and f: "mem_get (op_table sys) (uint op) = Some f"
    and b: "b = Suc (pc + length c)"
    and r: "\<And>cs rest. cells cs us \<Longrightarrow> length us = length cs \<Longrightarrow> length cs + length rest = FINSH_STACK_MAX \<Longrightarrow>
      leaves t b us' w (f \<lparr> vm_stack = cs @ rest, vm_sp = length cs, vm_text = t, vm_pc = Suc pc, vm_memory = m \<rparr>) res"
  shows "leaves t b us' w (vm_loop sys b vm) res"
proof -
  from st obtain cs rest where vm: "vm = \<lparr> vm_stack = cs @ rest, vm_sp = length cs, vm_text = t, vm_pc = pc, vm_memory = m \<rparr>"
    and cs: "cells cs us" "length cs = length us" "length cs + length rest = FINSH_STACK_MAX" by (rule vm_stateE)
  have s: "vm_step sys vm = f \<lparr> vm_stack = cs @ rest, vm_sp = length cs, vm_text = t, vm_pc = Suc pc, vm_memory = m \<rparr>"
    using vm_step_at [of vm t pc op c sys f] c f by (simp add: vm pc_add_def)
  from r [OF cs(1) cs(2) [symmetric] cs(3)] have r': "leaves t b us' w (vm_step sys vm) res"
    by (simp add: s)
  have "vm_loop sys b vm = vm_step sys vm"
  proof (rule vm_loop_one)
    show "vm_pc vm < b" by (simp add: vm b)
    fix vm' assume "vm_step sys vm = Some vm'"
    with r' obtain v m' where "vm_state t b (us' @ [(w, v)]) m' vm'" by (auto simp: leaves_def option_rel_Some1)
    then show "b \<le> vm_pc vm'" by (simp add: vm_state_pc)
  qed
  with r' show ?thesis by simp
qed

lemma code_at_operand: "code_at t pc (op # b # c) \<Longrightarrow> mem_get t (1 + int pc) = Some b"
  by (auto simp: code_at_Cons mem_get_def nat_add_distrib)

lemma code_at_operand32: "code_at t pc (op # split_bytes 4 v) \<Longrightarrow> FINSH_GET32 t (Suc pc) = Some v"
  by (simp add: code_at_Cons FINSH_GET32_split)

lemma room_Cons:
  assumes "length us < FINSH_STACK_MAX" "length us = length cs" "length cs + length (rest :: u32 list) = FINSH_STACK_MAX"
  obtains c r where "rest = c # r"
  using assms by (cases rest) auto

text \<open>A state with one more value.\<close>

lemma vm_state_push:
  assumes "cells cs us" "cell_get w c = v" "length cs + length (c # rest) = FINSH_STACK_MAX"
  shows "vm_state t pc (us @ [(w, v)]) m \<lparr> vm_stack = cs @ c # rest, vm_sp = Suc (length cs), vm_text = t, vm_pc = pc, vm_memory = m \<rparr>"
  unfolding vm_state_def
  by (rule exI [of _ "cs @ [c]"], rule exI [of _ rest]) (use assms in \<open>auto simp: cells_snoc\<close>)

lemma vm_state_same:
  assumes "cells cs us" "length cs + length rest = FINSH_STACK_MAX"
  shows "vm_state t pc us m \<lparr> vm_stack = cs @ rest, vm_sp = length cs, vm_text = t, vm_pc = pc, vm_memory = m \<rparr>"
  using assms unfolding vm_state_def by blast

lemma step_ld_byte:
  assumes st: "vm_state t pc us m vm" and c: "code_at t pc [FINSH_OP_LD Byte, b]" and l: "length us < FINSH_STACK_MAX"
  shows "leaves t (pc + 2) us Byte (vm_loop sys (pc + 2) vm) (Some (uint b, m))"
proof (rule step_leaves [OF st c op_table_single(1)])
  fix cs and rest :: "u32 list" assume cs: "cells cs us" "length us = length cs" "length cs + length rest = FINSH_STACK_MAX"
  from l cs(2,3) obtain c r where r: "rest = c # r" by (rule room_Cons)
  have "norm Byte (uint b) = uint b" using norm_cell_get [of Byte "ucast b"] by (simp add: cell_get.simps)
  then show "leaves t (pc + 2) us Byte
      (OP_ld_byte \<lparr> vm_stack = cs @ rest, vm_sp = length cs, vm_text = t, vm_pc = Suc pc, vm_memory = m \<rparr>) (Some (uint b, m))"
    using cs r code_at_operand [OF assms(2)]
    by (auto simp: OP_ld_byte_def pc_add_def sp_inc_def intro!: vm_state_push)
qed simp

lemma step_ld_dword:
  assumes st: "vm_state t pc us m vm" and c: "code_at t pc (FINSH_OP_LD Dword # split_bytes 4 v)" and l: "length us < FINSH_STACK_MAX"
  shows "leaves t (pc + 5) us Dword (vm_loop sys (pc + 5) vm) (Some (sint v, m))"
proof (rule step_leaves [OF st c op_table_single(3)])
  fix cs and rest :: "u32 list" assume cs: "cells cs us" "length us = length cs" "length cs + length rest = FINSH_STACK_MAX"
  from l cs(2,3) obtain c r where r: "rest = c # r" by (rule room_Cons)
  then show "leaves t (pc + 5) us Dword
      (OP_ld_dword \<lparr> vm_stack = cs @ rest, vm_sp = length cs, vm_text = t, vm_pc = Suc pc, vm_memory = m \<rparr>) (Some (sint v, m))"
    using cs code_at_operand32 [OF assms(2)]
    by (auto simp: OP_ld_dword_def pc_add_def sp_inc_def eval_nat_numeral norm_def cell_get.simps intro!: vm_state_push)
qed simp

lemma step_ld_value:
  assumes st: "vm_state t pc us m vm" and c: "code_at t pc (FINSH_OP_LD_VALUE w # split_bytes 4 a)" and l: "length us < FINSH_STACK_MAX"
  shows "leaves t (pc + 5) us w (vm_loop sys (pc + 5) vm) (do { v \<leftarrow> mem_load w m a; Some (v, m) })"
proof (rule step_leaves [OF st c op_table_others(2)])
  fix cs and rest :: "u32 list" assume cs: "cells cs us" "length us = length cs" "length cs + length rest = FINSH_STACK_MAX"
  from l cs(2,3) obtain c r where r: "rest = c # r" by (rule room_Cons)
  then show "leaves t (pc + 5) us w (OP_ld_value w \<lparr> vm_stack = cs @ rest, vm_sp = length cs, vm_text = t, vm_pc = Suc pc, vm_memory = m \<rparr>)
      (do { v \<leftarrow> mem_load w m a; Some (v, m) })"
    using cs code_at_operand32 [OF assms(2)] norm_mem_load [of w m a]
    by (cases "mem_load w m a") (auto simp: OP_ld_value_def pc_add_def sp_inc_def eval_nat_numeral intro!: vm_state_push)
qed simp


lemma step_ld_one:
  assumes st: "vm_state t pc us m vm" and c: "code_at t pc (FINSH_OP_LD w # code_one w)" and l: "length us < FINSH_STACK_MAX"
    and b: "b = Suc (pc + length (code_one w))"
  shows "leaves t b us w (vm_loop sys b vm) (Some (1, m))"
proof (cases w)
  case Byte
  then show ?thesis using step_ld_byte [of t pc us m vm 1 sys] assms by simp
next
  case Dword
  then show ?thesis using step_ld_dword [of t pc us m vm 1 sys] assms by (simp add: add.commute)
next
  case Word
  have c': "code_at t pc (FINSH_OP_LD Word # code_one Word)" using c Word by simp
  have v: "FINSH_GET16 t (Suc pc) = Some 1"
    using c Word by (auto simp: FINSH_GET16_def code_at_Cons mem_get_def nat_add_distrib numeral_2_eq_2)
  show ?thesis unfolding Word
  proof (rule step_leaves [OF st c' op_table_single(2)])
    show "b = Suc (pc + length (code_one Word))" using b Word by simp
    fix cs and rest :: "u32 list" assume cs: "cells cs us" "length us = length cs" "length cs + length rest = FINSH_STACK_MAX"
    from l cs(2,3) obtain c r where r: "rest = c # r" by (rule room_Cons)
    have "norm Word 1 = 1" using norm_cell_get [of Word 1] by (simp add: cell_get.simps)
    then show "leaves t b us Word (OP_ld_word \<lparr> vm_stack = cs @ rest, vm_sp = length cs, vm_text = t, vm_pc = Suc pc, vm_memory = m \<rparr>)
        (Some (1, m))"
      using cs r v b Word by (auto simp: OP_ld_word_def pc_add_def sp_inc_def intro!: vm_state_push)
  qed
qed

lemma cells_2:
  assumes "cells cs (us @ [(w, x)] @ [(w', y)])"
  obtains ds c d where "cs = ds @ [c, d]" "cells ds us" "cell_get w c = x" "cell_get w' d = y"
  using assms cells_snoc [of cs "us @ [(w, x)]"] by (auto simp: cells_snoc)

lemma step_bin:
  assumes st: "vm_state t pc (us @ [(w, x)] @ [(w', y)]) m vm" and c: "code_at t pc [FINSH_OP_BIN f w]"
    and n: "n_bytes w \<le> n_bytes w'"
  shows "leaves t (Suc pc) us w (vm_loop sys (Suc pc) vm) (do { r \<leftarrow> c_binop f x (norm w y); Some (norm w r, m) })"
proof (rule step_leaves [OF st c op_table_BIN])
  fix cs and rest :: "u32 list"
  assume cs: "cells cs (us @ [(w, x)] @ [(w', y)])" "length cs + length rest = FINSH_STACK_MAX"
  from cs(1) obtain ds c d where ds: "cs = ds @ [c, d]" "cells ds us" "cell_get w c = x" "cell_get w' d = y" by (rule cells_2)
  with narrow [OF n, of d] have "cell_get w d = norm w y" by simp
  with ds cs(2) show "leaves t (Suc pc) us w (OP_BIN w f \<lparr> vm_stack = cs @ rest, vm_sp = length cs, vm_text = t, vm_pc = Suc pc, vm_memory = m \<rparr>)
      (do { r \<leftarrow> c_binop f x (norm w y); Some (norm w r, m) })"
    by (cases "c_binop f x (norm w y)") (auto simp: OP_BIN_def sp_dec_def intro!: vm_state_push)
qed simp

lemma step_compl:
  assumes st: "vm_state t pc (us @ [(w, x)]) m vm" and c: "code_at t pc [FINSH_OP_BITWISE w]"
  shows "leaves t (Suc pc) us w (vm_loop sys (Suc pc) vm) (Some (norm w (NOT x), m))"
proof (rule step_leaves [OF st c op_table_others(1)])
  fix cs and rest :: "u32 list" assume cs: "cells cs (us @ [(w, x)])" "length cs + length rest = FINSH_STACK_MAX"
  then obtain ds c where ds: "cs = ds @ [c]" "cells ds us" "cell_get w c = x" by (auto simp: cells_snoc)
  with cs(2) show "leaves t (Suc pc) us w (OP_bw w \<lparr> vm_stack = cs @ rest, vm_sp = length cs, vm_text = t, vm_pc = Suc pc, vm_memory = m \<rparr>)
      (Some (norm w (NOT x), m))"
    by (auto simp: OP_bw_def intro!: vm_state_push)
qed simp

lemma step_load_stack:
  assumes st: "vm_state t pc (us @ [(Dword, p)]) m vm" and c: "code_at t pc [FINSH_OP_LD_VALUE_STACK w]"
  shows "leaves t (Suc pc) us w (vm_loop sys (Suc pc) vm) (do { v \<leftarrow> mem_load w m (word_of_int p); Some (v, m) })"
proof (rule step_leaves [OF st c op_table_others(4)])
  fix cs and rest :: "u32 list" assume cs: "cells cs (us @ [(Dword, p)])" "length cs + length rest = FINSH_STACK_MAX"
  then obtain ds c where ds: "cs = ds @ [c]" "cells ds us" "cell_get Dword c = p" by (auto simp: cells_snoc)
  with cs(2) norm_mem_load [of w m "word_of_int p"]
  show "leaves t (Suc pc) us w (OP_ld_value_stack w \<lparr> vm_stack = cs @ rest, vm_sp = length cs, vm_text = t, vm_pc = Suc pc, vm_memory = m \<rparr>)
      (do { v \<leftarrow> mem_load w m (word_of_int p); Some (v, m) })"
    by (cases "mem_load w m (word_of_int p)") (auto simp: OP_ld_value_stack_def intro!: vm_state_push)
qed simp

text \<open>A store leaves the address on the stack. Only the low bytes of the value count.\<close>

lemma mem_store_norm: "mem_store w m a (norm w v) = mem_store w m a v"
proof -
  have e: "split_bytes (n_bytes w) x = split_bytes (n_bytes w) y" if "cell_get w x = cell_get w y" for x y :: u32
  proof -
    have b: "(bit x i \<longleftrightarrow> bit y i)" if "i < 8 * n_bytes w" for i
    proof (cases w)
      case Byte
      with \<open>cell_get w x = cell_get w y\<close> have "word_of_int (uint (ucast x :: u8)) = (word_of_int (uint (ucast y :: u8)) :: u8)"
        by (simp add: cell_get.simps)
      then have "(ucast x :: u8) = ucast y" by simp
      then have "bit (ucast x :: u8) i = bit (ucast y :: u8) i" by simp
      then show ?thesis using that Byte by (simp add: bit_simps)
    next
      case Word
      with \<open>cell_get w x = cell_get w y\<close> have "word_of_int (sint (ucast x :: u16)) = (word_of_int (sint (ucast y :: u16)) :: u16)"
        by (simp add: cell_get.simps)
      then have "(ucast x :: u16) = ucast y" by simp
      then have "bit (ucast x :: u16) i = bit (ucast y :: u16) i" by simp
      then show ?thesis using that Word by (simp add: bit_simps)
    next
      case Dword
      with \<open>cell_get w x = cell_get w y\<close> have "word_of_int (sint x) = (word_of_int (sint y) :: u32)"
        by (simp add: cell_get.simps)
      then show ?thesis by simp
    qed
    have s: "split_bytes n (x :: u32) = split_bytes n y" if "\<And>i. i < 8 * n \<Longrightarrow> bit x i = bit y i" for n x y
      using that
    proof (induction n arbitrary: x y)
      case (Suc n)
      have "(ucast x :: u8) = ucast y" by (rule bit_word_eqI) (use Suc.prems in \<open>auto simp: bit_simps\<close>)
      moreover have "split_bytes n (drop_bit 8 x) = split_bytes n (drop_bit 8 y)"
        by (rule Suc.IH) (use Suc.prems in \<open>simp add: bit_simps\<close>)
      ultimately show ?case by simp
    qed simp
    show ?thesis by (rule s) (rule b)
  qed
  have "norm w (norm w v) = norm w v" using norm_cell_get [of w "word_of_int v"] by simp
  then have "split_bytes (n_bytes w) (word_of_int (norm w v)) = split_bytes (n_bytes w) (word_of_int v :: u32)"
    by (intro e) simp
  then show ?thesis by (simp add: mem_store_def)
qed


lemma step_st:
  assumes st: "vm_state t pc (us @ [(Dword, p)] @ [(w', x)]) m vm" and c: "code_at t pc [FINSH_OP_ST w]"
    and n: "n_bytes w \<le> n_bytes w'"
  shows "leaves t (Suc pc) us Dword (vm_loop sys (Suc pc) vm) (do { m \<leftarrow> mem_store w m (word_of_int p) x; Some (p, m) })"
proof (rule step_leaves [OF st c op_table_others(3)])
  fix cs and rest :: "u32 list"
  assume cs: "cells cs (us @ [(Dword, p)] @ [(w', x)])" "length cs + length rest = FINSH_STACK_MAX"
  from cs(1) obtain ds c d where ds: "cs = ds @ [c, d]" "cells ds us" "cell_get Dword c = p" "cell_get w' d = x" by (rule cells_2)
  with narrow [OF n, of d] have "cell_get w d = norm w x" by simp
  with ds cs(2) mem_store_norm [of w m "word_of_int p" x]
  show "leaves t (Suc pc) us Dword (OP_st w \<lparr> vm_stack = cs @ rest, vm_sp = length cs, vm_text = t, vm_pc = Suc pc, vm_memory = m \<rparr>)
      (do { m \<leftarrow> mem_store w m (word_of_int p) x; Some (p, m) })"
    by (cases "mem_store w m (word_of_int p) x") (auto simp: OP_st_def sp_dec_def intro!: vm_state_push)
qed simp

lemma step_pop:
  assumes st: "vm_state t pc (us @ [(w, x)] @ [(w', y)]) m vm" and c: "code_at t pc [FINSH_OP_POP]"
  shows "leaves t (Suc pc) us w (vm_loop sys (Suc pc) vm) (Some (x, m))"
proof (rule step_leaves [OF st c op_table_single(4)])
  fix cs and rest :: "u32 list"
  assume cs: "cells cs (us @ [(w, x)] @ [(w', y)])" "length cs + length rest = FINSH_STACK_MAX"
  from cs(1) obtain ds c d where ds: "cs = ds @ [c, d]" "cells ds us" "cell_get w c = x" "cell_get w' d = y" by (rule cells_2)
  with cs(2) show "leaves t (Suc pc) us w (OP_pop \<lparr> vm_stack = cs @ rest, vm_sp = length cs, vm_text = t, vm_pc = Suc pc, vm_memory = m \<rparr>)
      (Some (x, m))"
    by (auto simp: OP_pop_def sp_dec_def intro!: vm_state_push)
qed simp

text \<open>The loop that takes the parameters of a call from the stack.\<close>

lemma pop_parameters_cells:
  assumes "length es = n"
  shows "pop_parameters n ps \<lparr> vm_stack = ds @ c # es @ rest, vm_sp = length ds + n, vm_text = t, vm_pc = pc, vm_memory = m \<rparr>
    = Some (es @ ps, \<lparr> vm_stack = ds @ c # es @ rest, vm_sp = length ds, vm_text = t, vm_pc = pc, vm_memory = m \<rparr>)"
  using assms
proof (induction n arbitrary: es ps rest)
  case (Suc n)
  then obtain es' e where e: "es = es' @ [e]" "length es' = n" by (metis length_Suc_conv_rev)
  have g: "sp_get Dword 0 \<lparr> vm_stack = ds @ c # es' @ e # rest, vm_sp = Suc (length ds + n), vm_text = t, vm_pc = pc, vm_memory = m \<rparr> = Some (sint e)"
    using sp_get_0 [of Dword "ds @ c # es'" e rest t pc m] e(2) by (simp add: cell_get.simps)
  show ?case using Suc.IH [OF e(2), of "e # ps" "e # rest"] e(1) by (simp add: g sp_dec_def)
qed simp

lemma cells_append_Dword:
  assumes "cells cs (us @ map (Pair Dword) vs)"
  obtains ds es where "cs = ds @ es" "cells ds us" "length es = length vs" "vs = map sint es"
proof -
  from assms obtain ds es where e: "cs = ds @ es" "cells ds us" "list_all2 (\<lambda>c (w, v). cell_get w c = v) es (map (Pair Dword) vs)"
    by (auto simp: cells_def list_all2_append2)
  from e(3) have "list_all2 (\<lambda>c v. sint c = v) es vs" by (simp add: list_all2_map2 cell_get.simps)
  then have "vs = map sint es" by (auto simp: list_all2_conv_all_nth intro: nth_equalityI)
  with e show ?thesis by (intro that) simp_all
qed

lemma step_call:
  assumes st: "vm_state t pc ((us @ [(Dword, p)]) @ map (Pair Dword) vs) m vm" and n: "length vs \<le> 16"
    and c: "code_at t pc [FINSH_OP_SYSCALL, of_nat (length vs)]"
  shows "leaves t (pc + 2) us Dword (vm_loop sys (pc + 2) vm)
    (do { (r, m) \<leftarrow> sys (word_of_int p) (if vs = [] then [0] else map word_of_int vs) m; Some (sint r, m) })"
proof (rule step_leaves [OF st c op_table_single(5)])
  fix cs and rest :: "u32 list"
  assume cs: "cells cs ((us @ [(Dword, p)]) @ map (Pair Dword) vs)" "length cs + length rest = FINSH_STACK_MAX"
  from cs(1) obtain ds0 es where d0: "cs = ds0 @ es" "cells ds0 (us @ [(Dword, p)])" and es: "length es = length vs" "vs = map sint es"
    by (rule cells_append_Dword)
  from d0(2) obtain ds e where d1: "ds0 = ds @ [e]" "cells ds us" "cell_get Dword e = p" unfolding cells_snoc by blast
  then have ds: "cs = ds @ e # es" "cells ds us" and "sint e = p" using d0(1) by (simp_all add: cell_get.simps)
  then have ef: "word_of_int p = e" by auto
  have u: "unat (of_nat (length es) :: u8) = length es" using n es(1) by (simp add: unat_of_nat take_bit_nat_eq_self)
  have z: "(of_nat (length es) :: u8) = 0 \<longleftrightarrow> vs = []"
  proof -
    have "(of_nat (length es) :: u8) = 0 \<longleftrightarrow> unat (of_nat (length es) :: u8) = 0" by (simp only: unat_eq_zero)
    then show ?thesis unfolding u using es(1) by simp
  qed
  have q: "pop_parameters (length es) [] \<lparr> vm_stack = ds @ e # es @ rest, vm_sp = length ds + length es, vm_text = t, vm_pc = pc', vm_memory = m \<rparr>
    = Some (es @ [], \<lparr> vm_stack = ds @ e # es @ rest, vm_sp = length ds, vm_text = t, vm_pc = pc', vm_memory = m \<rparr>)" for pc'
    by (rule pop_parameters_cells) simp
  have o: "mem_get t (1 + int pc) = Some (of_nat (length es))" using code_at_operand [OF c] es(1) by simp
  have a: "(if vs = [] then [0] else map word_of_int vs) = (if vs = [] then [0] else es)" using es by (simp add: comp_def)
  let ?as = "if vs = [] then [0] else es"
  have "OP_call sys \<lparr> vm_stack = ds @ e # es @ rest, vm_sp = Suc (length ds + length es), vm_text = t, vm_pc = Suc pc, vm_memory = m \<rparr>
    = Option.bind (sys (word_of_int p) ?as m) (\<lambda>(r, m'). Some
        \<lparr> vm_stack = ds @ cell_put Dword (uint r) e # es @ rest, vm_sp = Suc (length ds), vm_text = t, vm_pc = Suc (Suc pc), vm_memory = m' \<rparr>)"
    using n ef
    by (simp add: OP_call_def o pc_add_def sp_dec_def sp_inc_def u z q es(1) [symmetric] cell_get.simps
        split del: if_split)
  then have r: "OP_call sys \<lparr> vm_stack = cs @ rest, vm_sp = length cs, vm_text = t, vm_pc = Suc pc, vm_memory = m \<rparr>
    = Option.bind (sys (word_of_int p) ?as m) (\<lambda>(r, m'). Some
        \<lparr> vm_stack = ds @ cell_put Dword (uint r) e # es @ rest, vm_sp = Suc (length ds), vm_text = t, vm_pc = Suc (Suc pc), vm_memory = m' \<rparr>)"
    using ds(1) by simp
  show "leaves t (pc + 2) us Dword (OP_call sys \<lparr> vm_stack = cs @ rest, vm_sp = length cs, vm_text = t, vm_pc = Suc pc, vm_memory = m \<rparr>)
    (do { (r, m) \<leftarrow> sys (word_of_int p) (if vs = [] then [0] else map word_of_int vs) m; Some (sint r, m) })"
    unfolding a r
  proof (cases "sys (word_of_int p) ?as m")
    case (Some y)
    have "vm_state t (Suc (Suc pc)) (us @ [(Dword, sint (fst y))]) (snd y)
      \<lparr> vm_stack = ds @ cell_put Dword (uint (fst y)) e # es @ rest, vm_sp = Suc (length ds), vm_text = t, vm_pc = Suc (Suc pc), vm_memory = snd y \<rparr>"
      by (rule vm_state_push) (use cs(2) ds in \<open>simp_all add: norm_def cell_get.simps\<close>)
    then show "leaves t (pc + 2) us Dword (Option.bind (sys (word_of_int p) ?as m) (\<lambda>(r, m'). Some
        \<lparr> vm_stack = ds @ cell_put Dword (uint r) e # es @ rest, vm_sp = Suc (length ds), vm_text = t, vm_pc = Suc (Suc pc), vm_memory = m' \<rparr>))
        (Option.bind (sys (word_of_int p) ?as m) (\<lambda>(r, m). Some (sint r, m)))"
      by (simp add: Some split_beta)
  qed simp
qed simp


section \<open>The code of an expression\<close>

text \<open>The cells that an expression needs.\<close>

fun depth :: "expr \<Rightarrow> nat" and depth_list :: "expr list \<Rightarrow> nat" where
  "depth (EBin f a b) = max (depth a) (1 + depth b)"
| "depth (ECompl a) = depth a"
| "depth (EDeref a) = depth a"
| "depth (EAssign i a) = 1 + depth a"
| "depth (EStore a b) = max (depth a) (1 + depth b)"
| "depth (EPre up i) = 3"
| "depth (EPost up i) = 4"
| "depth (ECall f as) = 1 + depth_list as"
| "depth _ = 1"
| "depth_list [] = 0"
| "depth_list (a # as) = max (depth a) (1 + depth_list as)"

definition evaluates :: "syscalls \<Rightarrow> expr \<Rightarrow> bool" where
  "evaluates sys e \<longleftrightarrow> (\<forall>t pc us m vm. vm_state t pc us m vm \<longrightarrow> code_at t pc (code_of e) \<longrightarrow>
     length us + depth e \<le> FINSH_STACK_MAX \<longrightarrow>
     leaves t (pc + length (code_of e)) us (cell_width e) (vm_loop sys (pc + length (code_of e)) vm) (eval sys e m))"

lemma evaluatesD:
  assumes "evaluates sys e" "vm_state t pc us m vm" "code_at t pc (code_of e)" "length us + depth e \<le> FINSH_STACK_MAX"
  shows "leaves t (pc + length (code_of e)) us (cell_width e) (vm_loop sys (pc + length (code_of e)) vm) (eval sys e m)"
  using assms by (simp add: evaluates_def)

lemma evaluates_list:
  assumes "\<And>e. e \<in> set es \<Longrightarrow> evaluates sys e \<and> cell_width e = Dword"
    and "vm_state t pc us m vm" "code_at t pc (concat (map code_of es))" "length us + depth_list es \<le> FINSH_STACK_MAX"
  shows "rel_option (\<lambda>vm (vs, m). vm_state t (pc + length (concat (map code_of es))) (us @ map (Pair Dword) vs) m vm \<and> length vs = length es)
    (vm_loop sys (pc + length (concat (map code_of es))) vm) (eval_list sys es m)"
  using assms
proof (induction es arbitrary: pc us m vm)
  case Nil
  then show ?case by (simp add: vm_state_pc)
next
  case (Cons e es)
  let ?b = "pc + length (code_of e)" and ?c = "pc + length (code_of e) + length (concat (map code_of es))"
  have c: "code_at t pc (code_of e)" "code_at t ?b (concat (map code_of es))"
    using Cons.prems(3) by (simp_all add: code_at_append)
  have h: "leaves t ?b us Dword (vm_loop sys ?b vm) (eval sys e m)"
    using evaluatesD [OF _ Cons.prems(2) c(1), of sys] Cons.prems(1) [of e] Cons.prems(4) by simp
  have i: "rel_option (\<lambda>vm (vs, m). vm_state t ?c ((us @ [(Dword, v)]) @ map (Pair Dword) vs) m vm \<and> length vs = length es)
      (vm_loop sys ?c vm') (eval_list sys es m')" if "vm_state t ?b (us @ [(Dword, v)]) m' vm'" for v m' vm'
    by (rule Cons.IH [OF _ that c(2)]) (use Cons.prems(1,4) in auto)
  have s: "vm_loop sys ?c vm = Option.bind (vm_loop sys ?b vm) (vm_loop sys ?c)" by (rule vm_loop_split) simp
  have "rel_option (\<lambda>vm (vs, m). vm_state t ?c (us @ map (Pair Dword) vs) m vm \<and> length vs = Suc (length es))
     (vm_loop sys ?c vm) (eval_list sys (e # es) m)"
  proof (cases "eval sys e m")
    case None
    with h show ?thesis by (simp add: s leaves_def)
  next
    case (Some y)
    with h obtain vm' where vm': "vm_loop sys ?b vm = Some vm'" "vm_state t ?b (us @ [(Dword, fst y)]) (snd y) vm'"
      by (auto simp: leaves_def option_rel_Some2 split_beta)
    from i [OF vm'(2)] show ?thesis
      by (cases "eval_list sys es (snd y)") (auto simp: s vm'(1) Some split_beta option_rel_Some2)
  qed
  then show ?case by (simp add: add.assoc)
qed

lemma leaves_cong: "leaves t b us w (vm_loop sys b vm) res \<Longrightarrow> b = c \<Longrightarrow> leaves t c us w (vm_loop sys c vm) res"
  by simp

lemma leaves_id: "Option.bind res (\<lambda>(v, m). Some (v, m)) = res"
  by (cases res) auto

text \<open>A block of code that is entered with the values \<open>us @ vs\<close> and leaves one value above \<open>us\<close>. Blocks compose.\<close>

definition block :: "syscalls \<Rightarrow> u8 list \<Rightarrow> nat \<Rightarrow> (width \<times> int) list \<Rightarrow> width \<Rightarrow> (memory \<Rightarrow> (int \<times> memory) option) \<Rightarrow> bool" where
  "block sys c d vs w g \<longleftrightarrow> (\<forall>t pc us m vm. vm_state t pc (us @ vs) m vm \<longrightarrow> code_at t pc c \<longrightarrow> length us + d \<le> FINSH_STACK_MAX \<longrightarrow>
     leaves t (pc + length c) us w (vm_loop sys (pc + length c) vm) (g m))"

lemma blockD:
  assumes "block sys c d vs w g" "vm_state t pc (us @ vs) m vm" "code_at t pc c" "length us + d \<le> FINSH_STACK_MAX"
  shows "leaves t (pc + length c) us w (vm_loop sys (pc + length c) vm) (g m)"
  using assms unfolding block_def by blast

lemma evaluates_block: "evaluates sys e \<longleftrightarrow> block sys (code_of e) (depth e) [] (cell_width e) (eval sys e)"
  by (simp add: evaluates_def block_def)

text \<open>First \<open>c\<close>, which works above the values \<open>vs\<close>, then \<open>c'\<close> on \<open>vs\<close> and the result.\<close>

lemma block_seq_on:
  assumes c: "block sys c d vs' w g" and c': "\<And>v. block sys c' d' (vs @ [(w, v)]) w' (h v)"
    and d: "length vs + d \<le> D" "d' \<le> D"
  shows "block sys (c @ c') D (vs @ vs') w' (\<lambda>m. Option.bind (g m) (\<lambda>(v, m). h v m))"
  unfolding block_def
proof (intro allI impI)
  fix t pc us m vm
  assume st: "vm_state t pc (us @ vs @ vs') m vm" and co: "code_at t pc (c @ c')" and l: "length us + D \<le> FINSH_STACK_MAX"
  let ?b = "pc + length c"
  have c1: "code_at t pc c" and c2: "code_at t ?b c'" using co by (simp_all add: code_at_append)
  have l1: "length (us @ vs) + d \<le> FINSH_STACK_MAX" and l2: "length us + d' \<le> FINSH_STACK_MAX" using l d by auto
  have "leaves t (?b + length c') us w' (vm_loop sys (?b + length c') vm) (Option.bind (g m) (\<lambda>(v, m). h v m))"
  proof (rule leaves_seq [OF blockD [OF c _ c1 l1]])
    show "vm_state t pc ((us @ vs) @ vs') m vm" using st by simp
    fix vm v m assume "vm_state t ?b ((us @ vs) @ [(w, v)]) m vm"
    then have "vm_state t ?b (us @ (vs @ [(w, v)])) m vm" by simp
    from blockD [OF c' this c2 l2] show "leaves t (?b + length c') us w' (vm_loop sys (?b + length c') vm) (h v m)" .
  qed simp
  then show "leaves t (pc + length (c @ c')) us w' (vm_loop sys (pc + length (c @ c')) vm) (Option.bind (g m) (\<lambda>(v, m). h v m))"
    by (simp add: add.assoc)
qed

lemmas block_seq = block_seq_on [where vs' = "[]", unfolded append_Nil2]
lemmas block_then = block_seq_on [where vs = "[]", unfolded append_Nil list.size(3) add_0]

lemma block_eq: "block sys c d vs w g \<Longrightarrow> c = c' \<Longrightarrow> w = w' \<Longrightarrow> (\<And>m. g m = g' m) \<Longrightarrow> block sys c' d vs w' g'"
  unfolding block_def by metis

text \<open>The operations as blocks.\<close>

lemma block_ld_byte: "block sys [FINSH_OP_LD Byte, b] 1 [] Byte (\<lambda>m. Some (uint b, m))"
  unfolding block_def using step_ld_byte by auto

lemma block_ld_dword: "block sys (FINSH_OP_LD Dword # split_bytes 4 v) 1 [] Dword (\<lambda>m. Some (sint v, m))"
  unfolding block_def using step_ld_dword by auto

lemma block_ld_value: "block sys (FINSH_OP_LD_VALUE w # split_bytes 4 a) 1 [] w (\<lambda>m. do { v \<leftarrow> mem_load w m a; Some (v, m) })"
  unfolding block_def using step_ld_value by auto

lemma block_ld_one: "block sys (FINSH_OP_LD w # code_one w) 1 [] w (\<lambda>m. Some (1, m))"
  unfolding block_def using step_ld_one by auto

lemma block_bin:
  "n_bytes w \<le> n_bytes w' \<Longrightarrow> block sys [FINSH_OP_BIN f w] 0 [(w, x), (w', y)] w
    (\<lambda>m. do { r \<leftarrow> c_binop f x (norm w y); Some (norm w r, m) })"
  unfolding block_def using step_bin by auto

lemma block_compl: "block sys [FINSH_OP_BITWISE w] 0 [(w, x)] w (\<lambda>m. Some (norm w (NOT x), m))"
  unfolding block_def using step_compl by auto

lemma block_load_stack:
  "block sys [FINSH_OP_LD_VALUE_STACK w] 0 [(Dword, p)] w (\<lambda>m. do { v \<leftarrow> mem_load w m (word_of_int p); Some (v, m) })"
  unfolding block_def using step_load_stack by auto

lemma block_st:
  "n_bytes w \<le> n_bytes w' \<Longrightarrow> block sys [FINSH_OP_ST w] 0 [(Dword, p), (w', x)] Dword
    (\<lambda>m. do { m \<leftarrow> mem_store w m (word_of_int p) x; Some (p, m) })"
  unfolding block_def using step_st by auto

lemma block_pop: "block sys [FINSH_OP_POP] 0 [(w, x), (w', y)] w (\<lambda>m. Some (x, m))"
  unfolding block_def using step_pop by auto


text \<open>A store and the load behind it.\<close>

lemma block_assign:
  assumes "n_bytes w \<le> n_bytes w'"
  shows "block sys ([FINSH_OP_ST w] @ [FINSH_OP_LD_VALUE_STACK w]) 0 [(Dword, p), (w', x)] w
    (\<lambda>m. do { m \<leftarrow> mem_store w m (word_of_int p) x; Some (norm w x, m) })"
proof -
  have "block sys ([FINSH_OP_ST w] @ [FINSH_OP_LD_VALUE_STACK w]) 0 [(Dword, p), (w', x)] w
    (\<lambda>m. Option.bind (do { m \<leftarrow> mem_store w m (word_of_int p) x; Some (p, m) })
      (\<lambda>(q, m). do { v \<leftarrow> mem_load w m (word_of_int q); Some (v, m) }))"
    by (rule block_then [OF block_st [OF assms] block_load_stack]) simp_all
  then show ?thesis
    by (rule block_eq) (auto simp: mem_load_store split: Option.bind_splits)
qed

text \<open>Load a variable, add or subtract 1, store.\<close>

lemma block_change:
  "block sys (code_change up w a) 3 [(Dword, p)] Dword
    (\<lambda>m. do { x \<leftarrow> mem_load w m a; m \<leftarrow> mem_store w m (word_of_int p) (if up then x + 1 else x - 1); Some (p, m) })"
proof -
  let ?f = "if up then Add else Sub" and ?a = "[(Dword, p)]"
  let ?h = "\<lambda>x y m. Option.bind (do { r \<leftarrow> c_binop ?f x (norm w y); Some (norm w r, m) }) (\<lambda>(z, m).
       do { m \<leftarrow> mem_store w m (word_of_int p) z; Some (p, m) })"
  have "block sys ([FINSH_OP_BIN ?f w] @ [FINSH_OP_ST w]) 1 (?a @ [(w, x), (w, y)]) Dword (?h x y)" for x y
  proof (rule block_seq_on [OF block_bin])
    show "block sys [FINSH_OP_ST w] 0 (?a @ [(w, z)]) Dword
        (\<lambda>m. do { m \<leftarrow> mem_store w m (word_of_int p) z; Some (p, m) })" for z
      using block_st [of w w sys p z] by simp
  qed simp_all
  then have b: "block sys ([FINSH_OP_BIN ?f w] @ [FINSH_OP_ST w]) 1 ((?a @ [(w, x)]) @ [(w, y)]) Dword (?h x y)" for x y
    by (simp only: append_assoc append.simps)
  have c: "block sys ((FINSH_OP_LD w # code_one w) @ [FINSH_OP_BIN ?f w] @ [FINSH_OP_ST w]) 3 (?a @ [(w, x)]) Dword
      (\<lambda>m. Option.bind (Some (1, m)) (\<lambda>(y, m). ?h x y m))" for x
    by (rule block_seq [OF block_ld_one b]) simp_all
  have "block sys ((FINSH_OP_LD_VALUE w # split_bytes 4 a) @ (FINSH_OP_LD w # code_one w) @ [FINSH_OP_BIN ?f w] @ [FINSH_OP_ST w])
      3 ?a Dword (\<lambda>m. Option.bind (do { v \<leftarrow> mem_load w m a; Some (v, m) }) (\<lambda>(x, m). Option.bind (Some (1, m)) (\<lambda>(y, m). ?h x y m)))"
    by (rule block_seq [OF block_ld_value c]) simp_all
  moreover have "norm w 1 = 1"
    using norm_cell_get [of w 1] by (cases w) (simp_all add: cell_get.simps)
  ultimately show ?thesis
    by (elim block_eq) (auto simp: code_change_def mem_store_norm split: Option.bind_splits)
qed


text \<open>The arguments of a call and the call.\<close>

lemma block_call:
  assumes es: "\<And>e. e \<in> set es \<Longrightarrow> evaluates sys e \<and> cell_width e = Dword" and n: "length es \<le> 16"
  shows "block sys (concat (map code_of es) @ [FINSH_OP_SYSCALL, of_nat (length es)]) (1 + depth_list es) [(Dword, p)] Dword
    (\<lambda>m. do { (vs, m) \<leftarrow> eval_list sys es m; (r, m) \<leftarrow> sys (word_of_int p) (if es = [] then [0] else map word_of_int vs) m; Some (sint r, m) })"
  unfolding block_def
proof (intro allI impI)
  fix t pc us m vm
  let ?b = "pc + length (concat (map code_of es))" and ?u = "us @ [(Dword, p)]"
  let ?h = "\<lambda>vs m. do { (r, m) \<leftarrow> sys (word_of_int p) (if vs = [] then [0] else map word_of_int vs) m; Some (sint r, m) }"
  assume st: "vm_state t pc ?u m vm"
    and co: "code_at t pc (concat (map code_of es) @ [FINSH_OP_SYSCALL, of_nat (length es)])"
    and l: "length us + (1 + depth_list es) \<le> FINSH_STACK_MAX"
  have c1: "code_at t pc (concat (map code_of es))" and c2: "code_at t ?b [FINSH_OP_SYSCALL, of_nat (length es)]"
    using co by (simp_all add: code_at_append)
  have r: "rel_option (\<lambda>vm (vs, m). vm_state t ?b (?u @ map (Pair Dword) vs) m vm \<and> length vs = length es) (vm_loop sys ?b vm) (eval_list sys es m)"
    by (rule evaluates_list [OF es st c1]) (use l in simp_all)
  have s: "vm_loop sys (?b + 2) vm = Option.bind (vm_loop sys ?b vm) (vm_loop sys (?b + 2))" by (rule vm_loop_split) simp
  have "leaves t (?b + 2) us Dword (vm_loop sys (?b + 2) vm) (Option.bind (eval_list sys es m) (\<lambda>(vs, m). ?h vs m))"
  proof (cases "eval_list sys es m")
    case None
    with r have "vm_loop sys ?b vm = None" by simp
    then show ?thesis unfolding s None by simp
  next
    case (Some y)
    with r obtain vm' where vm': "vm_loop sys ?b vm = Some vm'" "vm_state t ?b (?u @ map (Pair Dword) (fst y)) (snd y) vm'"
      and ly: "length (fst y) = length es"
      by (auto simp: option_rel_Some2 split_beta)
    have "length (fst y) \<le> 16" and "code_at t ?b [FINSH_OP_SYSCALL, of_nat (length (fst y))]" using n ly c2 by simp_all
    from step_call [OF vm'(2) this, of sys] show ?thesis unfolding s vm'(1) Some by (simp only: Option.bind.simps split_beta)
  qed
  moreover have "Option.bind (eval_list sys es m) (\<lambda>(vs, m). ?h vs m)
      = (do { (vs, m) \<leftarrow> eval_list sys es m; (r, m) \<leftarrow> sys (word_of_int p) (if es = [] then [0] else map word_of_int vs) m; Some (sint r, m) })"
  proof (cases "eval_list sys es m")
    case (Some y)
    with r have "length (fst y) = length es" by (auto simp: option_rel_Some2 split_beta)
    then have "fst y = [] \<longleftrightarrow> es = []" by (metis length_0_conv)
    then show ?thesis by (simp add: Some split_beta)
  qed simp
  ultimately show "leaves t (pc + length (concat (map code_of es) @ [FINSH_OP_SYSCALL, of_nat (length es)])) us Dword
      (vm_loop sys (pc + length (concat (map code_of es) @ [FINSH_OP_SYSCALL, of_nat (length es)])) vm)
      (do { (vs, m) \<leftarrow> eval_list sys es m; (r, m) \<leftarrow> sys (word_of_int p) (if es = [] then [0] else map word_of_int vs) m; Some (sint r, m) })"
    by (simp add: add.assoc)
qed

lemmas block_first = block_seq [where vs = "[]", unfolded append_Nil list.size(3) add_0]

lemma evaluates_expr: "well_typed e \<Longrightarrow> evaluates sys e"
proof (induction e)
  case (EBin f a b)
  then have a: "block sys (code_of a) (depth a) [] (cell_width a) (eval sys a)" and b: "block sys (code_of b) (depth b) [] (cell_width b) (eval sys b)"
    and w: "n_bytes (cell_width a) \<le> n_bytes (cell_width b)" and e: "expr_width a = Some (cell_width a)"
    by (simp_all add: evaluates_block)
  have c: "block sys [FINSH_OP_BIN f (cell_width a)] 0 ([(cell_width a, x)] @ [(cell_width b, y)]) (cell_width a)
      (\<lambda>m. do { r \<leftarrow> c_binop f x (norm (cell_width a) y); Some (norm (cell_width a) r, m) })" for x y
    using block_bin [OF w] by simp
  have d: "block sys (code_of b @ [FINSH_OP_BIN f (cell_width a)]) (1 + depth b) [(cell_width a, x)] (cell_width a)
      (\<lambda>m. Option.bind (eval sys b m) (\<lambda>(y, m). do { r \<leftarrow> c_binop f x (norm (cell_width a) y); Some (norm (cell_width a) r, m) }))" for x
    by (rule block_seq [OF b c]) simp_all
  show ?case unfolding evaluates_block by (rule block_eq [OF block_first [OF a d]]) (simp_all add: e)
next
  case (ECompl a)
  then have a: "block sys (code_of a) (depth a) [] (cell_width a) (eval sys a)" and e: "expr_width a = Some (cell_width a)"
    by (simp_all add: evaluates_block)
  show ?case unfolding evaluates_block by (rule block_eq [OF block_first [OF a block_compl]]) (simp_all add: e)
next
  case (EDeref a)
  then have a: "block sys (code_of a) (depth a) [] Dword (eval sys a)" by (metis evaluates_block well_typed.simps(5))
  show ?case unfolding evaluates_block by (rule block_eq [OF block_first [OF a block_load_stack]]) simp_all
next
  case (EAssign i a)
  then have a: "block sys (code_of a) (depth a) [] (cell_width a) (eval sys a)"
    and w: "n_bytes (the (id_width i)) \<le> n_bytes (cell_width a)" by (simp_all add: evaluates_block)
  have c: "block sys ([FINSH_OP_ST (the (id_width i))] @ [FINSH_OP_LD_VALUE_STACK (the (id_width i))]) 0 ([(Dword, p)] @ [(cell_width a, x)])
      (the (id_width i)) (\<lambda>m. do { m \<leftarrow> mem_store (the (id_width i)) m (word_of_int p) x; Some (norm (the (id_width i)) x, m) })" for p x
    using block_assign [OF w] by simp
  have d: "block sys (code_of a @ [FINSH_OP_ST (the (id_width i))] @ [FINSH_OP_LD_VALUE_STACK (the (id_width i))]) (1 + depth a) [(Dword, p)]
      (the (id_width i)) (\<lambda>m. Option.bind (eval sys a m) (\<lambda>(x, m). do {
        m \<leftarrow> mem_store (the (id_width i)) m (word_of_int p) x; Some (norm (the (id_width i)) x, m) }))" for p
    by (rule block_seq [OF a c]) simp_all
  show ?case unfolding evaluates_block by (rule block_eq [OF block_first [OF block_ld_dword d]]) simp_all
next
  case (EStore a b)
  then have a: "block sys (code_of a) (depth a) [] Dword (eval sys a)" and b: "block sys (code_of b) (depth b) [] (cell_width b) (eval sys b)"
    and w: "n_bytes (the (expr_width a)) \<le> n_bytes (cell_width b)" by (metis evaluates_block well_typed.simps(7))+
  have c: "block sys ([FINSH_OP_ST (the (expr_width a))] @ [FINSH_OP_LD_VALUE_STACK (the (expr_width a))]) 0 ([(Dword, p)] @ [(cell_width b, x)])
      (the (expr_width a)) (\<lambda>m. do { m \<leftarrow> mem_store (the (expr_width a)) m (word_of_int p) x; Some (norm (the (expr_width a)) x, m) })" for p x
    using block_assign [OF w] by simp
  have d: "block sys (code_of b @ [FINSH_OP_ST (the (expr_width a))] @ [FINSH_OP_LD_VALUE_STACK (the (expr_width a))]) (1 + depth b) [(Dword, p)]
      (the (expr_width a)) (\<lambda>m. Option.bind (eval sys b m) (\<lambda>(x, m). do {
        m \<leftarrow> mem_store (the (expr_width a)) m (word_of_int p) x; Some (norm (the (expr_width a)) x, m) }))" for p
    by (rule block_seq [OF b c]) simp_all
  show ?case unfolding evaluates_block by (rule block_eq [OF block_first [OF a d]]) simp_all
next
  case (EPre up i)
  let ?a = "id_target i"
  have d: "block sys (code_change up Dword ?a @ [FINSH_OP_LD_VALUE_STACK Dword]) 3 [(Dword, p)] Dword
      (\<lambda>m. Option.bind (do { x \<leftarrow> mem_load Dword m ?a; m \<leftarrow> mem_store Dword m (word_of_int p) (if up then x + 1 else x - 1); Some (p, m) })
        (\<lambda>(q, m). do { v \<leftarrow> mem_load Dword m (word_of_int q); Some (v, m) }))" for p
    by (rule block_then [OF block_change block_load_stack]) simp_all
  show ?case unfolding evaluates_block
    by (rule block_eq [OF block_first [OF block_ld_dword d]]) (use EPre.prems in \<open>auto simp: mem_load_store split: Option.bind_splits\<close>)
next
  case (EPost up i)
  let ?a = "id_target i" and ?w = "the (id_width i)"
  have c: "block sys (code_change up ?w ?a @ [FINSH_OP_POP]) 4 ([(?w, x)] @ [(Dword, p)]) ?w
      (\<lambda>m. Option.bind (do { y \<leftarrow> mem_load ?w m ?a; m \<leftarrow> mem_store ?w m (word_of_int p) (if up then y + 1 else y - 1); Some (p, m) })
        (\<lambda>(q, m). Some (x, m)))" for x p
  proof (rule block_seq_on [OF block_change])
    show "block sys [FINSH_OP_POP] 0 ([(?w, x)] @ [(Dword, q)]) ?w (\<lambda>m. Some (x, m))" for q using block_pop by simp
  qed simp_all
  have d: "block sys ((FINSH_OP_LD Dword # split_bytes 4 ?a) @ code_change up ?w ?a @ [FINSH_OP_POP]) 4 [(?w, x)] ?w
      (\<lambda>m. Option.bind (Some (sint ?a, m)) (\<lambda>(p, m).
        Option.bind (do { y \<leftarrow> mem_load ?w m ?a; m \<leftarrow> mem_store ?w m (word_of_int p) (if up then y + 1 else y - 1); Some (p, m) })
        (\<lambda>(q, m). Some (x, m))))" for x
    by (rule block_seq [OF block_ld_dword c]) simp_all
  show ?case unfolding evaluates_block
    by (rule block_eq [OF block_first [OF block_ld_value d]]) (auto split: Option.bind_splits)
next
  case (ECall f as)
  then have e: "block sys (concat (map code_of as) @ [FINSH_OP_SYSCALL, of_nat (length as)]) (1 + depth_list as) [(Dword, v)] Dword
    (\<lambda>m. do { (vs, m) \<leftarrow> eval_list sys as m;
       (r, m) \<leftarrow> sys (word_of_int v) (if as = [] then [0] else map word_of_int vs) m; Some (sint r, m) })" for v
    by (intro block_call) auto
  show ?case unfolding evaluates_block
    by (rule block_eq [OF block_first [OF block_ld_dword e]]) simp_all
next
  case (EChar c)
  show ?case unfolding evaluates_block depth.simps by (rule block_eq [OF block_ld_byte [of sys c]]) simp_all
next
  case (EInt v)
  show ?case unfolding evaluates_block depth.simps by (rule block_eq [OF block_ld_dword [of sys v]]) simp_all
next
  case (ELong v)
  show ?case unfolding evaluates_block depth.simps by (rule block_eq [OF block_ld_dword [of sys v]]) simp_all
next
  case (EString v)
  show ?case unfolding evaluates_block depth.simps by (rule block_eq [OF block_ld_dword [of sys v]]) simp_all
next
  case ENull
  show ?case unfolding evaluates_block depth.simps by (rule block_eq [OF block_ld_dword [of sys 0]]) simp_all
next
  case (EId i)
  show ?case unfolding evaluates_block depth.simps by (rule block_eq [OF block_ld_value [of sys "the (id_width i)" "id_target i"]]) simp_all
next
  case (EAddr i)
  show ?case unfolding evaluates_block depth.simps by (rule block_eq [OF block_ld_dword [of sys "id_target i"]]) simp_all
qed


section \<open>Lines\<close>

text \<open>The statements of a line: their values are dropped but for the last.\<close>

fun eval_line :: "syscalls \<Rightarrow> expr list \<Rightarrow> memory \<Rightarrow> (int \<times> memory) option" where
  "eval_line sys [] m = None"
| "eval_line sys [e] m = eval sys e m"
| "eval_line sys (e # e' # es) m = do { (v, m) \<leftarrow> eval sys e m; eval_line sys (e' # es) m }"

fun line_code :: "expr list \<Rightarrow> u8 list" where
  "line_code [] = []"
| "line_code [e] = code_of e"
| "line_code (e # e' # es) = code_of e @ FINSH_OP_POP # line_code (e' # es)"

text \<open>Every code has at least one byte.\<close>

lemma type_check_line:
  assumes "\<And>x. x \<in> set es \<Longrightarrow> well_typed x"
  shows "\<exists>ns. length ns = length es \<and> (\<forall>e. finsh_type_check False (map node_of es) e = (ns, e))
    \<and> (\<forall>c. length (fst c) \<le> FINSH_TEXT_MAX \<longrightarrow> compile_statements ns c = finsh_code (line_code es) c)"
  using assms
proof (induction es rule: line_code.induct)
  case 1
  then show ?case by (intro exI [of _ "[]"]) simp
next
  case (2 e)
  then obtain n where "checked e n" using checked_expr by auto
  then show ?case by (intro exI [of _ "[n]"]) (auto simp: finsh_code_def simp del: finsh_compile.simps)
next
  case (3 e e' es)
  then obtain ns where ns: "length ns = length (e' # es)" "\<And>err. finsh_type_check False (map node_of (e' # es)) err = (ns, err)"
    "\<And>c. length (fst c) \<le> FINSH_TEXT_MAX \<Longrightarrow> compile_statements ns c = finsh_code (line_code (e' # es)) c"
    by (metis list.set_intros(2))
  from 3(2) [of e] obtain n where n: "checked e n" using checked_expr by auto
  have "compile_statements (n # ns) c = finsh_code (line_code (e # e' # es)) c" if "length (fst c) \<le> FINSH_TEXT_MAX" for c
    using n ns(1) ns(3) by (cases ns) (auto simp: finsh_code_def finsh_code_byte_def simp del: finsh_compile.simps)
  then show ?case using n ns(1,2) by (intro exI [of _ "n # ns"]) simp
qed

lemma step_drop:
  assumes st: "vm_state t pc (us @ [(w, y)]) m vm" and c: "code_at t pc [FINSH_OP_POP]"
  shows "\<exists>vm'. vm_loop sys (Suc pc) vm = Some vm' \<and> vm_state t (Suc pc) us m vm'"
proof -
  from st obtain cs rest where vm: "vm = \<lparr> vm_stack = cs @ rest, vm_sp = length cs, vm_text = t, vm_pc = pc, vm_memory = m \<rparr>"
    and cs: "cells cs (us @ [(w, y)])" "length cs + length rest = FINSH_STACK_MAX" by (rule vm_stateE)
  from cs(1) obtain ds d where ds: "cs = ds @ [d]" "cells ds us" unfolding cells_snoc by blast
  have s: "vm_step sys vm = OP_pop (pc_add 1 vm)"
    by (rule vm_step_at [OF _ _ c op_table_single(4)]) (simp_all add: vm)
  let ?vm = "\<lparr> vm_stack = ds @ d # rest, vm_sp = length ds, vm_text = t, vm_pc = Suc pc, vm_memory = m \<rparr>"
  have "vm_loop sys (Suc pc) vm = Some ?vm"
    using s by (simp add: vm_loop_step vm OP_pop_def sp_dec_def pc_add_def ds(1))
  moreover have "vm_state t (Suc pc) us m ?vm" using ds cs(2) by (intro vm_state_same) simp_all
  ultimately show ?thesis by blast
qed

text \<open>Behind the code the segment holds zeros, which do nothing.\<close>

lemma run_zeros:
  assumes "vm_state t pc us m vm" "\<And>i. pc \<le> i \<Longrightarrow> i < length t \<Longrightarrow> t ! i = 0" "pc \<le> length t"
  shows "\<exists>vm'. vm_loop sys (length t) vm = Some vm' \<and> vm_state t (length t) us m vm'"
  using assms
proof (induction "length t - pc" arbitrary: pc vm)
  case 0
  then show ?case by (auto simp: vm_state_pc)
next
  case (Suc n)
  then have l: "pc < length t" and z: "t ! pc = 0" by simp_all
  from Suc.prems(1) obtain cs rest where vm: "vm = \<lparr> vm_stack = cs @ rest, vm_sp = length cs, vm_text = t, vm_pc = pc, vm_memory = m \<rparr>"
    and cs: "cells cs us" "length cs + length rest = FINSH_STACK_MAX" by (rule vm_stateE)
  let ?vm = "\<lparr> vm_stack = cs @ rest, vm_sp = length cs, vm_text = t, vm_pc = Suc pc, vm_memory = m \<rparr>"
  have "vm_step sys vm = OP_no_op (pc_add 1 vm)"
    by (rule vm_step_at [of _ t pc 0 "[]"]) (use l z op_table_single(6) [of sys] in \<open>simp_all add: vm code_at_Cons code_at_Nil\<close>)
  then have s: "vm_loop sys (length t) vm = vm_loop sys (length t) ?vm"
    using l vm_loop_step [of vm "length t" sys] by (simp add: vm OP_no_op_def pc_add_def)
  have "vm_state t (Suc pc) us m ?vm" using cs by (rule vm_state_same)
  from Suc.hyps(1) [OF _ this] Suc.hyps(2) Suc.prems(2) l show ?case by (simp add: s)
qed

lemma run_line:
  assumes "es \<noteq> []" "\<And>e. e \<in> set es \<Longrightarrow> well_typed e \<and> depth e \<le> FINSH_STACK_MAX"
    and "vm_state t pc [] m vm" "code_at t pc (line_code es)"
  shows "leaves t (pc + length (line_code es)) [] (cell_width (last es)) (vm_loop sys (pc + length (line_code es)) vm) (eval_line sys es m)"
  using assms
proof (induction es arbitrary: pc m vm rule: line_code.induct)
  case (2 e)
  then show ?case using evaluatesD [OF evaluates_expr, of e t pc "[]" m vm sys] by simp
next
  case (3 e e' es)
  let ?b = "pc + length (code_of e)" and ?l = "line_code (e' # es)"
  have c: "code_at t pc (code_of e)" "code_at t ?b [FINSH_OP_POP]" "code_at t (Suc ?b) ?l"
    using "3.prems"(4) by (simp_all add: code_at_append code_at_Cons code_at_Nil)
  have e: "leaves t ?b [] (cell_width e) (vm_loop sys ?b vm) (eval sys e m)"
    using evaluatesD [OF evaluates_expr "3.prems"(3) c(1)] "3.prems"(2) by simp
  have "leaves t (Suc ?b + length ?l) [] (cell_width (last (e' # es))) (vm_loop sys (Suc ?b + length ?l) vm)
      (Option.bind (eval sys e m) (\<lambda>(v, m). eval_line sys (e' # es) m))"
  proof (rule leaves_seq [OF e])
    fix vm v m assume "vm_state t ?b ([] @ [(cell_width e, v)]) m vm"
    from step_drop [OF this c(2)] obtain vm' where vm': "vm_loop sys (Suc ?b) vm = Some vm'" "vm_state t (Suc ?b) [] m vm'" by blast
    have s: "vm_loop sys (Suc ?b + length ?l) vm = vm_loop sys (Suc ?b + length ?l) vm'"
      using vm_loop_split [of "Suc ?b" "Suc ?b + length ?l" sys vm] vm'(1) by simp
    show "leaves t (Suc ?b + length ?l) [] (cell_width (last (e' # es))) (vm_loop sys (Suc ?b + length ?l) vm) (eval_line sys (e' # es) m)"
      unfolding s by (rule "3.IH" [OF _ _ vm'(2) c(3)]) (use "3.prems"(2) in auto)
  qed simp
  then show ?case
    unfolding line_code.simps eval_line.simps last_ConsR [OF list.distinct(2)] length_append list.size(4)
    by (simp only: add.assoc add_Suc_right add_Suc add_0_right One_nat_def)
qed simp


text \<open>The machine after the compiler: what is left of the last statement is in the bottom cell.\<close>

definition line_result :: "width \<Rightarrow> finsh_vm option \<Rightarrow> (int \<times> memory) option \<Rightarrow> bool" where
  "line_result w r res \<longleftrightarrow> rel_option (\<lambda>vm (v, m). cell_get w (finsh_stack_bottom vm) = v \<and> vm_memory vm = m) r res"

lemma compiled_state:
  assumes "length (vm_stack vm) = FINSH_STACK_MAX" "length code \<le> FINSH_TEXT_MAX"
  defines "t \<equiv> code @ drop (length code) (replicate FINSH_TEXT_MAX 0)"
  shows "vm_state t 0 [] (vm_memory vm) (vm\<lparr> vm_text := t, vm_stack := (vm_stack vm)[0 := 0], vm_sp := 0, vm_pc := 0 \<rparr>)"
    and "code_at t 0 code" and "length t = FINSH_TEXT_MAX" and "length code \<le> i \<Longrightarrow> i < FINSH_TEXT_MAX \<Longrightarrow> t ! i = 0"
  using assms by (auto simp: vm_state_def cells_def code_at_def nth_append intro!: finsh_vm.equality)

lemma vm_run_line:
  assumes r: "rel_option (\<lambda>vm (v, m). \<exists>us. vm_state t b ((w, v) # us) m vm) (vm_loop sys b vm) res"
    and z: "\<And>i. b \<le> i \<Longrightarrow> i < FINSH_TEXT_MAX \<Longrightarrow> t ! i = 0"
    and l: "length t = FINSH_TEXT_MAX" "b \<le> FINSH_TEXT_MAX"
  shows "line_result w (vm_loop sys FINSH_TEXT_MAX vm) res"
proof -
  have s: "vm_loop sys FINSH_TEXT_MAX vm = Option.bind (vm_loop sys b vm) (vm_loop sys FINSH_TEXT_MAX)"
    using l(2) by (rule vm_loop_split)
  show ?thesis
  proof (cases res)
    case None
    with r show ?thesis by (simp add: s line_result_def)
  next
    case (Some y)
    with r obtain vm1 us where vm1: "vm_loop sys b vm = Some vm1" "vm_state t b ((w, fst y) # us) (snd y) vm1"
      by (auto simp: option_rel_Some2 split_beta)
    from run_zeros [OF vm1(2), of sys] z l obtain vm2 where vm2: "vm_loop sys FINSH_TEXT_MAX vm1 = Some vm2"
      and "vm_state t FINSH_TEXT_MAX ((w, fst y) # us) (snd y) vm2" by auto
    then obtain cs rest where "vm2 = \<lparr> vm_stack = cs @ rest, vm_sp = length cs, vm_text = t, vm_pc = FINSH_TEXT_MAX, vm_memory = snd y \<rparr>"
      and "cells cs ((w, fst y) # us)" by (elim vm_stateE)
    then have "cell_get w (finsh_stack_bottom vm2) = fst y" "vm_memory vm2 = snd y"
      by (auto simp: cells_def list_all2_Cons2 finsh_stack_bottom_def)
    then show ?thesis by (simp add: s vm1(1) vm2 Some line_result_def split_beta)
  qed
qed

lemma leaves_bottom: "leaves t b [] w r res \<Longrightarrow> rel_option (\<lambda>vm (v, m). \<exists>us. vm_state t b ((w, v) # us) m vm) r res"
  unfolding leaves_def by (erule option.rel_mono_strong) auto

lemma line_runs:
  assumes "es \<noteq> []" "\<And>e. e \<in> set es \<Longrightarrow> well_typed e \<and> depth e \<le> FINSH_STACK_MAX"
    and "length (line_code es) \<le> FINSH_TEXT_MAX" "length (vm_stack vm) = FINSH_STACK_MAX"
  shows "\<exists>vm'. finsh_compiler_run (map node_of es) FINSH_ERROR_OK vm = Some (FINSH_ERROR_OK, vm')
    \<and> line_result (cell_width (last es)) (finsh_vm_run sys vm') (eval_line sys es (vm_memory vm))"
proof -
  let ?t = "line_code es @ drop (length (line_code es)) (replicate FINSH_TEXT_MAX 0)"
  let ?vm = "vm\<lparr> vm_text := ?t, vm_stack := (vm_stack vm)[0 := 0] \<rparr>"
  from type_check_line [of es] assms(2) obtain ns where ns: "\<And>e. finsh_type_check False (map node_of es) e = (ns, e)"
    "\<And>c. length (fst c) \<le> FINSH_TEXT_MAX \<Longrightarrow> compile_statements ns c = finsh_code (line_code es) c" by blast
  have "finsh_compiler_run (map node_of es) FINSH_ERROR_OK vm = Some (FINSH_ERROR_OK, ?vm)"
    using ns(2) [of "([], FINSH_ERROR_OK)"] assms(3) by (simp add: finsh_compiler_run_def ns(1) Let_def finsh_code_def)
  moreover have "leaves ?t (0 + length (line_code es)) [] (cell_width (last es))
      (vm_loop sys (0 + length (line_code es)) (?vm\<lparr> vm_sp := 0, vm_pc := 0 \<rparr>)) (eval_line sys es (vm_memory vm))"
    by (rule run_line [OF assms(1,2)]) (use compiled_state [OF assms(4,3)] in simp_all)
  then have "line_result (cell_width (last es)) (finsh_vm_run sys ?vm) (eval_line sys es (vm_memory vm))"
    unfolding finsh_vm_run_def by (rule vm_run_line [OF leaves_bottom]) (use compiled_state [OF assms(4,3)] assms(3) in simp_all)
  ultimately show ?thesis by blast
qed

text \<open>C34. The shell computes what a line means. A line of well-typed statements that fits the code segment compiles without
  an error, and the machine agrees with the reference on every run: it faults when the reference does, and otherwise leaves
  the value of the last statement in the bottom cell of the stack and the memory that the statements have made.\<close>

theorem finsh_line_correct:
  assumes "es \<noteq> []" "\<And>e. e \<in> set es \<Longrightarrow> well_typed e \<and> depth e \<le> FINSH_STACK_MAX"
    and "length (line_code es) \<le> FINSH_TEXT_MAX" "length (vm_stack vm) = FINSH_STACK_MAX"
  shows "\<exists>vm'. finsh_compiler_run (map node_of es) FINSH_ERROR_OK vm = Some (FINSH_ERROR_OK, vm')
    \<and> line_result (cell_width (last es)) (finsh_vm_run sys vm') (eval_line sys es (vm_memory vm))"
  by (rule line_runs) (use assms in blast)+

text \<open>An \<^verbatim>\<open>int\<close> variable at address 0x1000 and a \<^verbatim>\<open>char\<close> variable at 0x1018, both 0, for the witnesses.\<close>

definition var_n :: ident where "var_n = Id_var finsh_type_int 0x1000"
definition var_c :: ident where "var_c = Id_var finsh_type_char 0x1018"

definition var_memory :: memory where
  "var_memory a = (if a \<in> {0x1014, 0x1015, 0x1016, 0x1017, 0x102C} then Some 0 else None)"

definition vm0 :: finsh_vm where
  "vm0 = \<lparr> vm_stack = replicate FINSH_STACK_MAX 7, vm_sp = 0, vm_text = replicate FINSH_TEXT_MAX 0, vm_pc = 0, vm_memory = var_memory \<rparr>"

text \<open>\<^verbatim>\<open>n = 300 + 41; c = n; c - 1\<close>, where \<open>c\<close> gets the low byte, 85.\<close>

definition line0 :: "expr list" where
  "line0 = [EAssign var_n (EBin Add (EInt 300) (EInt 41)), EAssign var_c (EId var_n), EBin Sub (EId var_c) (EInt 1)]"

lemma line0_value: "eval_line sys line0 var_memory
    = Some (84, var_memory(0x1014 \<mapsto> 85, 0x1015 \<mapsto> 1, 0x1016 \<mapsto> 0, 0x1017 \<mapsto> 0, 0x102C \<mapsto> 85))"
proof -
  have n: "(341 :: u8) = 85" by simp
  show ?thesis
    by (simp add: line0_def var_n_def var_c_def norm_def cell_get.simps mem_store_def mem_load_def bytes_4 read_bytes_4 var_memory_def n
        del: cell_get_norm)
qed

lemma finsh_line_correct_witness:
  "\<exists>vm'. finsh_compiler_run (map node_of line0) FINSH_ERROR_OK vm0 = Some (FINSH_ERROR_OK, vm')
    \<and> line_result Byte (finsh_vm_run (\<lambda>f ps m. None) vm')
      (Some (84, var_memory(0x1014 \<mapsto> 85, 0x1015 \<mapsto> 1, 0x1016 \<mapsto> 0, 0x1017 \<mapsto> 0, 0x102C \<mapsto> 85)))"
proof -
  have d: "line0 \<noteq> []" "\<And>e. e \<in> set line0 \<Longrightarrow> well_typed e \<and> depth e \<le> FINSH_STACK_MAX"
    "length (line_code line0) \<le> FINSH_TEXT_MAX" "cell_width (last line0) = Byte"
    by (auto simp: line0_def var_n_def var_c_def FINSH_STACK_MAX_def FINSH_TEXT_MAX_def)
  show ?thesis
    using finsh_line_correct [OF d(1-3), of vm0 "\<lambda>f ps m. None"] d(4) by (simp add: line0_value vm0_def)
qed


lemma compile_overruns:
  assumes "\<And>e. e \<in> set es \<Longrightarrow> well_typed e"
  shows "finsh_compiler_run (map node_of es) FINSH_ERROR_OK vm = None \<longleftrightarrow> FINSH_TEXT_MAX < length (line_code es)"
proof -
  from type_check_line [of es] assms obtain ns where ns: "\<And>e. finsh_type_check False (map node_of es) e = (ns, e)"
    "\<And>c. length (fst c) \<le> FINSH_TEXT_MAX \<Longrightarrow> compile_statements ns c = finsh_code (line_code es) c" by blast
  show ?thesis using ns(2) [of "([], FINSH_ERROR_OK)"] by (simp add: finsh_compiler_run_def ns(1) Let_def finsh_code_def)
qed

text \<open>C36. The compiler does not look at the size of the code segment: a line of well-typed statements compiles exactly when
  its code fits, and the code of a longer one is written behind the segment.\<close>

theorem finsh_compiler_overruns:
  assumes "\<And>e. e \<in> set es \<Longrightarrow> well_typed e"
  shows "finsh_compiler_run (map node_of es) FINSH_ERROR_OK vm = None \<longleftrightarrow> FINSH_TEXT_MAX < length (line_code es)"
  by (rule compile_overruns) (rule assms)

lemma finsh_compiler_overruns_witness: "finsh_compiler_run (map node_of (replicate 22 (EInt 1))) FINSH_ERROR_OK vm0 = None"
  using finsh_compiler_overruns [of "replicate 22 (EInt 1)" vm0] by (simp add: FINSH_TEXT_MAX_def eval_nat_numeral)

text \<open>A binary operation whose first operand is a call has no type.\<close>

lemma checked_call_operand:
  assumes "checked a na" "checked b nb" "expr_width a = None"
  shows "finsh_type_check False [node_of (EBin g a b)] e = ([Node (NODE_SYS g) DATA_TYPE_VOID None False 0 [na, nb]], e)"
    and "finsh_compile [Node (NODE_SYS g) DATA_TYPE_VOID None False 0 [na, nb]] c = finsh_code (code_of a @ code_of b) c"
proof -
  have d: "width_data None = DATA_TYPE_VOID" "data_width DATA_TYPE_VOID = None"
    by (simp_all add: width_data_def data_width_def DATA_TYPE_VOID_def DATA_TYPE_BYTE_def DATA_TYPE_WORD_def DATA_TYPE_DWORD_def)
  show "finsh_type_check False [node_of (EBin g a b)] e = ([Node (NODE_SYS g) DATA_TYPE_VOID None False 0 [na, nb]], e)"
    using assms d(1) by (simp add: type_check_simps)
  have "compile_node (Node (NODE_SYS g) DATA_TYPE_VOID None False 0 [na, nb]) = Some"
    by (simp add: fun_eq_iff compile_node_def compile_op_def d(2))
  then show "finsh_compile [Node (NODE_SYS g) DATA_TYPE_VOID None False 0 [na, nb]] c = finsh_code (code_of a @ code_of b) c"
    using finsh_compile_two [OF assms(1,2)] by (simp add: finsh_compile_single del: finsh_compile.simps)
qed

text \<open>A call as the first operand: its node has the type of the identifier of the function, which has none, so that the
  compiler generates no code for the operator. \<^verbatim>\<open>f() + 1\<close> calls \<open>f\<close>, loads 1, adds nothing and shows what
  \<open>f\<close> returned.\<close>

theorem finsh_call_operand_ignored:
  assumes a: "well_typed (ECall f as)" "depth (ECall f as) \<le> FINSH_STACK_MAX" and b: "well_typed b" "1 + depth b \<le> FINSH_STACK_MAX"
    and l: "length (code_of (ECall f as) @ code_of b) \<le> FINSH_TEXT_MAX" "length (vm_stack vm) = FINSH_STACK_MAX"
  shows "\<exists>vm'. finsh_compiler_run [node_of (EBin g (ECall f as) b)] FINSH_ERROR_OK vm = Some (FINSH_ERROR_OK, vm')
    \<and> line_result Dword (finsh_vm_run sys vm')
        (do { (x, m) \<leftarrow> eval sys (ECall f as) (vm_memory vm); (y, m) \<leftarrow> eval sys b m; Some (x, m) })"
proof -
  let ?a = "ECall f as" let ?l = "code_of ?a @ code_of b" let ?b = "length (code_of ?a)"
  let ?t = "?l @ drop (length ?l) (replicate FINSH_TEXT_MAX 0)"
  let ?vm = "vm\<lparr> vm_text := ?t, vm_stack := (vm_stack vm)[0 := 0] \<rparr>"
  let ?start = "?vm\<lparr> vm_sp := 0, vm_pc := 0 \<rparr>"
  from checked_expr a(1) b(1) obtain na nb where n: "checked ?a na" "checked b nb" by blast
  have "finsh_compiler_run [node_of (EBin g ?a b)] FINSH_ERROR_OK vm = Some (FINSH_ERROR_OK, ?vm)"
    using checked_call_operand [OF n] l(1)
    by (simp add: finsh_compiler_run_def Let_def finsh_code_def del: node_of.simps code_of.simps finsh_compile.simps)
  moreover have "line_result Dword (finsh_vm_run sys ?vm)
      (do { (x, m) \<leftarrow> eval sys ?a (vm_memory vm); (y, m) \<leftarrow> eval sys b m; Some (x, m) })"
    unfolding finsh_vm_run_def
  proof (rule vm_run_line [where t = ?t and b = "length ?l"])
    note c = compiled_state [OF l(2,1)]
    have ca: "code_at ?t 0 (code_of ?a)" and cb: "code_at ?t ?b (code_of b)"
      using c(2) by (simp_all only: code_at_append add_0)
    have ra: "leaves ?t ?b [] Dword (vm_loop sys ?b ?start) (eval sys ?a (vm_memory vm))"
      using evaluatesD [OF evaluates_expr [OF a(1)] c(1) ca, of sys] a(2) by simp
    have rb: "leaves ?t (?b + length (code_of b)) [(Dword, x)] (cell_width b) (vm_loop sys (?b + length (code_of b)) vm1) (eval sys b m)"
      if "vm_state ?t ?b [(Dword, x)] m vm1" for x m vm1
      by (rule evaluatesD [OF evaluates_expr [OF b(1)] that cb]) (use b(2) in simp)
    have s: "vm_loop sys (length ?l) ?start = Option.bind (vm_loop sys ?b ?start) (vm_loop sys (length ?l))"
      by (rule vm_loop_split) simp
    show "rel_option (\<lambda>vm (v, m). \<exists>us. vm_state ?t (length ?l) ((Dword, v) # us) m vm) (vm_loop sys (length ?l) ?start)
      (do { (x, m) \<leftarrow> eval sys ?a (vm_memory vm); (y, m) \<leftarrow> eval sys b m; Some (x, m) })"
    proof (cases "eval sys ?a (vm_memory vm)")
      case None
      with ra have "vm_loop sys ?b ?start = None" by (simp add: leaves_def)
      then show ?thesis unfolding s None by simp
    next
      case (Some r)
      with ra obtain vm1 where vm1: "vm_loop sys ?b ?start = Some vm1" "vm_state ?t ?b [(Dword, fst r)] (snd r) vm1"
        by (auto simp: leaves_def option_rel_Some2 split_beta)
      from rb [OF vm1(2)] show ?thesis
        unfolding s vm1(1) Some
        by (cases "eval sys b (snd r)") (auto simp: leaves_def option_rel_Some2 split_beta add.assoc)
    qed
  qed (use compiled_state [OF l(2,1)] l(1) in simp_all)
  ultimately show ?thesis by blast
qed

lemma finsh_call_operand_ignored_witness:
  "\<exists>vm'. finsh_compiler_run [node_of (EBin Add (ECall (Id_syscall 0x8000 0x9000) []) (EInt 1))] FINSH_ERROR_OK vm0 = Some (FINSH_ERROR_OK, vm')
    \<and> line_result Dword (finsh_vm_run (\<lambda>f ps m. Some (5, m)) vm') (Some (5, var_memory))"
  using finsh_call_operand_ignored [of "Id_syscall 0x8000 0x9000" "[]" "EInt 1" vm0 Add "\<lambda>f ps m. Some (5, m)"]
  by (simp add: is_syscall_def FINSH_STACK_MAX_def FINSH_TEXT_MAX_def vm0_def)

end
