(* ===== verification/FinshParser.thy ===== *)
theory FinshParser
  imports FinshRun
begin

text \<open>
  components/finsh/finsh_parser.c, finsh_node.c and finsh_var.c: the parser, from the tokens of a line to the
  trees of its statements. The tokens are those that \<^verbatim>\<open>finsh_token_token\<close> delivers; behind the last one it delivers
  the end for ever. A pointer to a node is the chain of the node and its siblings, a list. Each C function is a
  definition over the function \<open>rec\<close> that stands for the recursive calls; \<open>parse\<close> ties the knot, with a bound on
  the depth of the calls. \<open>None\<close> is undefined behaviour or a bound that was not enough.
\<close>

section \<open>Tokens (finsh_token.h)\<close>

datatype token_type =
    TK_left_paren | TK_right_paren | TK_comma | TK_semicolon | TK_mul | TK_add | TK_inc | TK_sub | TK_dec
  | TK_div | TK_mod | TK_assign | TK_and | TK_or | TK_xor | TK_bitwise | TK_shl | TK_shr | TK_comments
  | TK_void | TK_char | TK_short | TK_int | TK_long | TK_unsigned
  | TK_value_char | TK_value_int | TK_value_long | TK_value_string | TK_value_null
  | TK_identifier | TK_bad | TK_eof

text \<open>What \<^verbatim>\<open>token_run\<close> leaves in the structure: the type, the string, the value, and the error it sets, if any.\<close>

record finsh_token =
  tk_type :: token_type
  tk_string :: string
  tk_value :: u32
  tk_error :: "finsh_error option"

section \<open>The state\<close>

definition FINSH_NAME_MAX :: nat where "FINSH_NAME_MAX = 16"
definition FINSH_NODE_MAX :: nat where "FINSH_NODE_MAX = 16"
definition FINSH_VARIABLE_MAX :: nat where "FINSH_VARIABLE_MAX = 8"

text \<open>The tables of the system: exported and appended variables and functions by name, the address of
  \<^verbatim>\<open>global_variable\<close>, and where \<^verbatim>\<open>finsh_heap_allocate\<close> puts the text of a string node, given by its number; the memory of
  the machine is taken to hold the text.\<close>

record finsh_env =
  env_variables :: u32
  env_sysvars :: "(string \<times> ident) list"
  env_sysvar_items :: "(string \<times> ident) list"
  env_syscalls :: "(string \<times> ident) list"
  env_syscall_items :: "(string \<times> ident) list"
  env_string :: "nat \<Rightarrow> string \<Rightarrow> u32 option"

text \<open>The tokens not read yet, the last one and its replay flag; \<^verbatim>\<open>global_errno\<close>; the used entries of
  \<^verbatim>\<open>global_node_table\<close>; \<^verbatim>\<open>global_variable\<close>, where an entry of unknown type is free.\<close>

record finsh_parser =
  p_input :: "finsh_token list"
  p_token :: finsh_token
  p_replay :: bool
  p_error :: finsh_error
  p_nodes :: nat
  p_variables :: "(string \<times> finsh_type) list"

definition p_error_set :: "finsh_error \<Rightarrow> finsh_parser \<Rightarrow> finsh_parser" where
  "p_error_set e p = p\<lparr> p_error := e \<rparr>"

definition finsh_token_replay :: "finsh_parser \<Rightarrow> finsh_parser" where
  "finsh_token_replay p = p\<lparr> p_replay := True \<rparr>"

definition finsh_token_token :: "finsh_parser \<Rightarrow> token_type \<times> finsh_parser" where
  "finsh_token_token p =
     (if p_replay p then (tk_type (p_token p), p\<lparr> p_replay := False \<rparr>)
      else case p_input p of
        [] \<Rightarrow> (TK_eof, p\<lparr> p_token := (p_token p)\<lparr> tk_type := TK_eof \<rparr> \<rparr>)
      | t # ts \<Rightarrow> (tk_type t, p\<lparr> p_input := ts, p_token := t,
          p_error := (case tk_error t of None \<Rightarrow> p_error p | Some e \<Rightarrow> e) \<rparr>))"

definition check_token :: "token_type \<Rightarrow> token_type \<Rightarrow> finsh_parser \<Rightarrow> finsh_parser" where
  "check_token token type p = (if token \<noteq> type then finsh_token_replay (p_error_set FINSH_ERROR_INVALID_TOKEN p) else p)"

definition match_token :: "token_type \<Rightarrow> finsh_parser \<Rightarrow> finsh_parser" where
  "match_token type p = (let (token, p) = finsh_token_token p in check_token token type p)"

section \<open>Variables (finsh_var.c)\<close>

text \<open>\<^verbatim>\<open>strncmp(a, b, FINSH_NAME_MAX) == 0\<close>.\<close>

definition same_name :: "string \<Rightarrow> string \<Rightarrow> bool" where
  "same_name a b \<longleftrightarrow> take FINSH_NAME_MAX a = take FINSH_NAME_MAX b"

fun var_index :: "string \<Rightarrow> (string \<times> finsh_type) list \<Rightarrow> nat \<Rightarrow> nat option" where
  "var_index name [] i = None"
| "var_index name ((n, ty) # vs) i = (if same_name n name then Some i else var_index name vs (i + 1))"

fun free_index :: "(string \<times> finsh_type) list \<Rightarrow> nat \<Rightarrow> nat option" where
  "free_index [] i = None"
| "free_index ((n, ty) # vs) i = (if ty = finsh_type_unknown then Some i else free_index vs (i + 1))"

definition finsh_var_insert :: "string \<Rightarrow> finsh_type \<Rightarrow> finsh_parser \<Rightarrow> bool \<times> finsh_parser" where
  "finsh_var_insert name ty p =
     (if var_index name (p_variables p) 0 \<noteq> None then (False, p)
      else case free_index (p_variables p) 0 of
        None \<Rightarrow> (False, p)
      | Some i \<Rightarrow> (True, p\<lparr> p_variables := (p_variables p)[i := (take FINSH_NAME_MAX name, ty)] \<rparr>))"

text \<open>The structure of a variable has 24 bytes.\<close>

definition finsh_var_lookup :: "finsh_env \<Rightarrow> string \<Rightarrow> finsh_parser \<Rightarrow> ident option" where
  "finsh_var_lookup env name p = (case var_index name (p_variables p) 0 of
     None \<Rightarrow> None
   | Some i \<Rightarrow> Some (Id_var (snd (p_variables p ! i)) (env_variables env + of_nat (24 * i))))"

text \<open>The tables are searched for the name, the appended items for a name that begins with it.\<close>

definition table_lookup :: "(string \<times> ident) list \<Rightarrow> (string \<times> ident) list \<Rightarrow> string \<Rightarrow> ident option" where
  "table_lookup tab items name = (case find (\<lambda>(n, i). n = name) tab of
     Some (n, i) \<Rightarrow> Some i
   | None \<Rightarrow> map_option snd (find (\<lambda>(n, i). take (length name) n = name) items))"

definition finsh_sysvar_lookup :: "finsh_env \<Rightarrow> string \<Rightarrow> ident option" where
  "finsh_sysvar_lookup env name = table_lookup (env_sysvars env) (env_sysvar_items env) name"

definition finsh_syscall_lookup :: "finsh_env \<Rightarrow> string \<Rightarrow> ident option" where
  "finsh_syscall_lookup env name = table_lookup (env_syscalls env) (env_syscall_items env) name"

section \<open>Nodes (finsh_node.c)\<close>

definition finsh_node_allocate :: "node_type \<Rightarrow> finsh_parser \<Rightarrow> finsh_node list \<times> finsh_parser" where
  "finsh_node_allocate ty p =
     (if p_nodes p = FINSH_NODE_MAX then ([], p)
      else ([Node ty 0 None False 0 []], p\<lparr> p_nodes := p_nodes p + 1 \<rparr>))"

text \<open>A name of 16 characters or more is not terminated in the buffer \<^verbatim>\<open>id\<close>: the search in the tables reads on.\<close>

definition finsh_node_new_id :: "finsh_env \<Rightarrow> string \<Rightarrow> finsh_parser \<Rightarrow> (finsh_node list \<times> finsh_parser) option" where
  "finsh_node_new_id env name p = do {
     symbol \<leftarrow> (case finsh_var_lookup env name p of
        Some i \<Rightarrow> Some (Some i)
      | None \<Rightarrow> do {
          rt_assert (length name < FINSH_NAME_MAX);
          Some (case finsh_sysvar_lookup env name of Some i \<Rightarrow> Some i | None \<Rightarrow> finsh_syscall_lookup env name) });
     case symbol of
       None \<Rightarrow> Some ([], p_error_set FINSH_ERROR_UNKNOWN_SYMBOL p)
     | Some i \<Rightarrow> (let (node, p) = finsh_node_allocate NODE_ID p in
         if node = [] then Some ([], p_error_set FINSH_ERROR_MEMORY_FULL p)
         else Some ([Node NODE_ID 0 (Some i) False 0 []], p)) }"

definition finsh_node_new_value :: "node_type \<Rightarrow> u32 \<Rightarrow> finsh_parser \<Rightarrow> finsh_node list \<times> finsh_parser" where
  "finsh_node_new_value ty v p = (let (node, p) = finsh_node_allocate ty p in
     if node = [] then ([], p_error_set FINSH_ERROR_MEMORY_FULL p) else ([Node ty 0 None False v []], p))"

definition finsh_node_new_string :: "finsh_env \<Rightarrow> string \<Rightarrow> finsh_parser \<Rightarrow> (finsh_node list \<times> finsh_parser) option" where
  "finsh_node_new_string env s p = (let (node, p) = finsh_node_allocate NODE_VALUE_STRING p in
     if node = [] then Some ([], p_error_set FINSH_ERROR_MEMORY_FULL p)
     else do { ptr \<leftarrow> env_string env (p_nodes p) s; Some ([Node NODE_VALUE_STRING 0 None False ptr []], p) })"

text \<open>\<^verbatim>\<open>node1\<close> is a node without siblings in every call.\<close>

definition make_sys_node ::
  "node_type \<Rightarrow> finsh_node list \<Rightarrow> finsh_node list \<Rightarrow> finsh_parser \<Rightarrow> finsh_node list \<times> finsh_parser" where
  "make_sys_node ty node1 node2 p = (let (node, p) = finsh_node_allocate ty p in
     if node1 \<noteq> [] \<and> node \<noteq> [] then ([Node ty 0 None False 0 (hd node1 # node2)], p)
     else (node, p_error_set FINSH_ERROR_NULL_NODE p))"

section \<open>Expressions (finsh_parser.c)\<close>

fun base_type :: "token_type \<Rightarrow> finsh_type option" where
  "base_type TK_void = Some finsh_type_void"
| "base_type TK_char = Some finsh_type_char"
| "base_type TK_short = Some finsh_type_short"
| "base_type TK_int = Some finsh_type_int"
| "base_type TK_long = Some finsh_type_long"
| "base_type _ = None"

definition is_base_type :: "token_type \<Rightarrow> bool" where
  "is_base_type t \<longleftrightarrow> base_type t \<noteq> None"

fun unsigned_type :: "token_type \<Rightarrow> finsh_type option" where
  "unsigned_type TK_char = Some finsh_type_uchar"
| "unsigned_type TK_short = Some finsh_type_ushort"
| "unsigned_type TK_int = Some finsh_type_uint"
| "unsigned_type TK_long = Some finsh_type_ulong"
| "unsigned_type _ = None"

fun pointer_type :: "finsh_type \<Rightarrow> finsh_type" where
  "pointer_type finsh_type_void = finsh_type_voidp"
| "pointer_type finsh_type_char = finsh_type_charp"
| "pointer_type finsh_type_uchar = finsh_type_charp"
| "pointer_type finsh_type_short = finsh_type_shortp"
| "pointer_type finsh_type_ushort = finsh_type_shortp"
| "pointer_type finsh_type_int = finsh_type_intp"
| "pointer_type finsh_type_uint = finsh_type_intp"
| "pointer_type finsh_type_long = finsh_type_longp"
| "pointer_type finsh_type_ulong = finsh_type_longp"
| "pointer_type _ = finsh_type_voidp"

text \<open>The end of \<^verbatim>\<open>proc_type\<close> that looks for a pointer, and the one behind \<^verbatim>\<open>__return\<close>.\<close>

definition proc_pointer :: "finsh_type \<Rightarrow> finsh_parser \<Rightarrow> finsh_type \<times> finsh_parser" where
  "proc_pointer ty p = (let (token, p) = finsh_token_token p in
     if token = TK_mul then (pointer_type ty, p) else (ty, finsh_token_replay p))"

definition proc_no_type :: "finsh_parser \<Rightarrow> finsh_type \<times> finsh_parser" where
  "proc_no_type p = (finsh_type_unknown, p_error_set FINSH_ERROR_UNKNOWN_TYPE (finsh_token_replay p))"

definition proc_type :: "finsh_parser \<Rightarrow> finsh_type \<times> finsh_parser" where
  "proc_type p = (let (token, p) = finsh_token_token p in
     case base_type token of
       Some ty \<Rightarrow> proc_pointer ty p
     | None \<Rightarrow>
         if token = TK_unsigned then
           (let (token, p) = finsh_token_token p in
            if is_base_type token then
              (case unsigned_type token of Some ty \<Rightarrow> proc_pointer ty p | None \<Rightarrow> proc_no_type p)
            else proc_pointer finsh_type_unknown (p_error_set FINSH_ERROR_EXPECT_TYPE (finsh_token_replay p)))
         else proc_no_type p)"

definition proc_identifier :: "finsh_parser \<Rightarrow> string \<times> finsh_parser" where
  "proc_identifier p = (let p = match_token TK_identifier p in (take FINSH_NAME_MAX (tk_string (p_token p)), p))"

text \<open>The number of a type, which a cast writes into the data type of the node.\<close>

fun type_no :: "finsh_type \<Rightarrow> u8" where
  "type_no finsh_type_unknown = 0"
| "type_no finsh_type_void = 1"
| "type_no finsh_type_voidp = 2"
| "type_no finsh_type_char = 3"
| "type_no finsh_type_uchar = 4"
| "type_no finsh_type_charp = 5"
| "type_no finsh_type_short = 6"
| "type_no finsh_type_ushort = 7"
| "type_no finsh_type_shortp = 8"
| "type_no finsh_type_int = 9"
| "type_no finsh_type_uint = 10"
| "type_no finsh_type_intp = 11"
| "type_no finsh_type_long = 12"
| "type_no finsh_type_ulong = 13"
| "type_no finsh_type_longp = 14"

fun set_data_type :: "u8 \<Rightarrow> finsh_node \<Rightarrow> finsh_node" where
  "set_data_type d (Node ty d' i ad v ch) = Node ty d i ad v ch"

text \<open>The operators of the levels from \<^verbatim>\<open>proc_inclusive_or_expr\<close>, 1, to \<^verbatim>\<open>proc_multiplicative_expr\<close>, 6.\<close>

fun level_op :: "nat \<Rightarrow> token_type \<Rightarrow> binop option" where
  "level_op l TK_or = (if l = 1 then Some Or else None)"
| "level_op l TK_xor = (if l = 2 then Some Xor else None)"
| "level_op l TK_and = (if l = 3 then Some And else None)"
| "level_op l TK_shl = (if l = 4 then Some Shl else None)"
| "level_op l TK_shr = (if l = 4 then Some Shr else None)"
| "level_op l TK_sub = (if l = 5 then Some Sub else None)"
| "level_op l TK_add = (if l = 5 then Some Add else None)"
| "level_op l TK_mul = (if l = 6 then Some Mul else None)"
| "level_op l TK_div = (if l = 6 then Some Div else None)"
| "level_op l TK_mod = (if l = 6 then Some Mod else None)"
| "level_op l _ = None"

text \<open>What is left to parse: a function of the parser with its arguments, or one of its loops.\<close>

datatype goal =
    G_assign | G_binary nat | G_binary_loop nat "finsh_node list" | G_cast | G_unary | G_postfix
  | G_postfix_loop "finsh_node list" | G_primary | G_params | G_param_loop "finsh_node list"

type_synonym parse_result = "(finsh_node list \<times> finsh_parser) option"
type_synonym parse_rec = "goal \<Rightarrow> finsh_parser \<Rightarrow> parse_result"

definition proc_assign_expr :: "parse_rec \<Rightarrow> finsh_parser \<Rightarrow> parse_result" where
  "proc_assign_expr rec p = do {
     (or, p) \<leftarrow> rec (G_binary 1) p;
     let (token, p) = finsh_token_token p;
     if token = TK_assign then do {
       (assign, p) \<leftarrow> rec G_assign p;
       Some (make_sys_node NODE_SYS_ASSIGN or assign p) }
     else Some (or, finsh_token_replay p) }"

text \<open>The functions from \<^verbatim>\<open>proc_inclusive_or_expr\<close> to \<^verbatim>\<open>proc_multiplicative_expr\<close> are the same but for the operators
  and the function for the operands; the last one calls \<^verbatim>\<open>proc_cast_expr\<close>.\<close>

definition proc_binary_expr :: "parse_rec \<Rightarrow> nat \<Rightarrow> finsh_parser \<Rightarrow> parse_result" where
  "proc_binary_expr rec l p = do {
     (node, p) \<leftarrow> rec (if l = 6 then G_cast else G_binary (l + 1)) p;
     rec (G_binary_loop l node) p }"

definition proc_binary_loop :: "parse_rec \<Rightarrow> nat \<Rightarrow> finsh_node list \<Rightarrow> finsh_parser \<Rightarrow> parse_result" where
  "proc_binary_loop rec l node p = (let (token, p) = finsh_token_token p in
     case level_op l token of
       None \<Rightarrow> Some (node, finsh_token_replay p)
     | Some f \<Rightarrow> do {
         (new, p) \<leftarrow> rec (if l = 6 then G_cast else G_binary (l + 1)) p;
         if new = [] then rec (G_binary_loop l node) (p_error_set FINSH_ERROR_EXPECT_OPERATOR p)
         else (let (node, p) = make_sys_node (NODE_SYS f) node new p in rec (G_binary_loop l node) p) })"

definition proc_cast_expr :: "parse_rec \<Rightarrow> finsh_parser \<Rightarrow> parse_result" where
  "proc_cast_expr rec p = (let (token, p) = finsh_token_token p in
     if token = TK_left_paren then
       (let (ty, p) = proc_type p;
            p = match_token TK_right_paren p
        in do {
          (cast, p) \<leftarrow> rec G_cast p;
          (case cast of
             c # cs \<Rightarrow> Some (set_data_type (type_no ty) c # cs, p)
           | [] \<Rightarrow> rec G_unary (finsh_token_replay p)) })
     else rec G_unary (finsh_token_replay p))"

definition proc_unary_expr :: "parse_rec \<Rightarrow> finsh_parser \<Rightarrow> parse_result" where
  "proc_unary_expr rec p = (let (token, p) = finsh_token_token p in
     if token = TK_add then rec G_cast p
     else if token = TK_inc then do { (cast, p) \<leftarrow> rec G_cast p; Some (make_sys_node NODE_SYS_PREINC cast [] p) }
     else if token = TK_sub then do {
       (cast, p) \<leftarrow> rec G_cast p;
       let (zero, p) = finsh_node_new_value NODE_VALUE_LONG 0 p;
       Some (make_sys_node (NODE_SYS Sub) zero cast p) }
     else if token = TK_dec then do { (cast, p) \<leftarrow> rec G_cast p; Some (make_sys_node NODE_SYS_PREDEC cast [] p) }
     else if token = TK_bitwise then do { (cast, p) \<leftarrow> rec G_cast p; Some (make_sys_node NODE_SYS_BITWISE cast [] p) }
     else if token = TK_mul then do { (cast, p) \<leftarrow> rec G_cast p; Some (make_sys_node NODE_SYS_GETVALUE cast [] p) }
     else if token = TK_and then do { (cast, p) \<leftarrow> rec G_cast p; Some (make_sys_node NODE_SYS_GETADDR cast [] p) }
     else rec G_postfix (finsh_token_replay p))"

definition proc_postfix_expr :: "parse_rec \<Rightarrow> finsh_parser \<Rightarrow> parse_result" where
  "proc_postfix_expr rec p = do {
     (postfix, p) \<leftarrow> rec G_primary p;
     rec (G_postfix_loop postfix) p }"

definition proc_postfix_loop :: "parse_rec \<Rightarrow> finsh_node list \<Rightarrow> finsh_parser \<Rightarrow> parse_result" where
  "proc_postfix_loop rec postfix p = (let (token, p) = finsh_token_token p in
     if token = TK_inc then
       (let (postfix, p) = make_sys_node NODE_SYS_INC postfix [] p in rec (G_postfix_loop postfix) p)
     else if token = TK_dec then
       (let (postfix, p) = make_sys_node NODE_SYS_DEC postfix [] p in rec (G_postfix_loop postfix) p)
     else if token = TK_left_paren then
       (let (token, p) = finsh_token_token p in do {
          (params, p) \<leftarrow> (if token \<noteq> TK_right_paren then do {
             (params, p) \<leftarrow> rec G_params (finsh_token_replay p);
             Some (params, match_token TK_right_paren p) }
           else Some ([], p));
          let (postfix, p) = make_sys_node NODE_SYS_FUNC postfix params p;
          rec (G_postfix_loop postfix) p })
     else Some (postfix, finsh_token_replay p))"

definition proc_primary_expr :: "finsh_env \<Rightarrow> parse_rec \<Rightarrow> finsh_parser \<Rightarrow> parse_result" where
  "proc_primary_expr env rec p = (let (token, p) = finsh_token_token p in
     case token of
       TK_identifier \<Rightarrow> (let (name, p) = proc_identifier (finsh_token_replay p) in finsh_node_new_id env name p)
     | TK_left_paren \<Rightarrow> do { (expr, p) \<leftarrow> rec G_assign p; Some (expr, match_token TK_right_paren p) }
     | TK_value_int \<Rightarrow> Some (finsh_node_new_value NODE_VALUE_INT (tk_value (p_token p)) p)
     | TK_value_long \<Rightarrow> Some (finsh_node_new_value NODE_VALUE_LONG (tk_value (p_token p)) p)
     | TK_value_char \<Rightarrow> Some (finsh_node_new_value NODE_VALUE_CHAR (ucast (ucast (tk_value (p_token p)) :: u8)) p)
     | TK_value_string \<Rightarrow> finsh_node_new_string env (tk_string (p_token p)) p
     | TK_value_null \<Rightarrow> Some (finsh_node_new_value NODE_VALUE_NULL 0 p)
     | _ \<Rightarrow> Some ([], p_error_set FINSH_ERROR_INVALID_TOKEN p))"

definition proc_param_list :: "parse_rec \<Rightarrow> finsh_parser \<Rightarrow> parse_result" where
  "proc_param_list rec p = do {
     (assign, p) \<leftarrow> rec G_assign p;
     if assign = [] then Some ([], p) else rec (G_param_loop assign) p }"

definition proc_param_loop :: "parse_rec \<Rightarrow> finsh_node list \<Rightarrow> finsh_parser \<Rightarrow> parse_result" where
  "proc_param_loop rec params p = (let (token, p) = finsh_token_token p in
     if token = TK_comma then do {
       (assign, p) \<leftarrow> rec G_assign p;
       if assign = [] then rec (G_param_loop params) (p_error_set FINSH_ERROR_EXPECT_OPERATOR p)
       else rec (G_param_loop (params @ assign)) p }
     else Some (params, finsh_token_replay p))"

primrec parse :: "nat \<Rightarrow> finsh_env \<Rightarrow> goal \<Rightarrow> finsh_parser \<Rightarrow> parse_result" where
  "parse 0 env g p = None"
| "parse (Suc n) env g p = (case g of
     G_assign \<Rightarrow> proc_assign_expr (parse n env) p
   | G_binary l \<Rightarrow> proc_binary_expr (parse n env) l p
   | G_binary_loop l node \<Rightarrow> proc_binary_loop (parse n env) l node p
   | G_cast \<Rightarrow> proc_cast_expr (parse n env) p
   | G_unary \<Rightarrow> proc_unary_expr (parse n env) p
   | G_postfix \<Rightarrow> proc_postfix_expr (parse n env) p
   | G_postfix_loop node \<Rightarrow> proc_postfix_loop (parse n env) node p
   | G_primary \<Rightarrow> proc_primary_expr env (parse n env) p
   | G_params \<Rightarrow> proc_param_list (parse n env) p
   | G_param_loop params \<Rightarrow> proc_param_loop (parse n env) params p)"

section \<open>Statements and declarations\<close>

text \<open>\<^verbatim>\<open>proc_expr_statement\<close>; the expression is parsed by \<open>rec\<close>.\<close>

definition proc_expr_statement :: "parse_rec \<Rightarrow> finsh_parser \<Rightarrow> parse_result" where
  "proc_expr_statement rec p = (let (token, p) = finsh_token_token p in
     if token \<noteq> TK_semicolon then do {
       (expr, p) \<leftarrow> rec G_assign (finsh_token_replay p);
       Some (expr, match_token TK_semicolon p) }
     else Some ([], p))"

text \<open>The identifier of a declarator and its entry in the table of variables.\<close>

definition declare_variable :: "finsh_type \<Rightarrow> finsh_parser \<Rightarrow> string \<times> finsh_parser" where
  "declare_variable ty p = (let (name, p) = proc_identifier p; (ok, p) = finsh_var_insert name ty p in
     (name, if ok then p else p_error_set FINSH_ERROR_VARIABLE_EXIST p))"

text \<open>The initialiser behind \<^verbatim>\<open>=\<close>: the assignment goes behind the chain, whose last node is \<^verbatim>\<open>end\<close>, null when
  \<open>ended\<close>. Then the next token; without a value the token stays.\<close>

definition proc_initialiser ::
  "finsh_env \<Rightarrow> parse_rec \<Rightarrow> string \<Rightarrow> finsh_node list \<times> bool \<Rightarrow> finsh_parser
   \<Rightarrow> (token_type \<times> (finsh_node list \<times> bool) \<times> finsh_parser) option" where
  "proc_initialiser env rec name decls p = do {
     (assign, p) \<leftarrow> rec G_assign p;
     if assign \<noteq> [] then do {
       (idnode, p) \<leftarrow> finsh_node_new_id env name p;
       let (node, p) = make_sys_node NODE_SYS_ASSIGN idnode assign p;
       rt_assert (fst decls = [] \<or> \<not> snd decls);
       let (token, p) = finsh_token_token p;
       Some (token, (fst decls @ node, node = []), p) }
     else Some (TK_assign, decls, p) }"

primrec decl_loop ::
  "nat \<Rightarrow> finsh_env \<Rightarrow> parse_rec \<Rightarrow> finsh_type \<Rightarrow> token_type \<Rightarrow> finsh_node list \<times> bool \<Rightarrow> finsh_parser \<Rightarrow> parse_result" where
  "decl_loop 0 env rec ty token decls p = None"
| "decl_loop (Suc n) env rec ty token decls p =
     (if token = TK_comma then
        (let (name, p) = declare_variable ty p; (token, p) = finsh_token_token p in
         if token = TK_assign then do {
           (token, decls, p) \<leftarrow> proc_initialiser env rec name decls p;
           decl_loop n env rec ty token decls p }
         else decl_loop n env rec ty token decls p)
      else Some (fst decls, check_token token TK_semicolon p))"

definition proc_variable_decl :: "nat \<Rightarrow> finsh_env \<Rightarrow> parse_rec \<Rightarrow> finsh_parser \<Rightarrow> parse_result" where
  "proc_variable_decl n env rec p =
     (let (ty, p) = proc_type p; (name, p) = declare_variable ty p; (token, p) = finsh_token_token p in
      case token of
        TK_comma \<Rightarrow> decl_loop n env rec ty token ([], True) p
      | TK_assign \<Rightarrow> do {
          (token, decls, p) \<leftarrow> proc_initialiser env rec name ([], True) p;
          decl_loop n env rec ty token decls p }
      | TK_semicolon \<Rightarrow> Some ([], p)
      | _ \<Rightarrow> Some ([], p_error_set FINSH_ERROR_EXPECT_TYPE p))"

text \<open>The loop of \<^verbatim>\<open>finsh_parser_run\<close>. A statement becomes the sibling of the node with number \<open>node\<close> in the chain
  \<^verbatim>\<open>root\<close>, which cuts off what hung there, and the node behind is the next one.\<close>

primrec parser_loop ::
  "nat \<Rightarrow> finsh_env \<Rightarrow> finsh_node list \<Rightarrow> nat \<Rightarrow> token_type \<Rightarrow> finsh_parser \<Rightarrow> parse_result" where
  "parser_loop 0 env root node token p = None"
| "parser_loop (Suc n) env root node token p =
     (if token = TK_eof \<or> token = TK_bad then Some (root, p)
      else do {
        let decl = is_base_type token \<or> token = TK_unsigned;
        (stmt, p) \<leftarrow> (if decl then proc_variable_decl n env (parse n env) (finsh_token_replay p)
                      else proc_expr_statement (parse n env) (finsh_token_replay p));
        if root \<noteq> [] then
          (let p = (if \<not> decl \<and> token \<noteq> TK_identifier \<and> stmt = [] then snd (finsh_token_token p) else p);
               (token, p) = finsh_token_token p
           in parser_loop n env (take (node + 1) root @ stmt) (if stmt = [] then node else node + 1) token p)
        else if stmt = [] then Some ([], p)
        else (let (token, p) = finsh_token_token p in parser_loop n env stmt 0 token p) })"

definition finsh_parser_run :: "nat \<Rightarrow> finsh_env \<Rightarrow> finsh_parser \<Rightarrow> parse_result" where
  "finsh_parser_run n env p = (let (token, p) = finsh_token_token p in parser_loop n env [] 0 token p)"

text \<open>The state in which a line finds the parser, behind \<^verbatim>\<open>finsh_flush\<close>: only the variables stay.\<close>

definition finsh_flush :: "finsh_token list \<Rightarrow> (string \<times> finsh_type) list \<Rightarrow> finsh_parser" where
  "finsh_flush tokens vars = \<lparr> p_input = tokens, p_token = \<lparr> tk_type = TK_bad, tk_string = [], tk_value = 0, tk_error = None \<rparr>,
     p_replay = False, p_error = FINSH_ERROR_OK, p_nodes = 0, p_variables = vars \<rparr>"

text \<open>shell.c: \<^verbatim>\<open>finsh_run_line\<close>, from the tokens of the line. The result is the error, the variables and the machine, whose
  bottom cell is printed when there is no error.\<close>

definition finsh_run_line ::
  "nat \<Rightarrow> finsh_env \<Rightarrow> syscalls \<Rightarrow> finsh_token list \<Rightarrow> (string \<times> finsh_type) list \<Rightarrow> finsh_vm
   \<Rightarrow> (finsh_error \<times> (string \<times> finsh_type) list \<times> finsh_vm) option" where
  "finsh_run_line n env sys tokens vars vm = do {
     (root, p) \<leftarrow> finsh_parser_run n env (finsh_flush tokens vars);
     (e, vm) \<leftarrow> (if p_error p = FINSH_ERROR_OK then finsh_compiler_run root FINSH_ERROR_OK vm else Some (p_error p, vm));
     vm \<leftarrow> (if e = FINSH_ERROR_OK then finsh_vm_run sys vm else Some vm);
     Some (e, p_variables p, vm) }"

end
