(* ===== verification/FinshSyntax.thy ===== *)
theory FinshSyntax
  imports FinshParser
begin

text \<open>
  The parser reads what the grammar in its comments says: an expression that needs no parentheses, written as
  tokens, parses to its tree. With the compiler and the machine this takes a line from its tokens to its value.
\<close>

section \<open>Expressions as tokens\<close>

definition tok :: "token_type \<Rightarrow> finsh_token" where
  "tok ty = \<lparr> tk_type = ty, tk_string = [], tk_value = 0, tk_error = None \<rparr>"

definition tok_value :: "token_type \<Rightarrow> u32 \<Rightarrow> finsh_token" where
  "tok_value ty v = \<lparr> tk_type = ty, tk_string = [], tk_value = v, tk_error = None \<rparr>"

definition tok_string :: "token_type \<Rightarrow> string \<Rightarrow> finsh_token" where
  "tok_string ty s = \<lparr> tk_type = ty, tk_string = s, tk_value = 0, tk_error = None \<rparr>"

fun op_token :: "binop \<Rightarrow> token_type" where
  "op_token Or = TK_or" | "op_token Xor = TK_xor" | "op_token And = TK_and" | "op_token Shl = TK_shl"
| "op_token Shr = TK_shr" | "op_token Add = TK_add" | "op_token Sub = TK_sub" | "op_token Mul = TK_mul"
| "op_token Div = TK_div" | "op_token Mod = TK_mod"

fun op_level :: "binop \<Rightarrow> nat" where
  "op_level Or = 1" | "op_level Xor = 2" | "op_level And = 3" | "op_level Shl = 4" | "op_level Shr = 4"
| "op_level Add = 5" | "op_level Sub = 5" | "op_level Mul = 6" | "op_level Div = 6" | "op_level Mod = 6"

text \<open>A line is written with a name for every identifier and a text for every string.\<close>

fun write_expr :: "(ident \<Rightarrow> string) \<Rightarrow> (u32 \<Rightarrow> string) \<Rightarrow> expr \<Rightarrow> finsh_token list"
and write_args :: "(ident \<Rightarrow> string) \<Rightarrow> (u32 \<Rightarrow> string) \<Rightarrow> expr list \<Rightarrow> finsh_token list" where
  "write_expr nm st (EChar c) = [tok_value TK_value_char (ucast c)]"
| "write_expr nm st (EInt v) = [tok_value TK_value_int v]"
| "write_expr nm st (ELong v) = [tok_value TK_value_long v]"
| "write_expr nm st (EString p) = [tok_string TK_value_string (st p)]"
| "write_expr nm st ENull = [tok TK_value_null]"
| "write_expr nm st (EId i) = [tok_string TK_identifier (nm i)]"
| "write_expr nm st (EAddr i) = [tok TK_and, tok_string TK_identifier (nm i)]"
| "write_expr nm st (EBin f a b) = write_expr nm st a @ tok (op_token f) # write_expr nm st b"
| "write_expr nm st (ECompl a) = tok TK_bitwise # write_expr nm st a"
| "write_expr nm st (EDeref a) = tok TK_mul # write_expr nm st a"
| "write_expr nm st (EAssign i a) = tok_string TK_identifier (nm i) # tok TK_assign # write_expr nm st a"
| "write_expr nm st (EStore a b) = tok TK_mul # write_expr nm st a @ tok TK_assign # write_expr nm st b"
| "write_expr nm st (EPre up i) = [tok (if up then TK_inc else TK_dec), tok_string TK_identifier (nm i)]"
| "write_expr nm st (EPost up i) = [tok_string TK_identifier (nm i), tok (if up then TK_inc else TK_dec)]"
| "write_expr nm st (ECall f as) =
     tok_string TK_identifier (nm f) # tok TK_left_paren # write_args nm st as @ [tok TK_right_paren]"
| "write_args nm st [] = []"
| "write_args nm st (a # as) = write_expr nm st a @ (if as = [] then [] else tok TK_comma # write_args nm st as)"

text \<open>The level of the grammar at which an expression stands, and the expressions that need no parentheses.\<close>

fun expr_level :: "expr \<Rightarrow> nat" where
  "expr_level (EAssign i a) = 0"
| "expr_level (EStore a b) = 0"
| "expr_level (EBin f a b) = op_level f"
| "expr_level _ = 7"

fun no_parens :: "expr \<Rightarrow> bool" where
  "no_parens (EBin f a b) \<longleftrightarrow> op_level f \<le> expr_level a \<and> op_level f < expr_level b \<and> no_parens a \<and> no_parens b"
| "no_parens (ECompl a) \<longleftrightarrow> expr_level a = 7 \<and> no_parens a"
| "no_parens (EDeref a) \<longleftrightarrow> expr_level a = 7 \<and> no_parens a"
| "no_parens (EAssign i a) \<longleftrightarrow> no_parens a"
| "no_parens (EStore a b) \<longleftrightarrow> expr_level a = 7 \<and> no_parens a \<and> no_parens b"
| "no_parens (ECall f as) \<longleftrightarrow> (\<forall>a \<in> set as. no_parens a)"
| "no_parens _ \<longleftrightarrow> True"

fun node_count :: "expr \<Rightarrow> nat" where
  "node_count (EAddr i) = 2"
| "node_count (EBin f a b) = 1 + node_count a + node_count b"
| "node_count (ECompl a) = 1 + node_count a"
| "node_count (EDeref a) = 1 + node_count a"
| "node_count (EAssign i a) = 2 + node_count a"
| "node_count (EStore a b) = 2 + node_count a + node_count b"
| "node_count (EPre up i) = 2"
| "node_count (EPost up i) = 2"
| "node_count (ECall f as) = 2 + sum_list (map node_count as)"
| "node_count _ = 1"

text \<open>A name that leads to the identifier.\<close>

definition resolves :: "finsh_env \<Rightarrow> (string \<times> finsh_type) list \<Rightarrow> string \<Rightarrow> ident \<Rightarrow> bool" where
  "resolves env vars name i \<longleftrightarrow> length name < FINSH_NAME_MAX \<and>
     (case var_index name vars 0 of
        Some j \<Rightarrow> i = Id_var (snd (vars ! j)) (env_variables env + of_nat (24 * j))
      | None \<Rightarrow> (case finsh_sysvar_lookup env name of Some j \<Rightarrow> i = j | None \<Rightarrow> finsh_syscall_lookup env name = Some i))"

fun names_ok :: "finsh_env \<Rightarrow> (string \<times> finsh_type) list \<Rightarrow> (ident \<Rightarrow> string) \<Rightarrow> (u32 \<Rightarrow> string) \<Rightarrow> expr \<Rightarrow> bool" where
  "names_ok env vars nm st (EString p) \<longleftrightarrow> (\<forall>k. env_string env k (st p) = Some p)"
| "names_ok env vars nm st (EId i) \<longleftrightarrow> resolves env vars (nm i) i"
| "names_ok env vars nm st (EAddr i) \<longleftrightarrow> resolves env vars (nm i) i"
| "names_ok env vars nm st (EBin f a b) \<longleftrightarrow> names_ok env vars nm st a \<and> names_ok env vars nm st b"
| "names_ok env vars nm st (ECompl a) \<longleftrightarrow> names_ok env vars nm st a"
| "names_ok env vars nm st (EDeref a) \<longleftrightarrow> names_ok env vars nm st a"
| "names_ok env vars nm st (EAssign i a) \<longleftrightarrow> resolves env vars (nm i) i \<and> names_ok env vars nm st a"
| "names_ok env vars nm st (EStore a b) \<longleftrightarrow> names_ok env vars nm st a \<and> names_ok env vars nm st b"
| "names_ok env vars nm st (EPre up i) \<longleftrightarrow> resolves env vars (nm i) i"
| "names_ok env vars nm st (EPost up i) \<longleftrightarrow> resolves env vars (nm i) i"
| "names_ok env vars nm st (ECall f as) \<longleftrightarrow> resolves env vars (nm f) f \<and> (\<forall>a \<in> set as. names_ok env vars nm st a)"
| "names_ok env vars nm st _ \<longleftrightarrow> True"

section \<open>States of the parser\<close>

text \<open>The tokens to come, whether the first of them has been read and is replayed or not.\<close>

definition stream :: "finsh_parser \<Rightarrow> finsh_token list" where
  "stream p = (if p_replay p then p_token p # p_input p else p_input p)"

definition parser_at :: "(string \<times> finsh_type) list \<Rightarrow> finsh_token list \<Rightarrow> nat \<Rightarrow> finsh_parser \<Rightarrow> bool" where
  "parser_at vars ts k p \<longleftrightarrow> stream p = ts \<and> (\<forall>t \<in> set ts. tk_error t = None) \<and> p_error p = FINSH_ERROR_OK \<and> p_nodes p = k
     \<and> p_variables p = vars"

lemma next_token:
  assumes "parser_at vars (t # ts) k p"
  obtains p' where "finsh_token_token p = (tk_type t, p')" "parser_at vars ts k p'" "p_token p' = t" "\<not> p_replay p'"
    "parser_at vars (t # ts) k (finsh_token_replay p')"
proof (rule that)
  show "finsh_token_token p = (tk_type t, snd (finsh_token_token p))" "parser_at vars ts k (snd (finsh_token_token p))"
    "p_token (snd (finsh_token_token p)) = t" "\<not> p_replay (snd (finsh_token_token p))"
    "parser_at vars (t # ts) k (finsh_token_replay (snd (finsh_token_token p)))"
    using assms by (auto simp: parser_at_def stream_def finsh_token_token_def finsh_token_replay_def split: if_splits list.splits)
qed

lemma make_node:
  assumes "parser_at vars ts k p" "k < FINSH_NODE_MAX"
  obtains p' where "make_sys_node ty (n # ns) m p = ([Node ty 0 None False 0 (n # m)], p')" "parser_at vars ts (k + 1) p'"
proof (rule that)
  show "make_sys_node ty (n # ns) m p = ([Node ty 0 None False 0 (n # m)], p\<lparr> p_nodes := k + 1 \<rparr>)"
    using assms by (simp add: make_sys_node_def finsh_node_allocate_def parser_at_def)
  show "parser_at vars ts (k + 1) (p\<lparr> p_nodes := k + 1 \<rparr>)"
    using assms by (auto simp: parser_at_def stream_def)
qed

lemma match_ok:
  assumes "parser_at vars (t # ts) k p" "tk_type t = ty"
  shows "parser_at vars ts k (match_token ty p)"
  by (rule next_token [OF assms(1)]) (simp add: match_token_def check_token_def assms(2))

section \<open>Parsing goals\<close>

text \<open>From the tokens \<open>ts\<close>, with \<open>k\<close> nodes in use, the goal gives \<open>r\<close> and leaves the tokens \<open>ts'\<close>, for every depth that is enough.\<close>

definition parses ::
  "finsh_env \<Rightarrow> (string \<times> finsh_type) list \<Rightarrow> goal \<Rightarrow> finsh_token list \<Rightarrow> nat \<Rightarrow> finsh_node list \<Rightarrow> finsh_token list \<Rightarrow> nat \<Rightarrow> bool" where
  "parses env vars g ts k r ts' k' \<longleftrightarrow> (\<exists>d. \<forall>n \<ge> d. \<forall>p. parser_at vars ts k p \<longrightarrow>
     (\<exists>p'. parse n env g p = Some (r, p') \<and> parser_at vars ts' k' p'))"

text \<open>The depth of a goal that calls others.\<close>

lemma parsesI:
  assumes "\<And>n p. d \<le> n \<Longrightarrow> parser_at vars ts k p \<Longrightarrow> \<exists>p'. parse (Suc n) env g p = Some (r, p') \<and> parser_at vars ts' k' p'"
  shows "parses env vars g ts k r ts' k'"
  unfolding parses_def
proof (intro exI [of _ "Suc d"] allI impI)
  fix n p assume "Suc d \<le> n" "parser_at vars ts k p"
  then show "\<exists>p'. parse n env g p = Some (r, p') \<and> parser_at vars ts' k' p'"
    using assms [of "n - 1" p] by (cases n) auto
qed

lemma parses_done:
  assumes "\<And>n p. parser_at vars ts k p \<Longrightarrow> \<exists>p'. parse (Suc n) env g p = Some (r, p') \<and> parser_at vars ts' k' p'"
  shows "parses env vars g ts k r ts' k'"
  by (rule parsesI [of 0]) (use assms in blast)

text \<open>The continuation of a goal after a call: for every depth that is enough, from a state at \<open>ts\<close> to the result.\<close>

definition goes_on ::
  "(nat \<Rightarrow> finsh_parser \<Rightarrow> parse_result) \<Rightarrow> (string \<times> finsh_type) list \<Rightarrow> finsh_token list \<Rightarrow> nat \<Rightarrow> finsh_node list \<Rightarrow> finsh_token list \<Rightarrow> nat \<Rightarrow> bool" where
  "goes_on f vars ts k r ts' k' \<longleftrightarrow>
     (\<exists>d. \<forall>n \<ge> d. \<forall>p. parser_at vars ts k p \<longrightarrow> (\<exists>p'. f n p = Some (r, p') \<and> parser_at vars ts' k' p'))"

lemma goes_on_parse: "goes_on (\<lambda>n. parse n env g) vars ts k r ts' k' \<longleftrightarrow> parses env vars g ts k r ts' k'"
  by (simp add: goes_on_def parses_def)

lemma goes_on_Some:
  assumes "\<And>p. parser_at vars ts k p \<Longrightarrow> \<exists>p'. f p = Some (r, p') \<and> parser_at vars ts' k' p'"
  shows "goes_on (\<lambda>n. f) vars ts k r ts' k'"
  unfolding goes_on_def using assms by blast

lemma goes_on_step:
  assumes "goes_on f1 vars ts1 k1 r ts' k'" and "\<And>n p. parser_at vars ts k p \<Longrightarrow> \<exists>p1. f n p = f1 n p1 \<and> parser_at vars ts1 k1 p1"
  shows "goes_on f vars ts k r ts' k'"
  using assms unfolding goes_on_def by metis

lemma goes_on_bind:
  assumes "goes_on f1 vars ts1 k1 r1 ts2 k2" "goes_on (\<lambda>n. f2 n r1) vars ts2 k2 r ts' k'"
    and step: "\<And>n p. parser_at vars ts k p \<Longrightarrow> \<exists>p1. f n p = Option.bind (f1 n p1) (\<lambda>(r, p). f2 n r p) \<and> parser_at vars ts1 k1 p1"
  shows "goes_on f vars ts k r ts' k'"
proof -
  from assms(1) obtain d where d: "\<And>n p. d \<le> n \<Longrightarrow> parser_at vars ts1 k1 p \<Longrightarrow> \<exists>p'. f1 n p = Some (r1, p') \<and> parser_at vars ts2 k2 p'"
    unfolding goes_on_def by blast
  from assms(2) obtain e where e: "\<And>n p. e \<le> n \<Longrightarrow> parser_at vars ts2 k2 p \<Longrightarrow> \<exists>p'. f2 n r1 p = Some (r, p') \<and> parser_at vars ts' k' p'"
    unfolding goes_on_def by blast
  show ?thesis unfolding goes_on_def
  proof (intro exI [of _ "max d e"] allI impI)
    fix n p assume n: "max d e \<le> n" and p: "parser_at vars ts k p"
    from step [OF p, of n] obtain p1 where s: "f n p = Option.bind (f1 n p1) (\<lambda>(r, p). f2 n r p)" "parser_at vars ts1 k1 p1" by blast
    from d [of n p1] n s(2) obtain p2 where p2: "f1 n p1 = Some (r1, p2)" "parser_at vars ts2 k2 p2" by auto
    from e [of n p2] n p2(2) show "\<exists>p'. f n p = Some (r, p') \<and> parser_at vars ts' k' p'" unfolding s(1) p2(1) by simp
  qed
qed

text \<open>A goal through the body of its function.\<close>

lemma parses_body:
  assumes "goes_on (\<lambda>n p. parse (Suc n) env g p) vars ts k r ts' k'"
  shows "parses env vars g ts k r ts' k'"
proof -
  from assms obtain d where "\<And>n p. d \<le> n \<Longrightarrow> parser_at vars ts k p \<Longrightarrow> \<exists>p'. parse (Suc n) env g p = Some (r, p') \<and> parser_at vars ts' k' p'"
    unfolding goes_on_def by blast
  then show ?thesis by (rule parsesI)
qed


section \<open>The functions of the parser\<close>

definition operand :: "nat \<Rightarrow> goal" where
  "operand l = (if l = 6 then G_cast else G_binary (l + 1))"

lemma parses_binary:
  assumes "parses env vars (operand l) ts k r1 ts1 k1" "parses env vars (G_binary_loop l r1) ts1 k1 r ts2 k2"
  shows "parses env vars (G_binary l) ts k r ts2 k2"
  by (rule parses_body, rule goes_on_bind [where ?f2.0 = "\<lambda>n r. parse n env (G_binary_loop l r)", OF assms [folded goes_on_parse]])
    (auto simp: proc_binary_expr_def operand_def)

lemma parses_loop_done:
  assumes "level_op l (tk_type t) = None"
  shows "parses env vars (G_binary_loop l r) (t # ts) k r (t # ts) k"
proof (rule parses_done)
  fix n p assume "parser_at vars (t # ts) k p"
  then show "\<exists>p'. parse (Suc n) env (G_binary_loop l r) p = Some (r, p') \<and> parser_at vars (t # ts) k p'"
    by (rule next_token) (simp add: proc_binary_loop_def assms)
qed

lemma parses_loop_op:
  assumes op: "level_op l (tk_type t) = Some f" and b: "parses env vars (operand l) ts k [b] ts1 k1" and k: "k1 < FINSH_NODE_MAX"
    and l: "parses env vars (G_binary_loop l [Node (NODE_SYS f) 0 None False 0 [a, b]]) ts1 (k1 + 1) r ts2 k2"
  shows "parses env vars (G_binary_loop l [a]) (t # ts) k r ts2 k2"
proof (rule parses_body, rule goes_on_bind [OF b [folded goes_on_parse]])
  let ?f = "\<lambda>n new p. if new = [] then parse n env (G_binary_loop l [a]) (p_error_set FINSH_ERROR_EXPECT_OPERATOR p)
      else (let (node, p) = make_sys_node (NODE_SYS f) [a] new p in parse n env (G_binary_loop l node) p)"
  show "goes_on (\<lambda>n. ?f n [b]) vars ts1 k1 r ts2 k2"
  proof (rule goes_on_step [OF l [folded goes_on_parse]])
    fix n p assume "parser_at vars ts1 k1 p"
    then show "\<exists>p1. ?f n [b] p = parse n env (G_binary_loop l [Node (NODE_SYS f) 0 None False 0 [a, b]]) p1 \<and> parser_at vars ts1 (k1 + 1) p1"
      by (rule make_node [OF _ k, of vars ts1 p "NODE_SYS f" a "[]" "[b]"]) auto
  qed
  fix n p assume "parser_at vars (t # ts) k p"
  then show "\<exists>p1. parse (Suc n) env (G_binary_loop l [a]) p = Option.bind (parse n env (operand l) p1) (\<lambda>(r, p). ?f n r p) \<and> parser_at vars ts k p1"
    by (rule next_token) (auto simp: proc_binary_loop_def operand_def op)
qed

lemma parses_cast:
  assumes "tk_type t \<noteq> TK_left_paren" "parses env vars G_unary (t # ts) k r ts' k'"
  shows "parses env vars G_cast (t # ts) k r ts' k'"
proof (rule parses_body, rule goes_on_step [OF assms(2) [folded goes_on_parse]])
  fix n p assume "parser_at vars (t # ts) k p"
  then show "\<exists>p1. parse (Suc n) env G_cast p = parse n env G_unary p1 \<and> parser_at vars (t # ts) k p1"
    by (rule next_token) (auto simp: proc_cast_expr_def assms(1))
qed

lemma parses_unary_op:
  assumes op: "(tk_type t, ty) \<in> {(TK_inc, NODE_SYS_PREINC), (TK_dec, NODE_SYS_PREDEC), (TK_bitwise, NODE_SYS_BITWISE),
      (TK_mul, NODE_SYS_GETVALUE), (TK_and, NODE_SYS_GETADDR)}"
    and a: "parses env vars G_cast ts k [a] ts1 k1" and k: "k1 < FINSH_NODE_MAX"
  shows "parses env vars G_cast (t # ts) k [Node ty 0 None False 0 [a]] ts1 (k1 + 1)"
proof (rule parses_cast)
  show "tk_type t \<noteq> TK_left_paren" using op by auto
  show "parses env vars G_unary (t # ts) k [Node ty 0 None False 0 [a]] ts1 (k1 + 1)"
  proof (rule parses_body, rule goes_on_bind [OF a [folded goes_on_parse]])
    show "goes_on (\<lambda>n p. Some (make_sys_node ty [a] [] p)) vars ts1 k1 [Node ty 0 None False 0 [a]] ts1 (k1 + 1)"
    proof (rule goes_on_Some)
      fix p assume "parser_at vars ts1 k1 p"
      then show "\<exists>p'. Some (make_sys_node ty [a] [] p) = Some ([Node ty 0 None False 0 [a]], p') \<and> parser_at vars ts1 (k1 + 1) p'"
        by (rule make_node [OF _ k, of vars ts1 p ty a "[]" "[]"]) auto
    qed
    fix n p assume "parser_at vars (t # ts) k p"
    then show "\<exists>p1. parse (Suc n) env G_unary p = Option.bind (parse n env G_cast p1) (\<lambda>(r, p). Some (make_sys_node ty r [] p)) \<and> parser_at vars ts k p1"
      by (rule next_token) (use op in \<open>auto simp: proc_unary_expr_def\<close>)
  qed
qed

lemma parses_postfix:
  assumes t: "tk_type t \<in> {TK_identifier, TK_value_int, TK_value_long, TK_value_char, TK_value_string, TK_value_null}"
    and g: "parses env vars G_primary (t # ts) k r1 ts1 k1" "parses env vars (G_postfix_loop r1) ts1 k1 r ts2 k2"
  shows "parses env vars G_cast (t # ts) k r ts2 k2"
proof (rule parses_cast)
  show "tk_type t \<noteq> TK_left_paren" using t by auto
  have p: "parses env vars G_postfix (t # ts) k r ts2 k2"
    by (rule parses_body, rule goes_on_bind [where ?f2.0 = "\<lambda>n r. parse n env (G_postfix_loop r)", OF g [folded goes_on_parse]])
      (auto simp: proc_postfix_expr_def)
  show "parses env vars G_unary (t # ts) k r ts2 k2"
  proof (rule parses_body, rule goes_on_step [OF p [folded goes_on_parse]])
    fix n p assume "parser_at vars (t # ts) k p"
    then show "\<exists>p1. parse (Suc n) env G_unary p = parse n env G_postfix p1 \<and> parser_at vars (t # ts) k p1"
      by (rule next_token) (use t in \<open>auto simp: proc_unary_expr_def\<close>)
  qed
qed

text \<open>The token ends an expression with postfix operators.\<close>

definition no_postfix :: "token_type \<Rightarrow> bool" where
  "no_postfix ty \<longleftrightarrow> ty \<notin> {TK_inc, TK_dec, TK_left_paren}"

lemma parses_postfix_done:
  assumes "no_postfix (tk_type t)"
  shows "parses env vars (G_postfix_loop r) (t # ts) k r (t # ts) k"
proof (rule parses_done)
  fix n p assume "parser_at vars (t # ts) k p"
  then show "\<exists>p'. parse (Suc n) env (G_postfix_loop r) p = Some (r, p') \<and> parser_at vars (t # ts) k p'"
    by (rule next_token) (use assms in \<open>simp add: proc_postfix_loop_def no_postfix_def\<close>)
qed

lemma parses_postfix_op:
  assumes op: "(tk_type t, ty) \<in> {(TK_inc, NODE_SYS_INC), (TK_dec, NODE_SYS_DEC)}" and k: "k < FINSH_NODE_MAX"
    and l: "parses env vars (G_postfix_loop [Node ty 0 None False 0 [a]]) ts (k + 1) r ts1 k1"
  shows "parses env vars (G_postfix_loop [a]) (t # ts) k r ts1 k1"
proof (rule parses_body, rule goes_on_step [OF l [folded goes_on_parse]])
  fix n p assume "parser_at vars (t # ts) k p"
  then obtain p1 where p1: "finsh_token_token p = (tk_type t, p1)" "parser_at vars ts k p1" by (rule next_token)
  from p1(2) k obtain p2 where "make_sys_node ty [a] [] p1 = ([Node ty 0 None False 0 [a]], p2)" "parser_at vars ts (k + 1) p2"
    by (rule make_node)
  then show "\<exists>p1. parse (Suc n) env (G_postfix_loop [a]) p = parse n env (G_postfix_loop [Node ty 0 None False 0 [a]]) p1 \<and> parser_at vars ts (k + 1) p1"
    using op p1(1) by (auto simp: proc_postfix_loop_def)
qed


section \<open>Primary expressions\<close>

lemma new_id:
  assumes "parser_at vars ts k p" "resolves env vars name i" "k < FINSH_NODE_MAX"
  shows "\<exists>p'. finsh_node_new_id env (take FINSH_NAME_MAX name) p = Some ([new_id i], p') \<and> parser_at vars ts (k + 1) p'"
proof -
  have n: "take FINSH_NAME_MAX name = name" using assms(2) by (simp add: resolves_def)
  have v: "p_variables p = vars" "p_nodes p = k" using assms(1) by (simp_all add: parser_at_def)
  have a: "parser_at vars ts (k + 1) (p\<lparr> p_nodes := k + 1 \<rparr>)" using assms(1) by (auto simp: parser_at_def stream_def)
  show ?thesis unfolding n
  proof (cases "var_index name vars 0")
    case None
    then show "\<exists>p'. finsh_node_new_id env name p = Some ([new_id i], p') \<and> parser_at vars ts (k + 1) p'"
      using assms(2,3) v a
      by (cases "finsh_sysvar_lookup env name")
        (auto simp: finsh_node_new_id_def finsh_var_lookup_def resolves_def finsh_node_allocate_def new_id_def Let_def)
  next
    case (Some j)
    then show "\<exists>p'. finsh_node_new_id env name p = Some ([new_id i], p') \<and> parser_at vars ts (k + 1) p'"
      using assms(2,3) v a
      by (auto simp: finsh_node_new_id_def finsh_var_lookup_def resolves_def finsh_node_allocate_def new_id_def Let_def)
  qed
qed

lemma parses_identifier:
  assumes "resolves env vars name i" "k < FINSH_NODE_MAX"
  shows "parses env vars G_primary (tok_string TK_identifier name # ts) k [new_id i] ts (k + 1)"
proof (rule parses_done)
  fix n p assume "parser_at vars (tok_string TK_identifier name # ts) k p"
  then obtain p1 where p1: "finsh_token_token p = (TK_identifier, p1)"
      "parser_at vars (tok_string TK_identifier name # ts) k (finsh_token_replay p1)"
    by (rule next_token) (simp add: tok_string_def)
  from p1(2) obtain p2 where p2: "finsh_token_token (finsh_token_replay p1) = (TK_identifier, p2)" "parser_at vars ts k p2"
      "p_token p2 = tok_string TK_identifier name"
    by (rule next_token) (simp add: tok_string_def)
  from new_id [OF p2(2) assms] obtain p3 where "finsh_node_new_id env (take FINSH_NAME_MAX name) p2 = Some ([new_id i], p3)"
    "parser_at vars ts (k + 1) p3" by blast
  then show "\<exists>p'. parse (Suc n) env G_primary p = Some ([new_id i], p') \<and> parser_at vars ts (k + 1) p'"
    by (simp add: proc_primary_expr_def p1(1) proc_identifier_def match_token_def p2(1,3) check_token_def tok_string_def)
qed

lemma parses_value:
  assumes t: "(tk_type t, ty) \<in> {(TK_value_int, NODE_VALUE_INT), (TK_value_long, NODE_VALUE_LONG)} \<and> v = tk_value t
      \<or> (tk_type t, ty) = (TK_value_char, NODE_VALUE_CHAR) \<and> v = ucast (ucast (tk_value t) :: u8)
      \<or> (tk_type t, ty) = (TK_value_null, NODE_VALUE_NULL) \<and> v = 0
      \<or> (tk_type t, ty) = (TK_value_string, NODE_VALUE_STRING) \<and> (\<forall>k. env_string env k (tk_string t) = Some v)"
    and k: "k < FINSH_NODE_MAX"
  shows "parses env vars G_primary (t # ts) k [new_value ty v] ts (k + 1)"
proof (rule parses_done)
  fix n p assume "parser_at vars (t # ts) k p"
  then obtain p1 where p1: "finsh_token_token p = (tk_type t, p1)" "parser_at vars ts k p1" "p_token p1 = t" by (rule next_token)
  have a: "parser_at vars ts (k + 1) (p1\<lparr> p_nodes := k + 1 \<rparr>)" and "p_nodes p1 = k"
    using p1(2) by (auto simp: parser_at_def stream_def)
  with t k show "\<exists>p'. parse (Suc n) env G_primary p = Some ([new_value ty v], p') \<and> parser_at vars ts (k + 1) p'"
    by (auto simp: proc_primary_expr_def p1(1,3) finsh_node_new_value_def finsh_node_new_string_def finsh_node_allocate_def new_value_def Let_def)
qed

section \<open>Calls\<close>

lemma parses_assign_done:
  assumes "parses env vars (G_binary 1) ts k r (t # ts1) k1" "tk_type t \<noteq> TK_assign"
  shows "parses env vars G_assign ts k r (t # ts1) k1"
proof (rule parses_body, rule goes_on_bind [OF assms(1) [folded goes_on_parse]])
  let ?f = "\<lambda>n or p. let (token, p) = finsh_token_token p in
     if token = TK_assign then do { (assign, p) \<leftarrow> parse n env G_assign p; Some (make_sys_node NODE_SYS_ASSIGN or assign p) }
     else Some (or, finsh_token_replay p)"
  show "goes_on (\<lambda>n. ?f n r) vars (t # ts1) k1 r (t # ts1) k1"
    unfolding goes_on_def
  proof (intro exI [of _ 0] allI impI)
    fix n p assume "parser_at vars (t # ts1) k1 p"
    then show "\<exists>p'. ?f n r p = Some (r, p') \<and> parser_at vars (t # ts1) k1 p'"
      by (rule next_token) (simp add: assms(2))
  qed
  fix n p assume "parser_at vars ts k p"
  then show "\<exists>p1. parse (Suc n) env G_assign p = Option.bind (parse n env (G_binary 1) p1) (\<lambda>(r, p). ?f n r p) \<and> parser_at vars ts k p1"
    by (auto simp: proc_assign_expr_def Let_def)
qed

lemma parses_assign_op:
  assumes "parses env vars (G_binary 1) ts k [a] (tok TK_assign # ts1) k1" "parses env vars G_assign ts1 k1 [b] ts2 k2" "k2 < FINSH_NODE_MAX"
  shows "parses env vars G_assign ts k [Node NODE_SYS_ASSIGN 0 None False 0 [a, b]] ts2 (k2 + 1)"
proof (rule parses_body, rule goes_on_bind [OF assms(1) [folded goes_on_parse]])
  let ?f = "\<lambda>n or p. let (token, p) = finsh_token_token p in
     if token = TK_assign then do { (assign, p) \<leftarrow> parse n env G_assign p; Some (make_sys_node NODE_SYS_ASSIGN or assign p) }
     else Some (or, finsh_token_replay p)"
  show "goes_on (\<lambda>n. ?f n [a]) vars (tok TK_assign # ts1) k1 [Node NODE_SYS_ASSIGN 0 None False 0 [a, b]] ts2 (k2 + 1)"
  proof (rule goes_on_bind [OF assms(2) [folded goes_on_parse]])
    show "goes_on (\<lambda>n p. Some (make_sys_node NODE_SYS_ASSIGN [a] [b] p)) vars ts2 k2 [Node NODE_SYS_ASSIGN 0 None False 0 [a, b]] ts2 (k2 + 1)"
    proof (rule goes_on_Some)
      fix p assume "parser_at vars ts2 k2 p"
      then show "\<exists>p'. Some (make_sys_node NODE_SYS_ASSIGN [a] [b] p) = Some ([Node NODE_SYS_ASSIGN 0 None False 0 [a, b]], p') \<and> parser_at vars ts2 (k2 + 1) p'"
        by (rule make_node [OF _ assms(3), of vars ts2 p NODE_SYS_ASSIGN a "[]" "[b]"]) auto
    qed
    fix n p assume "parser_at vars (tok TK_assign # ts1) k1 p"
    then show "\<exists>p1. ?f n [a] p = Option.bind (parse n env G_assign p1) (\<lambda>(r, p). Some (make_sys_node NODE_SYS_ASSIGN [a] r p)) \<and> parser_at vars ts1 k1 p1"
      by (rule next_token) (auto simp: tok_def)
  qed
  fix n p assume "parser_at vars ts k p"
  then show "\<exists>p1. parse (Suc n) env G_assign p = Option.bind (parse n env (G_binary 1) p1) (\<lambda>(r, p). ?f n r p) \<and> parser_at vars ts k p1"
    by (auto simp: proc_assign_expr_def Let_def)
qed


lemma parses_param_done:
  assumes "tk_type t \<noteq> TK_comma"
  shows "parses env vars (G_param_loop r) (t # ts) k r (t # ts) k"
proof (rule parses_done)
  fix n p assume "parser_at vars (t # ts) k p"
  then show "\<exists>p'. parse (Suc n) env (G_param_loop r) p = Some (r, p') \<and> parser_at vars (t # ts) k p'"
    by (rule next_token) (simp add: proc_param_loop_def assms)
qed

lemma parses_param_step:
  assumes "parses env vars G_assign ts k [x] ts1 k1" "parses env vars (G_param_loop (ps @ [x])) ts1 k1 r ts2 k2"
  shows "parses env vars (G_param_loop ps) (tok TK_comma # ts) k r ts2 k2"
proof (rule parses_body, rule goes_on_bind [OF assms(1) [folded goes_on_parse]])
  let ?f = "\<lambda>n assign p. if assign = [] then parse n env (G_param_loop ps) (p_error_set FINSH_ERROR_EXPECT_OPERATOR p)
      else parse n env (G_param_loop (ps @ assign)) p"
  show "goes_on (\<lambda>n. ?f n [x]) vars ts1 k1 r ts2 k2"
    by (rule goes_on_step [OF assms(2) [folded goes_on_parse]]) auto
  fix n p assume "parser_at vars (tok TK_comma # ts) k p"
  then show "\<exists>p1. parse (Suc n) env (G_param_loop ps) p = Option.bind (parse n env G_assign p1) (\<lambda>(r, p). ?f n r p) \<and> parser_at vars ts k p1"
    by (rule next_token) (auto simp: proc_param_loop_def tok_def)
qed

lemma parses_params:
  assumes "parses env vars G_assign ts k [x] ts1 k1" "parses env vars (G_param_loop [x]) ts1 k1 r ts2 k2"
  shows "parses env vars G_params ts k r ts2 k2"
proof (rule parses_body, rule goes_on_bind [OF assms(1) [folded goes_on_parse]])
  let ?f = "\<lambda>n assign p. if assign = [] then Some ([], p) else parse n env (G_param_loop assign) p"
  show "goes_on (\<lambda>n. ?f n [x]) vars ts1 k1 r ts2 k2"
    by (rule goes_on_step [OF assms(2) [folded goes_on_parse]]) auto
  fix n p assume "parser_at vars ts k p"
  then show "\<exists>p1. parse (Suc n) env G_params p = Option.bind (parse n env G_assign p1) (\<lambda>(r, p). ?f n r p) \<and> parser_at vars ts k p1"
    by (auto simp: proc_param_list_def)
qed

lemma parses_call_empty:
  assumes k: "k < FINSH_NODE_MAX" and l: "parses env vars (G_postfix_loop [Node NODE_SYS_FUNC 0 None False 0 [a]]) ts (k + 1) r ts1 k1"
  shows "parses env vars (G_postfix_loop [a]) (tok TK_left_paren # tok TK_right_paren # ts) k r ts1 k1"
proof (rule parses_body, rule goes_on_step [OF l [folded goes_on_parse]])
  fix n p assume "parser_at vars (tok TK_left_paren # tok TK_right_paren # ts) k p"
  then obtain p1 where p1: "finsh_token_token p = (TK_left_paren, p1)" "parser_at vars (tok TK_right_paren # ts) k p1"
    by (rule next_token) (simp add: tok_def)
  from p1(2) obtain p2 where p2: "finsh_token_token p1 = (TK_right_paren, p2)" "parser_at vars ts k p2"
    by (rule next_token) (simp add: tok_def)
  from p2(2) k obtain p3 where "make_sys_node NODE_SYS_FUNC [a] [] p2 = ([Node NODE_SYS_FUNC 0 None False 0 [a]], p3)" "parser_at vars ts (k + 1) p3"
    by (rule make_node)
  then show "\<exists>p1. parse (Suc n) env (G_postfix_loop [a]) p = parse n env (G_postfix_loop [Node NODE_SYS_FUNC 0 None False 0 [a]]) p1 \<and> parser_at vars ts (k + 1) p1"
    using p1(1) p2(1) by (auto simp: proc_postfix_loop_def)
qed

lemma parses_call:
  assumes t: "tk_type t \<noteq> TK_right_paren" and as: "parses env vars G_params (t # ts) k as (tok TK_right_paren # ts1) k1" and k: "k1 < FINSH_NODE_MAX"
    and l: "parses env vars (G_postfix_loop [Node NODE_SYS_FUNC 0 None False 0 (a # as)]) ts1 (k1 + 1) r ts2 k2"
  shows "parses env vars (G_postfix_loop [a]) (tok TK_left_paren # t # ts) k r ts2 k2"
proof (rule parses_body, rule goes_on_bind [OF as [folded goes_on_parse]])
  let ?f = "\<lambda>n params p. let (postfix, p) = make_sys_node NODE_SYS_FUNC [a] params (match_token TK_right_paren p)
      in parse n env (G_postfix_loop postfix) p"
  show "goes_on (\<lambda>n. ?f n as) vars (tok TK_right_paren # ts1) k1 r ts2 k2"
  proof (rule goes_on_step [OF l [folded goes_on_parse]])
    fix n p assume "parser_at vars (tok TK_right_paren # ts1) k1 p"
    then have "parser_at vars ts1 k1 (match_token TK_right_paren p)" by (rule match_ok) (simp add: tok_def)
    then show "\<exists>p1. ?f n as p = parse n env (G_postfix_loop [Node NODE_SYS_FUNC 0 None False 0 (a # as)]) p1 \<and> parser_at vars ts1 (k1 + 1) p1"
      by (rule make_node [OF _ k, of vars ts1 _ NODE_SYS_FUNC a "[]" as]) auto
  qed
  fix n p assume "parser_at vars (tok TK_left_paren # t # ts) k p"
  then obtain p1 where p1: "finsh_token_token p = (TK_left_paren, p1)" "parser_at vars (t # ts) k p1"
    by (rule next_token) (simp add: tok_def)
  from p1(2) obtain p2 where p2: "finsh_token_token p1 = (tk_type t, p2)" "parser_at vars (t # ts) k (finsh_token_replay p2)"
    by (rule next_token)
  then show "\<exists>p1. parse (Suc n) env (G_postfix_loop [a]) p = Option.bind (parse n env G_params p1) (\<lambda>(r, p). ?f n r p) \<and> parser_at vars (t # ts) k p1"
    by (auto simp: proc_postfix_loop_def p1(1) t split_beta Let_def Option.bind_assoc intro!: exI [of _ "finsh_token_replay p2"] arg_cong [where f = "Option.bind _"])
qed


section \<open>Expressions without parentheses\<close>

text \<open>The token does not go on an expression of level \<open>l\<close> or above.\<close>

definition ends :: "nat \<Rightarrow> finsh_token \<Rightarrow> bool" where
  "ends l t \<longleftrightarrow> no_postfix (tk_type t) \<and> (\<forall>m. l \<le> m \<longrightarrow> m \<le> 6 \<longrightarrow> level_op m (tk_type t) = None)"

lemma ends_mono: "ends l t \<Longrightarrow> l \<le> m \<Longrightarrow> ends m t"
  by (simp add: ends_def)

lemma level_op_token: "level_op l (op_token f) = (if l = op_level f then Some f else None)"
  by (cases f) auto

lemma ends_op: "ends (Suc (op_level f)) (tok (op_token f))"
  by (cases f) (auto simp: ends_def tok_def no_postfix_def)

lemma op_level_bounds: "1 \<le> op_level f" "op_level f \<le> 6"
  by (cases f; simp)+

lemma expr_level_le: "expr_level e \<le> 7"
  by (cases e) (use op_level_bounds(2) in \<open>auto intro: le_SucI simp: eval_nat_numeral\<close>)

text \<open>What is proved of an expression, with the tables and names fixed: as the operand of a unary operator.\<close>


definition cast_ok :: "finsh_env \<Rightarrow> (string \<times> finsh_type) list \<Rightarrow> (ident \<Rightarrow> string) \<Rightarrow> (u32 \<Rightarrow> string) \<Rightarrow> expr \<Rightarrow> bool" where
  "cast_ok env vars nm st e \<longleftrightarrow> (\<forall>t rest k. no_postfix (tk_type t) \<longrightarrow> k + node_count e \<le> FINSH_NODE_MAX \<longrightarrow>
     parses env vars G_cast (write_expr nm st e @ t # rest) k [node_of e] (t # rest) (k + node_count e))"

text \<open>At level \<open>l\<close> the expression is read, and the loop of the level goes on.\<close>

definition binary_ok :: "finsh_env \<Rightarrow> (string \<times> finsh_type) list \<Rightarrow> (ident \<Rightarrow> string) \<Rightarrow> (u32 \<Rightarrow> string) \<Rightarrow> nat \<Rightarrow> expr \<Rightarrow> bool" where
  "binary_ok env vars nm st l e \<longleftrightarrow> (\<forall>t rest k r ts k'. ends (l + 1) t \<longrightarrow> k + node_count e \<le> FINSH_NODE_MAX \<longrightarrow>
     parses env vars (G_binary_loop l [node_of e]) (t # rest) (k + node_count e) r ts k' \<longrightarrow>
     parses env vars (G_binary l) (write_expr nm st e @ t # rest) k r ts k')"

definition expr_ok :: "finsh_env \<Rightarrow> (string \<times> finsh_type) list \<Rightarrow> (ident \<Rightarrow> string) \<Rightarrow> (u32 \<Rightarrow> string) \<Rightarrow> expr \<Rightarrow> bool" where
  "expr_ok env vars nm st e \<longleftrightarrow> (\<forall>t rest k. ends 1 t \<longrightarrow> tk_type t \<noteq> TK_assign \<longrightarrow> k + node_count e \<le> FINSH_NODE_MAX \<longrightarrow>
     parses env vars G_assign (write_expr nm st e @ t # rest) k [node_of e] (t # rest) (k + node_count e))"

lemma binary_complete:
  assumes "binary_ok env vars nm st l e" "ends l t" "k + node_count e \<le> FINSH_NODE_MAX" "l \<le> 6"
  shows "parses env vars (G_binary l) (write_expr nm st e @ t # rest) k [node_of e] (t # rest) (k + node_count e)"
proof -
  have "level_op l (tk_type t) = None" using assms(2,4) by (simp add: ends_def)
  from parses_loop_done [OF this] show ?thesis
    using assms(1,3) ends_mono [OF assms(2), of "l + 1"] unfolding binary_ok_def by auto
qed

lemma binary_6: "cast_ok env vars nm st e \<Longrightarrow> binary_ok env vars nm st 6 e"
  unfolding binary_ok_def cast_ok_def
  by (intro allI impI, rule parses_binary) (auto simp: operand_def ends_def)

lemma binary_down:
  assumes "binary_ok env vars nm st (l + 1) e" "l < 6"
  shows "binary_ok env vars nm st l e"
  unfolding binary_ok_def
proof (intro allI impI)
  fix t rest k r ts k'
  assume t: "ends (l + 1) t" and k: "k + node_count e \<le> FINSH_NODE_MAX"
    and l: "parses env vars (G_binary_loop l [node_of e]) (t # rest) (k + node_count e) r ts k'"
  have "parses env vars (operand l) (write_expr nm st e @ t # rest) k [node_of e] (t # rest) (k + node_count e)"
    using binary_complete [OF assms(1) t k] assms(2) by (simp add: operand_def)
  then show "parses env vars (G_binary l) (write_expr nm st e @ t # rest) k r ts k'" using l by (rule parses_binary)
qed

lemma binary_le: "binary_ok env vars nm st m e \<Longrightarrow> l \<le> m \<Longrightarrow> m \<le> 6 \<Longrightarrow> binary_ok env vars nm st l e"
proof (induction "m - l" arbitrary: l)
  case (Suc d)
  then have "binary_ok env vars nm st (l + 1) e" by auto
  then show ?case using binary_down Suc by simp
qed simp

lemma operand_ok:
  assumes "op_level f < expr_level e" "expr_level e = 7 \<Longrightarrow> cast_ok env vars nm st e" "expr_level e \<le> 6 \<Longrightarrow> binary_ok env vars nm st (expr_level e) e"
    and t: "ends (op_level f + 1) t" and k: "k + node_count e \<le> FINSH_NODE_MAX"
  shows "parses env vars (operand (op_level f)) (write_expr nm st e @ t # rest) k [node_of e] (t # rest) (k + node_count e)"
proof (cases "op_level f = 6")
  case True
  then have "cast_ok env vars nm st e" using assms(1,2) expr_level_le [of e] by simp
  then show ?thesis using t k True by (simp add: cast_ok_def operand_def ends_def)
next
  case False
  then have l: "op_level f + 1 \<le> 6" using op_level_bounds(2) [of f] by simp
  have "binary_ok env vars nm st (op_level f + 1) e"
  proof (cases "expr_level e \<le> 6")
    case True
    from binary_le [OF assms(3) [OF True] _ True] show ?thesis using assms(1) by simp
  next
    case False
    then have "cast_ok env vars nm st e" using assms(2) expr_level_le [of e] by simp
    from binary_le [OF binary_6 [OF this] l] show ?thesis by simp
  qed
  then show ?thesis using binary_complete [of env vars nm st "op_level f + 1" e t k] t k l False by (simp add: operand_def)
qed

lemma binary_EBin:
  assumes a: "binary_ok env vars nm st (op_level f) a" and b: "op_level f < expr_level b" "expr_level b = 7 \<Longrightarrow> cast_ok env vars nm st b" "expr_level b \<le> 6 \<Longrightarrow> binary_ok env vars nm st (expr_level b) b"
  shows "binary_ok env vars nm st (op_level f) (EBin f a b)"
  unfolding binary_ok_def
proof (intro allI impI)
  fix t rest k r ts k'
  let ?l = "op_level f" and ?k = "k + node_count a"
  assume t: "ends (?l + 1) t" and k: "k + node_count (EBin f a b) \<le> FINSH_NODE_MAX"
    and l: "parses env vars (G_binary_loop ?l [node_of (EBin f a b)]) (t # rest) (k + node_count (EBin f a b)) r ts k'"
  have "parses env vars (operand ?l) (write_expr nm st b @ t # rest) ?k [node_of b] (t # rest) (?k + node_count b)"
    by (rule operand_ok [OF b t]) (use k in simp_all)
  then have "parses env vars (G_binary_loop ?l [node_of a]) (tok (op_token f) # write_expr nm st b @ t # rest) ?k r ts k'"
    by (rule parses_loop_op [rotated]) (use k l in \<open>simp_all add: tok_def level_op_token new_node_def add.commute add.left_commute\<close>)
  then show "parses env vars (G_binary ?l) (write_expr nm st (EBin f a b) @ t # rest) k r ts k'"
    using a ends_op [of f] k unfolding binary_ok_def by auto
qed


lemma binary_from_cast:
  assumes "expr_level e = 7 \<Longrightarrow> cast_ok env vars nm st e" "expr_level e \<le> 6 \<Longrightarrow> binary_ok env vars nm st (expr_level e) e"
    and "l \<le> expr_level e" "l \<le> 6"
  shows "binary_ok env vars nm st l e"
proof (cases "expr_level e \<le> 6")
  case True
  from binary_le [OF assms(2) [OF True] assms(3) True] show ?thesis .
next
  case False
  then have "cast_ok env vars nm st e" using assms(1) expr_level_le [of e] by simp
  from binary_le [OF binary_6 [OF this] assms(4)] show ?thesis by simp
qed

lemma expr_ok_binary: "binary_ok env vars nm st 1 e \<Longrightarrow> expr_ok env vars nm st e"
  unfolding expr_ok_def
  by (intro allI impI, rule parses_assign_done) (auto intro: binary_complete)


lemma cast_value:
  assumes "write_expr nm st e = [t]" "node_count e = 1" "node_of e = new_value ty v"
    and "(tk_type t, ty) \<in> {(TK_value_int, NODE_VALUE_INT), (TK_value_long, NODE_VALUE_LONG)} \<and> v = tk_value t
      \<or> (tk_type t, ty) = (TK_value_char, NODE_VALUE_CHAR) \<and> v = ucast (ucast (tk_value t) :: u8)
      \<or> (tk_type t, ty) = (TK_value_null, NODE_VALUE_NULL) \<and> v = 0
      \<or> (tk_type t, ty) = (TK_value_string, NODE_VALUE_STRING) \<and> (\<forall>k. env_string env k (tk_string t) = Some v)"
  shows "cast_ok env vars nm st e"
  unfolding cast_ok_def assms(1-3)
proof (intro allI impI)
  fix t' :: finsh_token and rest k assume "no_postfix (tk_type t')" "k + 1 \<le> FINSH_NODE_MAX"
  then show "parses env vars G_cast ([t] @ t' # rest) k [new_value ty v] (t' # rest) (k + 1)"
    using parses_postfix [OF _ parses_value [OF assms(4)] parses_postfix_done] assms(4) by auto
qed

lemma cast_id:
  assumes "resolves env vars (nm i) i"
  shows "cast_ok env vars nm st (EId i)"
  unfolding cast_ok_def
proof (intro allI impI)
  fix t :: finsh_token and rest k assume "no_postfix (tk_type t)" "k + node_count (EId i) \<le> FINSH_NODE_MAX"
  then show "parses env vars G_cast (write_expr nm st (EId i) @ t # rest) k [node_of (EId i)] (t # rest) (k + node_count (EId i))"
    using parses_postfix [OF _ parses_identifier [OF assms] parses_postfix_done, of k t rest] by (simp add: tok_string_def)
qed

lemma cast_unary:
  assumes "cast_ok env vars nm st a"
    and "(tk_type u, ty) \<in> {(TK_inc, NODE_SYS_PREINC), (TK_dec, NODE_SYS_PREDEC), (TK_bitwise, NODE_SYS_BITWISE),
      (TK_mul, NODE_SYS_GETVALUE), (TK_and, NODE_SYS_GETADDR)}"
    and e: "write_expr nm st e = u # write_expr nm st a" "node_count e = 1 + node_count a" "node_of e = new_node ty [node_of a]"
  shows "cast_ok env vars nm st e"
  unfolding cast_ok_def e
proof (intro allI impI)
  fix t :: finsh_token and rest k assume t: "no_postfix (tk_type t)" and k: "k + (1 + node_count a) \<le> FINSH_NODE_MAX"
  have "parses env vars G_cast (write_expr nm st a @ t # rest) k [node_of a] (t # rest) (k + node_count a)"
    using assms(1) t k by (simp add: cast_ok_def)
  from parses_unary_op [OF assms(2) this] k
  show "parses env vars G_cast ((u # write_expr nm st a) @ t # rest) k [new_node ty [node_of a]] (t # rest) (k + (1 + node_count a))"
    by (simp add: new_node_def)
qed

lemma cast_post:
  assumes "resolves env vars (nm i) i"
  shows "cast_ok env vars nm st (EPost up i)"
  unfolding cast_ok_def
proof (intro allI impI)
  let ?ty = "if up then NODE_SYS_INC else NODE_SYS_DEC" and ?u = "tok (if up then TK_inc else TK_dec)"
  fix t :: finsh_token and rest k assume t: "no_postfix (tk_type t)" and k: "k + node_count (EPost up i) \<le> FINSH_NODE_MAX"
  have "parses env vars (G_postfix_loop [new_id i]) (?u # t # rest) (k + 1) [new_node ?ty [new_id i]] (t # rest) (k + 1 + 1)"
    by (rule parses_postfix_op [where ty = ?ty])
      (use k parses_postfix_done [OF t] in \<open>auto simp: tok_def new_node_def\<close>)
  from parses_postfix [OF _ parses_identifier [OF assms] this] k
  show "parses env vars G_cast (write_expr nm st (EPost up i) @ t # rest) k [node_of (EPost up i)] (t # rest) (k + node_count (EPost up i))"
    by (simp add: tok_string_def new_node_def)
qed

text \<open>The arguments of a call.\<close>

lemma params_ok:
  assumes "\<And>a. a \<in> set as \<Longrightarrow> expr_ok env vars nm st a" "k + sum_list (map node_count as) \<le> FINSH_NODE_MAX"
  shows "parses env vars (G_param_loop ps) ((if as = [] then [] else tok TK_comma # write_args nm st as) @ tok TK_right_paren # ts) k
    (ps @ map node_of as) (tok TK_right_paren # ts) (k + sum_list (map node_count as))"
  using assms
proof (induction as arbitrary: ps k)
  case Nil
  then show ?case using parses_param_done [of "tok TK_right_paren"] by (simp add: tok_def)
next
  case (Cons a as)
  let ?rest = "(if as = [] then [] else tok TK_comma # write_args nm st as) @ tok TK_right_paren # ts"
  have IH: "parses env vars (G_param_loop (ps @ [node_of a])) ?rest (k + node_count a) ((ps @ [node_of a]) @ map node_of as)
      (tok TK_right_paren # ts) (k + node_count a + sum_list (map node_count as))"
    by (rule Cons.IH) (use Cons.prems in auto)
  obtain t rest where r: "?rest = t # rest" "ends 1 t" "tk_type t \<noteq> TK_assign"
    by (cases "as = []") (auto simp: tok_def ends_def no_postfix_def)
  have "parses env vars G_assign (write_expr nm st a @ ?rest) k [node_of a] ?rest (k + node_count a)"
    using Cons.prems r(2,3) unfolding r(1) by (auto simp: expr_ok_def)
  from parses_param_step [OF this IH] show ?case by (simp add: add.assoc)
qed

lemma write_expr_Cons:
  obtains t ts where "write_expr nm st e = t # ts" "tk_type t \<noteq> TK_right_paren"
proof -
  have "write_expr nm st e \<noteq> [] \<and> tk_type (hd (write_expr nm st e)) \<noteq> TK_right_paren"
    by (induction e) (auto simp: tok_def tok_value_def tok_string_def)
  then show thesis using that by (cases "write_expr nm st e") auto
qed

lemma params_all:
  assumes "\<And>x. x \<in> set (a # as) \<Longrightarrow> expr_ok env vars nm st x" "k + sum_list (map node_count (a # as)) \<le> FINSH_NODE_MAX"
  shows "parses env vars G_params (write_args nm st (a # as) @ tok TK_right_paren # ts) k
    (map node_of (a # as)) (tok TK_right_paren # ts) (k + sum_list (map node_count (a # as)))"
proof -
  let ?rest = "(if as = [] then [] else tok TK_comma # write_args nm st as) @ tok TK_right_paren # ts"
  have l: "parses env vars (G_param_loop [node_of a]) ?rest (k + node_count a) ([node_of a] @ map node_of as)
      (tok TK_right_paren # ts) (k + node_count a + sum_list (map node_count as))"
    by (rule params_ok) (use assms in auto)
  obtain t rest where r: "?rest = t # rest" "ends 1 t" "tk_type t \<noteq> TK_assign"
    by (cases "as = []") (auto simp: tok_def ends_def no_postfix_def)
  have "parses env vars G_assign (write_expr nm st a @ ?rest) k [node_of a] ?rest (k + node_count a)"
    using assms r(2,3) unfolding r(1) by (auto simp: expr_ok_def)
  from parses_params [OF this l] show ?thesis by (simp add: add.assoc)
qed

lemma cast_call:
  assumes f: "resolves env vars (nm f) f" and as: "\<And>a. a \<in> set as \<Longrightarrow> expr_ok env vars nm st a"
  shows "cast_ok env vars nm st (ECall f as)"
  unfolding cast_ok_def
proof (intro allI impI)
  fix t :: finsh_token and rest k assume t: "no_postfix (tk_type t)" and k: "k + node_count (ECall f as) \<le> FINSH_NODE_MAX"
  let ?r = "[new_node NODE_SYS_FUNC (new_id f # map node_of as)]" and ?n = "k + 1 + sum_list (map node_count as)"
  note d = parses_postfix_done [OF t, of env vars ?r rest "?n + 1"]
  have "parses env vars (G_postfix_loop [new_id f]) (tok TK_left_paren # write_args nm st as @ tok TK_right_paren # t # rest) (k + 1)
      ?r (t # rest) (?n + 1)"
  proof (cases as)
    case Nil
    then show ?thesis using parses_call_empty [of "k + 1" env vars "new_id f" "t # rest"] d k by (simp add: new_node_def)
  next
    case (Cons a bs)
    obtain u us where u: "write_expr nm st a = u # us" "tk_type u \<noteq> TK_right_paren" by (rule write_expr_Cons)
    then obtain us' where w: "write_args nm st (a # bs) @ tok TK_right_paren # t # rest = u # us'" by simp
    have "parses env vars G_params (write_args nm st (a # bs) @ tok TK_right_paren # t # rest) (k + 1)
      (map node_of (a # bs)) (tok TK_right_paren # t # rest) (k + 1 + sum_list (map node_count (a # bs)))"
      by (rule params_all) (use as k Cons in auto)
    from parses_call [OF u(2) this [unfolded w], of "new_id f"] d k show ?thesis
      unfolding Cons w by (simp add: new_node_def)
  qed
  from parses_postfix [OF _ parses_identifier [OF f] this] k
  show "parses env vars G_cast (write_expr nm st (ECall f as) @ t # rest) k [node_of (ECall f as)] (t # rest) (k + node_count (ECall f as))"
    by (simp add: tok_string_def new_node_def add.commute add.left_commute)
qed


text \<open>All of it, by induction on the expression.\<close>

definition reads :: "finsh_env \<Rightarrow> (string \<times> finsh_type) list \<Rightarrow> (ident \<Rightarrow> string) \<Rightarrow> (u32 \<Rightarrow> string) \<Rightarrow> expr \<Rightarrow> bool" where
  "reads env vars nm st e \<longleftrightarrow> (expr_level e = 7 \<longrightarrow> cast_ok env vars nm st e)
     \<and> (1 \<le> expr_level e \<longrightarrow> expr_level e \<le> 6 \<longrightarrow> binary_ok env vars nm st (expr_level e) e) \<and> expr_ok env vars nm st e"

lemma reads_cast:
  assumes "cast_ok env vars nm st e" "expr_level e = 7"
  shows "reads env vars nm st e"
  using assms expr_ok_binary [OF binary_from_cast [of e env vars nm st 1]] by (simp add: reads_def)

lemma reads_binary:
  assumes "binary_ok env vars nm st (expr_level e) e" "1 \<le> expr_level e" "expr_level e \<le> 6"
  shows "reads env vars nm st e"
  using assms expr_ok_binary [OF binary_from_cast [of e env vars nm st 1]] by (simp add: reads_def)

text \<open>An assignment, to an operand of level 7.\<close>

lemma reads_assign:
  assumes a: "cast_ok env vars nm st a" and b: "expr_ok env vars nm st b"
    and e: "write_expr nm st e = write_expr nm st a @ tok TK_assign # write_expr nm st b"
      "node_count e = 1 + node_count a + node_count b" "node_of e = new_node NODE_SYS_ASSIGN [node_of a, node_of b]" "expr_level e = 0"
  shows "reads env vars nm st e"
  unfolding reads_def
proof (intro conjI impI)
  show "expr_ok env vars nm st e" unfolding expr_ok_def e(1-3)
  proof (intro allI impI)
    fix t :: finsh_token and rest k assume t: "ends 1 t" "tk_type t \<noteq> TK_assign" and k: "k + (1 + node_count a + node_count b) \<le> FINSH_NODE_MAX"
    have 1: "binary_ok env vars nm st 1 a" by (rule binary_le [OF binary_6 [OF a]]) simp_all
    have ea: "ends 1 (tok TK_assign)" by (simp add: ends_def tok_def no_postfix_def)
    have l: "parses env vars (G_binary 1) (write_expr nm st a @ tok TK_assign # write_expr nm st b @ t # rest) k [node_of a]
        (tok TK_assign # write_expr nm st b @ t # rest) (k + node_count a)"
      by (rule binary_complete [OF 1 ea]) (use k in simp_all)
    have r: "parses env vars G_assign (write_expr nm st b @ t # rest) (k + node_count a) [node_of b] (t # rest) (k + node_count a + node_count b)"
      using b t k by (simp add: expr_ok_def)
    from parses_assign_op [OF l r] k
    show "parses env vars G_assign ((write_expr nm st a @ tok TK_assign # write_expr nm st b) @ t # rest) k
        [new_node NODE_SYS_ASSIGN [node_of a, node_of b]] (t # rest) (k + (1 + node_count a + node_count b))"
      by (simp add: new_node_def add.assoc)
  qed
qed (use e(4) in simp_all)

lemma reads_expr: "no_parens e \<Longrightarrow> names_ok env vars nm st e \<Longrightarrow> reads env vars nm st e"
proof (induction e)
  case (EChar c)
  have "cast_ok env vars nm st (EChar c)"
    by (intro cast_value [where t = "tok_value TK_value_char (ucast c)" and ty = NODE_VALUE_CHAR and v = "ucast c"])
      (simp_all add: tok_value_def)
  then show ?case by (rule reads_cast) simp
next
  case (EInt v)
  have "cast_ok env vars nm st (EInt v)"
    by (intro cast_value [where t = "tok_value TK_value_int v" and ty = NODE_VALUE_INT and v = v])
      (simp_all add: tok_value_def)
  then show ?case by (rule reads_cast) simp
next
  case (ELong v)
  have "cast_ok env vars nm st (ELong v)"
    by (intro cast_value [where t = "tok_value TK_value_long v" and ty = NODE_VALUE_LONG and v = v])
      (simp_all add: tok_value_def)
  then show ?case by (rule reads_cast) simp
next
  case (EString v)
  then have "cast_ok env vars nm st (EString v)"
    by (intro cast_value [where t = "tok_string TK_value_string (st v)" and ty = NODE_VALUE_STRING and v = v])
      (simp_all add: tok_string_def)
  then show ?case by (rule reads_cast) simp
next
  case ENull
  have "cast_ok env vars nm st ENull"
    by (intro cast_value [where t = "tok TK_value_null" and ty = NODE_VALUE_NULL and v = 0])
      (simp_all add: tok_def)
  then show ?case by (rule reads_cast) simp
next
  case (EId i)
  then show ?case by (intro reads_cast cast_id) simp_all
next
  case (EAddr i)
  then have "cast_ok env vars nm st (EId i)" by (intro cast_id) simp
  then show ?case by (rule reads_cast [OF cast_unary]) (simp_all add: tok_def)
next
  case (EBin f a b)
  then have r: "reads env vars nm st a" "reads env vars nm st b" and l: "op_level f \<le> expr_level a" "op_level f < expr_level b"
    by simp_all
  have "binary_ok env vars nm st (op_level f) a"
    by (rule binary_from_cast) (use r(1) l(1) op_level_bounds [of f] in \<open>simp_all add: reads_def\<close>)
  then have "binary_ok env vars nm st (op_level f) (EBin f a b)"
    by (rule binary_EBin) (use r(2) l(2) op_level_bounds [of f] in \<open>simp_all add: reads_def\<close>)
  then show ?case using op_level_bounds [of f] by (intro reads_binary) simp_all
next
  case (ECompl a)
  then have "cast_ok env vars nm st a" by (simp add: reads_def)
  then show ?case by (rule reads_cast [OF cast_unary]) (simp_all add: tok_def)
next
  case (EDeref a)
  then have "cast_ok env vars nm st a" by (simp add: reads_def)
  then show ?case by (rule reads_cast [OF cast_unary]) (simp_all add: tok_def)
next
  case (EAssign i a)
  then have "cast_ok env vars nm st (EId i)" "expr_ok env vars nm st a" by (auto simp: reads_def intro: cast_id)
  then show ?case by (rule reads_assign) simp_all
next
  case (EStore a b)
  then have a: "cast_ok env vars nm st a" and b: "expr_ok env vars nm st b" by (simp_all add: reads_def)
  from a have "cast_ok env vars nm st (EDeref a)" by (rule cast_unary) (simp_all add: tok_def)
  then show ?case by (rule reads_assign [OF _ b]) simp_all
next
  case (EPre up i)
  then have "cast_ok env vars nm st (EId i)" by (intro cast_id) simp
  then show ?case by (rule reads_cast [OF cast_unary]) (simp_all add: tok_def)
next
  case (EPost up i)
  then show ?case by (intro reads_cast cast_post) simp_all
next
  case (ECall f as)
  then show ?case by (intro reads_cast cast_call) (simp_all add: reads_def)
qed


section \<open>Lines\<close>

definition write_line :: "(ident \<Rightarrow> string) \<Rightarrow> (u32 \<Rightarrow> string) \<Rightarrow> expr list \<Rightarrow> finsh_token list" where
  "write_line nm st es = concat (map (\<lambda>e. write_expr nm st e @ [tok TK_semicolon]) es)"

lemma write_line_simps [simp]:
  "write_line nm st [] = []"
  "write_line nm st (e # es) = write_expr nm st e @ tok TK_semicolon # write_line nm st es"
  by (simp_all add: write_line_def)

text \<open>A token that begins an expression begins no declaration and does not end the line.\<close>

lemma write_expr_first:
  obtains t ts where "write_expr nm st e = t # ts"
    "tk_type t \<notin> {TK_semicolon, TK_eof, TK_bad, TK_unsigned}" "\<not> is_base_type (tk_type t)"
proof -
  have "write_expr nm st e \<noteq> [] \<and> tk_type (hd (write_expr nm st e)) \<notin> {TK_semicolon, TK_eof, TK_bad, TK_unsigned}
      \<and> \<not> is_base_type (tk_type (hd (write_expr nm st e)))"
    by (induction e) (auto simp: tok_def tok_value_def tok_string_def is_base_type_def)
  then show thesis using that by (cases "write_expr nm st e") auto
qed

text \<open>One statement.\<close>

lemma statement_parses:
  assumes "reads env vars nm st e" "k + node_count e \<le> FINSH_NODE_MAX"
  shows "\<exists>d. \<forall>n \<ge> d. \<forall>p. parser_at vars (write_expr nm st e @ tok TK_semicolon # ts) k p \<longrightarrow>
    (\<exists>p'. proc_expr_statement (parse n env) p = Some ([node_of e], p') \<and> parser_at vars ts (k + node_count e) p')"
proof -
  have "ends 1 (tok TK_semicolon)" by (auto simp: ends_def tok_def no_postfix_def)
  then have "parses env vars G_assign (write_expr nm st e @ tok TK_semicolon # ts) k [node_of e] (tok TK_semicolon # ts) (k + node_count e)"
    using assms by (simp add: reads_def expr_ok_def tok_def)
  then obtain d where d: "\<And>n p. d \<le> n \<Longrightarrow> parser_at vars (write_expr nm st e @ tok TK_semicolon # ts) k p \<Longrightarrow>
      \<exists>p'. parse n env G_assign p = Some ([node_of e], p') \<and> parser_at vars (tok TK_semicolon # ts) (k + node_count e) p'"
    unfolding parses_def by blast
  show ?thesis
  proof (intro exI [of _ d] allI impI)
    fix n p assume n: "d \<le> n" and p: "parser_at vars (write_expr nm st e @ tok TK_semicolon # ts) k p"
    obtain t us where t: "write_expr nm st e = t # us" "tk_type t \<noteq> TK_semicolon" by (rule write_expr_first) auto
    from p have "parser_at vars (t # us @ tok TK_semicolon # ts) k p" by (simp add: t(1))
    then obtain p1 where p1: "finsh_token_token p = (tk_type t, p1)"
        "parser_at vars (write_expr nm st e @ tok TK_semicolon # ts) k (finsh_token_replay p1)"
      by (rule next_token) (simp add: t(1))
    from d [OF n p1(2)] obtain p2 where p2: "parse n env G_assign (finsh_token_replay p1) = Some ([node_of e], p2)"
        "parser_at vars (tok TK_semicolon # ts) (k + node_count e) p2" by blast
    from match_ok [OF p2(2)] have "parser_at vars ts (k + node_count e) (match_token TK_semicolon p2)" by (simp add: tok_def)
    then show "\<exists>p'. proc_expr_statement (parse n env) p = Some ([node_of e], p') \<and> parser_at vars ts (k + node_count e) p'"
      using t(2) by (simp add: proc_expr_statement_def p1(1) p2(1))
  qed
qed

lemma end_of_input:
  assumes "parser_at vars [] k p"
  obtains p' where "finsh_token_token p = (TK_eof, p')" "parser_at vars [] k p'"
proof (rule that)
  show "finsh_token_token p = (TK_eof, snd (finsh_token_token p))" "parser_at vars [] k (snd (finsh_token_token p))"
    using assms by (auto simp: parser_at_def stream_def finsh_token_token_def split: if_splits)
qed

text \<open>The loop over the statements, from the state before the token that it has read.\<close>

lemma loop_parses:
  assumes "\<And>e. e \<in> set es \<Longrightarrow> reads env vars nm st e" "k + sum_list (map node_count es) \<le> FINSH_NODE_MAX"
  shows "\<exists>d. \<forall>n \<ge> d. \<forall>p. parser_at vars (write_line nm st es) k p \<longrightarrow>
    (\<exists>p'. (case finsh_token_token p of (token, p) \<Rightarrow> parser_loop n env root (length root - 1) token p) = Some (root @ map node_of es, p')
      \<and> parser_at vars [] (k + sum_list (map node_count es)) p')"
  using assms
proof (induction es arbitrary: root k)
  case Nil
  show ?case
  proof (intro exI [of _ 1] allI impI)
    fix n p assume "(1::nat) \<le> n" "parser_at vars (write_line nm st []) k p"
    then obtain m where m: "n = Suc m" and e: "parser_at vars [] k p" by (cases n) auto
    from e obtain p' where "finsh_token_token p = (TK_eof, p')" "parser_at vars [] k p'" by (rule end_of_input)
    with m show "\<exists>p'. (case finsh_token_token p of (token, p) \<Rightarrow> parser_loop n env root (length root - 1) token p)
        = Some (root @ map node_of [], p') \<and> parser_at vars [] (k + sum_list (map node_count [])) p'"
      by simp
  qed
next
  case (Cons e es)
  let ?k = "k + node_count e"
  have e: "reads env vars nm st e" "?k \<le> FINSH_NODE_MAX" using Cons.prems by auto
  from statement_parses [OF e, of "write_line nm st es"] obtain d1 where
    d1: "\<And>n p. d1 \<le> n \<Longrightarrow> parser_at vars (write_line nm st (e # es)) k p \<Longrightarrow>
      \<exists>p'. proc_expr_statement (parse n env) p = Some ([node_of e], p') \<and> parser_at vars (write_line nm st es) ?k p'" by auto
  have "\<exists>d. \<forall>n \<ge> d. \<forall>p. parser_at vars (write_line nm st es) ?k p \<longrightarrow>
    (\<exists>p'. (case finsh_token_token p of (token, p) \<Rightarrow> parser_loop n env (root @ [node_of e]) (length (root @ [node_of e]) - 1) token p)
        = Some ((root @ [node_of e]) @ map node_of es, p') \<and> parser_at vars [] (?k + sum_list (map node_count es)) p')"
    by (rule Cons.IH) (use Cons.prems in auto)
  then obtain d2 where d2: "\<And>n p. d2 \<le> n \<Longrightarrow> parser_at vars (write_line nm st es) ?k p \<Longrightarrow>
    \<exists>p'. (case finsh_token_token p of (token, p) \<Rightarrow> parser_loop n env (root @ [node_of e]) (length root) token p)
        = Some (root @ map node_of (e # es), p') \<and> parser_at vars [] (k + sum_list (map node_count (e # es))) p'"
    by (auto simp: add.assoc)
  show ?case
  proof (intro exI [of _ "Suc (max d1 d2)"] allI impI)
    fix n p assume n: "Suc (max d1 d2) \<le> n" and p: "parser_at vars (write_line nm st (e # es)) k p"
    then obtain m where m: "n = Suc m" "d1 \<le> m" "d2 \<le> m" by (cases n) auto
    obtain t us where t: "write_expr nm st e = t # us" "tk_type t \<notin> {TK_semicolon, TK_eof, TK_bad, TK_unsigned}"
        "\<not> is_base_type (tk_type t)" by (rule write_expr_first)
    from p have "parser_at vars (t # us @ tok TK_semicolon # write_line nm st es) k p" by (simp add: t(1))
    then obtain p1 where p1: "finsh_token_token p = (tk_type t, p1)" "parser_at vars (write_line nm st (e # es)) k (finsh_token_replay p1)"
      by (rule next_token) (simp add: t(1))
    from d1 [OF m(2) p1(2)] obtain p2 where p2: "proc_expr_statement (parse m env) (finsh_token_replay p1) = Some ([node_of e], p2)"
        "parser_at vars (write_line nm st es) ?k p2" by blast
    have "parser_loop n env root (length root - 1) (tk_type t) p1
        = (case finsh_token_token p2 of (token, p) \<Rightarrow> parser_loop m env (root @ [node_of e]) (length root) token p)"
      using t(2,3) by (cases root rule: rev_cases) (simp_all add: m(1) p2(1) Let_def)
    then show "\<exists>p'. (case finsh_token_token p of (token, p) \<Rightarrow> parser_loop n env root (length root - 1) token p)
        = Some (root @ map node_of (e # es), p') \<and> parser_at vars [] (k + sum_list (map node_count (e # es))) p'"
      using d2 [OF m(3) p2(2)] by (simp add: p1(1) del: parser_loop.simps)
  qed
qed


lemma flush_at: "\<forall>t \<in> set ts. tk_error t = None \<Longrightarrow> parser_at vars ts 0 (finsh_flush ts vars)"
  by (simp add: parser_at_def stream_def finsh_flush_def)

lemma write_line_errors: "\<forall>t \<in> set (write_line nm st es). tk_error t = None"
proof -
  have e: "\<forall>t \<in> set (write_expr nm st e). tk_error t = None" for e
  proof (induction e)
    case (ECall f as)
    then have "\<forall>t \<in> set (write_args nm st as). tk_error t = None" by (induction as) (auto simp: tok_def)
    then show ?case by (auto simp: tok_def tok_string_def)
  qed (auto simp: tok_def tok_value_def tok_string_def)
  show ?thesis by (induction es) (use e in \<open>auto simp: tok_def\<close>)
qed

text \<open>What a writer of lines has to keep: no parentheses for grouping, names that lead to their identifiers, and no more
  nodes than the table has.\<close>

definition line_ok :: "finsh_env \<Rightarrow> (string \<times> finsh_type) list \<Rightarrow> (ident \<Rightarrow> string) \<Rightarrow> (u32 \<Rightarrow> string) \<Rightarrow> expr list \<Rightarrow> bool" where
  "line_ok env vars nm st es \<longleftrightarrow>
     (\<forall>e \<in> set es. no_parens e \<and> names_ok env vars nm st e) \<and> sum_list (map node_count es) \<le> FINSH_NODE_MAX"

lemma parser_run_parses:
  assumes "line_ok env vars nm st es"
  shows "\<exists>d. \<forall>n \<ge> d. \<exists>p. finsh_parser_run n env (finsh_flush (write_line nm st es) vars) = Some (map node_of es, p)
    \<and> parser_at vars [] (sum_list (map node_count es)) p"
proof -
  have "\<exists>d. \<forall>n \<ge> d. \<forall>p. parser_at vars (write_line nm st es) 0 p \<longrightarrow>
    (\<exists>p'. (case finsh_token_token p of (token, p) \<Rightarrow> parser_loop n env [] (length ([] :: finsh_node list) - 1) token p)
      = Some ([] @ map node_of es, p') \<and> parser_at vars [] (0 + sum_list (map node_count es)) p')"
    by (rule loop_parses) (use assms in \<open>auto simp: line_ok_def intro: reads_expr\<close>)
  then obtain d where "\<And>n p. d \<le> n \<Longrightarrow> parser_at vars (write_line nm st es) 0 p \<Longrightarrow>
      \<exists>p'. finsh_parser_run n env p = Some (map node_of es, p') \<and> parser_at vars [] (sum_list (map node_count es)) p'"
    by (auto simp: finsh_parser_run_def)
  from this [OF _ flush_at [OF write_line_errors]] show ?thesis by blast
qed

text \<open>The parser undoes writing. From the tokens of a line of expression statements it builds the trees of the
  statements, in order, without an error: precedence and associativity of all operators, nested assignments, calls with
  their arguments, prefix and postfix operators. It takes one entry of the node table for every node.\<close>

theorem finsh_parser_roundtrip:
  assumes "line_ok env vars nm st es"
  shows "\<exists>d. \<forall>n \<ge> d. \<exists>p. finsh_parser_run n env (finsh_flush (write_line nm st es) vars) = Some (map node_of es, p)
    \<and> p_error p = FINSH_ERROR_OK \<and> p_variables p = vars \<and> p_nodes p = sum_list (map node_count es)"
  using parser_run_parses [OF assms] by (simp add: parser_at_def) blast

section \<open>From the tokens to the value\<close>




text \<open>The compiler on the trees, the machine on the code: the two halves of a line that fits and of one that does not.\<close>

lemma run_line_split:
  assumes "line_ok env vars nm st es"
  shows "\<exists>d. \<forall>n \<ge> d. finsh_run_line n env sys (write_line nm st es) vars vm
    = do { (e, vm) \<leftarrow> finsh_compiler_run (map node_of es) FINSH_ERROR_OK vm;
           vm \<leftarrow> (if e = FINSH_ERROR_OK then finsh_vm_run sys vm else Some vm);
           Some (e, vars, vm) }"
proof -
  from parser_run_parses [OF assms] obtain d where d: "\<And>n. d \<le> n \<Longrightarrow>
      \<exists>p. finsh_parser_run n env (finsh_flush (write_line nm st es) vars) = Some (map node_of es, p)
        \<and> p_error p = FINSH_ERROR_OK \<and> p_variables p = vars"
    unfolding parser_at_def by blast
  show ?thesis
  proof (intro exI [of _ d] allI impI)
    fix n assume "d \<le> n"
    from d [OF this] obtain p where "finsh_parser_run n env (finsh_flush (write_line nm st es) vars) = Some (map node_of es, p)"
      "p_error p = FINSH_ERROR_OK" "p_variables p = vars" by blast
    then show "finsh_run_line n env sys (write_line nm st es) vars vm
      = do { (e, vm) \<leftarrow> finsh_compiler_run (map node_of es) FINSH_ERROR_OK vm;
             vm \<leftarrow> (if e = FINSH_ERROR_OK then finsh_vm_run sys vm else Some vm);
             Some (e, vars, vm) }"
      by (simp add: finsh_run_line_def)
  qed
qed



text \<open>The variables of \<open>line0\<close>, declared as \<^verbatim>\<open>int n\<close> and \<^verbatim>\<open>char c\<close>, in the first two entries of the table, at 0x1000.\<close>

definition env0 :: finsh_env where
  "env0 = \<lparr> env_variables = 0x1000, env_sysvars = [], env_sysvar_items = [], env_syscalls = [], env_syscall_items = [],
     env_string = \<lambda>k s. None \<rparr>"

definition vars0 :: "(string \<times> finsh_type) list" where
  "vars0 = [(''n'', finsh_type_int), (''c'', finsh_type_char)]"

definition name0 :: "ident \<Rightarrow> string" where
  "name0 i = (if i = var_n then ''n'' else ''c'')"

lemma resolves0: "resolves env0 vars0 ''n'' var_n" "resolves env0 vars0 ''c'' var_c"
  by (simp_all add: resolves_def env0_def vars0_def same_name_def FINSH_NAME_MAX_def var_n_def var_c_def)

lemma line0_ok: "line_ok env0 vars0 name0 (\<lambda>p. []) line0"
proof -
  have "name0 var_n = ''n''" "name0 var_c = ''c''" by (simp_all add: name0_def var_n_def var_c_def)
  then show ?thesis using resolves0 by (simp add: line_ok_def line0_def FINSH_NODE_MAX_def)
qed

lemma finsh_parser_roundtrip_witness:
  "\<exists>d. \<forall>n \<ge> d. \<exists>p. finsh_parser_run n env0 (finsh_flush (write_line name0 (\<lambda>p. []) line0) vars0) = Some (map node_of line0, p)
    \<and> p_error p = FINSH_ERROR_OK \<and> p_variables p = vars0 \<and> p_nodes p = sum_list (map node_count line0)"
  by (rule finsh_parser_roundtrip [OF line0_ok])


text \<open>The code segment overflows from the keyboard. A line that the parser accepts and whose code is longer than the
  segment makes the compiler write behind it: no error is set, and what follows is undefined. Six times \<^verbatim>\<open>n++;\<close> is
  such a line.\<close>

theorem finsh_run_line_overruns:
  assumes "line_ok env vars nm st es" "\<And>e. e \<in> set es \<Longrightarrow> well_typed e" "FINSH_TEXT_MAX < length (line_code es)"
  shows "\<exists>d. \<forall>n \<ge> d. (\<exists>p. finsh_parser_run n env (finsh_flush (write_line nm st es) vars) = Some (map node_of es, p)
      \<and> p_error p = FINSH_ERROR_OK)
    \<and> finsh_run_line n env sys (write_line nm st es) vars vm = None"
proof -
  have "finsh_compiler_run (map node_of es) FINSH_ERROR_OK vm = None"
    using compile_overruns assms(2,3) by blast
  with run_line_split [OF assms(1), of sys vm] obtain d where
    d: "\<And>n. d \<le> n \<Longrightarrow> finsh_run_line n env sys (write_line nm st es) vars vm = None" by auto
  from parser_run_parses [OF assms(1)] obtain d' where d': "\<And>n. d' \<le> n \<Longrightarrow>
      \<exists>p. finsh_parser_run n env (finsh_flush (write_line nm st es) vars) = Some (map node_of es, p) \<and> p_error p = FINSH_ERROR_OK"
    unfolding parser_at_def by blast
  show ?thesis by (rule exI [of _ "max d d'"]) (use d d' in auto)
qed

lemma finsh_run_line_overruns_witness:
  "\<exists>d. \<forall>n \<ge> d. (\<exists>p. finsh_parser_run n env0 (finsh_flush (write_line name0 (\<lambda>p. []) (replicate 6 (EPost True var_n))) vars0)
      = Some (map node_of (replicate 6 (EPost True var_n)), p) \<and> p_error p = FINSH_ERROR_OK)
    \<and> finsh_run_line n env0 (\<lambda>f ps m. None) (write_line name0 (\<lambda>p. []) (replicate 6 (EPost True var_n))) vars0 vm0 = None"
proof (rule finsh_run_line_overruns)
  have "name0 var_n = ''n''" by (simp add: name0_def)
  then show "line_ok env0 vars0 name0 (\<lambda>p. []) (replicate 6 (EPost True var_n))"
    using resolves0 by (simp add: line_ok_def FINSH_NODE_MAX_def sum_list_replicate)
  show "FINSH_TEXT_MAX < length (line_code (replicate 6 (EPost True var_n)))"
    by (simp add: var_n_def FINSH_TEXT_MAX_def eval_nat_numeral code_change_def)
qed (auto simp: var_n_def is_var_def)

section \<open>Lines that the grammar allows\<close>

text \<open>Parentheses for grouping are refused: \<^verbatim>\<open>proc_cast_expr\<close> takes the first one for that of a cast, reports an unknown type and
  looks for the closing one at once, and nothing takes the error back. The line is \<^verbatim>\<open>(1);\<close>.\<close>

lemma grouping_refused:
  "map_option (\<lambda>(r, p). p_error p)
     (finsh_parser_run 40 env0 (finsh_flush [tok TK_left_paren, tok_value TK_value_int 1, tok TK_right_paren, tok TK_semicolon] vars0))
   = Some FINSH_ERROR_INVALID_TOKEN"
  by code_simp

text \<open>The initialisers of a declaration but the first are lost when a statement follows: of \<^verbatim>\<open>int a = 1, b = 2; a;\<close> the
  parser keeps the trees of \<^verbatim>\<open>a = 1\<close> and \<^verbatim>\<open>a\<close>, without an error.\<close>

lemma initialiser_lost:
  "map_option (\<lambda>(r, p). (map (\<lambda>t. case t of Node ty d i ad v ch \<Rightarrow> ty) r, p_error p, p_variables p))
     (finsh_parser_run 60 env0 (finsh_flush
       [tok TK_int, tok_string TK_identifier ''a'', tok TK_assign, tok_value TK_value_int 1, tok TK_comma,
        tok_string TK_identifier ''b'', tok TK_assign, tok_value TK_value_int 2, tok TK_semicolon,
        tok_string TK_identifier ''a'', tok TK_semicolon] (replicate 2 ([], finsh_type_unknown))))
   = Some ([NODE_SYS_ASSIGN, NODE_ID], FINSH_ERROR_OK, [(''a'', finsh_type_int), (''b'', finsh_type_int)])"
  by code_simp

end
