(* ===== verification/MqttPacket.thy ===== *)
theory MqttPacket
  imports Prelude "HOL-Library.Signed_Division"
begin

text \<open>
  The wire format of bsp/stm32f40x/mqtt/MQTTPacket.c: the remaining length, two-byte integers,
  strings, the header byte, and reading one packet from a stream. A buffer is the list of bytes of
  its object and a pointer into it an offset, so that a write or read outside the object is a fault;
  the parameter \<^verbatim>\<open>buflen\<close> is separate. Plain \<^verbatim>\<open>char\<close> is unsigned on ARM. \<open>put\<close> is what every
  writer comes down to.
\<close>

section \<open>Numbers, pointers, header byte\<close>

text \<open>Arithmetic on \<^verbatim>\<open>int\<close>; signed overflow is undefined.\<close>

definition c_int :: "int \<Rightarrow> int option" where
  "c_int x = (if - (2 ^ 31) \<le> x \<and> x < 2 ^ 31 then Some x else None)"

definition MQTTPACKET_BUFFER_TOO_SHORT :: int where "MQTTPACKET_BUFFER_TOO_SHORT = -2"
definition MQTTPACKET_READ_ERROR :: int where "MQTTPACKET_READ_ERROR = -1"

datatype msgTypes =
    CONNECT | CONNACK | PUBLISH | PUBACK | PUBREC | PUBREL | PUBCOMP
  | SUBSCRIBE | SUBACK | UNSUBSCRIBE | UNSUBACK | PINGREQ | PINGRESP | DISCONNECT

primrec msg_code :: "msgTypes \<Rightarrow> int" where
  "msg_code CONNECT = 1" | "msg_code CONNACK = 2" | "msg_code PUBLISH = 3" | "msg_code PUBACK = 4"
| "msg_code PUBREC = 5" | "msg_code PUBREL = 6" | "msg_code PUBCOMP = 7" | "msg_code SUBSCRIBE = 8"
| "msg_code SUBACK = 9" | "msg_code UNSUBSCRIBE = 10" | "msg_code UNSUBACK = 11" | "msg_code PINGREQ = 12"
| "msg_code PINGRESP = 13" | "msg_code DISCONNECT = 14"

text \<open>The bit-fields of the union \<^verbatim>\<open>MQTTHeader\<close>, first field in the lowest bits, and its byte.\<close>

record MQTTHeader =
  h_retain :: "1 word"
  h_qos :: "2 word"
  h_dup :: "1 word"
  h_type :: "4 word"

definition header_byte :: "MQTTHeader \<Rightarrow> u8" where
  "header_byte h = word_of_int (uint (h_retain h) + 2 * uint (h_qos h) + 8 * uint (h_dup h) + 16 * uint (h_type h))"

definition header_bits :: "u8 \<Rightarrow> MQTTHeader" where
  "header_bits b = \<lparr> h_retain = word_of_int (uint b), h_qos = word_of_int (uint b div 2),
     h_dup = word_of_int (uint b div 8), h_type = word_of_int (uint b div 16) \<rparr>"

definition header_zero :: MQTTHeader where
  "header_zero = \<lparr> h_retain = 0, h_qos = 0, h_dup = 0, h_type = 0 \<rparr>"

text \<open>A \<^verbatim>\<open>char *\<close>: into an object of its own, by the bytes from there to its end, or into the
  packet buffer at hand, by offset.\<close>

datatype cptr = Mem "u8 list" | Pkt int

record MQTTString =
  cstring :: "cptr option"
  lenstring_len :: int
  lenstring_data :: "cptr option"

definition MQTTString_initializer :: MQTTString where
  "MQTTString_initializer = \<lparr> cstring = None, lenstring_len = 0, lenstring_data = None \<rparr>"

fun bytes_at :: "u8 list \<Rightarrow> cptr \<Rightarrow> u8 list option" where
  "bytes_at buf (Mem bs) = Some bs"
| "bytes_at buf (Pkt p) = (if 0 \<le> p \<and> p \<le> int (length buf) then Some (drop (nat p) buf) else None)"

text \<open>\<^verbatim>\<open>strlen\<close> and \<^verbatim>\<open>strncmp\<close> (whether it returns 0): reading on behind the end of the object is a fault.\<close>

definition strlen :: "u8 list \<Rightarrow> int option" where
  "strlen bs = (if 0 \<in> set bs then Some (int (length (takeWhile (\<lambda>b. b \<noteq> 0) bs))) else None)"

fun strncmp_eq :: "nat \<Rightarrow> u8 list \<Rightarrow> u8 list \<Rightarrow> bool option" where
  "strncmp_eq 0 as bs = Some True"
| "strncmp_eq (Suc n) (a # as) (b # bs) =
     (if a \<noteq> b then Some False else if a = 0 then Some True else strncmp_eq n as bs)"
| "strncmp_eq (Suc n) _ _ = None"

section \<open>The remaining length\<close>

lemma sdiv_nonneg [simp]: "0 \<le> n \<Longrightarrow> 0 < m \<Longrightarrow> n sdiv m = n div m" for n m :: int
  by (cases "n = 0") (simp_all add: signed_divide_int_def)

lemma smod_nonneg [simp]: "0 \<le> n \<Longrightarrow> 0 < m \<Longrightarrow> n smod m = n mod m" for n m :: int
  by (cases "n = 0") (simp_all add: signed_modulo_int_def)

lemma sdiv_decreases:
  fixes n :: int
  assumes "0 < n sdiv 128"
  shows "0 < n" and "n sdiv 128 < n"
proof -
  show "0 < n"
  proof (rule ccontr)
    assume "\<not> 0 < n"
    then show False using assms by (auto simp: signed_divide_int_def sgn_if split: if_splits)
  qed
  then show "n sdiv 128 < n" by simp
qed

text \<open>The loop of \<^verbatim>\<open>MQTTPacket_encode\<close>, writing at \<open>p\<close>.\<close>

function encode_loop :: "int \<Rightarrow> u8 list \<Rightarrow> int \<Rightarrow> int \<Rightarrow> (int \<times> u8 list) option" where
  "encode_loop p buf rc n = do {
     let d = word_of_int (n smod 128);
     let n = n sdiv 128;
     let d = (if n > 0 then d OR 0x80 else d);
     buf \<leftarrow> mem_set buf (p + rc) d;
     let rc = rc + 1;
     if n > 0 then encode_loop p buf rc n else Some (rc, buf) }"
  by pat_completeness auto

termination by (relation "measure (\<lambda>(p, buf, rc, n). nat n)") (auto dest: sdiv_decreases)

declare encode_loop.simps [simp del]

definition MQTTPacket_encode :: "u8 list \<Rightarrow> int \<Rightarrow> int \<Rightarrow> (int \<times> u8 list) option" where
  "MQTTPacket_encode buf p n = encode_loop p buf 0 n"

text \<open>A callback \<open>getfn n s\<close> that reads \<open>n\<close> bytes from \<open>s\<close>: its result, the bytes it stored, the
  new state of the source.\<close>

type_synonym 's getfn = "int \<Rightarrow> 's \<Rightarrow> (int \<times> u8 list \<times> 's) option"

function decode_loop :: "'s getfn \<Rightarrow> 's \<Rightarrow> int \<Rightarrow> int \<Rightarrow> int \<Rightarrow> (int \<times> int \<times> 's) option" where
  "decode_loop getfn s len multiplier v = do {
     let len = len + 1;
     if len > 4 then Some (len, v, s)
     else do {
       (rc, bs, s) \<leftarrow> getfn 1 s;
       if rc \<noteq> 1 then Some (len, v, s)
       else do {
         c \<leftarrow> (case bs of [c] \<Rightarrow> Some c | _ \<Rightarrow> None);
         let v = v + uint (c AND 127) * multiplier;
         let multiplier = multiplier * 128;
         if c AND 128 \<noteq> 0 then decode_loop getfn s len multiplier v else Some (len, v, s) } } }"
  by pat_completeness auto

termination by (relation "measure (\<lambda>(getfn, s, len, multiplier, v). nat (4 - len))") auto

declare decode_loop.simps [simp del]

text \<open>The number of bytes, the value, and the source behind them.\<close>

definition MQTTPacket_decode :: "'s getfn \<Rightarrow> 's \<Rightarrow> (int \<times> int \<times> 's) option" where
  "MQTTPacket_decode getfn s = decode_loop getfn s 0 1 0"

definition MQTTPacket_len :: "int \<Rightarrow> int option" where
  "MQTTPacket_len rem_len = do {
     rem_len \<leftarrow> c_int (rem_len + 1);
     if rem_len < 128 then c_int (rem_len + 1)
     else if rem_len < 16384 then c_int (rem_len + 2)
     else if rem_len < 2097151 then c_int (rem_len + 3)
     else c_int (rem_len + 4) }"

text \<open>The callback that reads from \<^verbatim>\<open>bufptr\<close>, every byte into the same place.\<close>

fun bufchar_loop :: "u8 list \<Rightarrow> nat \<Rightarrow> u8 list \<Rightarrow> int \<Rightarrow> (u8 list \<times> int) option" where
  "bufchar_loop buf 0 c bufptr = Some (c, bufptr)"
| "bufchar_loop buf (Suc i) c bufptr = do {
     x \<leftarrow> mem_get buf bufptr;
     bufchar_loop buf i [x] (bufptr + 1) }"

definition bufchar :: "u8 list \<Rightarrow> int getfn" where
  "bufchar buf count bufptr = do {
     (c, bufptr) \<leftarrow> bufchar_loop buf (nat count) [] bufptr;
     Some (count, c, bufptr) }"

definition MQTTPacket_decodeBuf :: "u8 list \<Rightarrow> int \<Rightarrow> (int \<times> int) option" where
  "MQTTPacket_decodeBuf buf p = do {
     (len, v, _) \<leftarrow> MQTTPacket_decode (bufchar buf) p;
     Some (len, v) }"

section \<open>Reading and writing at a pointer\<close>

text \<open>Writers take and return the buffer and the pointer.\<close>

definition readInt :: "u8 list \<Rightarrow> int \<Rightarrow> (int \<times> int) option" where
  "readInt buf p = do {
     a \<leftarrow> mem_get buf p;
     b \<leftarrow> mem_get buf (p + 1);
     Some (256 * uint a + uint b, p + 2) }"

definition readChar :: "u8 list \<Rightarrow> int \<Rightarrow> (u8 \<times> int) option" where
  "readChar buf p = do { c \<leftarrow> mem_get buf p; Some (c, p + 1) }"

definition writeChar :: "u8 \<Rightarrow> u8 list \<times> int \<Rightarrow> (u8 list \<times> int) option" where
  "writeChar c = (\<lambda>(buf, p). do { buf \<leftarrow> mem_set buf p c; Some (buf, p + 1) })"

definition writeInt :: "int \<Rightarrow> u8 list \<times> int \<Rightarrow> (u8 list \<times> int) option" where
  "writeInt n = (\<lambda>(buf, p). do {
     buf \<leftarrow> mem_set buf p (word_of_int (n sdiv 256));
     let p = p + 1;
     buf \<leftarrow> mem_set buf p (word_of_int (n smod 256));
     Some (buf, p + 1) })"

definition write_mem :: "u8 list \<Rightarrow> int \<Rightarrow> u8 list \<times> int \<Rightarrow> (u8 list \<times> int) option" where
  "write_mem src n = (\<lambda>(buf, p). do { buf \<leftarrow> mem_copy buf p src 0 n; Some (buf, p + n) })"

definition writeCString :: "cptr \<Rightarrow> u8 list \<times> int \<Rightarrow> (u8 list \<times> int) option" where
  "writeCString string w = do {
     bs \<leftarrow> bytes_at (fst w) string;
     len \<leftarrow> strlen bs;
     w \<leftarrow> writeInt len w;
     bs \<leftarrow> bytes_at (fst w) string;
     write_mem bs len w }"

definition getLenStringLen :: "u8 list \<Rightarrow> int option" where
  "getLenStringLen ptr = do {
     a \<leftarrow> mem_get ptr 0;
     b \<leftarrow> mem_get ptr 1;
     Some (256 * uint a + uint b) }"

definition writeMQTTString :: "MQTTString \<Rightarrow> u8 list \<times> int \<Rightarrow> (u8 list \<times> int) option" where
  "writeMQTTString s w =
     (if lenstring_len s > 0 then do {
        w \<leftarrow> writeInt (lenstring_len s) w;
        d \<leftarrow> lenstring_data s;
        bs \<leftarrow> bytes_at (fst w) d;
        write_mem bs (lenstring_len s) w }
      else case cstring s of
        Some c \<Rightarrow> writeCString c w
      | None \<Rightarrow> writeInt 0 w)"

text \<open>The result code, the string and the pointer.\<close>

definition readMQTTLenString :: "MQTTString \<Rightarrow> u8 list \<Rightarrow> int \<Rightarrow> int \<Rightarrow> (bool \<times> MQTTString \<times> int) option" where
  "readMQTTLenString s buf p enddata =
     (if enddata - p > 1 then do {
        (len, p) \<leftarrow> readInt buf p;
        let s = s\<lparr> lenstring_len := len \<rparr>;
        if p + len \<le> enddata
        then Some (True, s\<lparr> lenstring_data := Some (Pkt p), cstring := None \<rparr>, p + len)
        else Some (False, s\<lparr> cstring := None \<rparr>, p) }
      else Some (False, s\<lparr> cstring := None \<rparr>, p))"

definition MQTTstrlen :: "u8 list \<Rightarrow> MQTTString \<Rightarrow> int option" where
  "MQTTstrlen buf s =
     (case cstring s of
        Some c \<Rightarrow> do { bs \<leftarrow> bytes_at buf c; strlen bs }
      | None \<Rightarrow> Some (lenstring_len s))"

definition MQTTPacket_equals :: "u8 list \<Rightarrow> MQTTString \<Rightarrow> u8 list \<Rightarrow> bool option" where
  "MQTTPacket_equals buf a bptr = do {
     (aptr, alen) \<leftarrow> (case cstring a of
        Some c \<Rightarrow> do { bs \<leftarrow> bytes_at buf c; n \<leftarrow> strlen bs; Some (Some c, n) }
      | None \<Rightarrow> Some (lenstring_data a, lenstring_len a));
     blen \<leftarrow> strlen bptr;
     if alen \<noteq> blen then Some False
     else do { c \<leftarrow> aptr; bs \<leftarrow> bytes_at buf c; strncmp_eq (nat alen) bs bptr } }"

text \<open>The type of the packet or \<^verbatim>\<open>-1\<close>; \<^verbatim>\<open>buflen\<close> is not looked at.\<close>

definition MQTTPacket_read :: "u8 list \<Rightarrow> int \<Rightarrow> 's getfn \<Rightarrow> 's \<Rightarrow> (int \<times> u8 list \<times> 's) option" where
  "MQTTPacket_read buf buflen getfn s = do {
     (rc, bs, s) \<leftarrow> getfn 1 s;
     buf \<leftarrow> mem_write buf 0 bs;
     if rc \<noteq> 1 then Some (-1, buf, s)
     else do {
       (_, rem_len, s) \<leftarrow> MQTTPacket_decode getfn s;
       (n, buf) \<leftarrow> MQTTPacket_encode buf 1 rem_len;
       let len = 1 + n;
       (rc, bs, s) \<leftarrow> getfn rem_len s;
       buf \<leftarrow> mem_write buf len bs;
       if rc \<noteq> rem_len then Some (-1, buf, s)
       else do {
         b \<leftarrow> mem_get buf 0;
         Some (uint (h_type (header_bits b)), buf, s) } } }"

section \<open>Writers as \<open>put\<close>, readers on \<open>at\<close>\<close>

definition put :: "u8 list \<Rightarrow> u8 list \<times> int \<Rightarrow> (u8 list \<times> int) option" where
  "put xs = (\<lambda>(buf, p). do { buf \<leftarrow> mem_write buf p xs; Some (buf, p + int (length xs)) })"

definition at :: "u8 list \<Rightarrow> int \<Rightarrow> u8 list \<Rightarrow> bool" where
  "at buf p xs \<longleftrightarrow> 0 \<le> p \<and> p + int (length xs) \<le> int (length buf) \<and> slice (nat p) (length xs) buf = xs"

named_theorems puts

lemma mem_write_Nil: "0 \<le> p \<Longrightarrow> p \<le> int (length buf) \<Longrightarrow> mem_write buf p [] = Some buf"
  by (simp add: mem_write_def)

lemma mem_write_append:
  "Option.bind (mem_write buf p xs) (\<lambda>b. mem_write b (p + int (length xs)) ys) = mem_write buf p (xs @ ys)"
proof (cases "0 \<le> p \<and> p + int (length xs) + int (length ys) \<le> int (length buf)")
  case True
  then have "nat (p + int (length xs)) = nat p + length xs" by linarith
  moreover have "nat p + length xs + length ys \<le> length buf" using True by linarith
  ultimately show ?thesis using True
    by (simp add: mem_write_def add.assoc add.commute [of "length ys"])
next
  case False
  then show ?thesis by (auto simp: mem_write_def)
qed

lemma put_put: "Option.bind (put xs w) (put ys) = put (xs @ ys) w"
  by (cases w) (simp add: put_def add.assoc flip: mem_write_append)

lemma put_put_bind: "Option.bind (put xs w) (\<lambda>w. Option.bind (put ys w) f) = Option.bind (put (xs @ ys) w) f"
  by (simp flip: put_put)

lemma put_fits: "length xs \<le> length buf \<Longrightarrow> put xs (buf, 0) = Some (xs @ drop (length xs) buf, int (length xs))"
  by (simp add: put_def mem_write_def)

lemma mem_set_write: "mem_set buf p c = mem_write buf p [c]"
proof (cases "0 \<le> p \<and> p < int (length buf)")
  case True
  then have "nat p < length buf" by linarith
  then show ?thesis using True by (simp add: mem_set_def mem_write_def upd_conv_take_nth_drop)
qed (auto simp: mem_set_def mem_write_def)

lemma writeChar_put [puts]: "writeChar c w = put [c] w"
  by (cases w) (simp add: writeChar_def put_def mem_set_write)

definition two_bytes :: "int \<Rightarrow> u8 list" where
  "two_bytes n = [word_of_int (n div 256), word_of_int n]"

lemma length_two_bytes [simp]: "length (two_bytes n) = 2"
  by (simp add: two_bytes_def)

lemma writeInt_put [puts]:
  assumes "0 \<le> n"
  shows "writeInt n w = put (two_bytes n) w"
proof -
  obtain buf p where w: "w = (buf, p)" by (cases w)
  have "(word_of_int (n smod 256) :: u8) = word_of_int n"
    using assms by (simp add: word_of_int_eq_iff take_bit_eq_mod)
  moreover have "n sdiv 256 = n div 256" using assms by simp
  moreover have "writeInt n w = Option.bind (put [word_of_int (n sdiv 256)] w) (put [word_of_int (n smod 256)])"
    by (simp add: w writeInt_def put_def mem_set_write Let_def)
  ultimately show ?thesis by (simp add: put_put two_bytes_def)
qed

text \<open>The reference encoding of the remaining length.\<close>

function mqtt_digits :: "int \<Rightarrow> u8 list" where
  "mqtt_digits n = (if n < 128 then [word_of_int n] else word_of_int (n mod 128 + 128) # mqtt_digits (n div 128))"
  by pat_completeness auto

termination by (relation "measure nat") auto

declare mqtt_digits.simps [simp del]

lemma or_128:
  assumes "0 \<le> d" and "d < 128"
  shows "(word_of_int d :: u8) OR 128 = word_of_int (d + 128)"
proof -
  have "\<not> bit d 7" using assms by (simp add: bit_iff_odd)
  then have "set_bit 7 d = d + 128" by (simp add: set_bit_eq)
  moreover have "d OR 128 = set_bit 7 d" by (simp add: set_bit_eq_or)
  ultimately have "d OR 128 = d + 128" by simp
  moreover have "(word_of_int d :: u8) OR word_of_int 128 = word_of_int (d OR 128)"
    by (rule bit_word_eqI) (simp add: bit_simps)
  ultimately show ?thesis by simp
qed

lemma mem_write_Cons_bind:
  "q = p + 1 \<Longrightarrow> Option.bind (mem_write buf p [c]) (\<lambda>b. Option.bind (mem_write b q ys) f)
     = Option.bind (mem_write buf p (c # ys)) f"
  using mem_write_append [of buf p "[c]" ys] by (cases "mem_write buf p [c]") auto

lemma encode_loop_eq:
  "0 \<le> n \<Longrightarrow> encode_loop p buf rc n =
     Option.bind (mem_write buf (p + rc) (mqtt_digits n)) (\<lambda>buf. Some (rc + int (length (mqtt_digits n)), buf))"
proof (induction n arbitrary: buf rc rule: mqtt_digits.induct)
  case (1 n)
  show ?case
  proof (cases "n < 128")
    case True
    then show ?thesis using 1(2)
      by (subst encode_loop.simps, subst (1 2) mqtt_digits.simps) (simp add: mem_set_write)
  next
    case False
    then have d: "0 \<le> n div 128" "0 < n div 128" by auto
    have or: "(word_of_int (n mod 128) :: u8) OR 128 = word_of_int (n mod 128 + 128)" by (rule or_128) auto
    show ?thesis using 1(2) False d
      by (subst encode_loop.simps, subst (1 2) mqtt_digits.simps)
         (simp add: mem_set_write or 1(1) Let_def mem_write_Cons_bind add.assoc)
  qed
qed

lemma length_digits:
  assumes "0 \<le> n" and "n < 2 ^ 28"
  shows "length (mqtt_digits n) = (if n < 128 then 1 else if n < 16384 then 2 else if n < 2097152 then 3 else 4)"
proof -
  have d: "length (mqtt_digits m) = (if m < 128 then 1 else Suc (length (mqtt_digits (m div 128))))" for m
    by (subst mqtt_digits.simps) simp
  have "n div 128 < 128 \<longleftrightarrow> n < 16384" "n div 128 div 128 < 128 \<longleftrightarrow> n < 2097152" "n div 128 div 128 div 128 < 128"
    using assms by (auto simp: zdiv_zmult2_eq [symmetric])
  then show ?thesis by (simp add: d [of n] d [of "n div 128"] d [of "n div 128 div 128"] d [of "n div 128 div 128 div 128"])
qed

text \<open>One step of decoding.\<close>

lemma byte_top_bit: "(c :: u8) AND 128 = 0 \<longleftrightarrow> uint c < 128"
proof -
  have "c AND 128 = 0 \<longleftrightarrow> \<not> bit c 7" using and_exp_eq_0_iff_not_bit [of c 7] by simp
  also have "\<dots> \<longleftrightarrow> \<not> bit (uint c) 7" by (simp add: bit_uint_iff)
  also have "\<dots> \<longleftrightarrow> even (uint c div 128)" by (simp add: bit_iff_odd [of "uint c"])
  also have "\<dots> \<longleftrightarrow> uint c < 128"
  proof -
    have "0 \<le> uint c" "uint c < 256" using uint_lt2p [of c] by auto
    then have "uint c div 128 = (if uint c < 128 then 0 else 1)" by auto
    then show ?thesis by simp
  qed
  finally show ?thesis .
qed

lemma byte_low_bits: "uint ((c :: u8) AND 127) = uint c mod 128"
proof -
  have "uint (c AND 127) = uint (take_bit 7 c)" by (simp only: take_bit_eq_mask) (simp add: mask_eq_exp_minus_1)
  also have "\<dots> = take_bit 7 (uint c)" by (rule unsigned_take_bit_eq)
  finally show ?thesis by (simp add: take_bit_eq_mod)
qed

lemma byte_of_int: "0 \<le> n \<Longrightarrow> n < 256 \<Longrightarrow> uint (word_of_int n :: u8) = n"
  by (simp add: unsigned_of_int take_bit_int_eq_self)

text \<open>What \<^verbatim>\<open>MQTTPacket_decode\<close> asks of its callback: \<open>reads s bs s'\<close> says that the bytes \<open>bs\<close> lead
  from \<open>s\<close> to \<open>s'\<close>.\<close>

locale byte_source =
  fixes getfn :: "'s getfn"
    and reads :: "'s \<Rightarrow> u8 list \<Rightarrow> 's \<Rightarrow> bool"
  assumes reads_Nil: "reads s [] s' \<Longrightarrow> s' = s"
    and reads_Cons: "reads s (c # cs) s'' \<Longrightarrow> \<exists>s'. getfn 1 s = Some (1, [c], s') \<and> reads s' cs s''"
begin

lemma decode_loop_digits:
  "0 \<le> n \<Longrightarrow> len + int (length (mqtt_digits n)) \<le> 4 \<Longrightarrow> reads s (mqtt_digits n) s' \<Longrightarrow>
   decode_loop getfn s len m v = Some (len + int (length (mqtt_digits n)), v + n * m, s')"
proof (induction n arbitrary: s len m v rule: mqtt_digits.induct)
  case (1 n)
  show ?case
  proof (cases "n < 128")
    case True
    then have d: "mqtt_digits n = [word_of_int n]" by (subst mqtt_digits.simps) simp
    then have "getfn 1 s = Some (1, [word_of_int n], s')" and l: "len < 4"
      using 1(3,4) reads_Cons [of s "word_of_int n" "[]" s'] reads_Nil by auto
    moreover have "uint (word_of_int n :: u8) = n" using True 1(2) by (simp add: byte_of_int)
    ultimately show ?thesis using True 1(2)
      by (subst decode_loop.simps) (simp add: d byte_top_bit byte_low_bits)
  next
    case False
    define c :: u8 where "c = word_of_int (n mod 128 + 128)"
    have d: "mqtt_digits n = c # mqtt_digits (n div 128)" using False by (subst mqtt_digits.simps) (simp add: c_def)
    obtain s1 where g: "getfn 1 s = Some (1, [c], s1)" and r: "reads s1 (mqtt_digits (n div 128)) s'"
      using 1(4) reads_Cons [of s c "mqtt_digits (n div 128)" s'] unfolding d by blast
    have "n mod 128 + 128 < 256" using pos_mod_bound [of 128 n] by linarith
    then have c: "uint c = n mod 128 + 128" unfolding c_def by (intro byte_of_int) auto
    have "n mod 128 * m + n div 128 * (m * 128) = n * m"
      using arg_cong [OF mod_mult_div_eq [of n 128], of "\<lambda>x. m * x"] by (simp only: distrib_left mult.commute mult.left_commute)
    moreover have "\<not> n mod 128 < 0" using pos_mod_sign [of 128 n] by linarith
    ultimately show ?thesis using False 1(2,3) g
      by (subst decode_loop.simps)
         (simp add: d c byte_top_bit byte_low_bits Let_def 1(1) [OF False _ _ r] add.assoc)
  qed
qed

lemma decode_digits:
  assumes "0 \<le> n" and "n < 2 ^ 28" and "reads s (mqtt_digits n) s'"
  shows "MQTTPacket_decode getfn s = Some (int (length (mqtt_digits n)), n, s')"
  using decode_loop_digits [OF assms(1) _ assms(3), of 0 1 0] length_digits [OF assms(1,2)]
  by (simp add: MQTTPacket_decode_def split: if_splits)

end

text \<open>Bytes at a pointer.\<close>

lemma at_append: "at buf p (xs @ ys) \<longleftrightarrow> at buf p xs \<and> at buf (p + int (length xs)) ys"
proof (cases "0 \<le> p \<and> p + int (length xs) + int (length ys) \<le> int (length buf)")
  case True
  then have n: "nat (p + int (length xs)) = nat p + length xs" by linarith
  have "nat p + length xs + length ys \<le> length buf" using True by linarith
  then have "length (take (length xs) (drop (nat p) buf)) = length xs" by simp
  then have "take (length xs + length ys) (drop (nat p) buf) = xs @ ys \<longleftrightarrow>
      take (length xs) (drop (nat p) buf) = xs \<and> take (length ys) (drop (nat p + length xs) buf) = ys"
    by (auto simp: take_add add.commute dest: append_eq_conv_conj [THEN iffD1])
  then show ?thesis using True n by (simp add: at_def slice_def)
next
  case False
  then show ?thesis by (auto simp: at_def)
qed

lemma at_Cons: "at buf p (x # xs) \<longleftrightarrow> mem_get buf p = Some x \<and> at buf (p + 1) xs"
proof -
  have "at buf p [x] \<longleftrightarrow> mem_get buf p = Some x"
  proof (cases "0 \<le> p \<and> p < int (length buf)")
    case True
    then have "nat p < length buf" by linarith
    then show ?thesis using True by (auto simp: at_def mem_get_def slice_def Cons_nth_drop_Suc [symmetric])
  qed (auto simp: at_def mem_get_def)
  then show ?thesis using at_append [of buf p "[x]" xs] at_def [of buf "p + 1" xs]
    by (auto simp: mem_get_def at_def split: if_splits)
qed

lemma at_start: "at (xs @ ys) 0 xs"
  by (simp add: at_def slice_def)

interpretation bufchar: byte_source "bufchar buf" "\<lambda>p bs p'. at buf p bs \<and> p' = p + int (length bs)" for buf
  by unfold_locales (auto simp: at_Cons bufchar_def)

lemma decodeBuf_digits:
  assumes "0 \<le> n" and "n < 2 ^ 28" and "at buf p (mqtt_digits n)"
  shows "MQTTPacket_decodeBuf buf p = Some (int (length (mqtt_digits n)), n)"
  using bufchar.decode_digits [OF assms(1,2)] assms(3) by (simp add: MQTTPacket_decodeBuf_def)

lemma readInt_at: "at buf p (two_bytes n) \<Longrightarrow> 0 \<le> n \<Longrightarrow> n < 65536 \<Longrightarrow> readInt buf p = Some (n, p + 2)"
proof -
  assume a: "at buf p (two_bytes n)" and n: "0 \<le> n" "n < 65536"
  have "uint (word_of_int (n div 256) :: u8) = n div 256" by (rule byte_of_int) (use n in auto)
  moreover have "uint (word_of_int n :: u8) = n mod 256" by (simp add: unsigned_of_int take_bit_eq_mod)
  ultimately show ?thesis using a by (simp add: two_bytes_def at_Cons readInt_def)
qed

lemma readChar_at: "at buf p [c] \<Longrightarrow> readChar buf p = Some (c, p + 1)"
  by (simp add: at_Cons readChar_def)

lemma writeInt_uint [puts]: "writeInt (uint (x :: u16)) w = put (two_bytes (uint x)) w"
  by (rule writeInt_put) (rule uint_ge_0)

section \<open>Lengths\<close>

text \<open>\<^verbatim>\<open>ptr += MQTTPacket_encode(ptr, n)\<close> of the serialisers.\<close>

definition write_len :: "int \<Rightarrow> u8 list \<times> int \<Rightarrow> (u8 list \<times> int) option" where
  "write_len n = (\<lambda>(buf, p). do { (rc, buf) \<leftarrow> MQTTPacket_encode buf p n; Some (buf, p + rc) })"

lemma encode_digits:
  "0 \<le> n \<Longrightarrow> MQTTPacket_encode buf p n =
     Option.bind (mem_write buf p (mqtt_digits n)) (\<lambda>buf. Some (int (length (mqtt_digits n)), buf))"
  by (simp add: MQTTPacket_encode_def encode_loop_eq)

lemma write_len_put [puts]: "0 \<le> n \<Longrightarrow> write_len n w = put (mqtt_digits n) w"
  by (cases w) (simp add: write_len_def put_def encode_digits)

lemma packet_len_eq:
  assumes "0 \<le> n" and "n < 2 ^ 28"
  shows "MQTTPacket_len n = Some (1 + int (length (mqtt_digits n)) + n
           + (if n \<in> {127, 16383, 2097150, 2097151} then 1 else 0))"
  unfolding length_digits [OF assms] using assms by (simp add: MQTTPacket_len_def c_int_def)

section \<open>Strings\<close>

text \<open>The bytes that a string stands for, when its two views agree: a C string ends with the first
  zero byte, and a length-delimited one has no C string.\<close>

definition denotes :: "MQTTString \<Rightarrow> u8 list \<Rightarrow> bool" where
  "denotes s xs \<longleftrightarrow> length xs < 65536 \<and>
     (case cstring s of
        Some (Mem bs) \<Rightarrow> lenstring_len s \<le> 0 \<and> 0 \<in> set bs \<and> xs = takeWhile (\<lambda>b. b \<noteq> 0) bs
      | Some (Pkt p) \<Rightarrow> False
      | None \<Rightarrow> lenstring_len s = int (length xs) \<and>
          (xs = [] \<or> (case lenstring_data s of Some (Mem bs) \<Rightarrow> xs = take (length xs) bs | _ \<Rightarrow> False)))"

lemma denotes_short: "denotes s xs \<Longrightarrow> length xs < 65536"
  by (simp add: denotes_def)

definition mqtt_string :: "u8 list \<Rightarrow> u8 list" where
  "mqtt_string xs = two_bytes (int (length xs)) @ xs"

lemma length_mqtt_string [simp]: "length (mqtt_string xs) = length xs + 2"
  by (simp add: mqtt_string_def)

lemma write_mem_put: "n \<le> length src \<Longrightarrow> write_mem src (int n) w = put (take n src) w"
  by (cases w) (simp add: write_mem_def put_def mem_copy_def mem_read_def)

lemma strlen_takeWhile: "0 \<in> set bs \<Longrightarrow> strlen bs = Some (int (length (takeWhile (\<lambda>b. b \<noteq> 0) bs)))"
  by (simp add: strlen_def)

lemma MQTTstrlen_denotes: "denotes s xs \<Longrightarrow> MQTTstrlen buf s = Some (int (length xs))"
  by (auto simp: denotes_def MQTTstrlen_def strlen_takeWhile split: option.splits cptr.splits)

lemma writeMQTTString_put [puts]:
  assumes "denotes s xs"
  shows "writeMQTTString s w = put (mqtt_string xs) w"
proof -
  have pp: "Option.bind (put (two_bytes (int (length xs))) w) (\<lambda>w. write_mem bs (int (length xs)) w) = put (mqtt_string xs) w"
    if "length xs \<le> length bs" "take (length xs) bs = xs" for bs
    using that by (simp add: write_mem_put put_put mqtt_string_def)
  show ?thesis
  proof (cases "cstring s")
    case None
    then consider "xs = []" "lenstring_len s = 0"
      | bs where "lenstring_data s = Some (Mem bs)" "xs = take (length xs) bs" "lenstring_len s = int (length xs)" "xs \<noteq> []"
      using assms by (fastforce simp: denotes_def split: option.splits cptr.splits)
    then show ?thesis
    proof cases
      case 1
      then show ?thesis using None by (simp add: writeMQTTString_def writeInt_put mqtt_string_def)
    next
      case (2 bs)
      have "length xs \<le> length bs" using arg_cong [OF 2(2), of length] by simp
      then show ?thesis using pp [of bs] 2 by (simp add: writeMQTTString_def writeInt_put)
    qed
  next
    case (Some c)
    then obtain bs where c: "c = Mem bs" "lenstring_len s \<le> 0" "0 \<in> set bs" "xs = takeWhile (\<lambda>b. b \<noteq> 0) bs"
      using assms by (auto simp: denotes_def split: cptr.splits)
    have "take (length xs) bs = xs" by (simp add: c(4) takeWhile_eq_take [symmetric])
    moreover have "length xs \<le> length bs" by (simp add: c(4) length_takeWhile_le)
    ultimately show ?thesis
      using pp [of bs] c Some by (simp add: writeMQTTString_def writeCString_def strlen_takeWhile writeInt_put)
  qed
qed

text \<open>The string read back: a window of the buffer.\<close>

definition views :: "u8 list \<Rightarrow> MQTTString \<Rightarrow> u8 list \<Rightarrow> bool" where
  "views buf s xs \<longleftrightarrow> cstring s = None \<and> lenstring_len s = int (length xs)
     \<and> (\<exists>p. lenstring_data s = Some (Pkt p) \<and> at buf p xs)"

lemma readMQTTLenString_at:
  assumes "at buf p (mqtt_string xs)" and "length xs < 65536" and "p + 2 + int (length xs) \<le> enddata"
  shows "\<exists>s'. readMQTTLenString s buf p enddata = Some (True, s', p + 2 + int (length xs)) \<and> views buf s' xs
           \<and> lenstring_data s' = Some (Pkt (p + 2))"
proof -
  have a: "at buf p (two_bytes (int (length xs)))" "at buf (p + 2) xs"
    using assms(1) by (simp_all add: mqtt_string_def at_append)
  have "readInt buf p = Some (int (length xs), p + 2)" by (rule readInt_at [OF a(1)]) (use assms(2) in auto)
  then show ?thesis using assms(3) a(2) by (simp add: readMQTTLenString_def views_def)
qed

section \<open>Packets\<close>

lemma header_div:
  fixes r q d t :: int
  assumes "0 \<le> r" "r < 2" "0 \<le> q" "q < 4" "0 \<le> d" "d < 2"
  shows "(r + 2 * q + 8 * d + 16 * t) div 2 = q + 4 * (d + 2 * t)"
    and "(r + 2 * q + 8 * d + 16 * t) div 8 = d + 2 * t"
    and "(r + 2 * q + 8 * d + 16 * t) div 16 = t"
proof -
  have low: "(a + x * m) div m = x" if "0 \<le> a" "a < m" for a x m :: int
    using that by (simp add: div_pos_pos_trivial)
  show "(r + 2 * q + 8 * d + 16 * t) div 2 = q + 4 * (d + 2 * t)"
    using low [of r 2 "q + 4 * (d + 2 * t)"] assms by (simp add: algebra_simps)
  show "(r + 2 * q + 8 * d + 16 * t) div 8 = d + 2 * t"
    using low [of "r + 2 * q" 8 "d + 2 * t"] assms by (simp add: algebra_simps)
  show "(r + 2 * q + 8 * d + 16 * t) div 16 = t"
    using low [of "r + 2 * q + 8 * d" 16 t] assms by (simp add: algebra_simps)
qed

lemma word_low_bits:
  fixes w :: "'a::len word"
  shows "word_of_int (uint w + 2 ^ LENGTH('a) * m) = w"
proof -
  have "uint (word_of_int (uint w + 2 ^ LENGTH('a) * m) :: 'a word) = (uint w + 2 ^ LENGTH('a) * m) mod 2 ^ LENGTH('a)"
    by (simp add: unsigned_of_int take_bit_eq_mod)
  also have "\<dots> = uint w mod 2 ^ LENGTH('a)" by simp
  also have "\<dots> = uint w" by (rule mod_pos_pos_trivial) (auto intro: uint_lt2p)
  finally show ?thesis by (simp only: word_uint_eq_iff)
qed

lemma header_roundtrip [simp]: "header_bits (header_byte h) = h"
proof -
  let ?r = "uint (h_retain h)" and ?q = "uint (h_qos h)" and ?d = "uint (h_dup h)" and ?t = "uint (h_type h)"
  have b: "0 \<le> ?r" "?r < 2" "0 \<le> ?q" "?q < 4" "0 \<le> ?d" "?d < 2" "0 \<le> ?t" "?t < 16"
    using uint_lt2p [of "h_retain h"] uint_lt2p [of "h_qos h"] uint_lt2p [of "h_dup h"] uint_lt2p [of "h_type h"] by auto
  define n where "n = ?r + 2 * ?q + 8 * ?d + 16 * ?t"
  have u: "uint (header_byte h) = n" unfolding header_byte_def n_def by (rule byte_of_int) (use b in auto)
  have n: "n = ?r + 2 * (?q + 4 * (?d + 2 * ?t))" "n div 2 = ?q + 4 * (?d + 2 * ?t)" "n div 8 = ?d + 2 * ?t" "n div 16 = ?t"
    using header_div [OF b(1-6), of ?t] unfolding n_def by simp_all
  have "(word_of_int n :: 1 word) = h_retain h" unfolding n(1)
    using word_low_bits [of "h_retain h" "?q + 4 * (?d + 2 * ?t)"] by (simp only: len_num1 power_one_right)
  moreover have "(word_of_int (n div 2) :: 2 word) = h_qos h" unfolding n(2)
    using word_low_bits [of "h_qos h" "?d + 2 * ?t"] by (simp only: len_bit0 len_num1) simp
  moreover have "(word_of_int (n div 8) :: 1 word) = h_dup h" unfolding n(3)
    using word_low_bits [of "h_dup h" ?t] by (simp only: len_num1 power_one_right)
  moreover have "(word_of_int (n div 16) :: 4 word) = h_type h" unfolding n(4) by simp
  ultimately show ?thesis by (simp add: header_bits_def u)
qed

definition mqtt_packet :: "MQTTHeader \<Rightarrow> u8 list \<Rightarrow> u8 list" where
  "mqtt_packet h body = header_byte h # mqtt_digits (int (length body)) @ body"

lemma put_packet:
  "put (mqtt_packet h body) w = do { w \<leftarrow> put [header_byte h] w; w \<leftarrow> put (mqtt_digits (int (length body))) w; put body w }"
  by (simp add: put_put put_put_bind mqtt_packet_def)

lemma length_packet: "length (mqtt_packet h body) = 1 + length (mqtt_digits (int (length body))) + length body"
  by (simp add: mqtt_packet_def)

text \<open>What every deserialiser starts with.\<close>

lemma packet_start:
  assumes "at buf 0 (mqtt_packet h body)" and "length body < 2 ^ 28"
  defines "k \<equiv> int (length (mqtt_digits (int (length body))))"
  shows "readChar buf 0 = Some (header_byte h, 1)" "MQTTPacket_decodeBuf buf 1 = Some (k, int (length body))"
    "at buf (1 + k) body"
proof -
  have a: "mem_get buf 0 = Some (header_byte h)" "at buf 1 (mqtt_digits (int (length body)))" "at buf (1 + k) body"
    using assms(1) by (simp_all add: mqtt_packet_def at_Cons at_append k_def)
  then show "readChar buf 0 = Some (header_byte h, 1)" "at buf (1 + k) body" by (simp_all add: readChar_def)
  show "MQTTPacket_decodeBuf buf 1 = Some (k, int (length body))"
    unfolding k_def by (rule decodeBuf_digits) (use a(2) assms(2) in auto)
qed

section \<open>The remaining length on the wire\<close>

text \<open>C27. A remaining length below 2 ^ 28 is written in one to four bytes that the decoder reads back, with
  nothing else of the buffer changed, and \<^verbatim>\<open>MQTTPacket_len\<close>, which the serialisers compare with the
  size of the buffer, is never too small and at most one byte too large (that is at 127, 16383,
  2097150 and 2097151).\<close>

theorem mqtt_length_roundtrip:
  assumes "0 \<le> n" and "n < 2 ^ 28" and "0 \<le> p" and "p + 4 \<le> int (length buf)"
  shows "\<exists>k buf' L. MQTTPacket_encode buf p n = Some (k, buf') \<and> 1 \<le> k \<and> k \<le> 4
     \<and> MQTTPacket_decodeBuf buf' p = Some (k, n)
     \<and> length buf' = length buf \<and> take (nat p) buf' = take (nat p) buf \<and> drop (nat (p + k)) buf' = drop (nat (p + k)) buf
     \<and> MQTTPacket_len n = Some L \<and> 1 + k + n \<le> L \<and> L \<le> 2 + k + n"
proof -
  let ?d = "mqtt_digits n"
  define a where "a = nat p"
  have p: "p = int a" "a + 4 \<le> length buf" using assms(3,4) by (simp_all add: a_def)
  have l: "1 \<le> length ?d" "length ?d \<le> 4" using length_digits [OF assms(1,2)] by simp_all
  let ?buf' = "take a buf @ ?d @ drop (a + length ?d) buf"
  have w: "mem_write buf p ?d = Some ?buf'" using p l by (simp add: mem_write_def)
  have "at ?buf' p ?d" using p l by (simp add: at_def slice_def)
  then have "MQTTPacket_decodeBuf ?buf' p = Some (int (length ?d), n)" by (rule decodeBuf_digits [OF assms(1,2)])
  moreover have "MQTTPacket_encode buf p n = Some (int (length ?d), ?buf')" by (simp add: encode_digits assms(1) w)
  moreover have "nat (p + int (length ?d)) = a + length ?d" using p by linarith
  ultimately show ?thesis using l p packet_len_eq [OF assms(1,2)]
    by (intro exI [of _ "int (length ?d)"] exI [of _ ?buf'] exI [of _ "1 + int (length ?d) + n
          + (if n \<in> {127, 16383, 2097150, 2097151} then 1 else 0)"]) simp
qed

theorem mqtt_length_roundtrip_witness:
  "\<exists>k buf'. MQTTPacket_encode (replicate 9 0) 1 321 = Some (k, buf') \<and> MQTTPacket_decodeBuf buf' 1 = Some (k, 321)"
  using mqtt_length_roundtrip [of 321 1 "replicate 9 0"] by auto

section \<open>Reading a packet from a stream\<close>

text \<open>The states that single reads lead through.\<close>

fun reads_bytes :: "'s getfn \<Rightarrow> 's \<Rightarrow> u8 list \<Rightarrow> 's \<Rightarrow> bool" where
  "reads_bytes getfn s [] s' \<longleftrightarrow> s' = s"
| "reads_bytes getfn s (c # cs) s'' \<longleftrightarrow> (\<exists>s'. getfn 1 s = Some (1, [c], s') \<and> reads_bytes getfn s' cs s'')"

lemma reads_bytes_source: "byte_source getfn (reads_bytes getfn)"
  by unfold_locales auto

text \<open>A source that delivers what it is asked for, as long as that is pending.\<close>

definition delivers :: "'s getfn \<Rightarrow> ('s \<Rightarrow> u8 list) \<Rightarrow> bool" where
  "delivers getfn pending \<longleftrightarrow> (\<forall>s n. n \<le> length (pending s) \<longrightarrow>
     (\<exists>s'. getfn (int n) s = Some (int n, take n (pending s), s') \<and> pending s' = drop n (pending s)))"

lemma delivers_bytes:
  "delivers getfn pending \<Longrightarrow> pending s = bs @ rest \<Longrightarrow> \<exists>s'. reads_bytes getfn s bs s' \<and> pending s' = rest"
proof (induction bs arbitrary: s)
  case (Cons c cs)
  from Cons.prems(1) have "1 \<le> length (pending s) \<Longrightarrow> \<exists>s'. getfn (int 1) s = Some (int 1, take 1 (pending s), s') \<and> pending s' = drop 1 (pending s)"
    unfolding delivers_def by blast
  then obtain s1 where "getfn 1 s = Some (1, [c], s1)" "pending s1 = cs @ rest" using Cons.prems(2) by auto
  then show ?case using Cons.IH [OF Cons.prems(1), of s1] by auto
qed simp

lemma packet_read:
  assumes "delivers getfn pending" and "pending s = mqtt_packet h body @ rest" and "length body < 2 ^ 28" and "buf \<noteq> []"
  shows "if length (mqtt_packet h body) \<le> length buf
     then \<exists>s'. MQTTPacket_read buf buflen getfn s
            = Some (uint (h_type h), mqtt_packet h body @ drop (length (mqtt_packet h body)) buf, s') \<and> pending s' = rest
     else MQTTPacket_read buf buflen getfn s = None"
proof -
  let ?b = "header_byte h" and ?d = "mqtt_digits (int (length body))"
  obtain s1 where g1: "getfn 1 s = Some (1, [?b], s1)" and p1: "pending s1 = ?d @ body @ rest"
    using delivers_bytes [OF assms(1), of s "[?b]" "?d @ body @ rest"] assms(2) by (auto simp: mqtt_packet_def)
  obtain s2 where r2: "reads_bytes getfn s1 ?d s2" and p2: "pending s2 = body @ rest"
    using delivers_bytes [OF assms(1) p1] by auto
  have d: "MQTTPacket_decode getfn s1 = Some (int (length ?d), int (length body), s2)"
    by (rule byte_source.decode_digits [OF reads_bytes_source _ _ r2]) (use assms(3) in auto)
  have "length body \<le> length (pending s2)" by (simp add: p2)
  with assms(1) have "\<exists>s'. getfn (int (length body)) s2 = Some (int (length body), take (length body) (pending s2), s')
      \<and> pending s' = drop (length body) (pending s2)" unfolding delivers_def by blast
  then obtain s3 where g3: "getfn (int (length body)) s2 = Some (int (length body), body, s3)" and p3: "pending s3 = rest"
    by (auto simp: p2)
  obtain b0 bs where buf: "buf = b0 # bs" using assms(4) by (cases buf) auto
  have w: "mem_write buf 0 [?b] = Some (?b # bs)" by (simp add: buf mem_write_def)
  show ?thesis
  proof (cases "length (mqtt_packet h body) \<le> length buf")
    case True
    then have "mem_write (?b # bs) 1 ?d = Some (?b # ?d @ drop (length ?d) bs)" by (simp add: length_packet buf mem_write_def)
    moreover have "mem_write (?b # ?d @ drop (length ?d) bs) (1 + int (length ?d)) body
        = Some (?b # ?d @ body @ drop (length ?d + length body) bs)"
      using True by (simp add: length_packet buf mem_write_def nat_add_distrib add.commute)
    ultimately show ?thesis using True g1 d g3 p3 w
      by (simp add: MQTTPacket_read_def encode_digits mem_get_def mqtt_packet_def buf)
  next
    case False
    have "Option.bind (mem_write (?b # bs) 1 ?d) (\<lambda>buf. mem_write buf (1 + int (length ?d)) body) = None"
      using False unfolding mem_write_append by (auto simp: length_packet buf mem_write_def)
    then show ?thesis using False g1 d g3 w
      by (auto simp: MQTTPacket_read_def encode_digits bind_eq_None_conv)
  qed
qed

text \<open>C28. From a source that delivers what is asked for, \<^verbatim>\<open>MQTTPacket_read\<close> takes exactly one packet: it returns
  the packet type, the buffer starts with the packet and the next one is left in the source. A
  packet that is longer than the buffer is written past its end, for any \<^verbatim>\<open>buflen\<close>.\<close>

theorem MQTTPacket_read_correct:
  assumes "delivers getfn pending" and "pending s = mqtt_packet h body @ rest" and "length body < 2 ^ 28" and "buf \<noteq> []"
  shows "if length (mqtt_packet h body) \<le> length buf
     then \<exists>s'. MQTTPacket_read buf buflen getfn s
            = Some (uint (h_type h), mqtt_packet h body @ drop (length (mqtt_packet h body)) buf, s') \<and> pending s' = rest
     else MQTTPacket_read buf buflen getfn s = None"
  by (rule packet_read [OF assms])

text \<open>A connection on which everything has arrived.\<close>

definition stream_read :: "u8 list getfn" where
  "stream_read n s = (let bs = take (nat n) s in Some (int (length bs), bs, drop (nat n) s))"

lemma stream_delivers: "delivers stream_read (\<lambda>s. s)"
  by (simp add: delivers_def stream_read_def)

theorem MQTTPacket_read_correct_witness:
  "\<exists>s'. MQTTPacket_read [0, 0, 0, 0, 0, 0] 6 stream_read (mqtt_packet (header_zero\<lparr> h_type := 13 \<rparr>) [] @ [7])
      = Some (13, mqtt_packet (header_zero\<lparr> h_type := 13 \<rparr>) [] @ [0, 0, 0, 0], s') \<and> s' = [7]"
  using MQTTPacket_read_correct [OF stream_delivers, of "mqtt_packet (header_zero\<lparr> h_type := 13 \<rparr>) [] @ [7]"
      "header_zero\<lparr> h_type := 13 \<rparr>" "[]" "[7]" "[0, 0, 0, 0, 0, 0]" 6]
  by (simp add: length_packet length_digits)

end
