(* ===== verification/MqttMessages.thy ===== *)
theory MqttMessages
  imports MqttPacket
begin

text \<open>
  The packets of bsp/stm32f40x/mqtt: MQTTSerializePublish.c, MQTTDeserializePublish.c,
  MQTTSubscribeClient.c, MQTTSubscribeServer.c, MQTTUnsubscribeClient.c, MQTTUnsubscribeServer.c and
  the packets without a variable header of MQTTConnectClient.c. A serialiser returns its result code
  and the buffer; a deserialiser takes the variables it returns through pointers as they are and
  returns them with the result code.
\<close>

section \<open>Publish and acknowledgements\<close>

definition MQTTSerialize_publishLength :: "u8 list \<Rightarrow> int \<Rightarrow> MQTTString \<Rightarrow> int \<Rightarrow> int option" where
  "MQTTSerialize_publishLength buf qos topicName payloadlen = do {
     n \<leftarrow> MQTTstrlen buf topicName;
     len \<leftarrow> c_int (2 + n);
     len \<leftarrow> c_int (len + payloadlen);
     if qos > 0 then c_int (len + 2) else Some len }"

definition MQTTSerialize_publish ::
  "u8 list \<Rightarrow> int \<Rightarrow> u8 \<Rightarrow> int \<Rightarrow> u8 \<Rightarrow> u16 \<Rightarrow> MQTTString \<Rightarrow> cptr \<Rightarrow> int \<Rightarrow> (int \<times> u8 list) option" where
  "MQTTSerialize_publish buf buflen dup qos retained packetid topicName payload payloadlen = do {
     rem_len \<leftarrow> MQTTSerialize_publishLength buf qos topicName payloadlen;
     n \<leftarrow> MQTTPacket_len rem_len;
     if n > buflen then Some (MQTTPACKET_BUFFER_TOO_SHORT, buf)
     else do {
       let header = header_zero\<lparr> h_type := word_of_int (msg_code PUBLISH), h_dup := ucast dup,
                      h_qos := word_of_int qos, h_retain := ucast retained \<rparr>;
       w \<leftarrow> writeChar (header_byte header) (buf, 0);
       w \<leftarrow> write_len rem_len w;
       w \<leftarrow> writeMQTTString topicName w;
       w \<leftarrow> (if qos > 0 then writeInt (uint packetid) w else Some w);
       bs \<leftarrow> bytes_at (fst w) payload;
       w \<leftarrow> write_mem bs payloadlen w;
       Some (snd w, fst w) } }"

definition MQTTSerialize_ack :: "u8 list \<Rightarrow> int \<Rightarrow> u8 \<Rightarrow> u8 \<Rightarrow> u16 \<Rightarrow> (int \<times> u8 list) option" where
  "MQTTSerialize_ack buf buflen packettype dup packetid =
     (if buflen < 4 then Some (MQTTPACKET_BUFFER_TOO_SHORT, buf)
      else do {
        let header = header_zero\<lparr> h_type := ucast packettype, h_dup := ucast dup, h_qos := 0 \<rparr>;
        w \<leftarrow> writeChar (header_byte header) (buf, 0);
        w \<leftarrow> write_len 2 w;
        w \<leftarrow> writeInt (uint packetid) w;
        Some (snd w, fst w) })"

text \<open>The order of the last two arguments is the code's.\<close>

definition MQTTSerialize_puback :: "u8 list \<Rightarrow> int \<Rightarrow> u16 \<Rightarrow> (int \<times> u8 list) option" where
  "MQTTSerialize_puback buf buflen packetid =
     MQTTSerialize_ack buf buflen (word_of_int (msg_code PUBACK)) (ucast packetid) 0"

definition MQTTSerialize_pubrel :: "u8 list \<Rightarrow> int \<Rightarrow> u8 \<Rightarrow> u16 \<Rightarrow> (int \<times> u8 list) option" where
  "MQTTSerialize_pubrel buf buflen dup packetid =
     MQTTSerialize_ack buf buflen (word_of_int (msg_code PUBREL)) (ucast packetid) (ucast dup)"

definition MQTTSerialize_pubcomp :: "u8 list \<Rightarrow> int \<Rightarrow> u16 \<Rightarrow> (int \<times> u8 list) option" where
  "MQTTSerialize_pubcomp buf buflen packetid =
     MQTTSerialize_ack buf buflen (word_of_int (msg_code PUBCOMP)) (ucast packetid) 0"

record MQTTPublish =
  pub_dup :: u8
  pub_qos :: int
  pub_retained :: u8
  pub_packetid :: u16
  pub_topicName :: MQTTString
  pub_payload :: "int option"
  pub_payloadlen :: int

text \<open>\<open>rc\<close> holds the number of length bytes until the end, so that is what an early exit returns.\<close>

definition MQTTDeserialize_publish :: "MQTTPublish \<Rightarrow> u8 list \<Rightarrow> int \<Rightarrow> (int \<times> MQTTPublish) option" where
  "MQTTDeserialize_publish v buf buflen = do {
     (b, cur) \<leftarrow> readChar buf 0;
     let header = header_bits b;
     if uint (h_type header) \<noteq> msg_code PUBLISH then Some (0, v)
     else do {
       let v = v\<lparr> pub_dup := ucast (h_dup header), pub_qos := uint (h_qos header), pub_retained := ucast (h_retain header) \<rparr>;
       (rc, mylen) \<leftarrow> MQTTPacket_decodeBuf buf cur;
       let cur = cur + rc;
       let enddata = cur + mylen;
       (ok, s, cur) \<leftarrow> readMQTTLenString (pub_topicName v) buf cur enddata;
       let v = v\<lparr> pub_topicName := s \<rparr>;
       if \<not> ok \<or> enddata - cur < 0 then Some (rc, v)
       else do {
         (v, cur) \<leftarrow> (if pub_qos v > 0
            then do { (n, cur) \<leftarrow> readInt buf cur; Some (v\<lparr> pub_packetid := word_of_int n \<rparr>, cur) }
            else Some (v, cur));
         Some (1, v\<lparr> pub_payloadlen := enddata - cur, pub_payload := Some cur \<rparr>) } } }"

record MQTTAck =
  ack_type :: u8
  ack_dup :: u8
  ack_packetid :: u16

definition MQTTDeserialize_ack :: "MQTTAck \<Rightarrow> u8 list \<Rightarrow> int \<Rightarrow> (int \<times> MQTTAck) option" where
  "MQTTDeserialize_ack v buf buflen = do {
     (b, cur) \<leftarrow> readChar buf 0;
     let header = header_bits b;
     let v = v\<lparr> ack_dup := ucast (h_dup header), ack_type := ucast (h_type header) \<rparr>;
     (rc, mylen) \<leftarrow> MQTTPacket_decodeBuf buf cur;
     let cur = cur + rc;
     let enddata = cur + mylen;
     if enddata - cur < 2 then Some (rc, v)
     else do {
       (n, cur) \<leftarrow> readInt buf cur;
       Some (1, v\<lparr> ack_packetid := word_of_int n \<rparr>) } }"

section \<open>Packets without a body\<close>

definition MQTTSerialize_zero :: "u8 list \<Rightarrow> int \<Rightarrow> u8 \<Rightarrow> (int \<times> u8 list) option" where
  "MQTTSerialize_zero buf buflen packettype =
     (if buflen < 2 then Some (MQTTPACKET_BUFFER_TOO_SHORT, buf)
      else do {
        let header = header_zero\<lparr> h_type := ucast packettype \<rparr>;
        w \<leftarrow> writeChar (header_byte header) (buf, 0);
        w \<leftarrow> write_len 0 w;
        Some (snd w, fst w) })"

definition MQTTSerialize_disconnect :: "u8 list \<Rightarrow> int \<Rightarrow> (int \<times> u8 list) option" where
  "MQTTSerialize_disconnect buf buflen = MQTTSerialize_zero buf buflen (word_of_int (msg_code DISCONNECT))"

definition MQTTSerialize_pingreq :: "u8 list \<Rightarrow> int \<Rightarrow> (int \<times> u8 list) option" where
  "MQTTSerialize_pingreq buf buflen = MQTTSerialize_zero buf buflen (word_of_int (msg_code PINGREQ))"

section \<open>Subscribe\<close>

text \<open>The loops over the arrays; the arrays have at least \<open>count\<close> elements or an access is a fault.\<close>

fun filters_length :: "u8 list \<Rightarrow> int \<Rightarrow> nat \<Rightarrow> MQTTString list \<Rightarrow> int \<Rightarrow> int option" where
  "filters_length buf extra 0 fs len = Some len"
| "filters_length buf extra (Suc i) [] len = None"
| "filters_length buf extra (Suc i) (f # fs) len = do {
     n \<leftarrow> MQTTstrlen buf f;
     len \<leftarrow> c_int (len + (2 + n + extra));
     filters_length buf extra i fs len }"

definition MQTTSerialize_subscribeLength :: "u8 list \<Rightarrow> int \<Rightarrow> MQTTString list \<Rightarrow> int option" where
  "MQTTSerialize_subscribeLength buf count topicFilters = filters_length buf 1 (nat count) topicFilters 2"

fun write_filters :: "nat \<Rightarrow> MQTTString list \<Rightarrow> int list \<Rightarrow> u8 list \<times> int \<Rightarrow> (u8 list \<times> int) option" where
  "write_filters 0 fs qs w = Some w"
| "write_filters (Suc i) (f # fs) (q # qs) w = do {
     w \<leftarrow> writeMQTTString f w;
     w \<leftarrow> writeChar (word_of_int q) w;
     write_filters i fs qs w }"
| "write_filters (Suc i) _ _ w = None"

definition MQTTSerialize_subscribe ::
  "u8 list \<Rightarrow> int \<Rightarrow> u8 \<Rightarrow> u16 \<Rightarrow> int \<Rightarrow> MQTTString list \<Rightarrow> int list \<Rightarrow> (int \<times> u8 list) option" where
  "MQTTSerialize_subscribe buf buflen dup packetid count topicFilters requestedQoSs = do {
     rem_len \<leftarrow> MQTTSerialize_subscribeLength buf count topicFilters;
     n \<leftarrow> MQTTPacket_len rem_len;
     if n > buflen then Some (MQTTPACKET_BUFFER_TOO_SHORT, buf)
     else do {
       let header = header_zero\<lparr> h_type := word_of_int (msg_code SUBSCRIBE), h_dup := ucast dup, h_qos := 1 \<rparr>;
       w \<leftarrow> writeChar (header_byte header) (buf, 0);
       w \<leftarrow> write_len rem_len w;
       w \<leftarrow> writeInt (uint packetid) w;
       w \<leftarrow> write_filters (nat count) topicFilters requestedQoSs w;
       Some (snd w, fst w) } }"

record MQTTSubscribe =
  sub_dup :: u8
  sub_packetid :: u16
  sub_count :: int
  sub_topicFilters :: "MQTTString list"
  sub_requestedQoSs :: "int list"

lemma readMQTTLenString_advances:
  "readMQTTLenString s buf p e = Some (True, s', p') \<Longrightarrow> p < p'"
  by (auto simp: readMQTTLenString_def readInt_def bind_eq_Some_conv Let_def intro: add_pos_nonneg split: if_splits)

text \<open>The loops of the deserialisers: \<open>None\<close> in the first component is \<^verbatim>\<open>goto exit\<close>. \<open>maxcount\<close> is not looked at.\<close>

function read_filters :: "u8 list \<Rightarrow> int \<Rightarrow> int \<Rightarrow> MQTTSubscribe \<Rightarrow> (bool \<times> MQTTSubscribe) option" where
  "read_filters buf enddata cur v =
     (if cur < enddata then do {
        s \<leftarrow> mem_get (sub_topicFilters v) (sub_count v);
        (ok, s, cur') \<leftarrow> readMQTTLenString s buf cur enddata;
        fs \<leftarrow> mem_set (sub_topicFilters v) (sub_count v) s;
        let v = v\<lparr> sub_topicFilters := fs \<rparr>;
        if \<not> ok then Some (False, v)
        else if cur' \<ge> enddata then Some (False, v)
        else do {
          (q, cur'') \<leftarrow> readChar buf cur';
          qs \<leftarrow> mem_set (sub_requestedQoSs v) (sub_count v) (uint q);
          read_filters buf enddata cur'' (v\<lparr> sub_requestedQoSs := qs, sub_count := sub_count v + 1 \<rparr>) } }
      else Some (True, v))"
  by pat_completeness auto

termination
  by (relation "measure (\<lambda>(buf, enddata, cur, v). nat (enddata - cur))")
     (auto simp: readChar_def bind_eq_Some_conv dest!: readMQTTLenString_advances)

declare read_filters.simps [simp del]

definition MQTTDeserialize_subscribe :: "int \<Rightarrow> MQTTSubscribe \<Rightarrow> u8 list \<Rightarrow> int \<Rightarrow> (int \<times> MQTTSubscribe) option" where
  "MQTTDeserialize_subscribe maxcount v buf buflen = do {
     (b, cur) \<leftarrow> readChar buf 0;
     let header = header_bits b;
     if uint (h_type header) \<noteq> msg_code SUBSCRIBE then Some (-1, v)
     else do {
       let v = v\<lparr> sub_dup := ucast (h_dup header) \<rparr>;
       (rc, mylen) \<leftarrow> MQTTPacket_decodeBuf buf cur;
       let cur = cur + rc;
       let enddata = cur + mylen;
       (n, cur) \<leftarrow> readInt buf cur;
       let v = v\<lparr> sub_packetid := word_of_int n, sub_count := 0 \<rparr>;
       (done, v) \<leftarrow> read_filters buf enddata cur v;
       Some (if done then 1 else rc, v) } }"

fun write_codes :: "nat \<Rightarrow> int list \<Rightarrow> u8 list \<times> int \<Rightarrow> (u8 list \<times> int) option" where
  "write_codes 0 qs w = Some w"
| "write_codes (Suc i) [] w = None"
| "write_codes (Suc i) (q # qs) w = do {
     w \<leftarrow> writeChar (word_of_int q) w;
     write_codes i qs w }"

definition MQTTSerialize_suback :: "u8 list \<Rightarrow> int \<Rightarrow> u16 \<Rightarrow> int \<Rightarrow> int list \<Rightarrow> (int \<times> u8 list) option" where
  "MQTTSerialize_suback buf buflen packetid count grantedQoSs = do {
     n \<leftarrow> c_int (2 + count);
     if buflen < n then Some (MQTTPACKET_BUFFER_TOO_SHORT, buf)
     else do {
       let header = header_zero\<lparr> h_type := word_of_int (msg_code SUBACK) \<rparr>;
       w \<leftarrow> writeChar (header_byte header) (buf, 0);
       w \<leftarrow> write_len n w;
       w \<leftarrow> writeInt (uint packetid) w;
       w \<leftarrow> write_codes (nat count) grantedQoSs w;
       Some (snd w, fst w) } }"

record MQTTSuback =
  sa_packetid :: u16
  sa_count :: int
  sa_grantedQoSs :: "int list"

function read_codes :: "u8 list \<Rightarrow> int \<Rightarrow> int \<Rightarrow> int \<Rightarrow> MQTTSuback \<Rightarrow> (bool \<times> MQTTSuback) option" where
  "read_codes buf enddata maxcount cur v =
     (if cur < enddata then
        (if sa_count v > maxcount then Some (False, v)
         else do {
           (q, cur') \<leftarrow> readChar buf cur;
           qs \<leftarrow> mem_set (sa_grantedQoSs v) (sa_count v) (uint q);
           read_codes buf enddata maxcount cur' (v\<lparr> sa_grantedQoSs := qs, sa_count := sa_count v + 1 \<rparr>) })
      else Some (True, v))"
  by pat_completeness auto

termination
  by (relation "measure (\<lambda>(buf, enddata, maxcount, cur, v). nat (enddata - cur))")
     (auto simp: readChar_def bind_eq_Some_conv)

declare read_codes.simps [simp del]

definition MQTTDeserialize_suback :: "int \<Rightarrow> MQTTSuback \<Rightarrow> u8 list \<Rightarrow> int \<Rightarrow> (int \<times> MQTTSuback) option" where
  "MQTTDeserialize_suback maxcount v buf buflen = do {
     (b, cur) \<leftarrow> readChar buf 0;
     if uint (h_type (header_bits b)) \<noteq> msg_code SUBACK then Some (0, v)
     else do {
       (rc, mylen) \<leftarrow> MQTTPacket_decodeBuf buf cur;
       let cur = cur + rc;
       let enddata = cur + mylen;
       if enddata - cur < 2 then Some (rc, v)
       else do {
         (n, cur) \<leftarrow> readInt buf cur;
         let v = v\<lparr> sa_packetid := word_of_int n, sa_count := 0 \<rparr>;
         (done, v) \<leftarrow> read_codes buf enddata maxcount cur v;
         Some (if done then 1 else -1, v) } } }"

section \<open>Unsubscribe\<close>

definition MQTTSerialize_unsubscribeLength :: "u8 list \<Rightarrow> int \<Rightarrow> MQTTString list \<Rightarrow> int option" where
  "MQTTSerialize_unsubscribeLength buf count topicFilters = filters_length buf 0 (nat count) topicFilters 2"

fun write_names :: "nat \<Rightarrow> MQTTString list \<Rightarrow> u8 list \<times> int \<Rightarrow> (u8 list \<times> int) option" where
  "write_names 0 fs w = Some w"
| "write_names (Suc i) [] w = None"
| "write_names (Suc i) (f # fs) w = do {
     w \<leftarrow> writeMQTTString f w;
     write_names i fs w }"

definition MQTTSerialize_unsubscribe ::
  "u8 list \<Rightarrow> int \<Rightarrow> u8 \<Rightarrow> u16 \<Rightarrow> int \<Rightarrow> MQTTString list \<Rightarrow> (int \<times> u8 list) option" where
  "MQTTSerialize_unsubscribe buf buflen dup packetid count topicFilters = do {
     rem_len \<leftarrow> MQTTSerialize_unsubscribeLength buf count topicFilters;
     n \<leftarrow> MQTTPacket_len rem_len;
     if n > buflen then Some (MQTTPACKET_BUFFER_TOO_SHORT, buf)
     else do {
       let header = header_zero\<lparr> h_type := word_of_int (msg_code UNSUBSCRIBE), h_dup := ucast dup, h_qos := 1 \<rparr>;
       w \<leftarrow> writeChar (header_byte header) (buf, 0);
       w \<leftarrow> write_len rem_len w;
       w \<leftarrow> writeInt (uint packetid) w;
       w \<leftarrow> write_names (nat count) topicFilters w;
       Some (snd w, fst w) } }"

record MQTTUnsubscribe =
  un_dup :: u8
  un_packetid :: u16
  un_count :: int
  un_topicFilters :: "MQTTString list"

function read_names :: "u8 list \<Rightarrow> int \<Rightarrow> int \<Rightarrow> MQTTUnsubscribe \<Rightarrow> (bool \<times> MQTTUnsubscribe) option" where
  "read_names buf enddata cur v =
     (if cur < enddata then do {
        s \<leftarrow> mem_get (un_topicFilters v) (un_count v);
        (ok, s, cur') \<leftarrow> readMQTTLenString s buf cur enddata;
        fs \<leftarrow> mem_set (un_topicFilters v) (un_count v) s;
        let v = v\<lparr> un_topicFilters := fs \<rparr>;
        if \<not> ok then Some (False, v)
        else read_names buf enddata cur' (v\<lparr> un_count := un_count v + 1 \<rparr>) }
      else Some (True, v))"
  by pat_completeness auto

termination
  by (relation "measure (\<lambda>(buf, enddata, cur, v). nat (enddata - cur))")
     (auto dest!: readMQTTLenString_advances)

declare read_names.simps [simp del]

definition MQTTDeserialize_unsubscribe :: "int \<Rightarrow> MQTTUnsubscribe \<Rightarrow> u8 list \<Rightarrow> int \<Rightarrow> (int \<times> MQTTUnsubscribe) option" where
  "MQTTDeserialize_unsubscribe maxcount v buf len = do {
     (b, cur) \<leftarrow> readChar buf 0;
     let header = header_bits b;
     if uint (h_type header) \<noteq> msg_code UNSUBSCRIBE then Some (0, v)
     else do {
       let v = v\<lparr> un_dup := ucast (h_dup header) \<rparr>;
       (rc, mylen) \<leftarrow> MQTTPacket_decodeBuf buf cur;
       let cur = cur + rc;
       let enddata = cur + mylen;
       (n, cur) \<leftarrow> readInt buf cur;
       let v = v\<lparr> un_packetid := word_of_int n, un_count := 0 \<rparr>;
       (done, v) \<leftarrow> read_names buf enddata cur v;
       Some (if done then 1 else rc, v) } }"

definition MQTTSerialize_unsuback :: "u8 list \<Rightarrow> int \<Rightarrow> u16 \<Rightarrow> (int \<times> u8 list) option" where
  "MQTTSerialize_unsuback buf buflen packetid =
     (if buflen < 2 then Some (MQTTPACKET_BUFFER_TOO_SHORT, buf)
      else do {
        let header = header_zero\<lparr> h_type := word_of_int (msg_code UNSUBACK) \<rparr>;
        w \<leftarrow> writeChar (header_byte header) (buf, 0);
        w \<leftarrow> write_len 2 w;
        w \<leftarrow> writeInt (uint packetid) w;
        Some (snd w, fst w) })"

definition MQTTDeserialize_unsuback :: "u16 \<Rightarrow> u8 list \<Rightarrow> int \<Rightarrow> (int \<times> u16) option" where
  "MQTTDeserialize_unsuback packetid buf buflen = do {
     (rc, v) \<leftarrow> MQTTDeserialize_ack \<lparr> ack_type = 0, ack_dup = 0, ack_packetid = packetid \<rparr> buf buflen;
     Some (if uint (ack_type v) = msg_code UNSUBACK then 1 else rc, ack_packetid v) }"

section \<open>What the serialisers write\<close>

text \<open>The length check lets a packet through whenever it fits with a byte to spare.\<close>

lemma packet_written:
  assumes "length (mqtt_packet h body) \<le> length buf"
  shows "Option.bind (put (mqtt_packet h body) (buf, 0)) (\<lambda>w. Some (snd w, fst w))
       = Some (int (length (mqtt_packet h body)), mqtt_packet h body @ drop (length (mqtt_packet h body)) buf)"
  using put_fits [OF assms] by simp

definition publish_header :: "u8 \<Rightarrow> int \<Rightarrow> u8 \<Rightarrow> MQTTHeader" where
  "publish_header dup qos retained = header_zero\<lparr> h_type := word_of_int (msg_code PUBLISH), h_dup := ucast dup,
     h_qos := word_of_int qos, h_retain := ucast retained \<rparr>"

definition publish_body :: "u8 list \<Rightarrow> int \<Rightarrow> u16 \<Rightarrow> u8 list \<Rightarrow> u8 list" where
  "publish_body topic qos packetid pl = mqtt_string topic @ (if qos > 0 then two_bytes (uint packetid) else []) @ pl"

lemma publish_written:
  assumes s: "denotes s topic" and small: "length (publish_body topic qos packetid pl) < 2 ^ 28"
    and n: "MQTTPacket_len (int (length (publish_body topic qos packetid pl))) = Some n"
  shows "MQTTSerialize_publish buf buflen dup qos retained packetid s (Mem (pl @ z)) (int (length pl))
     = (if n > buflen then Some (MQTTPACKET_BUFFER_TOO_SHORT, buf)
        else Option.bind (put (mqtt_packet (publish_header dup qos retained) (publish_body topic qos packetid pl)) (buf, 0))
               (\<lambda>w. Some (snd w, fst w)))"
proof -
  have "MQTTSerialize_publishLength buf qos s (int (length pl)) = Some (int (length (publish_body topic qos packetid pl)))"
    using s small by (simp add: MQTTSerialize_publishLength_def MQTTstrlen_denotes publish_body_def c_int_def)
  then show ?thesis using s n
    by (simp add: MQTTSerialize_publish_def puts put_put_bind write_mem_put mqtt_packet_def
        publish_header_def publish_body_def)
qed

section \<open>Reading a publish packet\<close>

text \<open>What the deserialiser has found: topic and payload are windows of the buffer.\<close>

definition publish_found ::
  "u8 list \<Rightarrow> MQTTPublish \<Rightarrow> u8 \<Rightarrow> int \<Rightarrow> u8 \<Rightarrow> u16 \<Rightarrow> u8 list \<Rightarrow> u8 list \<Rightarrow> bool" where
  "publish_found buf v dup qos retained packetid topic pl \<longleftrightarrow>
     pub_dup v = dup \<and> pub_qos v = qos \<and> pub_retained v = retained \<and> (0 < qos \<longrightarrow> pub_packetid v = packetid)
   \<and> views buf (pub_topicName v) topic
   \<and> pub_payloadlen v = int (length pl) \<and> (\<exists>p. pub_payload v = Some p \<and> at buf p pl)"

lemma publish_read:
  assumes a: "at buf 0 (mqtt_packet h (publish_body topic (uint (h_qos h)) packetid pl))" and t: "h_type h = 3"
    and small: "length (publish_body topic (uint (h_qos h)) packetid pl) < 2 ^ 28" "length topic < 65536"
  shows "\<exists>v'. MQTTDeserialize_publish v buf buflen = Some (1, v')
     \<and> publish_found buf v' (ucast (h_dup h)) (uint (h_qos h)) (ucast (h_retain h)) packetid topic pl
     \<and> pub_payload v' = Some (int (length (mqtt_packet h (publish_body topic (uint (h_qos h)) packetid pl))) - int (length pl))
     \<and> lenstring_data (pub_topicName v') = Some (Pkt (3 + int (length (mqtt_digits (int (length
          (publish_body topic (uint (h_qos h)) packetid pl)))))))"
proof -
  let ?q = "uint (h_qos h)" and ?body = "publish_body topic (uint (h_qos h)) packetid pl"
  define k where "k = int (length (mqtt_digits (int (length ?body))))"
  note st = packet_start [OF a small(1), folded k_def]
  have b: "at buf (1 + k) (mqtt_string topic)" "at buf (1 + k + 2 + int (length topic)) ((if ?q > 0 then two_bytes (uint packetid) else []) @ pl)"
    using st(3) by (simp_all add: publish_body_def at_append algebra_simps)
  have len: "int (length ?body) = 2 + int (length topic) + (if ?q > 0 then 2 else 0) + int (length pl)"
    by (simp add: publish_body_def)
  obtain s' where s': "readMQTTLenString (pub_topicName v) buf (1 + k) (1 + k + int (length ?body))
      = Some (True, s', 1 + k + 2 + int (length topic))" "views buf s' topic" "lenstring_data s' = Some (Pkt (1 + k + 2))"
    using readMQTTLenString_at [OF b(1) small(2), of "1 + k + int (length ?body)" "pub_topicName v"] len by auto
  show ?thesis
  proof (cases "?q > 0")
    case True
    then have "at buf (1 + k + 2 + int (length topic)) (two_bytes (uint packetid))"
      and p: "at buf (1 + k + 2 + int (length topic) + 2) pl" using b(2) by (simp_all add: at_append)
    then have "readInt buf (1 + k + 2 + int (length topic)) = Some (uint packetid, 1 + k + 2 + int (length topic) + 2)"
      using uint_lt2p [of packetid] by (intro readInt_at) auto
    then show ?thesis using True st t s' p len
      by (simp add: MQTTDeserialize_publish_def publish_found_def k_def length_packet)
  next
    case False
    then show ?thesis using st t s' b(2) len
      by (simp add: MQTTDeserialize_publish_def publish_found_def k_def length_packet add.assoc)
  qed
qed

text \<open>C26. A publish packet survives the wire: whatever topic, payload and flags are serialised into a
  buffer that is long enough are what the deserialiser of the receiver, whose buffer starts with the
  bytes sent, returns; with a buffer that is too short nothing is written. Topics are shorter than 65536
  bytes and the packet than 2 ^ 28.\<close>

theorem publish_roundtrip:
  assumes "denotes s topic" and "dup < 2" and "0 \<le> qos" and "qos < 3" and "retained < 2"
    and "length topic + length pl + 4 < 2 ^ 28" and "MQTTPacket_len (int (length (publish_body topic qos packetid pl))) = Some n"
    and "n \<le> int (length buf)"
  shows "if n > buflen
     then MQTTSerialize_publish buf buflen dup qos retained packetid s (Mem (pl @ z)) (int (length pl))
        = Some (MQTTPACKET_BUFFER_TOO_SHORT, buf)
     else (\<exists>pkt. MQTTSerialize_publish buf buflen dup qos retained packetid s (Mem (pl @ z)) (int (length pl))
              = Some (int (length pkt), pkt @ drop (length pkt) buf)
        \<and> int (length pkt) \<le> buflen
        \<and> (\<forall>more v. \<exists>v'. MQTTDeserialize_publish v (pkt @ more) (int (length pkt)) = Some (1, v')
              \<and> publish_found (pkt @ more) v' dup qos retained packetid topic pl))"
proof -
  let ?body = "publish_body topic qos packetid pl" and ?h = "publish_header dup qos retained"
  have small: "length ?body < 2 ^ 28" "length topic < 65536"
    using assms(1,6) by (simp_all add: publish_body_def denotes_def)
  have q: "uint (h_qos ?h) = qos" "h_type ?h = 3" "h_dup ?h = ucast dup" "h_retain ?h = ucast retained"
    using assms(3,4) by (simp_all add: publish_header_def unsigned_of_int take_bit_int_eq_self)
  have bit: "ucast (ucast b :: 1 word) = b" if "b < 2" for b :: u8
  proof -
    have "uint b = 0 \<or> uint b = 1" using that uint_ge_0 [of b] unfolding word_less_def by (simp, linarith)
    then have "b = 0 \<or> b = 1" by (auto simp: word_uint_eq_iff)
    then show ?thesis by auto
  qed
  have L: "int (length (mqtt_packet ?h ?body)) \<le> n"
    using packet_len_eq [of "int (length ?body)"] small(1) assms(7) by (simp add: length_packet split: if_splits)
  note w = publish_written [OF assms(1) small(1) assms(7), of buf buflen dup retained z]
  note r = publish_read [of _ ?h topic packetid pl, unfolded q, OF _ refl small]
  show ?thesis
  proof (cases "n > buflen")
    case False
    have "length (mqtt_packet ?h ?body) \<le> length buf" using L assms(8) by linarith
    moreover have "\<exists>v'. MQTTDeserialize_publish v (mqtt_packet ?h ?body @ more) k = Some (1, v')
        \<and> publish_found (mqtt_packet ?h ?body @ more) v' dup qos retained packetid topic pl" for more v k
      using r [OF at_start, of v more k] bit [OF assms(2)] bit [OF assms(5)] by auto
    ultimately show ?thesis using False w L
      by (simp add: packet_written) (intro exI [of _ "mqtt_packet ?h ?body"], simp)
  qed (simp add: w)
qed

section \<open>Acknowledgements on the wire\<close>

lemma ack_written:
  assumes "4 \<le> length buf" and "4 \<le> buflen"
  shows "MQTTSerialize_ack buf buflen ty dup packetid =
     (let pkt = mqtt_packet (header_zero\<lparr> h_type := ucast ty, h_dup := ucast dup \<rparr>) (two_bytes (uint packetid))
      in Some (4, pkt @ drop 4 buf))"
proof -
  let ?h = "header_zero\<lparr> h_type := ucast ty, h_dup := ucast dup \<rparr>"
  have l: "length (mqtt_packet ?h (two_bytes (uint packetid))) = 4" by (simp add: length_packet length_digits)
  have "MQTTSerialize_ack buf buflen ty dup packetid =
      Option.bind (put (mqtt_packet ?h (two_bytes (uint packetid))) (buf, 0)) (\<lambda>w. Some (snd w, fst w))"
    using assms by (simp add: MQTTSerialize_ack_def puts put_put_bind mqtt_packet_def header_zero_def)
  then show ?thesis using packet_written [of ?h "two_bytes (uint packetid)" buf] assms by (simp add: l Let_def)
qed

lemma ack_read:
  assumes "at buf 0 (mqtt_packet h (two_bytes (uint packetid)))"
  shows "MQTTDeserialize_ack v buf buflen
     = Some (1, v\<lparr> ack_type := ucast (h_type h), ack_dup := ucast (h_dup h), ack_packetid := packetid \<rparr>)"
proof -
  note st = packet_start [OF assms]
  have "readInt buf (1 + int (length (mqtt_digits 2))) = Some (uint packetid, 1 + int (length (mqtt_digits 2)) + 2)"
    by (rule readInt_at) (use st(3) uint_lt2p [of packetid] in simp_all)
  then show ?thesis using st by (simp add: MQTTDeserialize_ack_def)
qed

lemma word4_ucast: "n < 16 \<Longrightarrow> ucast (ucast (n :: u8) :: 4 word) = n"
proof -
  assume "n < 16"
  then have "take_bit 4 (uint n) = uint n" by (intro take_bit_int_eq_self) (simp_all add: word_less_def)
  then show ?thesis by (simp add: word_uint_eq_iff unsigned_ucast_eq unsigned_take_bit_eq)
qed

lemma bit_ucast: "n < 2 \<Longrightarrow> ucast (ucast (n :: u8) :: 1 word) = n"
proof -
  assume "n < 2"
  then have "uint n = 0 \<or> uint n = 1" using uint_ge_0 [of n] unfolding word_less_def by (simp, linarith)
  then have "n = 0 \<or> n = 1" by (auto simp: word_uint_eq_iff)
  then show ?thesis by auto
qed

section \<open>Subscriptions on the wire\<close>

definition subscribe_body :: "u16 \<Rightarrow> (u8 list \<times> u8) list \<Rightarrow> u8 list" where
  "subscribe_body packetid fs = two_bytes (uint packetid) @ concat (map (\<lambda>f. mqtt_string (fst f) @ [snd f]) fs)"

lemma length_filters: "length (concat (map (\<lambda>f. mqtt_string (fst f) @ [snd f]) fs)) = sum_list (map (\<lambda>f. length (fst f) + 3) fs)"
  by (induction fs) auto

lemma filters_length_eq:
  "list_all2 (\<lambda>s f. denotes s (fst f)) ss fs \<Longrightarrow>
   0 \<le> len \<Longrightarrow> len + int (length (concat (map (\<lambda>f. mqtt_string (fst f) @ [snd f]) fs))) < 2 ^ 31 \<Longrightarrow>
   filters_length buf 1 (length fs) ss len = Some (len + int (length (concat (map (\<lambda>f. mqtt_string (fst f) @ [snd f]) fs))))"
proof (induction ss fs arbitrary: len rule: list_all2_induct)
  case (Cons s ss f fs)
  then show ?case by (simp add: MQTTstrlen_denotes c_int_def algebra_simps)
qed simp

lemma write_filters_put:
  "list_all2 (\<lambda>s f. denotes s (fst f)) ss fs \<Longrightarrow>
   Option.bind (put xs w) (write_filters (length fs) ss (map (\<lambda>f. uint (snd f)) fs))
     = put (xs @ concat (map (\<lambda>f. mqtt_string (fst f) @ [snd f]) fs)) w"
proof (induction ss fs arbitrary: xs w rule: list_all2_induct)
  case (Cons s ss f fs)
  show ?case using Cons(1) by (simp add: puts put_put_bind put_put Cons(3))
next
  case Nil
  show ?case by (cases "put xs w") simp_all
qed

lemma subscribe_written:
  assumes ss: "list_all2 (\<lambda>s f. denotes s (fst f)) ss fs" and small: "length (subscribe_body packetid fs) < 2 ^ 28"
    and n: "MQTTPacket_len (int (length (subscribe_body packetid fs))) = Some n"
  shows "MQTTSerialize_subscribe buf buflen dup packetid (int (length fs)) ss (map (\<lambda>f. uint (snd f)) fs)
     = (if n > buflen then Some (MQTTPACKET_BUFFER_TOO_SHORT, buf)
        else Option.bind (put (mqtt_packet (header_zero\<lparr> h_type := 8, h_dup := ucast dup, h_qos := 1 \<rparr>)
                (subscribe_body packetid fs)) (buf, 0)) (\<lambda>w. Some (snd w, fst w)))"
proof -
  have "MQTTSerialize_subscribeLength buf (int (length fs)) ss = Some (int (length (subscribe_body packetid fs)))"
    using filters_length_eq [OF ss, of 2 buf] small by (simp add: MQTTSerialize_subscribeLength_def subscribe_body_def)
  moreover have "Option.bind (put xs w) (\<lambda>w. Option.bind (write_filters (length fs) ss (map (\<lambda>f. uint (snd f)) fs) w) f)
      = Option.bind (put (xs @ concat (map (\<lambda>f. mqtt_string (fst f) @ [snd f]) fs)) w) f" for xs w and f :: "u8 list \<times> int \<Rightarrow> (int \<times> u8 list) option"
    by (simp flip: write_filters_put [OF ss])
  ultimately show ?thesis using n
    by (simp add: MQTTSerialize_subscribe_def puts put_put_bind mqtt_packet_def)
       (simp add: subscribe_body_def)
qed

text \<open>The arrays after the loop: the entries from \<open>i\<close> on are filled in.\<close>

lemma read_filters_all:
  "at buf cur (concat (map (\<lambda>f. mqtt_string (fst f) @ [snd f]) fs)) \<Longrightarrow>
   enddata = cur + int (length (concat (map (\<lambda>f. mqtt_string (fst f) @ [snd f]) fs))) \<Longrightarrow>
   \<forall>f \<in> set fs. length (fst f) < 65536 \<Longrightarrow> sub_count v = int i \<Longrightarrow>
   i + length fs \<le> length (sub_topicFilters v) \<Longrightarrow> i + length fs \<le> length (sub_requestedQoSs v) \<Longrightarrow>
   \<exists>new. read_filters buf enddata cur v = Some (True, v\<lparr> sub_count := int (i + length fs),
        sub_topicFilters := take i (sub_topicFilters v) @ new @ drop (i + length fs) (sub_topicFilters v),
        sub_requestedQoSs := take i (sub_requestedQoSs v) @ map (\<lambda>f. uint (snd f)) fs
           @ drop (i + length fs) (sub_requestedQoSs v) \<rparr>)
     \<and> list_all2 (\<lambda>s f. views buf s (fst f)) new fs"
proof (induction fs arbitrary: cur v i)
  case Nil
  then show ?case by (subst read_filters.simps) simp
next
  case (Cons f fs)
  let ?s = "sub_topicFilters v ! i" and ?c = "cur + 2 + int (length (fst f))"
  let ?enc = "concat (map (\<lambda>f. mqtt_string (fst f) @ [snd f]) fs)"
  have "at buf cur (mqtt_string (fst f) @ [snd f] @ ?enc)" using Cons.prems(1) by simp
  then have a: "at buf cur (mqtt_string (fst f))" "at buf ?c [snd f]" "at buf (?c + 1) ?enc"
    unfolding at_append by (simp_all add: algebra_simps)
  have e: "enddata = ?c + 1 + int (length ?enc)" "?c < enddata" "cur < enddata"
    using Cons.prems(2) by simp_all
  obtain s' where s': "readMQTTLenString ?s buf cur enddata = Some (True, s', ?c)" "views buf s' (fst f)"
    using readMQTTLenString_at [OF a(1), of enddata ?s] Cons.prems(3) e(2) by auto
  define w where "w = v\<lparr> sub_topicFilters := (sub_topicFilters v)[i := s'],
      sub_requestedQoSs := (sub_requestedQoSs v)[i := uint (snd f)], sub_count := int i + 1 \<rparr>"
  have i: "i < length (sub_topicFilters v)" "i < length (sub_requestedQoSs v)" using Cons.prems(5,6) by simp_all
  have step: "read_filters buf enddata cur v = read_filters buf enddata (?c + 1) w"
    using Cons.prems(4) i e(2,3) s'(1) readChar_at [OF a(2)]
    by (subst read_filters.simps) (simp add: w_def)
  have w: "\<forall>f \<in> set fs. length (fst f) < 65536" "sub_count w = int (Suc i)"
    "Suc i + length fs \<le> length (sub_topicFilters w)" "Suc i + length fs \<le> length (sub_requestedQoSs w)"
    using Cons.prems(3,5,6) by (simp_all add: w_def)
  obtain new where new: "read_filters buf enddata (?c + 1) w = Some (True, w\<lparr> sub_count := int (Suc i + length fs),
        sub_topicFilters := take (Suc i) (sub_topicFilters w) @ new @ drop (Suc i + length fs) (sub_topicFilters w),
        sub_requestedQoSs := take (Suc i) (sub_requestedQoSs w) @ map (\<lambda>f. uint (snd f)) fs
           @ drop (Suc i + length fs) (sub_requestedQoSs w) \<rparr>)"
      "list_all2 (\<lambda>s f. views buf s (fst f)) new fs"
    using Cons.IH [OF a(3) e(1) w] by blast
  show ?case
  proof (intro exI [of _ "s' # new"] conjI)
    show "list_all2 (\<lambda>s f. views buf s (fst f)) (s' # new) (f # fs)" using new(2) s'(2) by simp
  qed (unfold step new(1), simp add: w_def i take_Suc_conv_app_nth)
qed

lemma subscribe_read:
  assumes a: "at buf 0 (mqtt_packet h (subscribe_body packetid fs))" and h: "h_type h = 8"
    and small: "length (subscribe_body packetid fs) < 2 ^ 28" "\<forall>f \<in> set fs. length (fst f) < 65536"
    and m: "length fs \<le> length (sub_topicFilters v)" "length fs \<le> length (sub_requestedQoSs v)"
  shows "\<exists>new. MQTTDeserialize_subscribe maxcount v buf buflen = Some (1, v\<lparr> sub_dup := ucast (h_dup h),
        sub_packetid := packetid, sub_count := int (length fs),
        sub_topicFilters := new @ drop (length fs) (sub_topicFilters v),
        sub_requestedQoSs := map (\<lambda>f. uint (snd f)) fs @ drop (length fs) (sub_requestedQoSs v) \<rparr>)
     \<and> list_all2 (\<lambda>s f. views buf s (fst f)) new fs"
proof -
  let ?enc = "concat (map (\<lambda>f. mqtt_string (fst f) @ [snd f]) fs)"
  define k where "k = int (length (mqtt_digits (int (length (subscribe_body packetid fs)))))"
  note st = packet_start [OF a small(1), folded k_def]
  have b: "at buf (1 + k) (two_bytes (uint packetid))" "at buf (1 + k + 2) ?enc"
    using st(3) by (simp_all add: subscribe_body_def at_append)
  have "readInt buf (1 + k) = Some (uint packetid, 1 + k + 2)"
    using b(1) uint_lt2p [of packetid] by (intro readInt_at) auto
  moreover have "1 + k + int (length (subscribe_body packetid fs)) = 1 + k + 2 + int (length ?enc)"
    by (simp add: subscribe_body_def)
  moreover note read_filters_all [OF b(2) refl small(2), of
      "v\<lparr> sub_dup := ucast (h_dup h), sub_packetid := packetid, sub_count := 0 \<rparr>" 0]
  ultimately show ?thesis using st(1,2) h m by (auto simp: MQTTDeserialize_subscribe_def Let_def add.assoc)
qed

text \<open>A subscribe packet survives the wire: the topic filters and the requested qualities of service
  that are serialised into a long enough buffer are what the receiver finds, in their order, in
  arrays with room for them.\<close>

theorem subscribe_roundtrip:
  assumes "list_all2 (\<lambda>s f. denotes s (fst f)) ss fs" and "dup < 2"
    and "length (subscribe_body packetid fs) < 2 ^ 28"
    and "MQTTPacket_len (int (length (subscribe_body packetid fs))) = Some n" and "n \<le> buflen" and "n \<le> int (length buf)"
    and "length fs \<le> length (sub_topicFilters v)" and "length fs \<le> length (sub_requestedQoSs v)"
  shows "\<exists>pkt new. MQTTSerialize_subscribe buf buflen dup packetid (int (length fs)) ss (map (\<lambda>f. uint (snd f)) fs)
              = Some (int (length pkt), pkt @ drop (length pkt) buf)
        \<and> int (length pkt) \<le> buflen
        \<and> MQTTDeserialize_subscribe maxcount v (pkt @ z) (int (length pkt)) = Some (1, v\<lparr> sub_dup := dup,
              sub_packetid := packetid, sub_count := int (length fs),
              sub_topicFilters := new @ drop (length fs) (sub_topicFilters v),
              sub_requestedQoSs := map (\<lambda>f. uint (snd f)) fs @ drop (length fs) (sub_requestedQoSs v) \<rparr>)
        \<and> list_all2 (\<lambda>s f. views (pkt @ z) s (fst f)) new fs"
proof -
  let ?body = "subscribe_body packetid fs" and ?h = "header_zero\<lparr> h_type := 8, h_dup := ucast dup, h_qos := 1 \<rparr>"
  let ?pkt = "mqtt_packet ?h ?body"
  have L: "int (length ?pkt) \<le> n"
    using packet_len_eq [of "int (length ?body)"] assms(3,4) by (simp add: length_packet split: if_splits)
  then have l: "length ?pkt \<le> length buf" "\<not> n > buflen" using assms(5,6) by linarith+
  have f: "\<forall>f \<in> set fs. length (fst f) < 65536"
    using assms(1) by (induction rule: list_all2_induct) (simp_all add: denotes_def)
  obtain new where new: "MQTTDeserialize_subscribe maxcount v (?pkt @ z) (int (length ?pkt)) = Some (1, v\<lparr> sub_dup := dup,
        sub_packetid := packetid, sub_count := int (length fs),
        sub_topicFilters := new @ drop (length fs) (sub_topicFilters v),
        sub_requestedQoSs := map (\<lambda>f. uint (snd f)) fs @ drop (length fs) (sub_requestedQoSs v) \<rparr>)"
      "list_all2 (\<lambda>s f. views (?pkt @ z) s (fst f)) new fs"
    using subscribe_read [OF at_start [of ?pkt z] _ assms(3) f assms(7,8), of maxcount "int (length ?pkt)"]
    by (auto simp: bit_ucast [OF assms(2)])
  show ?thesis
    using subscribe_written [OF assms(1,3,4), of buf buflen dup] packet_written [OF l(1)] l(2) new L assms(5)
    by (intro exI [of _ ?pkt] exI [of _ new]) simp
qed

section \<open>Suback\<close>

lemma write_codes_put:
  "Option.bind (put xs w) (write_codes (length cs) (map uint cs)) = put (xs @ cs) w"
proof (induction cs arbitrary: xs)
  case Nil
  show ?case by (cases "put xs w") simp_all
next
  case (Cons c cs)
  show ?case using Cons.IH [of "xs @ [c]"] by (simp add: puts put_put_bind)
qed

definition suback_packet :: "u16 \<Rightarrow> u8 list \<Rightarrow> u8 list" where
  "suback_packet packetid cs = mqtt_packet (header_zero\<lparr> h_type := 9 \<rparr>) (two_bytes (uint packetid) @ cs)"

lemma suback_written:
  assumes "int (length cs) + 2 < 2 ^ 28" and "int (length cs) + 2 \<le> buflen"
  shows "MQTTSerialize_suback buf buflen packetid (int (length cs)) (map uint cs)
     = Option.bind (put (suback_packet packetid cs) (buf, 0)) (\<lambda>w. Some (snd w, fst w))"
proof -
  have "Option.bind (put xs w) (\<lambda>w. Option.bind (write_codes (length cs) (map uint cs) w) f)
      = Option.bind (put (xs @ cs) w) f" for xs w and f :: "u8 list \<times> int \<Rightarrow> (int \<times> u8 list) option"
    by (simp flip: write_codes_put)
  then show ?thesis using assms
    by (simp add: MQTTSerialize_suback_def c_int_def puts put_put_bind suback_packet_def mqtt_packet_def)
qed

lemma read_codes_all:
  "at buf cur cs \<Longrightarrow> enddata = cur + int (length cs) \<Longrightarrow> sa_count v = int i \<Longrightarrow>
   i + length cs \<le> length (sa_grantedQoSs v) \<Longrightarrow> int i + int (length cs) \<le> maxcount + 1 \<Longrightarrow>
   read_codes buf enddata maxcount cur v = Some (True, v\<lparr> sa_count := int (i + length cs),
     sa_grantedQoSs := take i (sa_grantedQoSs v) @ map uint cs @ drop (i + length cs) (sa_grantedQoSs v) \<rparr>)"
proof (induction cs arbitrary: cur v i)
  case Nil
  then show ?case by (subst read_codes.simps) simp
next
  case (Cons c cs)
  define w where "w = v\<lparr> sa_grantedQoSs := (sa_grantedQoSs v)[i := uint c], sa_count := int i + 1 \<rparr>"
  have i: "i < length (sa_grantedQoSs v)" using Cons.prems(4) by simp
  have a: "at buf cur [c]" "at buf (cur + 1) cs"
    using Cons.prems(1) at_append [of buf cur "[c]" cs] by simp_all
  have step: "read_codes buf enddata maxcount cur v = read_codes buf enddata maxcount (cur + 1) w"
    using Cons.prems(2,3,5) i readChar_at [OF a(1)] by (subst read_codes.simps) (simp add: w_def)
  have "read_codes buf enddata maxcount (cur + 1) w = Some (True, w\<lparr> sa_count := int (Suc i + length cs),
     sa_grantedQoSs := take (Suc i) (sa_grantedQoSs w) @ map uint cs @ drop (Suc i + length cs) (sa_grantedQoSs w) \<rparr>)"
    by (rule Cons.IH [OF a(2)]) (use Cons.prems in \<open>simp_all add: w_def\<close>)
  then show ?case unfolding step by (simp add: w_def i take_Suc_conv_app_nth)
qed

text \<open>More codes than the array has room for: the store behind it.\<close>

lemma read_codes_overrun:
  "at buf cur cs \<Longrightarrow> enddata = cur + int (length cs) \<Longrightarrow> sa_count v = int i \<Longrightarrow>
   length (sa_grantedQoSs v) = m \<Longrightarrow> i \<le> m \<Longrightarrow> m < i + length cs \<Longrightarrow> maxcount = int m \<Longrightarrow>
   read_codes buf enddata maxcount cur v = None"
proof (induction cs arbitrary: cur v i)
  case (Cons c cs)
  have a: "at buf cur [c]" "at buf (cur + 1) cs"
    using Cons.prems(1) at_append [of buf cur "[c]" cs] by simp_all
  show ?case
  proof (cases "i = m")
    case True
    then show ?thesis using Cons.prems readChar_at [OF a(1)]
      by (subst read_codes.simps) (simp add: mem_set_def)
  next
    case False
    let ?w = "v\<lparr> sa_grantedQoSs := (sa_grantedQoSs v)[i := uint c], sa_count := int i + 1 \<rparr>"
    have "read_codes buf enddata maxcount (cur + 1) ?w = None"
      by (rule Cons.IH [OF a(2), of _ "Suc i"]) (use Cons.prems False in simp_all)
    then show ?thesis using Cons.prems False readChar_at [OF a(1)]
      by (subst read_codes.simps) simp
  qed
qed simp

lemma suback_read:
  assumes "at buf 0 (suback_packet packetid cs)" and "length cs + 2 < 2 ^ 28"
  shows "MQTTDeserialize_suback maxcount v buf buflen = (let k = 1 + int (length (mqtt_digits (2 + int (length cs)))) in
     Option.bind (read_codes buf (k + 2 + int (length cs)) maxcount (k + 2) (v\<lparr> sa_packetid := packetid, sa_count := 0 \<rparr>))
       (\<lambda>(done, v). Some (if done then 1 else -1, v)))"
    and "at buf (1 + int (length (mqtt_digits (2 + int (length cs)))) + 2) cs"
proof -
  note st = packet_start [OF assms(1) [unfolded suback_packet_def]]
  define k where "k = 1 + int (length (mqtt_digits (2 + int (length cs))))"
  have s: "MQTTPacket_decodeBuf buf 1 = Some (k - 1, 2 + int (length cs))" "at buf k (two_bytes (uint packetid) @ cs)"
    using st(2,3) assms(2) by (simp_all add: k_def)
  then have "readInt buf k = Some (uint packetid, k + 2)"
    using uint_lt2p [of packetid] by (intro readInt_at) (auto simp: at_append)
  then show "MQTTDeserialize_suback maxcount v buf buflen = (let k = 1 + int (length (mqtt_digits (2 + int (length cs)))) in
     Option.bind (read_codes buf (k + 2 + int (length cs)) maxcount (k + 2) (v\<lparr> sa_packetid := packetid, sa_count := 0 \<rparr>))
       (\<lambda>(done, v). Some (if done then 1 else -1, v)))"
    using st(1) s assms(2) unfolding k_def [symmetric] by (simp add: MQTTDeserialize_suback_def Let_def add.assoc)
  show "at buf (1 + int (length (mqtt_digits (2 + int (length cs)))) + 2) cs"
    using s(2) by (simp add: at_append k_def add.commute)
qed

text \<open>A suback: the codes that are serialised are the codes that the receiver finds when its array,
  of \<open>maxcount\<close> elements, has room for them; one code too many is stored behind the array, since the
  guard compares with \<^verbatim>\<open>>\<close>.\<close>

theorem suback_correct:
  assumes "length cs + 2 < 2 ^ 28" and "int (length cs) + 2 \<le> buflen"
    and "length (suback_packet packetid cs) \<le> length buf"
    and "maxcount = int (length (sa_grantedQoSs v))"
  shows "MQTTSerialize_suback buf buflen packetid (int (length cs)) (map uint cs)
       = Some (int (length (suback_packet packetid cs)), suback_packet packetid cs @ drop (length (suback_packet packetid cs)) buf)
     \<and> MQTTDeserialize_suback maxcount v (suback_packet packetid cs @ z) n =
        (if length cs \<le> length (sa_grantedQoSs v)
         then Some (1, v\<lparr> sa_packetid := packetid, sa_count := int (length cs),
                sa_grantedQoSs := map uint cs @ drop (length cs) (sa_grantedQoSs v) \<rparr>)
         else None)"
proof (rule conjI)
  show "MQTTSerialize_suback buf buflen packetid (int (length cs)) (map uint cs)
       = Some (int (length (suback_packet packetid cs)), suback_packet packetid cs @ drop (length (suback_packet packetid cs)) buf)"
    using suback_written [of cs buflen buf packetid] assms(1-3) put_fits [OF assms(3)] by simp
  note r = suback_read [OF at_start [of "suback_packet packetid cs" z] assms(1)]
  show "MQTTDeserialize_suback maxcount v (suback_packet packetid cs @ z) n =
        (if length cs \<le> length (sa_grantedQoSs v)
         then Some (1, v\<lparr> sa_packetid := packetid, sa_count := int (length cs),
                sa_grantedQoSs := map uint cs @ drop (length cs) (sa_grantedQoSs v) \<rparr>)
         else None)"
    using read_codes_all [OF r(2) refl, of "v\<lparr> sa_packetid := packetid, sa_count := 0 \<rparr>" 0 maxcount]
      read_codes_overrun [OF r(2) refl, of "v\<lparr> sa_packetid := packetid, sa_count := 0 \<rparr>" 0 _ maxcount] assms(4)
    by (simp add: r(1) Let_def)
qed

section \<open>Where the result codes go wrong\<close>

lemma low_bit: "ucast (ucast (ucast (x :: u16) :: u8) :: 1 word) = (of_bool (bit x 0) :: u8)"
  by (rule bit_word_eqI) (auto simp: bit_simps)

text \<open>\<^verbatim>\<open>MQTTSerialize_puback\<close> and its kin hand their packet identifier on as the DUP flag: the packet
  acknowledges identifier 0 (for pubrel, the DUP flag), whatever identifier was to be acknowledged.\<close>

theorem puback_wrong_packetid:
  assumes "4 \<le> length buf" and "4 \<le> buflen"
  shows "\<exists>b1 b2 b3. MQTTSerialize_puback buf buflen packetid = Some (4, b1)
     \<and> MQTTSerialize_pubrel buf buflen dup packetid = Some (4, b2)
     \<and> MQTTSerialize_pubcomp buf buflen packetid = Some (4, b3)
     \<and> MQTTDeserialize_ack v b1 4 = Some (1, v\<lparr> ack_type := 4, ack_dup := of_bool (bit packetid 0), ack_packetid := 0 \<rparr>)
     \<and> MQTTDeserialize_ack v b2 4 = Some (1, v\<lparr> ack_type := 6, ack_dup := of_bool (bit packetid 0), ack_packetid := ucast dup \<rparr>)
     \<and> MQTTDeserialize_ack v b3 4 = Some (1, v\<lparr> ack_type := 7, ack_dup := of_bool (bit packetid 0), ack_packetid := 0 \<rparr>)"
proof -
  have r: "MQTTDeserialize_ack v (mqtt_packet (header_zero\<lparr> h_type := ucast ty, h_dup := ucast (ucast packetid :: u8) \<rparr>)
        (two_bytes (uint pid)) @ z) 4
      = Some (1, v\<lparr> ack_type := ucast (ucast ty :: 4 word), ack_dup := of_bool (bit packetid 0), ack_packetid := pid \<rparr>)" for ty :: u8 and pid z
    using ack_read [OF at_start [of "mqtt_packet (header_zero\<lparr> h_type := ucast ty, h_dup := ucast (ucast packetid :: u8) \<rparr>)
        (two_bytes (uint pid))" z]]
    by (simp add: low_bit)
  show ?thesis
    using r [of 4 0 "drop 4 buf"] r [of 6 "ucast dup" "drop 4 buf"] r [of 7 0 "drop 4 buf"]
    by (simp add: MQTTSerialize_puback_def MQTTSerialize_pubrel_def MQTTSerialize_pubcomp_def ack_written [OF assms] Let_def)
qed

text \<open>An early exit of \<^verbatim>\<open>MQTTDeserialize_publish\<close> returns the number of length bytes: a publish packet that
  is too short for its topic, with one length byte, is reported as success, and neither payload nor
  payload length is set.\<close>

theorem truncated_publish_succeeds:
  assumes "h_type h = 3" and "length body < 128"
    and "length body < 2 \<or> (\<exists>n rest. body = two_bytes n @ rest \<and> int (length rest) < n \<and> n < 65536)"
  shows "\<exists>v'. MQTTDeserialize_publish v (mqtt_packet h body @ z) n = Some (1, v')
     \<and> pub_payload v' = pub_payload v \<and> pub_payloadlen v' = pub_payloadlen v
     \<and> lenstring_data (pub_topicName v') = lenstring_data (pub_topicName v)"
proof -
  let ?buf = "mqtt_packet h body @ z"
  have small: "length body < 2 ^ 28" using assms(2) by simp
  have k: "length (mqtt_digits (int (length body))) = 1" using assms(2) by (simp add: length_digits)
  note st = packet_start [OF at_start [of _ z] small, of h]
  have "\<exists>s p. readMQTTLenString (pub_topicName v) ?buf 2 (2 + int (length body)) = Some (False, s, p)
      \<and> lenstring_data s = lenstring_data (pub_topicName v)"
  proof (cases "length body < 2")
    case True
    then show ?thesis by (simp add: readMQTTLenString_def)
  next
    case False
    then obtain n rest where b: "body = two_bytes n @ rest" "int (length rest) < n" "n < 65536" using assms(3) by auto
    have "at ?buf 2 (two_bytes n)" using st(3) b(1) k by (simp add: at_append)
    then have "readInt ?buf 2 = Some (n, 2 + 2)" by (rule readInt_at) (use b(2,3) in auto)
    then show ?thesis using b by (simp add: readMQTTLenString_def)
  qed
  then show ?thesis using st(1,2) k assms(1) by (auto simp: MQTTDeserialize_publish_def)
qed

section \<open>Witnesses\<close>

text \<open>A topic as a C string, payload of two bytes, a buffer of twenty.\<close>

definition topic_t :: MQTTString where
  "topic_t = MQTTString_initializer\<lparr> cstring := Some (Mem [116, 0]) \<rparr>"

lemma topic_t: "denotes topic_t [116]"
  by (simp add: denotes_def topic_t_def MQTTString_initializer_def)

theorem publish_roundtrip_witness:
  "\<exists>pkt. MQTTSerialize_publish (replicate 20 0) 20 0 1 1 7 topic_t (Mem ([1, 2] @ [3])) (int (length [1 :: u8, 2]))
      = Some (int (length pkt), pkt @ drop (length pkt) (replicate 20 0))
   \<and> int (length pkt) \<le> 20
   \<and> (\<forall>more v. \<exists>v'. MQTTDeserialize_publish v (pkt @ more) (int (length pkt)) = Some (1, v')
        \<and> publish_found (pkt @ more) v' 0 1 1 7 [116] [1, 2])"
  using publish_roundtrip [OF topic_t, of 0 1 1 "[1, 2]" 7 9 "replicate 20 0" 20 "[3]"]
  by (simp add: publish_body_def MQTTPacket_len_def c_int_def)

theorem subscribe_roundtrip_witness:
  "\<exists>pkt new. MQTTSerialize_subscribe (replicate 20 0) 20 0 5 (int (length [([116] :: u8 list, 1 :: u8)])) [topic_t]
        (map (\<lambda>f. uint (snd f)) [([116] :: u8 list, 1 :: u8)])
      = Some (int (length pkt), pkt @ drop (length pkt) (replicate 20 0))
   \<and> int (length pkt) \<le> 20
   \<and> MQTTDeserialize_subscribe 1 \<lparr> sub_dup = 1, sub_packetid = 0, sub_count = 3,
          sub_topicFilters = [MQTTString_initializer], sub_requestedQoSs = [2] \<rparr> (pkt @ [9]) (int (length pkt))
      = Some (1, \<lparr> sub_dup = 0, sub_packetid = 5, sub_count = 1, sub_topicFilters = new, sub_requestedQoSs = [1] \<rparr>)
   \<and> list_all2 (\<lambda>s f. views (pkt @ [9]) s (fst f)) new [([116] :: u8 list, 1 :: u8)]"
  using subscribe_roundtrip [of "[topic_t]" "[([116], 1)]" 0 5 8 20 "replicate 20 0"
      "\<lparr> sub_dup = 1, sub_packetid = 0, sub_count = 3,
          sub_topicFilters = [MQTTString_initializer], sub_requestedQoSs = [2] \<rparr>" 1 "[9]"] topic_t
  by (simp add: subscribe_body_def MQTTPacket_len_def c_int_def)

theorem suback_correct_witness:
  "MQTTDeserialize_suback 1 \<lparr> sa_packetid = 0, sa_count = 7, sa_grantedQoSs = [5] \<rparr> (suback_packet 3 [2] @ []) 5
     = Some (1, \<lparr> sa_packetid = 3, sa_count = 1, sa_grantedQoSs = [2] \<rparr>)
   \<and> MQTTDeserialize_suback 1 \<lparr> sa_packetid = 0, sa_count = 7, sa_grantedQoSs = [5] \<rparr> (suback_packet 3 [2, 2] @ []) 6 = None"
  using suback_correct [of "[2]" 200 3 "replicate 200 0" 1 "\<lparr> sa_packetid = 0, sa_count = 7, sa_grantedQoSs = [5] \<rparr>" "[]" 5]
    suback_correct [of "[2, 2]" 200 3 "replicate 200 0" 1 "\<lparr> sa_packetid = 0, sa_count = 7, sa_grantedQoSs = [5] \<rparr>" "[]" 6]
  by (simp add: suback_packet_def length_packet length_digits)

theorem puback_wrong_packetid_witness:
  "\<exists>b1. MQTTSerialize_puback (replicate 4 0) 4 0x1235 = Some (4, b1)
     \<and> MQTTDeserialize_ack \<lparr> ack_type = 0, ack_dup = 0, ack_packetid = 0 \<rparr> b1 4
       = Some (1, \<lparr> ack_type = 4, ack_dup = 1, ack_packetid = 0 \<rparr>)"
  using puback_wrong_packetid [of "replicate 4 0" 4 "0x1235" 0 "\<lparr> ack_type = 0, ack_dup = 0, ack_packetid = 0 \<rparr>"]
  by auto

theorem truncated_publish_succeeds_witness:
  "\<exists>v'. MQTTDeserialize_publish \<lparr> pub_dup = 0, pub_qos = 0, pub_retained = 0, pub_packetid = 0,
        pub_topicName = MQTTString_initializer, pub_payload = None, pub_payloadlen = 0 \<rparr>
      (mqtt_packet (header_zero\<lparr> h_type := 3 \<rparr>) (two_bytes 5 @ [116]) @ []) 200 = Some (1, v')
   \<and> pub_payload v' = None"
proof -
  have "\<exists>n rest. two_bytes 5 @ [116] = two_bytes n @ rest \<and> int (length rest) < n \<and> n < 65536"
    by (intro exI [of _ 5] exI [of _ "[116]"]) simp
  then show ?thesis
    using truncated_publish_succeeds [of "header_zero\<lparr> h_type := 3 \<rparr>" "two_bytes 5 @ [116]"
        "\<lparr> pub_dup = 0, pub_qos = 0, pub_retained = 0, pub_packetid = 0,
          pub_topicName = MQTTString_initializer, pub_payload = None, pub_payloadlen = 0 \<rparr>" "[]" 200]
    by auto
qed

end
