(* ===== verification/MqttConnect.thy ===== *)
theory MqttConnect
  imports MqttMessages
begin

text \<open>
  The connect and connack packets of bsp/stm32f40x/mqtt: MQTTConnect.h, MQTTConnectClient.c and
  MQTTConnectServer.c. A connect packet of version 4 survives the wire; one of version 3 does not.
\<close>

section \<open>Options and flags\<close>

record MQTTPacket_willOptions =
  will_struct_id :: string
  will_struct_version :: int
  will_topicName :: MQTTString
  will_message :: MQTTString
  will_retained :: u8
  will_qos :: u8

record MQTTPacket_connectData =
  cd_struct_id :: string
  cd_struct_version :: int
  MQTTVersion :: u8
  clientID :: MQTTString
  keepAliveInterval :: u16
  cleansession :: u8
  willFlag :: u8
  cd_will :: MQTTPacket_willOptions
  username :: MQTTString
  password :: MQTTString

definition MQTTPacket_connectData_initializer :: MQTTPacket_connectData where
  "MQTTPacket_connectData_initializer = \<lparr> cd_struct_id = ''MQTC'', cd_struct_version = 0, MQTTVersion = 4,
     clientID = MQTTString_initializer, keepAliveInterval = 60, cleansession = 1, willFlag = 0,
     cd_will = \<lparr> will_struct_id = ''MQTW'', will_struct_version = 0, will_topicName = MQTTString_initializer,
       will_message = MQTTString_initializer, will_retained = 0, will_qos = 0 \<rparr>,
     username = MQTTString_initializer, password = MQTTString_initializer \<rparr>"

text \<open>The bit-fields of \<^verbatim>\<open>MQTTConnectFlags\<close> above the unused lowest bit.\<close>

record MQTTConnectFlags =
  f_cleansession :: "1 word"
  f_will :: "1 word"
  f_willQoS :: "2 word"
  f_willRetain :: "1 word"
  f_password :: "1 word"
  f_username :: "1 word"

definition flags_byte :: "MQTTConnectFlags \<Rightarrow> u8" where
  "flags_byte f = word_of_int (2 * uint (f_cleansession f) + 4 * uint (f_will f) + 8 * uint (f_willQoS f)
     + 32 * uint (f_willRetain f) + 64 * uint (f_password f) + 128 * uint (f_username f))"

definition flags_bits :: "u8 \<Rightarrow> MQTTConnectFlags" where
  "flags_bits b = \<lparr> f_cleansession = word_of_int (uint b div 2), f_will = word_of_int (uint b div 4),
     f_willQoS = word_of_int (uint b div 8), f_willRetain = word_of_int (uint b div 32),
     f_password = word_of_int (uint b div 64), f_username = word_of_int (uint b div 128) \<rparr>"

text \<open>A string that is given at all.\<close>

definition present :: "MQTTString \<Rightarrow> bool" where
  "present s \<longleftrightarrow> cstring s \<noteq> None \<or> lenstring_data s \<noteq> None"

section \<open>Connect\<close>

definition MQTTSerialize_connectLength :: "u8 list \<Rightarrow> MQTTPacket_connectData \<Rightarrow> int option" where
  "MQTTSerialize_connectLength buf options = do {
     let len = (if MQTTVersion options = 3 then 12 else if MQTTVersion options = 4 then 10 else 0);
     n \<leftarrow> MQTTstrlen buf (clientID options);
     len \<leftarrow> c_int (len + (n + 2));
     len \<leftarrow> (if willFlag options \<noteq> 0 then do {
          n \<leftarrow> MQTTstrlen buf (will_topicName (cd_will options));
          m \<leftarrow> MQTTstrlen buf (will_message (cd_will options));
          c_int (len + (n + 2 + m + 2)) } else Some len);
     len \<leftarrow> (if present (username options) then do {
          n \<leftarrow> MQTTstrlen buf (username options); c_int (len + (n + 2)) } else Some len);
     if present (password options) then do {
          n \<leftarrow> MQTTstrlen buf (password options); c_int (len + (n + 2)) } else Some len }"

definition MQTTSerialize_connect :: "u8 list \<Rightarrow> int \<Rightarrow> MQTTPacket_connectData \<Rightarrow> (int \<times> u8 list) option" where
  "MQTTSerialize_connect buf buflen options = do {
     len \<leftarrow> MQTTSerialize_connectLength buf options;
     n \<leftarrow> MQTTPacket_len len;
     if n > buflen then Some (MQTTPACKET_BUFFER_TOO_SHORT, buf)
     else do {
       let header = header_zero\<lparr> h_type := word_of_int (msg_code CONNECT) \<rparr>;
       w \<leftarrow> writeChar (header_byte header) (buf, 0);
       w \<leftarrow> write_len len w;
       w \<leftarrow> (if MQTTVersion options = 4 then do {
            w \<leftarrow> writeCString (Mem [77, 81, 84, 84, 0]) w;
            writeChar 4 w }
          else do {
            w \<leftarrow> writeCString (Mem [77, 81, 73, 115, 100, 112, 0]) w;
            writeChar 3 w });
       let flags = \<lparr> f_cleansession = ucast (cleansession options), f_will = (if willFlag options \<noteq> 0 then 1 else 0),
            f_willQoS = 0, f_willRetain = 0, f_password = 0, f_username = 0 \<rparr>;
       let flags = (if f_will flags \<noteq> 0
            then flags\<lparr> f_willQoS := ucast (will_qos (cd_will options)), f_willRetain := ucast (will_retained (cd_will options)) \<rparr>
            else flags);
       let flags = (if present (username options) then flags\<lparr> f_username := 1 \<rparr> else flags);
       let flags = (if present (password options) then flags\<lparr> f_password := 1 \<rparr> else flags);
       w \<leftarrow> writeChar (flags_byte flags) w;
       w \<leftarrow> writeInt (uint (keepAliveInterval options)) w;
       w \<leftarrow> writeMQTTString (clientID options) w;
       w \<leftarrow> (if willFlag options \<noteq> 0 then do {
            w \<leftarrow> writeMQTTString (will_topicName (cd_will options)) w;
            writeMQTTString (will_message (cd_will options)) w } else Some w);
       w \<leftarrow> (if f_username flags \<noteq> 0 then writeMQTTString (username options) w else Some w);
       w \<leftarrow> (if f_password flags \<noteq> 0 then writeMQTTString (password options) w else Some w);
       Some (snd w, fst w) } }"

text \<open>\<^verbatim>\<open>memcmp\<close>: whether the first \<open>n\<close> bytes agree.\<close>

definition memcmp_eq :: "u8 list \<Rightarrow> u8 list \<Rightarrow> int \<Rightarrow> bool option" where
  "memcmp_eq as bs n = do { xs \<leftarrow> mem_read as 0 n; ys \<leftarrow> mem_read bs 0 n; Some (xs = ys) }"

text \<open>The name compared for version 3 is the code's.\<close>

definition MQTTPacket_checkVersion :: "u8 list \<Rightarrow> MQTTString \<Rightarrow> int \<Rightarrow> bool option" where
  "MQTTPacket_checkVersion buf protocol version = do {
     let cmp = (\<lambda>name m. do { d \<leftarrow> lenstring_data protocol; bs \<leftarrow> bytes_at buf d;
                             memcmp_eq bs name (if m < lenstring_len protocol then m else lenstring_len protocol) });
     ok \<leftarrow> (if version = 3 then cmp [77, 81, 73, 100, 115, 112, 0] 6 else Some False);
     if ok then Some True
     else if version = 4 then cmp [77, 81, 84, 84, 0] 4 else Some False }"

text \<open>The last two parts of the deserialiser: the will, with the pointer behind it, and user name and
  password, with the result code.\<close>

definition read_will ::
  "MQTTConnectFlags \<Rightarrow> MQTTPacket_connectData \<Rightarrow> u8 list \<Rightarrow> int \<Rightarrow> int \<Rightarrow> (bool \<times> MQTTPacket_connectData \<times> int) option" where
  "read_will flags data buf cur enddata =
     (if f_will flags \<noteq> 0 then do {
        let wl = (cd_will data)\<lparr> will_qos := ucast (f_willQoS flags), will_retained := ucast (f_willRetain flags) \<rparr>;
        (ok, s, cur) \<leftarrow> readMQTTLenString (will_topicName wl) buf cur enddata;
        let wl = wl\<lparr> will_topicName := s \<rparr>;
        if \<not> ok then Some (False, data\<lparr> willFlag := 1, cd_will := wl \<rparr>, cur)
        else do {
          (ok, s, cur) \<leftarrow> readMQTTLenString (will_message wl) buf cur enddata;
          Some (ok, data\<lparr> willFlag := 1, cd_will := wl\<lparr> will_message := s \<rparr> \<rparr>, cur) } }
      else Some (True, data, cur))"

definition read_credentials ::
  "MQTTConnectFlags \<Rightarrow> MQTTPacket_connectData \<Rightarrow> u8 list \<Rightarrow> int \<Rightarrow> int \<Rightarrow> (int \<times> MQTTPacket_connectData) option" where
  "read_credentials flags data buf cur enddata =
     (if f_username flags \<noteq> 0 then
        (if enddata - cur < 3 then Some (0, data)
         else do {
           (ok, s, cur) \<leftarrow> readMQTTLenString (username data) buf cur enddata;
           let data = data\<lparr> username := s \<rparr>;
           if \<not> ok then Some (0, data)
           else if f_password flags \<noteq> 0 then
             (if enddata - cur < 3 then Some (0, data)
              else do {
                (ok, s, cur) \<leftarrow> readMQTTLenString (password data) buf cur enddata;
                Some (if ok then 1 else 0, data\<lparr> password := s \<rparr>) })
           else Some (1, data) })
      else if f_password flags \<noteq> 0 then Some (0, data)
      else Some (1, data))"

definition MQTTDeserialize_connect :: "MQTTPacket_connectData \<Rightarrow> u8 list \<Rightarrow> int \<Rightarrow> (int \<times> MQTTPacket_connectData) option" where
  "MQTTDeserialize_connect data buf len = do {
     let enddata = len;
     (b, cur) \<leftarrow> readChar buf 0;
     if uint (h_type (header_bits b)) \<noteq> msg_code CONNECT then Some (0, data)
     else do {
       (n, mylen) \<leftarrow> MQTTPacket_decodeBuf buf cur;
       (ok, Protocol, cur) \<leftarrow> readMQTTLenString MQTTString_initializer buf (cur + n) enddata;
       if \<not> ok \<or> enddata - cur < 0 then Some (0, data)
       else do {
         (version, cur) \<leftarrow> readChar buf cur;
         known \<leftarrow> MQTTPacket_checkVersion buf Protocol (uint version);
         if \<not> known then Some (0, data)
         else do {
           (b, cur) \<leftarrow> readChar buf cur;
           let flags = flags_bits b;
           (ka, cur) \<leftarrow> readInt buf cur;
           (ok, s, cur) \<leftarrow> readMQTTLenString (clientID data) buf cur enddata;
           let data = data\<lparr> cleansession := ucast (f_cleansession flags), keepAliveInterval := word_of_int ka, clientID := s \<rparr>;
           if \<not> ok then Some (0, data)
           else do {
             (ok, data, cur) \<leftarrow> read_will flags data buf cur enddata;
             if \<not> ok then Some (0, data)
             else read_credentials flags data buf cur enddata } } } } }"

section \<open>Connack\<close>

text \<open>\<^verbatim>\<open>MQTTConnackFlags\<close> has seven unused bits below \<^verbatim>\<open>sessionpresent\<close>.\<close>

definition connack_byte :: "1 word \<Rightarrow> u8" where
  "connack_byte sessionpresent = word_of_int (128 * uint sessionpresent)"

definition connack_bits :: "u8 \<Rightarrow> 1 word" where
  "connack_bits b = word_of_int (uint b div 128)"

definition MQTTSerialize_connack :: "u8 list \<Rightarrow> int \<Rightarrow> u8 \<Rightarrow> u8 \<Rightarrow> (int \<times> u8 list) option" where
  "MQTTSerialize_connack buf buflen connack_rc sessionPresent =
     (if buflen < 2 then Some (MQTTPACKET_BUFFER_TOO_SHORT, buf)
      else do {
        let header = header_zero\<lparr> h_type := word_of_int (msg_code CONNACK) \<rparr>;
        w \<leftarrow> writeChar (header_byte header) (buf, 0);
        w \<leftarrow> write_len 2 w;
        w \<leftarrow> writeChar (connack_byte (ucast sessionPresent)) w;
        w \<leftarrow> writeChar connack_rc w;
        Some (snd w, fst w) })"

definition MQTTDeserialize_connack :: "u8 \<times> u8 \<Rightarrow> u8 list \<Rightarrow> int \<Rightarrow> (int \<times> u8 \<times> u8) option" where
  "MQTTDeserialize_connack v buf buflen = do {
     (b, cur) \<leftarrow> readChar buf 0;
     if uint (h_type (header_bits b)) \<noteq> msg_code CONNACK then Some (0, v)
     else do {
       (rc, mylen) \<leftarrow> MQTTPacket_decodeBuf buf cur;
       let cur = cur + rc;
       let enddata = cur + mylen;
       if enddata - cur < 2 then Some (rc, v)
       else do {
         (flags, cur) \<leftarrow> readChar buf cur;
         (code, cur) \<leftarrow> readChar buf cur;
         Some (1, ucast (connack_bits flags), code) } } }"

section \<open>What a connect packet says\<close>

text \<open>The contents of the options: client, will (topic and message), user and password.\<close>

record connect_spec =
  sp_client :: "u8 list"
  sp_will :: "(u8 list \<times> u8 list) option"
  sp_user :: "u8 list option"
  sp_pass :: "u8 list option"

definition opt_denotes :: "MQTTString \<Rightarrow> u8 list option \<Rightarrow> bool" where
  "opt_denotes s x = (case x of None \<Rightarrow> \<not> present s | Some xs \<Rightarrow> present s \<and> denotes s xs)"

definition connect_denotes :: "MQTTPacket_connectData \<Rightarrow> connect_spec \<Rightarrow> bool" where
  "connect_denotes d sp \<longleftrightarrow> denotes (clientID d) (sp_client sp)
     \<and> (case sp_will sp of None \<Rightarrow> willFlag d = 0
        | Some (t, m) \<Rightarrow> willFlag d \<noteq> 0 \<and> denotes (will_topicName (cd_will d)) t \<and> denotes (will_message (cd_will d)) m)
     \<and> opt_denotes (username d) (sp_user sp) \<and> opt_denotes (password d) (sp_pass sp)"

definition opt_bytes :: "u8 list option \<Rightarrow> u8 list" where
  "opt_bytes x = (case x of None \<Rightarrow> [] | Some xs \<Rightarrow> mqtt_string xs)"

definition will_bytes :: "(u8 list \<times> u8 list) option \<Rightarrow> u8 list" where
  "will_bytes x = (case x of None \<Rightarrow> [] | Some (t, m) \<Rightarrow> mqtt_string t @ mqtt_string m)"

definition connect_flags :: "MQTTPacket_connectData \<Rightarrow> connect_spec \<Rightarrow> MQTTConnectFlags" where
  "connect_flags d sp = \<lparr> f_cleansession = ucast (cleansession d), f_will = of_bool (sp_will sp \<noteq> None),
     f_willQoS = (if sp_will sp \<noteq> None then ucast (will_qos (cd_will d)) else 0),
     f_willRetain = (if sp_will sp \<noteq> None then ucast (will_retained (cd_will d)) else 0),
     f_password = of_bool (sp_pass sp \<noteq> None), f_username = of_bool (sp_user sp \<noteq> None) \<rparr>"

definition connect_name :: "u8 \<Rightarrow> u8 list" where
  "connect_name v = (if v = 4 then [77, 81, 84, 84] else [77, 81, 73, 115, 100, 112])"

definition connect_body :: "MQTTPacket_connectData \<Rightarrow> connect_spec \<Rightarrow> u8 list" where
  "connect_body d sp = mqtt_string (connect_name (MQTTVersion d)) @ [MQTTVersion d, flags_byte (connect_flags d sp)]
     @ two_bytes (uint (keepAliveInterval d)) @ mqtt_string (sp_client sp)
     @ will_bytes (sp_will sp) @ opt_bytes (sp_user sp) @ opt_bytes (sp_pass sp)"

lemma writeCString_put [puts]:
  assumes "0 \<notin> set xs" and "length xs < 65536"
  shows "writeCString (Mem (xs @ [0])) w = put (mqtt_string xs) w"
proof -
  have "takeWhile (\<lambda>b. b \<noteq> 0) (xs @ [0]) = xs" using assms(1) by (auto simp: takeWhile_eq_all_conv takeWhile_append)
  moreover have "write_mem (xs @ [0]) (int (length xs)) = put xs" by (rule ext) (simp add: write_mem_put)
  ultimately show ?thesis
    by (simp add: writeCString_def strlen_takeWhile writeInt_put put_put mqtt_string_def)
qed

lemma connect_length:
  assumes d: "connect_denotes d sp" and v: "MQTTVersion d = 3 \<or> MQTTVersion d = 4" and small: "length (connect_body d sp) < 2 ^ 28"
  shows "MQTTSerialize_connectLength buf d = Some (int (length (connect_body d sp)))"
proof -
  have "int (length (connect_body d sp)) = (if MQTTVersion d = 3 then 12 else 10) + (int (length (sp_client sp)) + 2)
      + (case sp_will sp of None \<Rightarrow> 0 | Some (t, m) \<Rightarrow> int (length t) + 2 + int (length m) + 2)
      + (case sp_user sp of None \<Rightarrow> 0 | Some x \<Rightarrow> int (length x) + 2) + (case sp_pass sp of None \<Rightarrow> 0 | Some x \<Rightarrow> int (length x) + 2)"
    using v by (auto simp: connect_body_def connect_name_def will_bytes_def opt_bytes_def split: option.splits)
  then show ?thesis using d v small
    by (cases "sp_will sp"; cases "sp_user sp"; cases "sp_pass sp")
       (auto simp: MQTTSerialize_connectLength_def connect_denotes_def opt_denotes_def MQTTstrlen_denotes c_int_def)
qed

lemma connect_written:
  assumes d: "connect_denotes d sp" and v: "MQTTVersion d = 3 \<or> MQTTVersion d = 4" and small: "length (connect_body d sp) < 2 ^ 28"
    and n: "MQTTPacket_len (int (length (connect_body d sp))) = Some n" and fits: "n \<le> buflen"
  shows "MQTTSerialize_connect buf buflen d =
     Option.bind (put (mqtt_packet (header_zero\<lparr> h_type := 1 \<rparr>) (connect_body d sp)) (buf, 0)) (\<lambda>w. Some (snd w, fst w))"
proof -
  let ?L = "int (length (connect_body d sp))"
  have cs: "writeCString (Mem [77, 81, 84, 84, 0]) w = put (mqtt_string [77, 81, 84, 84]) w"
    "writeCString (Mem [77, 81, 73, 115, 100, 112, 0]) w = put (mqtt_string [77, 81, 73, 115, 100, 112]) w" for w
    using writeCString_put [of "[77, 81, 84, 84]" w] writeCString_put [of "[77, 81, 73, 115, 100, 112]" w] by simp_all
  have "put (mqtt_packet (header_zero\<lparr> h_type := 1 \<rparr>) (connect_body d sp)) (buf, 0)
      = put ([header_byte (header_zero\<lparr> h_type := 1 \<rparr>)] @ mqtt_digits ?L @ connect_body d sp) (buf, 0)"
    by (simp add: mqtt_packet_def)
  then show ?thesis using d v n fits connect_length [OF d v small, of buf]
    by (cases "sp_will sp"; cases "sp_user sp"; cases "sp_pass sp"; elim disjE)
       (auto simp: MQTTSerialize_connect_def puts put_put_bind cs connect_denotes_def opt_denotes_def
          connect_flags_def connect_name_def will_bytes_def opt_bytes_def connect_body_def)
qed

section \<open>Reading it back\<close>

lemma div_low: "0 \<le> a \<Longrightarrow> a < m \<Longrightarrow> n = a + m * x \<Longrightarrow> n div m = x" for a m n x :: int
  by (simp add: div_pos_pos_trivial)

lemma flag_div:
  fixes c w q r p u :: int
  assumes "0 \<le> c" "c < 2" "0 \<le> w" "w < 2" "0 \<le> q" "q < 4" "0 \<le> r" "r < 2" "0 \<le> p" "p < 2"
    and n: "n = 2 * c + 4 * w + 8 * q + 32 * r + 64 * p + 128 * u"
  shows "n div 2 = c + 2 ^ 1 * (w + 2 * q + 8 * r + 16 * p + 32 * u)"
    and "n div 4 = w + 2 ^ 1 * (q + 4 * r + 8 * p + 16 * u)"
    and "n div 8 = q + 2 ^ 2 * (r + 2 * p + 4 * u)" and "n div 32 = r + 2 ^ 1 * (p + 2 * u)"
    and "n div 64 = p + 2 ^ 1 * u" and "n div 128 = u"
proof -
  show "n div 2 = c + 2 ^ 1 * (w + 2 * q + 8 * r + 16 * p + 32 * u)"
    by (rule div_low [of 0]) (use n in simp_all)
  show "n div 4 = w + 2 ^ 1 * (q + 4 * r + 8 * p + 16 * u)"
    by (rule div_low [of "2 * c"]) (use assms in simp_all)
  show "n div 8 = q + 2 ^ 2 * (r + 2 * p + 4 * u)"
    by (rule div_low [of "2 * c + 4 * w"]) (use assms in simp_all)
  show "n div 32 = r + 2 ^ 1 * (p + 2 * u)"
    by (rule div_low [of "2 * c + 4 * w + 8 * q"]) (use assms in simp_all)
  show "n div 64 = p + 2 ^ 1 * u"
    by (rule div_low [of "2 * c + 4 * w + 8 * q + 32 * r"]) (use assms in simp_all)
  show "n div 128 = u"
    by (rule div_low [of "2 * c + 4 * w + 8 * q + 32 * r + 64 * p"]) (use assms in simp_all)
qed

lemma word_low_bits_eq: "n = uint w + 2 ^ LENGTH('a) * m \<Longrightarrow> word_of_int n = (w :: 'a::len word)"
  by (simp only: word_low_bits)

lemma flags_roundtrip [simp]: "flags_bits (flags_byte f) = f"
proof -
  let ?c = "uint (f_cleansession f)" and ?w = "uint (f_will f)" and ?q = "uint (f_willQoS f)"
    and ?r = "uint (f_willRetain f)" and ?p = "uint (f_password f)" and ?u = "uint (f_username f)"
  have b: "0 \<le> ?c" "?c < 2" "0 \<le> ?w" "?w < 2" "0 \<le> ?q" "?q < 4" "0 \<le> ?r" "?r < 2" "0 \<le> ?p" "?p < 2" "0 \<le> ?u" "?u < 2"
    using uint_lt2p [of "f_cleansession f"] uint_lt2p [of "f_will f"] uint_lt2p [of "f_willQoS f"]
      uint_lt2p [of "f_willRetain f"] uint_lt2p [of "f_password f"] uint_lt2p [of "f_username f"] by auto
  define n where "n = 2 * ?c + 4 * ?w + 8 * ?q + 32 * ?r + 64 * ?p + 128 * ?u"
  have u: "uint (flags_byte f) = n" unfolding flags_byte_def n_def by (rule byte_of_int) (use b in auto)
  note d = flag_div [OF b(1-10) n_def]
  have "word_of_int (n div 2) = f_cleansession f" by (rule word_low_bits_eq) (simp only: d len_num1)
  moreover have "word_of_int (n div 4) = f_will f" by (rule word_low_bits_eq) (simp only: d len_num1)
  moreover have "word_of_int (n div 8) = f_willQoS f" by (rule word_low_bits_eq) (simp only: d len_num1 len_bit0 mult_1_right)
  moreover have "word_of_int (n div 32) = f_willRetain f" by (rule word_low_bits_eq) (simp only: d len_num1)
  moreover have "word_of_int (n div 64) = f_password f" by (rule word_low_bits_eq) (simp only: d len_num1)
  moreover have "word_of_int (n div 128) = f_username f" by (simp only: d word_of_int_uint)
  ultimately show ?thesis by (simp add: flags_bits_def u)
qed

definition will_found ::
  "u8 list \<Rightarrow> MQTTConnectFlags \<Rightarrow> MQTTPacket_connectData \<Rightarrow> u8 \<Rightarrow> MQTTPacket_willOptions \<Rightarrow> (u8 list \<times> u8 list) option \<Rightarrow> bool" where
  "will_found buf f d wfl wl x =
     (case x of None \<Rightarrow> wfl = willFlag d \<and> wl = cd_will d
      | Some (t, m) \<Rightarrow> wfl = 1 \<and> will_qos wl = ucast (f_willQoS f) \<and> will_retained wl = ucast (f_willRetain f)
          \<and> views buf (will_topicName wl) t \<and> views buf (will_message wl) m)"

definition opt_found :: "u8 list \<Rightarrow> MQTTString \<Rightarrow> MQTTString \<Rightarrow> u8 list option \<Rightarrow> bool" where
  "opt_found buf old s x = (case x of None \<Rightarrow> s = old | Some xs \<Rightarrow> views buf s xs)"

definition short :: "connect_spec \<Rightarrow> bool" where
  "short sp \<longleftrightarrow> length (sp_client sp) < 65536
     \<and> (\<forall>t m. sp_will sp = Some (t, m) \<longrightarrow> length t < 65536 \<and> length m < 65536)
     \<and> (\<forall>x. sp_user sp = Some x \<longrightarrow> length x < 65536) \<and> (\<forall>x. sp_pass sp = Some x \<longrightarrow> length x < 65536)"

lemma connect_short: "connect_denotes d sp \<Longrightarrow> short sp"
  unfolding connect_denotes_def opt_denotes_def short_def
  by (auto dest: denotes_short split: option.splits)

lemma read_will_at:
  assumes a: "at buf p (will_bytes x)" and f: "f_will f \<noteq> 0 \<longleftrightarrow> x \<noteq> None" and e: "p + int (length (will_bytes x)) \<le> e"
    and l: "\<forall>t m. x = Some (t, m) \<longrightarrow> length t < 65536 \<and> length m < 65536"
  shows "\<exists>wfl wl. read_will f d buf p e = Some (True, d\<lparr> willFlag := wfl, cd_will := wl \<rparr>, p + int (length (will_bytes x)))
     \<and> will_found buf f d wfl wl x"
proof (cases x)
  case None
  then show ?thesis using f by (intro exI [of _ "willFlag d"] exI [of _ "cd_will d"])
      (simp add: read_will_def will_bytes_def will_found_def)
next
  case (Some tm)
  obtain t m where x: "x = Some (t, m)" using Some by (cases tm) auto
  let ?wl = "(cd_will d)\<lparr> will_qos := ucast (f_willQoS f), will_retained := ucast (f_willRetain f) \<rparr>"
  have lt: "length t < 65536" "length m < 65536" using l x by auto
  have b: "at buf p (mqtt_string t)" "at buf (p + 2 + int (length t)) (mqtt_string m)"
    using a by (simp_all add: x will_bytes_def at_append algebra_simps)
  have e': "p + 2 + int (length t) \<le> e" "p + 2 + int (length t) + 2 + int (length m) \<le> e"
    using e by (simp_all add: x will_bytes_def)
  obtain s1 where s1: "readMQTTLenString (will_topicName ?wl) buf p e = Some (True, s1, p + 2 + int (length t))" "views buf s1 t"
    using readMQTTLenString_at [OF b(1) lt(1) e'(1)] by blast
  obtain s2 where s2: "readMQTTLenString (will_message ?wl) buf (p + 2 + int (length t)) e
      = Some (True, s2, p + 2 + int (length t) + 2 + int (length m))" "views buf s2 m"
    using readMQTTLenString_at [OF b(2) lt(2) e'(2)] by blast
  have "f_will f \<noteq> 0" using f x by simp
  then show ?thesis using s1 s2
    by (intro exI [of _ 1] exI [of _ "?wl\<lparr> will_topicName := s1, will_message := s2 \<rparr>"])
       (simp add: read_will_def will_bytes_def will_found_def x)
qed

lemma read_credentials_at:
  assumes a: "at buf p (opt_bytes u @ opt_bytes w)" and f: "f_username f \<noteq> 0 \<longleftrightarrow> u \<noteq> None" "f_password f \<noteq> 0 \<longleftrightarrow> w \<noteq> None"
    and e: "e = p + int (length (opt_bytes u @ opt_bytes w))" and uw: "w \<noteq> None \<longrightarrow> u \<noteq> None" "u \<noteq> Some []" "w \<noteq> Some []"
    and l: "\<forall>x. u = Some x \<longrightarrow> length x < 65536" "\<forall>x. w = Some x \<longrightarrow> length x < 65536"
  shows "\<exists>un pn. read_credentials f d buf p e = Some (1, d\<lparr> username := un, password := pn \<rparr>)
     \<and> opt_found buf (username d) un u \<and> opt_found buf (password d) pn w"
proof (cases u)
  case None
  then have "w = None" using uw(1) by auto
  then show ?thesis using f None by (intro exI [of _ "username d"] exI [of _ "password d"])
      (simp add: read_credentials_def opt_found_def)
next
  case (Some x)
  have b: "at buf p (mqtt_string x)" "at buf (p + 2 + int (length x)) (opt_bytes w)"
    using a by (simp_all add: Some opt_bytes_def at_append algebra_simps)
  have x: "1 \<le> length x" "length x < 65536" using uw(2) l(1) Some by (auto simp: Suc_le_eq)
  have e': "e = p + 2 + int (length x) + int (length (opt_bytes w))" using e by (simp add: Some opt_bytes_def)
  obtain s1 where s1: "readMQTTLenString (username d) buf p e = Some (True, s1, p + 2 + int (length x))" "views buf s1 x"
    using readMQTTLenString_at [OF b(1) x(2), of e "username d"] e' by auto
  have fu: "f_username f \<noteq> 0" "\<not> e - p < 3" using f(1) Some e' x(1) by simp_all
  show ?thesis
  proof (cases w)
    case None
    then show ?thesis using f(2) fu s1 by (intro exI [of _ s1] exI [of _ "password d"])
      (simp add: read_credentials_def opt_found_def Some)
  next
    case (Some y)
    have y: "y \<noteq> []" "length y < 65536" using uw(3) l(2) Some by auto
    have b2: "at buf (p + 2 + int (length x)) (mqtt_string y)" and e2: "e = p + 2 + int (length x) + 2 + int (length y)"
      using b(2) e' by (simp_all add: Some opt_bytes_def)
    obtain s2 where s2: "readMQTTLenString (password d) buf (p + 2 + int (length x)) e = Some (True, s2, e)" "views buf s2 y"
      using readMQTTLenString_at [OF b2 y(2), of e "password d"] e2 by auto
    have "\<not> e - (p + 2 + int (length x)) < 3" "f_password f \<noteq> 0" using e2 y(1) f(2) Some by simp_all
    then show ?thesis using fu s1 s2 Some \<open>u = Some x\<close>
      by (intro exI [of _ s1] exI [of _ s2]) (simp add: read_credentials_def opt_found_def)
  qed
qed

text \<open>The name and version of a packet of version 4 are known; the name that a client of version 3 sends
  is not the one that is compared.\<close>

lemma checkVersion_at:
  assumes "views buf s (connect_name v)" and "v = 3 \<or> v = 4"
  shows "MQTTPacket_checkVersion buf s (uint v) = Some (v = 4)"
proof -
  obtain p where p: "lenstring_data s = Some (Pkt p)" "lenstring_len s = int (length (connect_name v))" "at buf p (connect_name v)"
    using assms(1) by (auto simp: views_def)
  let ?n = "length (connect_name v)" and ?bs = "drop (nat p) buf"
  have "nat p + ?n \<le> length buf" "0 \<le> p" using p(3) by (auto simp: at_def)
  then have r: "mem_read ?bs 0 (int ?n) = Some (connect_name v)" "bytes_at buf (Pkt p) = Some ?bs"
    using p(3) by (simp_all add: mem_read_def at_def slice_def)
  have c: "mem_read [77, 81, 73, 100, 115, 112, 0 :: u8] 0 6 = Some [77, 81, 73, 100, 115, 112]"
    "mem_read [77, 81, 84, 84, 0 :: u8] 0 4 = Some [77, 81, 84, 84]" by (simp_all add: mem_read_def)
  show ?thesis
  proof (cases "v = 4")
    case True
    then show ?thesis using p(1,2) r c by (simp add: MQTTPacket_checkVersion_def connect_name_def memcmp_eq_def)
  next
    case False
    then show ?thesis using assms(2) p(1,2) r c by (simp add: MQTTPacket_checkVersion_def connect_name_def memcmp_eq_def)
  qed
qed

definition connect_found ::
  "u8 list \<Rightarrow> MQTTPacket_connectData \<Rightarrow> MQTTPacket_connectData \<Rightarrow> MQTTPacket_connectData \<Rightarrow> connect_spec \<Rightarrow> bool" where
  "connect_found buf d old v sp \<longleftrightarrow>
     cleansession v = ucast (f_cleansession (connect_flags d sp)) \<and> keepAliveInterval v = keepAliveInterval d
   \<and> views buf (clientID v) (sp_client sp) \<and> will_found buf (connect_flags d sp) old (willFlag v) (cd_will v) (sp_will sp)
   \<and> opt_found buf (username old) (username v) (sp_user sp) \<and> opt_found buf (password old) (password v) (sp_pass sp)"

lemma connect_read:
  assumes a: "at buf 0 (mqtt_packet h (connect_body d sp))" and h: "h_type h = 1" and v: "MQTTVersion d = 3 \<or> MQTTVersion d = 4"
    and small: "length (connect_body d sp) < 2 ^ 28" and sh: "short sp"
    and uw: "sp_pass sp \<noteq> None \<longrightarrow> sp_user sp \<noteq> None" "sp_user sp \<noteq> Some []" "sp_pass sp \<noteq> Some []"
    and len: "len = int (length (mqtt_packet h (connect_body d sp)))"
  shows "if MQTTVersion d = 4 then \<exists>v. MQTTDeserialize_connect old buf len = Some (1, v) \<and> connect_found buf d old v sp
     else MQTTDeserialize_connect old buf len = Some (0, old)"
proof -
  let ?f = "connect_flags d sp" and ?name = "connect_name (MQTTVersion d)"
  define k where "k = int (length (mqtt_digits (int (length (connect_body d sp)))))"
  define n where "n = int (length ?name)"
  let ?p = "1 + k + 2 + n" and ?c = "int (length (sp_client sp))" and ?w = "int (length (will_bytes (sp_will sp)))"
  note st = packet_start [OF a small, folded k_def]
  have e: "len = ?p + 4 + 2 + ?c + ?w + int (length (opt_bytes (sp_user sp) @ opt_bytes (sp_pass sp)))"
    by (simp add: len length_packet k_def n_def connect_body_def)
  have at: "at buf (1 + k) (mqtt_string ?name @ [MQTTVersion d] @ [flags_byte ?f] @ two_bytes (uint (keepAliveInterval d))
      @ mqtt_string (sp_client sp) @ will_bytes (sp_will sp) @ (opt_bytes (sp_user sp) @ opt_bytes (sp_pass sp)))"
    using st(3) by (simp add: connect_body_def)
  have b: "at buf (1 + k) (mqtt_string ?name)" "at buf ?p [MQTTVersion d]" "at buf (?p + 1) [flags_byte ?f]"
    "at buf (?p + 2) (two_bytes (uint (keepAliveInterval d)))" "at buf (?p + 4) (mqtt_string (sp_client sp))"
    "at buf (?p + 4 + 2 + ?c) (will_bytes (sp_will sp))"
    "at buf (?p + 4 + 2 + ?c + ?w) (opt_bytes (sp_user sp) @ opt_bytes (sp_pass sp))"
    using at unfolding at_append by (simp_all add: n_def algebra_simps)
  have sp: "length (sp_client sp) < 65536" "\<forall>t m. sp_will sp = Some (t, m) \<longrightarrow> length t < 65536 \<and> length m < 65536"
    "\<forall>x. sp_user sp = Some x \<longrightarrow> length x < 65536" "\<forall>x. sp_pass sp = Some x \<longrightarrow> length x < 65536"
    using sh by (simp_all add: short_def)
  have nn: "length ?name < 65536" "0 \<le> n" by (simp_all add: connect_name_def n_def)
  have e1: "1 + k + 2 + int (length ?name) \<le> len" "?p + 4 + 2 + ?c \<le> len" "?p + 4 + 2 + ?c + ?w \<le> len"
    using e nn(2) by (simp_all add: n_def)
  obtain s0 where s0: "readMQTTLenString MQTTString_initializer buf (1 + k) len = Some (True, s0, ?p)" "views buf s0 ?name"
    using readMQTTLenString_at [OF b(1) nn(1) e1(1)] by (auto simp: n_def)
  have cv: "MQTTPacket_checkVersion buf s0 (uint (MQTTVersion d)) = Some (MQTTVersion d = 4)"
    by (rule checkVersion_at [OF s0(2) v])
  have rv: "readChar buf ?p = Some (MQTTVersion d, ?p + 1)" by (rule readChar_at [OF b(2)])
  have e0: "\<not> len - ?p < 0" using e1(1) by (simp add: n_def)
  show ?thesis
  proof (cases "MQTTVersion d = 4")
    case False
    then show ?thesis using st(1,2) h s0(1) e0 rv cv by (simp add: MQTTDeserialize_connect_def)
  next
    case True
    have rf: "readChar buf (?p + 1) = Some (flags_byte ?f, ?p + 2)" using readChar_at [OF b(3)] by (simp add: add.assoc)
    have rk: "readInt buf (?p + 2) = Some (uint (keepAliveInterval d), ?p + 4)"
      using readInt_at [OF b(4)] uint_lt2p [of "keepAliveInterval d"] by (simp add: add.assoc)
    obtain s1 where s1: "readMQTTLenString (clientID old) buf (?p + 4) len = Some (True, s1, ?p + 4 + 2 + ?c)"
        "views buf s1 (sp_client sp)"
      using readMQTTLenString_at [OF b(5) sp(1) e1(2)] by blast
    define o1 where "o1 = old\<lparr> cleansession := ucast (f_cleansession ?f), keepAliveInterval := keepAliveInterval d, clientID := s1 \<rparr>"
    have fl: "f_will ?f \<noteq> 0 \<longleftrightarrow> sp_will sp \<noteq> None" "f_username ?f \<noteq> 0 \<longleftrightarrow> sp_user sp \<noteq> None"
      "f_password ?f \<noteq> 0 \<longleftrightarrow> sp_pass sp \<noteq> None" by (simp_all add: connect_flags_def)
    obtain wfl wl where w: "read_will ?f o1 buf (?p + 4 + 2 + ?c) len
          = Some (True, o1\<lparr> willFlag := wfl, cd_will := wl \<rparr>, ?p + 4 + 2 + ?c + ?w)"
        "will_found buf ?f o1 wfl wl (sp_will sp)"
      using read_will_at [OF b(6) fl(1) e1(3) sp(2)] by blast
    obtain un pn where u: "read_credentials ?f (o1\<lparr> willFlag := wfl, cd_will := wl \<rparr>) buf (?p + 4 + 2 + ?c + ?w) len
          = Some (1, o1\<lparr> willFlag := wfl, cd_will := wl, username := un, password := pn \<rparr>)"
        "opt_found buf (username old) un (sp_user sp)" "opt_found buf (password old) pn (sp_pass sp)"
      using read_credentials_at [OF b(7) fl(2,3) e uw sp(3,4), of "o1\<lparr> willFlag := wfl, cd_will := wl \<rparr>"]
      by (auto simp: o1_def)
    let ?new = "o1\<lparr> willFlag := wfl, cd_will := wl, username := un, password := pn \<rparr>"
    have "will_found buf ?f old wfl wl (sp_will sp)" using w(2) by (auto simp: will_found_def o1_def split: option.splits)
    then have found: "connect_found buf d old ?new sp" using s1(2) u(2,3) by (simp add: connect_found_def o1_def)
    have "MQTTDeserialize_connect old buf len = Some (1, ?new)"
      unfolding MQTTDeserialize_connect_def using st(1,2) h s0(1) e0 rv cv rf rk s1(1) w(1) u(1) True
      by (simp add: Let_def flip: o1_def)
    then show ?thesis using True found by auto
  qed
qed

section \<open>Properties\<close>

text \<open>C25. A connect packet of version 4 (MQTT 3.1.1) survives the wire: flags, keep-alive interval, client,
  will, user name and password that the client serialises are what the server finds. A packet of
  version 3, which the client serialises just as well, is rejected by the server, because the two sides
  spell the protocol name differently. User name and password are not empty, and a password comes with
  a user name.\<close>

theorem connect_roundtrip:
  assumes "connect_denotes d sp" and "MQTTVersion d = 3 \<or> MQTTVersion d = 4" and "length (connect_body d sp) < 2 ^ 28"
    and "MQTTPacket_len (int (length (connect_body d sp))) = Some n" and "n \<le> buflen" and "n \<le> int (length buf)"
    and "sp_pass sp \<noteq> None \<longrightarrow> sp_user sp \<noteq> None" and "sp_user sp \<noteq> Some []" and "sp_pass sp \<noteq> Some []"
  shows "\<exists>pkt. MQTTSerialize_connect buf buflen d = Some (int (length pkt), pkt @ drop (length pkt) buf)
     \<and> int (length pkt) \<le> buflen
     \<and> (if MQTTVersion d = 4
        then \<exists>v. MQTTDeserialize_connect old (pkt @ z) (int (length pkt)) = Some (1, v) \<and> connect_found (pkt @ z) d old v sp
        else MQTTDeserialize_connect old (pkt @ z) (int (length pkt)) = Some (0, old))"
proof -
  let ?pkt = "mqtt_packet (header_zero\<lparr> h_type := 1 \<rparr>) (connect_body d sp)"
  have L: "int (length ?pkt) \<le> n"
    using packet_len_eq [of "int (length (connect_body d sp))"] assms(3,4) by (simp add: length_packet split: if_splits)
  then have l: "length ?pkt \<le> length buf" "int (length ?pkt) \<le> buflen" using assms(5,6) by linarith+
  have "if MQTTVersion d = 4
      then \<exists>v. MQTTDeserialize_connect old (?pkt @ z) (int (length ?pkt)) = Some (1, v) \<and> connect_found (?pkt @ z) d old v sp
      else MQTTDeserialize_connect old (?pkt @ z) (int (length ?pkt)) = Some (0, old)"
    by (rule connect_read [OF at_start _ assms(2,3) connect_short [OF assms(1)] assms(7-9) refl]) simp
  moreover have "MQTTSerialize_connect buf buflen d = Some (int (length ?pkt), ?pkt @ drop (length ?pkt) buf)"
    unfolding connect_written [OF assms(1-5)] by (rule packet_written [OF l(1)])
  ultimately show ?thesis using l(2) by (intro exI [of _ ?pkt] conjI)
qed

lemma connack_byte_roundtrip [simp]: "connack_bits (connack_byte x) = x"
proof -
  have "0 \<le> uint x" "uint x < 2" using uint_lt2p [of x] by auto
  then have "uint (connack_byte x) = 128 * uint x" unfolding connack_byte_def by (intro byte_of_int) auto
  then show ?thesis by (simp add: connack_bits_def)
qed

text \<open>A connack packet survives the wire between the two functions, but the check of the size asks for two
  bytes where four are written, and \<^verbatim>\<open>sessionPresent\<close> is bit 7 of the flags, where a broker that
  follows the standard sends bit 0: its session is never seen.\<close>

theorem connack_correct:
  assumes "2 \<le> buflen"
  shows "(if 4 \<le> length buf
      then \<exists>pkt. MQTTSerialize_connack buf buflen code sess = Some (4, pkt @ drop 4 buf) \<and> length pkt = 4
         \<and> MQTTDeserialize_connack v (pkt @ z) n = Some (1, ucast (ucast sess :: 1 word), code)
      else MQTTSerialize_connack buf buflen code sess = None)
    \<and> MQTTDeserialize_connack v (mqtt_packet (header_zero\<lparr> h_type := 2 \<rparr>) [1, code] @ z) n = Some (1, 0, code)"
proof -
  have r: "MQTTDeserialize_connack v (mqtt_packet (header_zero\<lparr> h_type := 2 \<rparr>) [f, code] @ z) n = Some (1, ucast (connack_bits f), code)" for f
  proof -
    let ?p = "1 + int (length (mqtt_digits 2))"
    note st = packet_start [OF at_start [of "mqtt_packet (header_zero\<lparr> h_type := 2 \<rparr>) [f, code]" z]]
    have "readChar (mqtt_packet (header_zero\<lparr> h_type := 2 \<rparr>) [f, code] @ z) ?p = Some (f, ?p + 1)"
      "readChar (mqtt_packet (header_zero\<lparr> h_type := 2 \<rparr>) [f, code] @ z) (?p + 1) = Some (code, ?p + 2)"
      using st(3) by (simp_all add: at_Cons readChar_def)
    then show ?thesis using st(1,2) by (simp add: MQTTDeserialize_connack_def)
  qed
  let ?pkt = "mqtt_packet (header_zero\<lparr> h_type := 2 \<rparr>) [connack_byte (ucast sess), code]"
  have l: "length ?pkt = 4" by (simp add: length_packet length_digits)
  have w: "MQTTSerialize_connack buf buflen code sess = Option.bind (put ?pkt (buf, 0)) (\<lambda>w. Some (snd w, fst w))"
    using assms by (simp add: MQTTSerialize_connack_def puts put_put_bind mqtt_packet_def)
  have "put ?pkt (buf, 0) = None" if "\<not> 4 \<le> length buf" using that l by (simp add: put_def mem_write_def)
  moreover have "put ?pkt (buf, 0) = Some (?pkt @ drop 4 buf, 4)" if "4 \<le> length buf" using put_fits [of ?pkt buf] that l by simp
  moreover have "connack_bits 1 = 0" by (simp add: connack_bits_def)
  ultimately show ?thesis using r [of "connack_byte (ucast sess)"] r [of 1] w l by auto
qed

section \<open>Witnesses\<close>

definition demo_connect :: MQTTPacket_connectData where
  "demo_connect = MQTTPacket_connectData_initializer\<lparr> clientID := topic_t, username := topic_t, password := topic_t \<rparr>"

definition demo_spec :: connect_spec where
  "demo_spec = \<lparr> sp_client = [116], sp_will = None, sp_user = Some [116], sp_pass = Some [116] \<rparr>"

lemma demo_connect: "connect_denotes demo_connect demo_spec" "MQTTVersion demo_connect = 4"
  "length (connect_body demo_connect demo_spec) = 19" "sp_user demo_spec = Some [116]" "sp_pass demo_spec = Some [116]"
  using topic_t by (simp_all add: connect_denotes_def opt_denotes_def present_def demo_connect_def demo_spec_def
      MQTTPacket_connectData_initializer_def topic_t_def connect_body_def connect_name_def will_bytes_def opt_bytes_def)

theorem connect_roundtrip_witness:
  "\<exists>pkt v. MQTTSerialize_connect (replicate 30 0) 30 demo_connect = Some (int (length pkt), pkt @ drop (length pkt) (replicate 30 0))
     \<and> MQTTDeserialize_connect MQTTPacket_connectData_initializer (pkt @ []) (int (length pkt)) = Some (1, v)
     \<and> connect_found (pkt @ []) demo_connect MQTTPacket_connectData_initializer v demo_spec"
proof -
  have "MQTTPacket_len (int (length (connect_body demo_connect demo_spec))) = Some 21"
    by (simp add: demo_connect MQTTPacket_len_def c_int_def)
  then show ?thesis
    using connect_roundtrip [OF demo_connect(1), of 21 30 "replicate 30 0" MQTTPacket_connectData_initializer "[]"]
    by (auto simp: demo_connect)
qed

theorem connack_correct_witness:
  "MQTTSerialize_connack [0, 0] 2 0 1 = None
   \<and> MQTTDeserialize_connack (9, 9) (mqtt_packet (header_zero\<lparr> h_type := 2 \<rparr>) [1, 5] @ []) 4 = Some (1, 0, 5)"
  using connack_correct [of 2 "[0, 0]" 0 1] connack_correct [of 2 "[0, 0]" 5 1 "(9, 9)" "[]" 4] by simp

end
