(* ===== verification/MqttClient.thy ===== *)
theory MqttClient
  imports MqttConnect
begin

text \<open>
  The MQTT client of bsp/stm32f40x/applications/mqtt.c: publishing, subscribing, the ping thread and
  the read thread, over a socket of which the model keeps the bytes sent and a source \<open>recv\<close> of the bytes
  received (both are the network stack's, hence parameters). What \<^verbatim>\<open>rt_malloc\<close> returns is an argument, the block with any
  contents or null: no function looks at it before writing to it. Locals that are not initialised are arguments, too. The pauses of
  \<^verbatim>\<open>mqtt_sub\<close> and the printing have no effect on this state.
\<close>

section \<open>State and socket\<close>

record 's mqtt =
  outgoing :: "u8 list"
  inp :: 's
  sock_closed :: bool
  msgid :: int
  mqtt_qos :: int
  lastPingTs :: u32

text \<open>\<^verbatim>\<open>send\<close>: its length is a \<^verbatim>\<open>size_t\<close>, so a negative one reads far behind the buffer.\<close>

definition send :: "u8 list \<Rightarrow> int \<Rightarrow> 's mqtt \<Rightarrow> 's mqtt option" where
  "send buf len st = do { bs \<leftarrow> mem_read buf 0 len; Some (st\<lparr> outgoing := outgoing st @ bs \<rparr>) }"

definition getData :: "'s getfn \<Rightarrow> 's getfn" where
  "getData recv count s = recv count s"

definition mqtt_socket_disconnect :: "'s mqtt \<Rightarrow> 's mqtt" where
  "mqtt_socket_disconnect st = st\<lparr> sock_closed := True \<rparr>"

text \<open>A local \<^verbatim>\<open>MQTTString\<close> of which only \<^verbatim>\<open>cstring\<close> is assigned; \<open>junk\<close> is what the rest holds.\<close>

definition local_string :: "int \<times> cptr option \<Rightarrow> u8 list \<Rightarrow> MQTTString" where
  "local_string junk s = \<lparr> cstring = Some (Mem s), lenstring_len = fst junk, lenstring_data = snd junk \<rparr>"

section \<open>Sending\<close>

definition mqtt_pub :: "u8 list option \<Rightarrow> int \<times> cptr option \<Rightarrow> u8 list \<Rightarrow> u8 list \<Rightarrow> 's mqtt \<Rightarrow> (int \<times> 's mqtt) option" where
  "mqtt_pub mem junk topic string st = do {
     buf \<leftarrow> mem;
     n \<leftarrow> strlen string;
     (len, buf) \<leftarrow> MQTTSerialize_publish buf 200 0 0 0 0 (local_string junk topic) (Mem string) n;
     st \<leftarrow> send buf len st;
     Some (1, st) }"

text \<open>The copy of the topic: its bytes with a zero behind them; \<open>ok\<close> says whether there is a block for it.\<close>

definition copy_topic :: "bool \<Rightarrow> u8 list \<Rightarrow> u8 list option" where
  "copy_topic ok topic = do {
     n \<leftarrow> strlen topic;
     rt_assert ok;
     bs \<leftarrow> mem_read topic 0 n;
     Some (bs @ [0]) }"

definition mqtt_sub :: "u8 list option \<times> bool \<Rightarrow> int \<times> cptr option \<Rightarrow> u8 list \<Rightarrow> 's mqtt \<Rightarrow> (int \<times> 's mqtt) option" where
  "mqtt_sub mem junk topic st = do {
     topicBuf \<leftarrow> copy_topic (snd mem) topic;
     buf \<leftarrow> fst mem;
     (len, buf) \<leftarrow> MQTTSerialize_subscribe buf 200 0 (word_of_int (msgid st)) 1 [local_string junk topicBuf] [mqtt_qos st];
     m \<leftarrow> c_int (msgid st + 1);
     st \<leftarrow> send buf len (st\<lparr> msgid := m \<rparr>);
     Some (1, st) }"

definition mqtt_unsub :: "u8 list option \<times> bool \<Rightarrow> int \<times> cptr option \<Rightarrow> u8 list \<Rightarrow> 's mqtt \<Rightarrow> (int \<times> 's mqtt) option" where
  "mqtt_unsub mem junk topic st = do {
     topicBuf \<leftarrow> copy_topic (snd mem) topic;
     buf \<leftarrow> fst mem;
     (len, buf) \<leftarrow> MQTTSerialize_unsubscribe buf 200 0 (word_of_int (msgid st)) 1 [local_string junk topicBuf];
     m \<leftarrow> c_int (msgid st + 1);
     st \<leftarrow> send buf len (st\<lparr> msgid := m \<rparr>);
     Some (1, st) }"

text \<open>The whole buffer is sent, not the two bytes of the packet.\<close>

definition mqtt_disconnect :: "u8 list option \<Rightarrow> 's mqtt \<Rightarrow> 's mqtt option" where
  "mqtt_disconnect mem st = do {
     buf \<leftarrow> mem;
     (len, buf) \<leftarrow> MQTTSerialize_disconnect buf 200;
     st \<leftarrow> send buf 200 st;
     Some (mqtt_socket_disconnect st) }"

text \<open>The handshake of \<^verbatim>\<open>mqtt_connect\<close> and \<^verbatim>\<open>mqtt_reconnect\<close> on a socket that is connected: whether the
  broker has accepted. \<open>v\<close> are the two locals that \<^verbatim>\<open>MQTTDeserialize_connack\<close> may leave alone.\<close>

definition mqtt_handshake :: "'s getfn \<Rightarrow> u8 list option \<Rightarrow> u8 \<times> u8 \<Rightarrow> MQTTPacket_connectData \<Rightarrow> 's mqtt \<Rightarrow> (bool \<times> 's mqtt) option" where
  "mqtt_handshake recv mem v connData st = do {
     buf \<leftarrow> mem;
     (len, buf) \<leftarrow> MQTTSerialize_connect buf 200 connData;
     st \<leftarrow> send buf len st;
     (ty, buf, s) \<leftarrow> MQTTPacket_read buf 200 (getData recv) (inp st);
     let st = st\<lparr> inp := s \<rparr>;
     if ty = msg_code CONNACK then do {
       (rc, sess, code) \<leftarrow> MQTTDeserialize_connack v buf 200;
       if rc \<noteq> 1 \<or> code \<noteq> 0 then Some (False, mqtt_socket_disconnect st) else Some (True, st) }
     else Some (False, mqtt_socket_disconnect st) }"

text \<open>One round of the ping thread: whether it reconnects. The packet is prepared once, before the loop.\<close>

definition mqtt_ping_packet :: "u8 list \<Rightarrow> (int \<times> u8 list) option" where
  "mqtt_ping_packet buf = MQTTSerialize_pingreq buf 200"

definition mqtt_ping_round :: "int \<times> u8 list \<Rightarrow> u32 \<Rightarrow> 's mqtt \<Rightarrow> (bool \<times> 's mqtt) option" where
  "mqtt_ping_round ping currentTs st = do {
     st \<leftarrow> send (snd ping) (fst ping) st;
     Some (currentTs - lastPingTs st > 120 * 100, st) }"

section \<open>The read thread\<close>

text \<open>One round of the loop of \<^verbatim>\<open>mqttReadThreadEntry\<close>. \<open>v\<close> and \<open>g\<close> are the locals of the publish and of the
  suback branch, \<open>cb\<close> the callback, which gets pointers into the buffer, \<open>disc\<close> the block for
  \<^verbatim>\<open>mqtt_disconnect\<close>.\<close>

type_synonym 'b mqttReadCallback = "u8 list \<Rightarrow> cptr \<Rightarrow> cptr \<Rightarrow> 'b \<Rightarrow> (u8 list \<times> 'b) option"

definition mqtt_read_round ::
  "'s getfn \<Rightarrow> 'b mqttReadCallback \<Rightarrow> u32 \<Rightarrow> MQTTPublish \<Rightarrow> MQTTSuback \<Rightarrow> u8 list option
   \<Rightarrow> u8 list \<Rightarrow> 's mqtt \<Rightarrow> 'b \<Rightarrow> (u8 list \<times> 's mqtt \<times> 'b) option" where
  "mqtt_read_round recv cb now v g disc buf st app = do {
     (ret, buf, s) \<leftarrow> MQTTPacket_read buf 200 (getData recv) (inp st);
     let st = st\<lparr> inp := s \<rparr>;
     if ret = msg_code PUBLISH then do {
       (_, v) \<leftarrow> MQTTDeserialize_publish v buf 200;
       payload_in \<leftarrow> pub_payload v;
       buf \<leftarrow> mem_set buf (payload_in + pub_payloadlen v) 0;
       topic \<leftarrow> lenstring_data (pub_topicName v);
       (buf, app) \<leftarrow> cb buf topic (Pkt payload_in) app;
       Some (buf, st\<lparr> lastPingTs := now \<rparr>, app) }
     else if ret = msg_code PINGRESP then Some (buf, st\<lparr> lastPingTs := now \<rparr>, app)
     else if ret = msg_code SUBACK then do {
       (_, g) \<leftarrow> MQTTDeserialize_suback 1 g buf 200;
       q \<leftarrow> mem_get (sa_grantedQoSs g) 0;
       if q \<noteq> 0 then do { st \<leftarrow> mqtt_disconnect disc st; Some (buf, st, app) }
       else Some (buf, st, app) }
     else Some (buf, st, app) }"

section \<open>What is sent\<close>

lemma mqtt_pub_packet:
  assumes "0 \<notin> set t" and "0 \<notin> set m" and "length buf = 200" and "fst junk \<le> 0" and "length t < 65536" and "length m < 2 ^ 27"
  shows "mqtt_pub (Some buf) junk (t @ 0 # tz) (m @ 0 # mz) st =
     (if length t + length m \<le> 195
      then Some (1, st\<lparr> outgoing := outgoing st @ mqtt_packet (publish_header 0 0 0) (publish_body t 0 0 m) \<rparr>)
      else None)"
proof -
  let ?body = "publish_body t 0 0 m" and ?pkt = "mqtt_packet (publish_header 0 0 0) (publish_body t 0 0 m)"
  have s: "denotes (local_string junk (t @ 0 # tz)) t"
    using assms(1,4,5) by (simp add: denotes_def local_string_def takeWhile_append)
  have body: "int (length ?body) = 2 + int (length t) + int (length m)" by (simp add: publish_body_def)
  then have small: "0 \<le> int (length ?body)" "int (length ?body) < 2 ^ 28" using assms(5,6) by simp_all
  obtain n where n: "MQTTPacket_len (int (length ?body)) = Some n"
    "n = 1 + int (length (mqtt_digits (int (length ?body)))) + int (length ?body) + (if int (length ?body) \<in> {127, 16383, 2097150, 2097151} then 1 else 0)"
    using packet_len_eq [OF small] by simp
  have iff: "n > 200 \<longleftrightarrow> \<not> length t + length m \<le> 195"
    unfolding n(2) length_digits [OF small] unfolding body by auto
  have len: "strlen (m @ 0 # mz) = Some (int (length m))" using assms(2) by (simp add: strlen_def takeWhile_append)
  have w: "MQTTSerialize_publish buf 200 0 0 0 0 (local_string junk (t @ 0 # tz)) (Mem (m @ 0 # mz)) (int (length m))
     = (if n > 200 then Some (MQTTPACKET_BUFFER_TOO_SHORT, buf) else Option.bind (put ?pkt (buf, 0)) (\<lambda>w. Some (snd w, fst w)))"
    using publish_written [OF s _ n(1)] small(2) by simp
  show ?thesis
  proof (cases "length t + length m \<le> 195")
    case True
    then have "int (length ?pkt) \<le> 200" using n(2) iff by (simp add: length_packet split: if_splits)
    then have fit: "length ?pkt \<le> length buf" using assms(3) by linarith
    then show ?thesis using True iff by (simp add: mqtt_pub_def len w put_fits [OF fit] send_def mem_read_def)
  next
    case False
    then show ?thesis using iff
      by (simp add: mqtt_pub_def len w send_def mem_read_def MQTTPACKET_BUFFER_TOO_SHORT_def)
  qed
qed

text \<open>What \<^verbatim>\<open>mqtt_pub\<close> puts on the wire is the publish packet of the topic and the text, behind what
  was sent before, when both together have at most 195 characters; a longer message is not refused: the
  error code is taken for the length to send.\<close>

theorem mqtt_pub_correct:
  assumes "0 \<notin> set t" and "0 \<notin> set m" and "length buf = 200" and "fst junk \<le> 0" and "length t < 65536" and "length m < 2 ^ 27"
  shows "mqtt_pub (Some buf) junk (t @ 0 # tz) (m @ 0 # mz) st =
     (if length t + length m \<le> 195
      then Some (1, st\<lparr> outgoing := outgoing st @ mqtt_packet (publish_header 0 0 0) (publish_body t 0 0 m) \<rparr>)
      else None)"
  by (rule mqtt_pub_packet [OF assms])

definition idle_client :: "u8 list mqtt" where
  "idle_client = \<lparr> outgoing = [], inp = [], sock_closed = False, msgid = 0, mqtt_qos = 0, lastPingTs = 0 \<rparr>"

theorem mqtt_pub_correct_witness:
  "mqtt_pub (Some (replicate 200 0)) (0, None) ([116] @ 0 # []) ([33, 33] @ 0 # [5]) idle_client
     = Some (1, idle_client\<lparr> outgoing := mqtt_packet (publish_header 0 0 0) (publish_body [116] 0 0 [33, 33]) \<rparr>)
   \<and> mqtt_pub (Some (replicate 200 0)) (0, None) ([116] @ 0 # []) (replicate 200 33 @ 0 # []) idle_client = None"
  using mqtt_pub_correct [of "[116]" "[33, 33]" "replicate 200 0" "(0, None)" "[]" "[5]" idle_client]
    mqtt_pub_correct [of "[116]" "replicate 200 33" "replicate 200 0" "(0, None)" "[]" "[]" idle_client]
  by (simp add: idle_client_def)

section \<open>What is received\<close>

text \<open>A round of the read thread up to the callback. The zero behind the payload has to fit too.\<close>

lemma read_round_publish:
  assumes recv: "delivers recv pending" and pend: "pending (inp st) = pkt @ rest" and buf: "length buf = 200"
    and pkt: "pkt = mqtt_packet h (publish_body t (uint (h_qos h)) pid m)" and h: "h_type h = 3"
    and t: "length t < 65536" and small: "length (publish_body t (uint (h_qos h)) pid m) < 2 ^ 28"
  defines "tp \<equiv> 3 + int (length (mqtt_digits (int (length (publish_body t (uint (h_qos h)) pid m)))))"
  shows "if length pkt < 200
     then \<exists>s'. pending s' = rest \<and> mqtt_read_round recv cb now v g disc buf st app
       = Option.bind (cb (pkt @ 0 # drop (Suc (length pkt)) buf) (Pkt tp) (Pkt (int (length pkt) - int (length m))) app)
           (\<lambda>(buf, app). Some (buf, st\<lparr> inp := s', lastPingTs := now \<rparr>, app))
     else mqtt_read_round recv cb now v g disc buf st app = None"
proof -
  have g: "getData recv = recv" by (rule ext)+ (simp add: getData_def)
  note rd = packet_read [OF recv pend [unfolded pkt] small, of buf 200]
  have ne: "buf \<noteq> []" using buf by auto
  show ?thesis
  proof (cases "length pkt \<le> 200")
    case False
    then show ?thesis using rd ne by (simp add: mqtt_read_round_def g buf flip: pkt)
  next
    case True
    then obtain s' where s': "MQTTPacket_read buf 200 recv (inp st) = Some (3, pkt @ drop (length pkt) buf, s')" "pending s' = rest"
      using rd ne h by (auto simp: buf simp flip: pkt)
    obtain v' where v': "MQTTDeserialize_publish v (pkt @ drop (length pkt) buf) 200 = Some (1, v')"
        "publish_found (pkt @ drop (length pkt) buf) v' (ucast (h_dup h)) (uint (h_qos h)) (ucast (h_retain h)) pid t m"
        "pub_payload v' = Some (int (length pkt) - int (length m))" "lenstring_data (pub_topicName v') = Some (Pkt tp)"
      using publish_read [OF at_start h small t] unfolding tp_def pkt by blast
    have pl: "int (length pkt) - int (length m) + pub_payloadlen v' = int (length pkt)" using v'(2) by (simp add: publish_found_def)
    show ?thesis
    proof (cases "length pkt < 200")
      case True
      then have "drop (length pkt) buf = buf ! length pkt # drop (Suc (length pkt)) buf" by (simp add: Cons_nth_drop_Suc buf)
      then have "mem_set (pkt @ drop (length pkt) buf) (int (length pkt)) 0 = Some (pkt @ 0 # drop (Suc (length pkt)) buf)"
        using True by (simp add: mem_set_def buf)
      then show ?thesis using True s' v' pl by (auto simp: mqtt_read_round_def g)
    next
      case False
      then have "mem_set (pkt @ drop (length pkt) buf) (int (length pkt)) 0 = None" using True by (simp add: mem_set_def buf)
      then show ?thesis using False s' v' pl by (simp add: mqtt_read_round_def g)
    qed
  qed
qed

end
