(* ===== verification/CJson.thy ===== *)
theory CJson
  imports MqttPacket
begin

text \<open>
  The JSON library of bsp/stm32f40x/cjson/cJSON.c, as far as the device layer uses it: parsing and the lookup of a
  member. The text is a block of memory, of which a pointer is the rest; reading behind the
  block is undefined behaviour, \<open>None\<close>. \<open>Some None\<close> is the null pointer that the code returns on an error. \<open>heap\<close>
  says of every call of \<^verbatim>\<open>rt_malloc\<close>, by its number, whether it succeeds; the number of calls so far is passed
  along.
\<close>

section \<open>Items\<close>

datatype cJSON_type = cJSON_False | cJSON_True | cJSON_NULL | cJSON_Number | cJSON_String | cJSON_Array | cJSON_Object

text \<open>The children are the chain from \<^verbatim>\<open>child\<close>. A string is the block without the zero at its end. Of a number the model
  keeps the numeral; \<^verbatim>\<open>valuedouble\<close> and \<^verbatim>\<open>valueint\<close>, which are computed from it in doubles and may leave the range of an int, are not
  modelled.\<close>

datatype cJSON = CJ (cj_type: cJSON_type) (cj_child: "cJSON list") (cj_valuestring: "u8 list option")
  (cj_number: "u8 list") (cj_string: "u8 list option")

definition cj_item :: "cJSON_type \<Rightarrow> cJSON" where
  "cj_item ty = CJ ty [] None [] None"

text \<open>The name of an item that becomes a member of an object.\<close>

fun cj_name :: "u8 list option \<Rightarrow> cJSON \<Rightarrow> cJSON" where
  "cj_name s (CJ ty child v num s') = CJ ty child v num s"

section \<open>Characters\<close>

text \<open>\<^verbatim>\<open>skip\<close>: white space and control characters.\<close>

fun skip :: "u8 list \<Rightarrow> u8 list option" where
  "skip [] = None"
| "skip (c # cs) = (if c \<noteq> 0 \<and> c \<le> 32 then skip cs else Some (c # cs))"

definition is_digit :: "u8 \<Rightarrow> bool" where
  "is_digit c \<longleftrightarrow> 48 \<le> c \<and> c \<le> 57"

fun skip_digits :: "u8 list \<Rightarrow> u8 list option" where
  "skip_digits [] = None"
| "skip_digits (c # cs) = (if is_digit c then skip_digits cs else Some (c # cs))"

text \<open>Whether a character is the one at the pointer, and the pointer moved over it if so.\<close>

fun skip_char :: "u8 \<Rightarrow> u8 list \<Rightarrow> u8 list option" where
  "skip_char c [] = None"
| "skip_char c (d # ds) = Some (if d = c then ds else d # ds)"

fun hex_digit :: "u8 \<Rightarrow> u32 option" where
  "hex_digit c = (if is_digit c then Some (ucast c - 48) else if 65 \<le> c \<and> c \<le> 70 then Some (ucast c - 55)
     else if 97 \<le> c \<and> c \<le> 102 then Some (ucast c - 87) else None)"

fun hex_loop :: "nat \<Rightarrow> u32 \<Rightarrow> u8 list \<Rightarrow> u32 option" where
  "hex_loop 0 h str = Some h"
| "hex_loop (Suc k) h [] = None"
| "hex_loop (Suc k) h (c # str) = (case hex_digit c of None \<Rightarrow> Some 0 | Some d \<Rightarrow> hex_loop k (push_bit 4 h + d) str)"

definition parse_hex4 :: "u8 list \<Rightarrow> u32 option" where
  "parse_hex4 str = hex_loop 4 0 str"

section \<open>Numbers and strings\<close>

text \<open>\<^verbatim>\<open>parse_number\<close>: where the numeral ends. The number is computed in doubles.\<close>

definition parse_number_end :: "u8 list \<Rightarrow> u8 list option" where
  "parse_number_end num = do {
     num \<leftarrow> skip_char 45 num;
     num \<leftarrow> skip_char 48 num;
     c \<leftarrow> mem_get num 0;
     num \<leftarrow> (if 49 \<le> c \<and> c \<le> 57 then skip_digits num else Some num);
     num \<leftarrow> (if hd num = 46 then do { d \<leftarrow> mem_get num 1; if is_digit d then skip_digits (tl num) else Some num } else Some num);
     if hd num = 101 \<or> hd num = 69 then do {
       c \<leftarrow> mem_get num 1;
       skip_digits (if c = 43 \<or> c = 45 then drop 2 num else tl num) }
     else Some num }"

definition parse_number :: "u8 list \<Rightarrow> (u8 list \<times> cJSON) option" where
  "parse_number num = do {
     rest \<leftarrow> parse_number_end num;
     Some (rest, CJ cJSON_Number [] None (take (length num - length rest) num) None) }"

text \<open>The first pass of \<^verbatim>\<open>parse_string\<close>: a length, in which an escape sequence counts as one.\<close>

fun string_len :: "u8 list \<Rightarrow> nat option" where
  "string_len [] = None"
| "string_len (c # cs) =
     (if c = 34 \<or> c = 0 then Some 0
      else if c = 92 then (case cs of [] \<Rightarrow> None | _ # cs \<Rightarrow> map_option Suc (string_len cs))
      else map_option Suc (string_len cs))"

fun escape_value :: "u8 \<Rightarrow> u8" where
  "escape_value e = (if e = 98 then 8 else if e = 102 then 12 else if e = 110 then 10 else if e = 114 then 13
     else if e = 116 then 9 else e)"

text \<open>The bytes of a character, from the last one on.\<close>

definition utf8_tail :: "u32 \<Rightarrow> u8" where
  "utf8_tail uc = ucast ((uc OR 0x80) AND 0xBF)"

definition utf8 :: "u32 \<Rightarrow> u8 list" where
  "utf8 uc = (let b0 = utf8_tail uc; b1 = utf8_tail (drop_bit 6 uc); b2 = utf8_tail (drop_bit 12 uc) in
     if uc < 0x80 then [ucast uc]
     else if uc < 0x800 then [ucast (drop_bit 6 uc OR 0xC0), b0]
     else if uc < 0x10000 then [ucast (drop_bit 12 uc OR 0xE0), b1, b0]
     else [ucast (drop_bit 18 uc OR 0xF0), b2, b1, b0])"

text \<open>\<^verbatim>\<open>\u\<close>, from the character behind it: the bytes to write, and how many characters are passed.\<close>

definition unicode_escape :: "u8 list \<Rightarrow> (u8 list \<times> nat) option" where
  "unicode_escape str = do {
     uc \<leftarrow> parse_hex4 str;
     if 0xDC00 \<le> uc \<and> uc \<le> 0xDFFF \<or> uc = 0 then Some ([], 4)
     else if 0xD800 \<le> uc \<and> uc \<le> 0xDBFF then do {
       b \<leftarrow> mem_get str 4;
       if b \<noteq> 92 then Some ([], 4)
       else do {
         u \<leftarrow> mem_get str 5;
         if u \<noteq> 117 then Some ([], 4)
         else do {
           uc2 \<leftarrow> parse_hex4 (drop 6 str);
           if uc2 < 0xDC00 \<or> uc2 > 0xDFFF then Some ([], 10)
           else Some (utf8 (0x10000 + (push_bit 10 (uc AND 0x3FF) OR (uc2 AND 0x3FF))), 10) } } }
     else Some (utf8 uc, 4) }"

text \<open>The second pass: \<open>out\<close> has been written so far. The pointer may have passed the end of the string.\<close>

function copy_string :: "u8 list \<Rightarrow> u8 list \<Rightarrow> (u8 list \<times> u8 list) option" where
  "copy_string out [] = None"
| "copy_string out (c # cs) =
     (if c = 34 then Some (out, cs)
      else if c = 0 then Some (out, c # cs)
      else if c \<noteq> 92 then copy_string (out @ [c]) cs
      else (case cs of
          [] \<Rightarrow> None
        | e # es \<Rightarrow>
            if e = 117 then do { (bs, n) \<leftarrow> unicode_escape es; copy_string (out @ bs) (drop n es) }
            else copy_string (out @ [escape_value e]) es))"
  by pat_completeness auto

termination by (relation "measure (\<lambda>(out, ptr). length ptr)") auto

text \<open>The block has room for the length of the first pass and a zero. The result is null, or the pointer behind the
  string and its bytes.\<close>

definition parse_string ::
  "(nat \<Rightarrow> bool) \<Rightarrow> u8 list \<Rightarrow> nat \<Rightarrow> ((u8 list \<times> u8 list) option \<times> nat) option" where
  "parse_string heap str n = do {
     c \<leftarrow> mem_get str 0;
     if c \<noteq> 34 then Some (None, n)
     else do {
       len \<leftarrow> string_len (tl str);
       if \<not> heap n then Some (None, n + 1)
       else do {
         (out, ptr) \<leftarrow> copy_string [] (tl str);
         rt_assert (length out \<le> len);
         Some (Some (ptr, out), n + 1) } } }"

section \<open>Values\<close>

text \<open>A value, or the elements of an array or members of an object from the pointer on, behind those in the list.\<close>

datatype cj_goal = Value | Elements "cJSON list" | Members "cJSON list"

type_synonym cj_result = "((u8 list \<times> cJSON) option \<times> nat) option"
type_synonym cj_rec = "cj_goal \<Rightarrow> u8 list \<Rightarrow> nat \<Rightarrow> cj_result"

text \<open>\<^verbatim>\<open>parse_value\<close> by the first character, and with the literals before that.\<close>

definition parse_by_char :: "cj_rec \<Rightarrow> (nat \<Rightarrow> bool) \<Rightarrow> u8 list \<Rightarrow> nat \<Rightarrow> cj_result" where
  "parse_by_char rec heap value n = do {
     c \<leftarrow> mem_get value 0;
     if c = 34 then do {
       (r, n) \<leftarrow> parse_string heap value n;
       Some (map_option (\<lambda>(ptr, out). (ptr, CJ cJSON_String [] (Some out) [] None)) r, n) }
     else if c = 45 \<or> is_digit c then map_option (\<lambda>r. (Some r, n)) (parse_number value)
     else if c = 91 then do {
       value \<leftarrow> skip (tl value);
       if hd value = 93 then Some (Some (tl value, cj_item cJSON_Array), n) else rec (Elements []) value n }
     else if c = 123 then do {
       value \<leftarrow> skip (tl value);
       if hd value = 125 then Some (Some (tl value, cj_item cJSON_Object), n) else rec (Members []) value n }
     else Some (None, n) }"

definition parse_value :: "cj_rec \<Rightarrow> (nat \<Rightarrow> bool) \<Rightarrow> u8 list \<Rightarrow> nat \<Rightarrow> cj_result" where
  "parse_value rec heap value n = do {
     null \<leftarrow> strncmp_eq 4 value [110, 117, 108, 108, 0];
     if null then Some (Some (drop 4 value, cj_item cJSON_NULL), n)
     else do {
       false \<leftarrow> strncmp_eq 5 value [102, 97, 108, 115, 101, 0];
       if false then Some (Some (drop 5 value, cj_item cJSON_False), n)
       else do {
         true \<leftarrow> strncmp_eq 4 value [116, 114, 117, 101, 0];
         if true then Some (Some (drop 4 value, cj_item cJSON_True), n)
         else parse_by_char rec heap value n } } }"

text \<open>\<^verbatim>\<open>parse_array\<close> from an element on: a new item, its value, and a comma, the end or an error.\<close>

definition parse_array :: "cj_rec \<Rightarrow> (nat \<Rightarrow> bool) \<Rightarrow> cJSON list \<Rightarrow> u8 list \<Rightarrow> nat \<Rightarrow> cj_result" where
  "parse_array rec heap items value n =
     (if \<not> heap n then Some (None, n + 1)
      else do {
        value \<leftarrow> skip value;
        (r, n) \<leftarrow> rec Value value (n + 1);
        case r of
          None \<Rightarrow> Some (None, n)
        | Some (value, item) \<Rightarrow> do {
            value \<leftarrow> skip value;
            if hd value = 44 then rec (Elements (items @ [item])) (tl value) n
            else if hd value = 93 then Some (Some (tl value, CJ cJSON_Array (items @ [item]) None [] None), n)
            else Some (None, n) } })"

definition parse_object :: "cj_rec \<Rightarrow> (nat \<Rightarrow> bool) \<Rightarrow> cJSON list \<Rightarrow> u8 list \<Rightarrow> nat \<Rightarrow> cj_result" where
  "parse_object rec heap items value n =
     (if \<not> heap n then Some (None, n + 1)
      else do {
        value \<leftarrow> skip value;
        (r, n) \<leftarrow> parse_string heap value (n + 1);
        case r of
          None \<Rightarrow> Some (None, n)
        | Some (value, name) \<Rightarrow> do {
            value \<leftarrow> skip value;
            if hd value \<noteq> 58 then Some (None, n)
            else do {
              value \<leftarrow> skip (tl value);
              (r, n) \<leftarrow> rec Value value n;
              case r of
                None \<Rightarrow> Some (None, n)
              | Some (value, item) \<Rightarrow> do {
                  value \<leftarrow> skip value;
                  if hd value = 44 then rec (Members (items @ [cj_name (Some name) item])) (tl value) n
                  else if hd value = 125 then
                    Some (Some (tl value, CJ cJSON_Object (items @ [cj_name (Some name) item]) None [] None), n)
                  else Some (None, n) } } } })"

primrec cj_parse :: "nat \<Rightarrow> (nat \<Rightarrow> bool) \<Rightarrow> cj_goal \<Rightarrow> u8 list \<Rightarrow> nat \<Rightarrow> cj_result" where
  "cj_parse 0 heap g value n = None"
| "cj_parse (Suc d) heap g value n = (case g of
     Value \<Rightarrow> parse_value (cj_parse d heap) heap value n
   | Elements items \<Rightarrow> parse_array (cj_parse d heap) heap items value n
   | Members items \<Rightarrow> parse_object (cj_parse d heap) heap items value n)"

text \<open>The bound on the depth of calls is enough for any text, as \<open>cj_parse_enough\<close> shows.\<close>

definition cJSON_Parse :: "(nat \<Rightarrow> bool) \<Rightarrow> u8 list \<Rightarrow> nat \<Rightarrow> (cJSON option \<times> nat) option" where
  "cJSON_Parse heap value n =
     (if \<not> heap n then Some (None, n + 1)
      else do {
        value \<leftarrow> skip value;
        (r, n) \<leftarrow> cj_parse (2 * length value + 1) heap Value value (n + 1);
        Some (map_option snd r, n) })"

section \<open>Looking up a member\<close>

definition tolower :: "u8 \<Rightarrow> u8" where
  "tolower c = (if 65 \<le> c \<and> c \<le> 90 then c + 32 else c)"

text \<open>Whether \<^verbatim>\<open>cJSON_strcasecmp\<close> returns 0, of two blocks; the first may be null.\<close>

fun strcasecmp_eq :: "u8 list \<Rightarrow> u8 list \<Rightarrow> bool option" where
  "strcasecmp_eq (a # as) (b # bs) =
     (if tolower a = tolower b then if a = 0 then Some True else strcasecmp_eq as bs else Some False)"
| "strcasecmp_eq _ _ = None"

definition cJSON_strcasecmp :: "u8 list option \<Rightarrow> u8 list \<Rightarrow> bool option" where
  "cJSON_strcasecmp s1 s2 = (case s1 of None \<Rightarrow> Some False | Some s \<Rightarrow> strcasecmp_eq (s @ [0]) s2)"

fun find_item :: "cJSON list \<Rightarrow> u8 list \<Rightarrow> cJSON option option" where
  "find_item [] string = Some None"
| "find_item (c # cs) string = do { eq \<leftarrow> cJSON_strcasecmp (cj_string c) string; if eq then Some (Some c) else find_item cs string }"

definition cJSON_GetObjectItem :: "cJSON option \<Rightarrow> u8 list \<Rightarrow> cJSON option option" where
  "cJSON_GetObjectItem object string = do { ob \<leftarrow> object; find_item (cj_child ob) string }"

section \<open>Parsing ends\<close>

lemma skip_shorter: "skip cs = Some ds \<Longrightarrow> ds \<noteq> [] \<and> length ds \<le> length cs"
  by (induction cs) (auto split: if_splits)

lemma skip_digits_shorter: "skip_digits cs = Some ds \<Longrightarrow> ds \<noteq> [] \<and> length ds \<le> length cs"
  by (induction cs) (auto split: if_splits)

lemma skip_char_shorter: "skip_char c cs = Some ds \<Longrightarrow> length ds \<le> length cs"
  by (cases cs) (auto split: if_splits)

lemma copy_string_shorter: "copy_string out cs = Some (bs, ds) \<Longrightarrow> length ds \<le> length cs"
proof (induction out cs arbitrary: bs ds rule: copy_string.induct)
  case (2 out c cs)
  show ?case
  proof (cases "c = 34 \<or> c = 0")
    case True
    then show ?thesis using "2.prems" by auto
  next
    case False
    show ?thesis
    proof (cases "c = 92")
      case True
      with False "2.prems" obtain e es where cs: "cs = e # es" by (cases cs) auto
      show ?thesis
      proof (cases "e = 117")
        case True
        then obtain xs n where x: "unicode_escape es = Some (xs, n)" "copy_string (out @ xs) (drop n es) = Some (bs, ds)"
          using "2.prems" \<open>c = 92\<close> cs by (auto elim!: bind_eq_SomeD)
        have "length ds \<le> length (drop n es)" using "2.IH"(2) [OF _ _ _ cs True x(1) refl x(2)] False \<open>c = 92\<close> by blast
        then show ?thesis by (simp add: cs)
      next
        case neq: False
        then have "copy_string (out @ [escape_value e]) es = Some (bs, ds)" using "2.prems" \<open>c = 92\<close> cs by simp
        then have "length ds \<le> length es" using "2.IH"(3) [OF _ _ _ cs neq] False \<open>c = 92\<close> by blast
        then show ?thesis by (simp add: cs)
      qed
    next
      case neq: False
      then have "copy_string (out @ [c]) cs = Some (bs, ds)" using "2.prems" False by simp
      then have "length ds \<le> length cs" using "2.IH"(1) False neq by blast
      then show ?thesis by simp
    qed
  qed
qed simp

lemma parse_string_shorter:
  assumes "parse_string heap str n = Some (Some (ptr, out), n')"
  shows "length ptr < length str"
proof -
  obtain c cs where str: "str = c # cs" using assms by (cases str) (auto simp: parse_string_def mem_get_def)
  then have "copy_string [] cs = Some (out, ptr)"
    using assms by (auto simp: parse_string_def elim!: bind_eq_SomeD split: if_splits)
  then show ?thesis using copy_string_shorter str by fastforce
qed

lemma number_tail_shorter:
  assumes "num \<noteq> []"
    and "(do { num \<leftarrow> (if hd num = 46 then do { d \<leftarrow> mem_get num 1; if is_digit d then skip_digits (tl num) else Some num } else Some num);
      if hd num = 101 \<or> hd num = 69 then do {
        c \<leftarrow> mem_get num 1;
        skip_digits (if c = 43 \<or> c = 45 then drop 2 num else tl num) }
      else Some num }) = Some rest"
  shows "length rest \<le> length num"
proof -
  let ?frac = "if hd num = 46 then do { d \<leftarrow> mem_get num 1; if is_digit d then skip_digits (tl num) else Some num } else Some num"
  from assms(2) obtain num1 where n1: "?frac = Some num1"
    and r: "(if hd num1 = 101 \<or> hd num1 = 69 then do {
        c \<leftarrow> mem_get num1 1;
        skip_digits (if c = 43 \<or> c = 45 then drop 2 num1 else tl num1) }
      else Some num1) = Some rest" by (rule bind_eq_SomeD)
  have "length num1 \<le> length num"
    using n1 skip_digits_shorter [of "tl num" num1] by (auto elim!: bind_eq_SomeD split: if_splits)
  moreover have "length rest \<le> length num1"
  proof (cases "hd num1 = 101 \<or> hd num1 = 69")
    case True
    with r obtain c :: u8 where "skip_digits (if c = 43 \<or> c = 45 then drop 2 num1 else tl num1) = Some rest" by (auto elim!: bind_eq_SomeD)
    from skip_digits_shorter [OF this] show ?thesis by (auto split: if_splits)
  qed (use r in auto)
  ultimately show ?thesis by simp
qed

lemma parse_number_shorter:
  assumes "parse_number (c # cs) = Some (rest, item)" "c = 45 \<or> is_digit c"
  shows "length rest < length (c # cs)"
proof -
  obtain n1 n2 d n3 where n: "skip_char 45 (c # cs) = Some n1" "skip_char 48 n1 = Some n2" "mem_get n2 0 = Some d"
      "(if 49 \<le> d \<and> d \<le> 57 then skip_digits n2 else Some n2) = Some n3"
    and r: "(do { num \<leftarrow> (if hd n3 = 46 then do { d \<leftarrow> mem_get n3 1; if is_digit d then skip_digits (tl n3) else Some n3 } else Some n3);
      if hd num = 101 \<or> hd num = 69 then do {
        c \<leftarrow> mem_get num 1;
        skip_digits (if c = 43 \<or> c = 45 then drop 2 num else tl num) }
      else Some num }) = Some rest"
    using assms(1) unfolding parse_number_def parse_number_end_def by (auto elim!: bind_eq_SomeD)
  have n2: "n2 \<noteq> []" "d = hd n2" using n(3) by (auto simp: mem_get_def hd_conv_nth split: if_splits)
  have n3: "n3 \<noteq> []" "length n3 \<le> length n2" using n(4) n2 skip_digits_shorter [of n2 n3] by (auto split: if_splits)
  have "length n3 < length (c # cs)"
  proof (cases "c = 45")
    case True
    then have "n1 = cs" using n(1) by simp
    then show ?thesis using skip_char_shorter [OF n(2)] n3 by simp
  next
    case neq: False
    then have n1: "n1 = c # cs" using n(1) by simp
    show ?thesis
    proof (cases "c = 48")
      case True
      then show ?thesis using n(2) n1 n3 by simp
    next
      case False
      then have e: "n2 = c # cs" using n(2) n1 by simp
      have c: "is_digit c" using assms(2) neq by simp
      have "49 \<le> c \<and> c \<le> 57"
      proof -
        have "48 \<le> c" "c \<le> 57" using c by (auto simp: is_digit_def)
        moreover from this False have "48 < c" by (simp add: order.strict_iff_order)
        then have "48 + 1 \<le> c" by (rule inc_le)
        ultimately show ?thesis by simp
      qed
      then have "skip_digits cs = Some n3" using n(4) n2(2) e c by simp
      then show ?thesis using skip_digits_shorter by fastforce
    qed
  qed
  then show ?thesis using number_tail_shorter [OF n3(1) r] by simp
qed

text \<open>A function that leaves a shorter rest.\<close>

definition shortens :: "cj_rec \<Rightarrow> bool" where
  "shortens rec \<longleftrightarrow> (\<forall>g v n p item n'. rec g v n = Some (Some (p, item), n') \<longrightarrow> length p < length v)"

lemma shortensD: "shortens rec \<Longrightarrow> rec g v n = Some (Some (p, item), n') \<Longrightarrow> length p < length v"
  unfolding shortens_def by blast

lemma parse_by_char_shorter:
  assumes rec: "shortens rec" and r: "parse_by_char rec heap v n = Some (Some (p, item), n')"
  shows "length p < length v"
proof -
  obtain c cs where v: "v = c # cs" using r by (cases v) (auto simp: parse_by_char_def mem_get_def)
  have tail: "length p < length v" if "skip cs = Some w" "p = tl w \<or> rec g w n = Some (Some (p, item), n')" for w g
    using that(2) skip_shorter [OF that(1)] shortensD [OF rec, of g w n p item n'] v by auto
  consider "c = 34" | "c \<noteq> 34" "c = 45 \<or> is_digit c" | "c = 91" | "c = 123" | "c \<notin> {34, 45, 91, 123}" "\<not> is_digit c" by auto
  then show ?thesis
  proof cases
    case 1
    then obtain ps n1 where "parse_string heap v n = Some (ps, n1)" "map_option fst ps = Some p"
      using r by (auto simp: parse_by_char_def v mem_get_def elim!: bind_eq_SomeD)
    then show ?thesis using parse_string_shorter by fastforce
  next
    case 2
    then have "parse_number v = Some (p, item)" using r by (auto simp: parse_by_char_def v mem_get_def)
    then show ?thesis using parse_number_shorter 2(2) v by blast
  next
    case 3
    then have "Option.bind (skip cs) (\<lambda>value. if hd value = 93 then Some (Some (tl value, cj_item cJSON_Array), n)
        else rec (Elements []) value n) = Some (Some (p, item), n')"
      using r by (simp add: parse_by_char_def v mem_get_def is_digit_def)
    then obtain w where "skip cs = Some w" "p = tl w \<or> rec (Elements []) w n = Some (Some (p, item), n')"
      by (elim bind_eq_SomeD) (auto split: if_splits)
    then show ?thesis by (rule tail)
  next
    case 4
    then have "Option.bind (skip cs) (\<lambda>value. if hd value = 125 then Some (Some (tl value, cj_item cJSON_Object), n)
        else rec (Members []) value n) = Some (Some (p, item), n')"
      using r by (simp add: parse_by_char_def v mem_get_def is_digit_def)
    then obtain w where "skip cs = Some w" "p = tl w \<or> rec (Members []) w n = Some (Some (p, item), n')"
      by (elim bind_eq_SomeD) (auto split: if_splits)
    then show ?thesis by (rule tail)
  next
    case 5
    then show ?thesis using r by (simp add: parse_by_char_def v mem_get_def)
  qed
qed

lemma strncmp_eq_Nil: "strncmp_eq (Suc n) [] bs = None"
  by (cases bs) simp_all

lemma strncmp_differs: "a \<noteq> b \<Longrightarrow> 0 < n \<Longrightarrow> strncmp_eq n (a # as) (b # bs) = Some False"
  by (cases n) simp_all

lemma parse_value_shorter:
  assumes "shortens rec" "parse_value rec heap v n = Some (Some (p, item), n')"
  shows "length p < length v"
proof -
  have v: "v \<noteq> []" using assms(2) by (auto simp: parse_value_def eval_nat_numeral strncmp_eq_Nil)
  then show ?thesis
    using assms(2) parse_by_char_shorter [OF assms(1)]
    unfolding parse_value_def by (auto elim!: bind_eq_SomeD split: if_splits)
qed

lemma parse_array_shorter:
  assumes rec: "shortens rec" and r: "parse_array rec heap items v n = Some (Some (p, item), n')"
  shows "length p < length v"
proof -
  obtain v1 v2 x n2 v3 where s: "skip v = Some v1" "rec Value v1 (n + 1) = Some (Some (v2, x), n2)" "skip v2 = Some v3"
    and t: "(if hd v3 = 44 then rec (Elements (items @ [x])) (tl v3) n2
      else if hd v3 = 93 then Some (Some (tl v3, CJ cJSON_Array (items @ [x]) None [] None), n2) else Some (None, n2)) = Some (Some (p, item), n')"
    using r unfolding parse_array_def by (auto elim!: bind_eq_SomeD split: if_splits option.splits)
  have "length v3 < length v" using skip_shorter [OF s(1)] shortensD [OF rec s(2)] skip_shorter [OF s(3)] by simp
  moreover have "length p \<le> length (tl v3)"
    using t shortensD [OF rec, of "Elements (items @ [x])" "tl v3" n2 p item n'] by (auto split: if_splits)
  ultimately show ?thesis by simp
qed

lemma parse_object_shorter:
  assumes rec: "shortens rec" and r: "parse_object rec heap items v n = Some (Some (p, item), n')"
  shows "length p < length v"
proof -
  obtain v1 v2 name n2 v3 v4 v5 x n3 v6 where s: "skip v = Some v1" "parse_string heap v1 (n + 1) = Some (Some (v2, name), n2)"
      "skip v2 = Some v3" "skip (tl v3) = Some v4" "rec Value v4 n2 = Some (Some (v5, x), n3)" "skip v5 = Some v6"
    and t: "(if hd v6 = 44 then rec (Members (items @ [cj_name (Some name) x])) (tl v6) n3
      else if hd v6 = 125 then Some (Some (tl v6, CJ cJSON_Object (items @ [cj_name (Some name) x]) None [] None), n3)
      else Some (None, n3)) = Some (Some (p, item), n')"
    using r unfolding parse_object_def by (auto elim!: bind_eq_SomeD split: if_splits option.splits)
  have "length v6 < length v"
    using skip_shorter [OF s(1)] parse_string_shorter [OF s(2)] skip_shorter [OF s(3)] skip_shorter [OF s(4)]
      shortensD [OF rec s(5)] skip_shorter [OF s(6)] unfolding length_tl by linarith
  moreover have "length p \<le> length (tl v6)"
    using t shortensD [OF rec, of "Members (items @ [cj_name (Some name) x])" "tl v6" n3 p item n'] by (auto split: if_splits)
  ultimately show ?thesis by simp
qed

lemma cj_parse_shortens: "shortens (cj_parse d heap)"
proof (induction d)
  case (Suc d)
  show ?case unfolding shortens_def
  proof (intro allI impI)
    fix g v n p item n' assume r: "cj_parse (Suc d) heap g v n = Some (Some (p, item), n')"
    show "length p < length v"
      using r parse_value_shorter [OF Suc] parse_array_shorter [OF Suc] parse_object_shorter [OF Suc] by (cases g) auto
  qed
qed (simp add: shortens_def)

text \<open>Two functions that agree where they are called.\<close>

fun need :: "cj_goal \<Rightarrow> u8 list \<Rightarrow> nat" where
  "need Value v = 2 * length v + 1"
| "need _ v = 2 * length v + 2"

definition agree :: "nat \<Rightarrow> cj_rec \<Rightarrow> cj_rec \<Rightarrow> bool" where
  "agree m rec rec' \<longleftrightarrow> (\<forall>g v n. need g v < m \<longrightarrow> rec g v n = rec' g v n)"

lemma agreeD: "agree m rec rec' \<Longrightarrow> need g v < m \<Longrightarrow> rec g v n = rec' g v n"
  by (simp add: agree_def)

lemma parse_value_agree:
  assumes "agree (need Value v) rec rec'"
  shows "parse_value rec heap v n = parse_value rec' heap v n"
proof -
  have "rec g w n = rec' g w n" if "skip (tl v) = Some w" "v \<noteq> []" for g w
    by (rule agreeD [OF assms]) (use skip_shorter [OF that(1)] that(2) in \<open>cases g; cases v; simp\<close>)
  then have "parse_by_char rec heap v n = parse_by_char rec' heap v n"
    by (cases "v = []") (auto simp: parse_by_char_def mem_get_def intro!: Option.bind_cong [OF refl])
  then show ?thesis unfolding parse_value_def by (simp only:)
qed

lemma parse_array_agree:
  assumes a: "agree (need (Elements items) v) rec rec'" and s: "shortens rec"
  shows "parse_array rec heap items v n = parse_array rec' heap items v n"
proof -
  have 1: "rec Value w n = rec' Value w n" if "skip v = Some w" for w n
    by (rule agreeD [OF a]) (use skip_shorter [OF that] in simp)
  have "rec (Elements is) (tl w) n = rec' (Elements is) (tl w) n"
    if "skip v = Some v1" "rec Value v1 n1 = Some (Some (v2, x), n)" "skip v2 = Some w" for v1 v2 x n1 w "is" n
    by (rule agreeD [OF a])
      (use skip_shorter [OF that(1)] shortensD [OF s that(2)] skip_shorter [OF that(3)] in \<open>cases w; simp\<close>)
  then show ?thesis
    unfolding parse_array_def using 1 by (auto intro!: Option.bind_cong [OF refl] split: option.splits)
qed

lemma parse_object_agree:
  assumes a: "agree (need (Members items) v) rec rec'" and s: "shortens rec"
  shows "parse_object rec heap items v n = parse_object rec' heap items v n"
proof -
  have 1: "rec Value v4 n2 = rec' Value v4 n2"
    if "skip v = Some v1" "parse_string heap v1 n1 = Some (Some (v2, name), n2)" "skip v2 = Some v3" "skip (tl v3) = Some v4" for v1 n1 v2 name n2 v3 v4
    by (rule agreeD [OF a])
      (use skip_shorter [OF that(1)] parse_string_shorter [OF that(2)] skip_shorter [OF that(3)] skip_shorter [OF that(4)] in \<open>cases v3; simp\<close>)
  have 2: "rec (Members is) (tl v6) n3 = rec' (Members is) (tl v6) n3"
    if "skip v = Some v1" "parse_string heap v1 n1 = Some (Some (v2, name), n2)" "skip v2 = Some v3" "skip (tl v3) = Some v4"
      "rec Value v4 n2 = Some (Some (v5, x), n3)" "skip v5 = Some v6" for v1 n1 v2 name n2 v3 v4 v5 x n3 v6 "is"
    by (rule agreeD [OF a])
      (use skip_shorter [OF that(1)] parse_string_shorter [OF that(2)] skip_shorter [OF that(3)] skip_shorter [OF that(4)]
        shortensD [OF s that(5)] skip_shorter [OF that(6)] in \<open>cases v3; cases v6; simp\<close>)
  show ?thesis
    unfolding parse_object_def using 1 2 by (auto intro!: Option.bind_cong [OF refl] split: option.splits)
qed

text \<open>Every depth that is enough gives the same result: none is \<open>None\<close> because of the bound.\<close>

theorem cj_parse_enough:
  assumes "need g v \<le> d" "need g v \<le> d'"
  shows "cj_parse d heap g v n = cj_parse d' heap g v n"
  using assms
proof (induction "need g v" arbitrary: g v n d d' rule: less_induct)
  case less
  obtain e e' where d: "d = Suc e" "d' = Suc e'" using less.prems by (cases d; cases d'; cases g) auto
  have a: "agree (need g v) (cj_parse e heap) (cj_parse e' heap)"
    unfolding agree_def using less.hyps less.prems d by auto
  show ?case unfolding d
    using parse_value_agree [of v] parse_array_agree [OF _ cj_parse_shortens] parse_object_agree [OF _ cj_parse_shortens] a
    by (cases g) auto
qed

text \<open>The search for a member does not run over the end of a name.\<close>

lemma strcasecmp_total:
  assumes "0 \<in> set as" "0 \<in> set bs"
  shows "\<exists>eq. strcasecmp_eq as bs = Some eq"
  using assms
proof (induction as bs rule: strcasecmp_eq.induct)
  case (1 a as b bs)
  have "tolower c = 0 \<longleftrightarrow> c = 0" for c :: u8
  proof
    assume c: "tolower c = 0"
    show "c = 0"
    proof (cases "65 \<le> c \<and> c \<le> 90")
      case True
      then have "97 \<le> unat (c + 32)" by (simp add: word_le_nat_alt unat_word_ariths(1))
      moreover have "c + 32 = 0" using c True by (simp add: tolower_def)
      ultimately show ?thesis by simp
    next
      case False
      then show ?thesis using c unfolding tolower_def by (simp only: if_False)
    qed
  qed (simp add: tolower_def)
  then show ?case using 1 by (metis set_ConsD strcasecmp_eq.simps(1))
qed auto

lemma object_item_total:
  assumes "0 \<in> set string"
  shows "\<exists>item. cJSON_GetObjectItem (Some ob) string = Some item"
proof -
  have eq: "\<exists>eq. cJSON_strcasecmp s string = Some eq" for s
    using strcasecmp_total [OF _ assms] by (cases s) (auto simp: cJSON_strcasecmp_def)
  have "\<exists>item. find_item cs string = Some item" for cs
  proof (induction cs)
    case (Cons c cs)
    from eq [of "cj_string c"] obtain e where "cJSON_strcasecmp (cj_string c) string = Some e" by blast
    then show ?case using Cons by simp
  qed simp
  then show ?thesis by (simp add: cJSON_GetObjectItem_def)
qed

end
