(* ===== verification/Borgnix.thy ===== *)
theory Borgnix
  imports MqttClient CJson
begin

text \<open>
  The device layer of bsp/stm32f40x/applications/borgnix.c: a table of devices, their topics, and the
  dispatch of a received message to the devices it is meant for. A device is a number; \<open>devs\<close> gives the
  object unless it has been freed. A message is parsed by the model of cJSON; \<open>heap\<close> says which of its allocations
  succeed. The callbacks of the devices are the application's; the model records the calls.
\<close>

section \<open>State\<close>

record BorgDev =
  uuid :: "u8 list"
  token :: "u8 list"
  pubTopic :: "u8 list"
  subTopic :: "u8 list"

definition BORG_DEV_MAX_NUM :: nat where "BORG_DEV_MAX_NUM = 256"

record 'j borg =
  borgDevList :: "nat option list"
  borgDevCount :: int
  devs :: "nat \<Rightarrow> BorgDev option"
  connFlag :: int
  calls :: "(nat \<times> 'j) list"

section \<open>Operations\<close>

text \<open>The uuid with a suffix of two characters behind it, in a block of its length and three bytes, if \<open>ok\<close>: the code does
  not look at what \<^verbatim>\<open>rt_malloc\<close> returned and writes through a null pointer otherwise.\<close>

definition make_topic :: "bool \<Rightarrow> u8 list \<Rightarrow> u8 list \<Rightarrow> u8 list option" where
  "make_topic ok uu suffix = do {
     n \<leftarrow> strlen uu;
     rt_assert ok;
     bs \<leftarrow> mem_read uu 0 n;
     Some (bs @ suffix @ [0]) }"

text \<open>\<open>mem\<close> is the block that \<^verbatim>\<open>rt_malloc\<close> returns for the device; \<open>tops\<close> says whether the calls for the two topics succeed.\<close>

definition borg_dev_create :: "nat option \<Rightarrow> bool \<times> bool \<Rightarrow> u8 list \<Rightarrow> u8 list \<Rightarrow> 'j borg \<Rightarrow> (nat option \<times> 'j borg) option" where
  "borg_dev_create mem tops uu tok b =
     (case mem of
        None \<Rightarrow> Some (None, b)
      | Some me \<Rightarrow> do {
          p \<leftarrow> make_topic (fst tops) uu [47, 111];
          s \<leftarrow> make_topic (snd tops) uu [47, 105];
          let b = b\<lparr> devs := (devs b)(me \<mapsto> \<lparr> uuid = uu, token = tok, pubTopic = p, subTopic = s \<rparr>) \<rparr>;
          l \<leftarrow> mem_set (borgDevList b) (borgDevCount b) (Some me);
          n \<leftarrow> c_int (borgDevCount b + 1);
          Some (Some me, b\<lparr> borgDevList := l, borgDevCount := n \<rparr>) })"

text \<open>The loop of \<^verbatim>\<open>borg_dev_destory\<close> from \<open>i\<close>, with its flag.\<close>

function destroy_loop :: "nat \<Rightarrow> int \<Rightarrow> int \<Rightarrow> int \<Rightarrow> nat option list \<Rightarrow> nat option list option" where
  "destroy_loop me flag i n l =
     (if i < n then do {
        d \<leftarrow> mem_get l i;
        let flag = (if d = Some me then 1 else flag);
        l \<leftarrow> (if flag \<noteq> 0 \<and> i \<noteq> n - 1 then do { d \<leftarrow> mem_get l (i + 1); mem_set l i d } else Some l);
        destroy_loop me flag (i + 1) n l }
      else Some l)"
  by pat_completeness auto

termination by (relation "measure (\<lambda>(me, flag, i, n, l). nat (n - i))") auto

declare destroy_loop.simps [simp del]

definition borg_dev_destory :: "nat option \<Rightarrow> 'j borg \<Rightarrow> 'j borg option" where
  "borg_dev_destory dev b =
     (case dev of
        None \<Rightarrow> Some b
      | Some me \<Rightarrow> do {
          _ \<leftarrow> devs b me;
          l \<leftarrow> destroy_loop me (-1) 0 (borgDevCount b) (borgDevList b);
          Some (b\<lparr> borgDevList := l, borgDevCount := borgDevCount b - 1, devs := (devs b)(me := None) \<rparr>) })"

text \<open>Subscribing and sending; any \<^verbatim>\<open>connFlag\<close> but 0 counts as connected.\<close>

definition borg_dev_connect ::
  "u8 list option \<times> bool \<Rightarrow> int \<times> cptr option \<Rightarrow> nat \<Rightarrow> 'j borg \<Rightarrow> 's mqtt \<Rightarrow> (int \<times> 's mqtt) option" where
  "borg_dev_connect buf junk me b st =
     (if connFlag b \<noteq> 0 then do {
        d \<leftarrow> devs b me;
        (_, st) \<leftarrow> mqtt_sub buf junk (subTopic d) st;
        Some (1, st) }
      else Some (-1, st))"

text \<open>\<open>ret\<close> is the result of \<^verbatim>\<open>mqtt_connect\<close>; the gate device is only connected, not checked.\<close>

definition borg_dev_init ::
  "nat option \<Rightarrow> bool \<times> bool \<Rightarrow> u8 list option \<times> bool \<Rightarrow> int \<times> cptr option \<Rightarrow> int \<Rightarrow> u8 list \<Rightarrow> u8 list \<Rightarrow> 'j borg \<Rightarrow> 's mqtt \<Rightarrow> ('j borg \<times> 's mqtt) option" where
  "borg_dev_init mem tops buf junk ret uu tok b st = do {
     let b = b\<lparr> borgDevCount := 0 \<rparr>;
     if connFlag b = -1 \<and> ret \<noteq> 0 then do {
       (gate, b) \<leftarrow> borg_dev_create mem tops uu tok (b\<lparr> connFlag := 1 \<rparr>);
       me \<leftarrow> gate;
       (_, st) \<leftarrow> borg_dev_connect buf junk me b st;
       Some (b, st) }
     else Some (b, st) }"

definition borg_dev_disconnect ::
  "u8 list option \<times> bool \<Rightarrow> int \<times> cptr option \<Rightarrow> nat \<Rightarrow> 'j borg \<Rightarrow> 's mqtt \<Rightarrow> 's mqtt option" where
  "borg_dev_disconnect buf junk me b st = do {
     d \<leftarrow> devs b me;
     (_, st) \<leftarrow> mqtt_unsub buf junk (subTopic d) st;
     Some st }"

text \<open>\<open>printed\<close> is the text of the JSON object with action, version and payload.\<close>

definition borg_dev_send ::
  "u8 list option \<Rightarrow> int \<times> cptr option \<Rightarrow> nat \<Rightarrow> u8 list \<Rightarrow> 'j borg \<Rightarrow> 's mqtt \<Rightarrow> 's mqtt option" where
  "borg_dev_send buf junk me printed b st = do {
     d \<leftarrow> devs b me;
     (_, st) \<leftarrow> mqtt_pub buf junk (pubTopic d) printed st;
     Some st }"

section \<open>Receiving\<close>







section \<open>The table of devices\<close>

definition cstr :: "u8 list \<Rightarrow> u8 list" where
  "cstr bs = takeWhile (\<lambda>b. b \<noteq> 0) bs"

definition borg_devices :: "'j borg \<Rightarrow> nat list" where
  "borg_devices b = map the (take (nat (borgDevCount b)) (borgDevList b))"

text \<open>Every entry is a device that has not been freed, with a terminated uuid.\<close>

definition borg_ok :: "'j borg \<Rightarrow> bool" where
  "borg_ok b \<longleftrightarrow> length (borgDevList b) = BORG_DEV_MAX_NUM \<and> 0 \<le> borgDevCount b \<and> borgDevCount b \<le> int BORG_DEV_MAX_NUM
     \<and> (\<forall>i < nat (borgDevCount b). \<exists>me d. borgDevList b ! i = Some me \<and> devs b me = Some d \<and> 0 \<in> set (uuid d))"

definition addressed :: "'j borg \<Rightarrow> u8 list \<Rightarrow> nat list" where
  "addressed b u = filter (\<lambda>me. map_option (cstr \<circ> uuid) (devs b me) = Some u) (borg_devices b)"




lemma strlen_split: "0 \<notin> set u \<Longrightarrow> strlen (u @ 0 # r) = Some (int (length u))"
  by (simp add: strlen_def takeWhile_append)




section \<open>Creating and destroying devices\<close>

text \<open>C29. Without a block for the device \<^verbatim>\<open>borg_dev_create\<close> returns null and changes nothing. With blocks for the device
  and for both topics, and with room in the table, the new device is entered behind the others, with the uuid and the
  suffixes \<^verbatim>\<open>/o\<close> and \<^verbatim>\<open>/i\<close> as its topics, and the table stays well formed. In every other case the function writes where
  it must not: through a null pointer when there is no block for a topic, past the table for the 257th device.\<close>

theorem borg_dev_create_correct:
  assumes "borg_ok b" and "devs b me = None" and "uu = x @ 0 # z" and "0 \<notin> set x"
  shows "borg_dev_create None tops uu tok b = Some (None, b)
   \<and> (if tops = (True, True) \<and> borgDevCount b < int BORG_DEV_MAX_NUM
     then \<exists>b'. borg_dev_create (Some me) tops uu tok b = Some (Some me, b') \<and> borg_ok b'
         \<and> borg_devices b' = borg_devices b @ [me]
         \<and> devs b' = (devs b)(me \<mapsto> \<lparr> uuid = uu, token = tok, pubTopic = x @ [47, 111, 0], subTopic = x @ [47, 105, 0] \<rparr>)
     else borg_dev_create (Some me) tops uu tok b = None)"
proof (rule conjI)
  show "borg_dev_create None tops uu tok b = Some (None, b)" by (simp add: borg_dev_create_def)
  define n where "n = nat (borgDevCount b)"
  have n: "borgDevCount b = int n" "length (borgDevList b) = BORG_DEV_MAX_NUM" using assms(1) by (simp_all add: borg_ok_def n_def)
  have top: "make_topic ok uu s = (if ok then Some (x @ s @ [0]) else None)" for s ok
    using strlen_split [OF assms(4), of z] by (simp add: make_topic_def assms(3) mem_read_def)
  let ?d = "\<lparr> uuid = uu, token = tok, pubTopic = x @ [47, 111, 0], subTopic = x @ [47, 105, 0] \<rparr>"
  show "if tops = (True, True) \<and> borgDevCount b < int BORG_DEV_MAX_NUM
     then \<exists>b'. borg_dev_create (Some me) tops uu tok b = Some (Some me, b') \<and> borg_ok b'
         \<and> borg_devices b' = borg_devices b @ [me]
         \<and> devs b' = (devs b)(me \<mapsto> ?d)
     else borg_dev_create (Some me) tops uu tok b = None"
  proof (cases "tops = (True, True) \<and> n < BORG_DEV_MAX_NUM")
    case True
    define b' where "b' = b\<lparr> devs := (devs b)(me \<mapsto> ?d), borgDevList := (borgDevList b)[n := Some me], borgDevCount := int (Suc n) \<rparr>"
    have "borg_dev_create (Some me) tops uu tok b = Some (Some me, b')"
      using True n by (simp add: borg_dev_create_def top Let_def c_int_def BORG_DEV_MAX_NUM_def b'_def)
    moreover have "borg_ok b'"
      unfolding borg_ok_def
    proof (intro conjI allI impI)
      fix i assume "i < nat (borgDevCount b')"
      moreover have "nat (borgDevCount b') = Suc n" by (simp add: b'_def nat_add_distrib)
      ultimately consider "i < n" | "i = n" by linarith
      then show "\<exists>me d. borgDevList b' ! i = Some me \<and> devs b' me = Some d \<and> 0 \<in> set (uuid d)"
      proof cases
        case 1
        then obtain me' d where "borgDevList b ! i = Some me'" "devs b me' = Some d" "0 \<in> set (uuid d)"
          using assms(1) n(1) by (auto simp: borg_ok_def)
        then show ?thesis using 1 assms(2) by (intro exI [of _ me'] exI [of _ d]) (auto simp: b'_def)
      next
        case 2
        then show ?thesis using True n assms(3) by (intro exI [of _ me] exI [of _ ?d]) (simp add: b'_def)
      qed
    qed (use True n in \<open>simp_all add: b'_def\<close>)
    moreover have "borg_devices b' = borg_devices b @ [me]"
      using True n by (simp add: borg_devices_def b'_def take_Suc_conv_app_nth nat_add_distrib add.commute [of 1])
    ultimately show ?thesis using True n by (simp add: b'_def)
  next
    case False
    then show ?thesis
      using n assms(1) by (cases tops) (auto simp: borg_dev_create_def top mem_set_def Let_def)
  qed
qed

lemma destroy_loop_shifts:
  "flag \<noteq> 0 \<Longrightarrow> i < n \<Longrightarrow> n \<le> length l \<Longrightarrow>
   destroy_loop me flag (int i) (int n) l = Some (take i l @ take (n - Suc i) (drop (Suc i) l) @ drop (n - 1) l)"
proof (induction "n - i" arbitrary: flag i l)
  case (Suc k)
  define flag' :: int where "flag' = (if l ! i = Some me then 1 else flag)"
  have f: "flag' \<noteq> 0" using Suc.prems(1) by (simp add: flag'_def)
  show ?case
  proof (cases "Suc i = n")
    case True
    have "destroy_loop me flag' (1 + int i) (int n) l = Some l" by (subst destroy_loop.simps) (use True in simp)
    moreover have "n - Suc 0 = i" using True by simp
    ultimately show ?thesis using True Suc.prems
      by (subst destroy_loop.simps) (simp add: Let_def add.commute flip: flag'_def)
  next
    case False
    let ?l = "l[i := l ! Suc i]"
    have "destroy_loop me flag' (1 + int i) (int n) ?l = Some (take (Suc i) ?l @ take (n - Suc (Suc i)) (drop (Suc (Suc i)) ?l) @ drop (n - 1) ?l)"
      using Suc(1) [of "Suc i" flag' ?l] Suc(2) Suc.prems False f by simp
    moreover have "mem_get l (int i + 1) = Some (l ! Suc i)"
      using mem_get_nat [of "Suc i" l] Suc.prems False by (simp add: add.commute)
    moreover have "take (n - Suc i) (drop (Suc i) l) = l ! Suc i # take (n - Suc (Suc i)) (drop (Suc (Suc i)) l)"
      using Suc.prems False by (simp add: Cons_nth_drop_Suc [symmetric] Suc_diff_Suc [symmetric])
    ultimately show ?thesis using Suc.prems False f
      by (subst destroy_loop.simps)
         (simp add: Let_def take_Suc_conv_app_nth add.commute flip: flag'_def)
  qed
qed simp

text \<open>Destroying a device of the table always takes the first device out, because the flag that should
  mark the position is true from the start: unless the device is the first, it stays in the table
  although it is freed, so that the table is no longer well formed, and another device is lost.\<close>

theorem borg_dev_destory_first:
  assumes "borg_ok b" and "me \<in> set (borg_devices b)" and "distinct (borg_devices b)"
  shows "\<exists>b'. borg_dev_destory (Some me) b = Some b' \<and> devs b' = (devs b)(me := None)
     \<and> borg_devices b' = tl (borg_devices b) \<and> (borg_ok b' \<longleftrightarrow> hd (borg_devices b) = me)"
proof -
  define n where "n = nat (borgDevCount b)"
  define l where "l = borgDevList b"
  have n: "borgDevCount b = int n" "length l = BORG_DEV_MAX_NUM" "n \<le> length l"
    using assms(1) by (auto simp: borg_ok_def n_def l_def)
  have ent: "\<exists>x d. l ! i = Some x \<and> devs b x = Some d \<and> 0 \<in> set (uuid d)" if "i < n" for i
    using assms(1) that by (auto simp: borg_ok_def n_def l_def)
  have devices: "borg_devices b = map the (take n l)" by (simp add: borg_devices_def n_def l_def)
  obtain j where j: "j < n" "the (l ! j) = me" using assms(2) n(3) by (auto simp: devices in_set_conv_nth)
  then obtain dj where dj: "l ! j = Some me" "devs b me = Some dj" using ent [OF j(1)] by auto
  have np: "0 < n" using j by simp
  define l' where "l' = take (n - 1) (drop 1 l) @ drop (n - 1) l"
  define b' where "b' = b\<lparr> borgDevList := l', borgDevCount := int (n - 1), devs := (devs b)(me := None) \<rparr>"
  have loop: "destroy_loop me (-1) 0 (int n) l = Some l'"
    using destroy_loop_shifts [of "-1" 0 n l me] np n(3) by (simp add: l'_def)
  have run: "borg_dev_destory (Some me) b = Some b'"
    using loop dj n(1) np by (simp add: borg_dev_destory_def b'_def of_nat_diff flip: l_def)
  have len': "length l' = BORG_DEV_MAX_NUM" using n np by (simp add: l'_def)
  have nth': "l' ! i = l ! Suc i" if "i < n - 1" for i using that n(3) by (simp add: l'_def nth_append)
  have "take (n - 1) l' = take (n - 1) (tl l)" using n(3) np by (simp add: l'_def drop_Suc)
  also have "\<dots> = tl (take n l)" by (cases l; cases n) simp_all
  finally have dv: "borg_devices b' = tl (borg_devices b)" by (simp add: borg_devices_def b'_def map_tl flip: n_def l_def)
  have other: "l ! i \<noteq> l ! k" if "i < n" "k < n" "i \<noteq> k" for i k
  proof
    assume eq: "l ! i = l ! k"
    have "map the (take n l) ! i \<noteq> map the (take n l) ! k"
      using assms(3) that n(3) unfolding devices distinct_conv_nth by simp
    then show False using that n(3) eq by simp
  qed
  have ok: "borg_ok b' \<longleftrightarrow> j = 0"
  proof
    assume "borg_ok b'"
    show "j = 0"
    proof (rule ccontr)
      assume "j \<noteq> 0"
      then have i: "j - 1 < n - 1" "Suc (j - 1) = j" using j(1) by simp_all
      then have "j - 1 < nat (borgDevCount b')" by (simp add: b'_def)
      then obtain x d where x: "borgDevList b' ! (j - 1) = Some x" "devs b' x = Some d"
        using \<open>borg_ok b'\<close> unfolding borg_ok_def by blast
      have "borgDevList b' ! (j - 1) = l ! j" using nth' [OF i(1)] i(2) by (simp add: b'_def)
      then show False using x dj(1) by (simp add: b'_def)
    qed
  next
    assume j0: "j = 0"
    show "borg_ok b'"
      unfolding borg_ok_def
    proof (intro conjI allI impI)
      fix i assume "i < nat (borgDevCount b')"
      then have i: "i < n - 1" by (simp add: b'_def)
      then have "Suc i < n" by simp
      from ent [OF this] obtain x d where x: "l ! Suc i = Some x" "devs b x = Some d" "0 \<in> set (uuid d)" by auto
      have "x \<noteq> me" using other [OF \<open>Suc i < n\<close> np] x(1) dj(1) j0 by auto
      then show "\<exists>x d. borgDevList b' ! i = Some x \<and> devs b' x = Some d \<and> 0 \<in> set (uuid d)"
        using x nth' [OF i] by (simp add: b'_def)
    qed (use len' n np in \<open>simp_all add: b'_def\<close>)
  qed
  have "hd (borg_devices b) = the (l ! 0)" using np n(3) by (cases l; cases n) (simp_all add: devices)
  moreover have "the (l ! 0) = me \<longleftrightarrow> j = 0"
    using other [OF np j(1)] dj(1) ent [OF np] by (cases "j = 0") auto
  ultimately show ?thesis using run dv ok by (intro exI [of _ b']) (simp add: b'_def)
qed

section \<open>Witnesses\<close>

text \<open>Three devices \<open>a\<close>, \<open>b\<close>, \<open>a\<close>.\<close>

definition dev_of :: "u8 \<Rightarrow> BorgDev" where
  "dev_of c = \<lparr> uuid = [c, 0], token = [0], pubTopic = [c, 47, 111, 0], subTopic = [c, 47, 105, 0] \<rparr>"

definition three :: "cJSON option borg" where
  "three = \<lparr> borgDevList = [Some 10, Some 20, Some 30] @ replicate 253 None, borgDevCount = 3,
     devs = [10 \<mapsto> dev_of 97, 20 \<mapsto> dev_of 98, 30 \<mapsto> dev_of 97], connFlag = 1, calls = [] \<rparr>"

lemma three: "borg_ok three" "borg_devices three = [10, 20, 30]" "addressed three [97] = [10, 30]"
proof -
  show d: "borg_devices three = [10, 20, 30]" by (simp add: borg_devices_def three_def numeral_3_eq_3)
  have "\<exists>me d. borgDevList three ! i = Some me \<and> devs three me = Some d \<and> 0 \<in> set (uuid d)" if "i < 3" for i
  proof -
    have "i = 0 \<or> i = 1 \<or> i = 2" using that by auto
    moreover have "\<exists>d. devs three 10 = Some d \<and> 0 \<in> set (uuid d)" "\<exists>d. devs three 20 = Some d \<and> 0 \<in> set (uuid d)"
      "\<exists>d. devs three 30 = Some d \<and> 0 \<in> set (uuid d)" by (simp_all add: three_def dev_of_def)
    moreover have "borgDevList three ! 0 = Some 10" "borgDevList three ! 1 = Some 20" "borgDevList three ! 2 = Some 30"
      by (simp_all add: three_def)
    ultimately show ?thesis by auto
  qed
  then show "borg_ok three" by (simp add: borg_ok_def three_def BORG_DEV_MAX_NUM_def)
  show "addressed three [97] = [10, 30]" by (simp add: addressed_def d cstr_def) (simp add: three_def dev_of_def)
qed







theorem borg_dev_create_correct_witness:
  "(\<exists>b'. borg_dev_create (Some 40) (True, True) [99, 0] [0] three = Some (Some 40, b') \<and> borg_devices b' = [10, 20, 30, 40])
   \<and> borg_dev_create (Some 40) (True, False) [99, 0] [0] three = None"
proof -
  have "devs three 40 = None" "borgDevCount three < int BORG_DEV_MAX_NUM" by (simp_all add: three_def BORG_DEV_MAX_NUM_def)
  then show ?thesis
    using borg_dev_create_correct [OF three(1), of 40 "[99, 0]" "[99]" "[]" "(True, True)" "[0]"]
      borg_dev_create_correct [OF three(1), of 40 "[99, 0]" "[99]" "[]" "(True, False)" "[0]"] three(2) by auto
qed

theorem borg_dev_destory_first_witness:
  "\<exists>b'. borg_dev_destory (Some 30) three = Some b' \<and> borg_devices b' = [20, 30] \<and> devs b' 30 = None \<and> \<not> borg_ok b'"
  using borg_dev_destory_first [OF three(1), of 30] three(2) by auto

end
