(* ===== verification/Spec2Isabelle.thy ===== *)
theory Spec2Isabelle
  imports RingBuffer Thread Semaphore Mutex Event Mailbox MessageQueue Mempool Heap DriverIpc FinshSyntax Borgnix
begin

text \<open>
  A verification development for the RT-Thread kernel of the Borgnix SDK for the STM32
  (directory src/rtt): the kernel of src/rtt/src that the SDK runs on, and the SDK itself, the device
  layer of bsp/stm32f40x/applications over the MQTT packets of bsp/stm32f40x/mqtt. It proves what
  their operations promise to their callers.

  The program and its parts. Threads are kept in lists: a row of the ready table per priority,
  the waiting list of an IPC object, or the list of dead threads (scheduler.c, thread.c, ipc.c,
  idle.c). A bitmap says which rows are not empty; \<^verbatim>\<open>rt_schedule\<close> takes the head of the first
  such row. Every thread has a timer in a list ordered by expiry (timer.c); the tick interrupt
  (clock.c) counts the time slice of the running thread and runs the expired timers, whose
  function wakes the thread. IPC operations (ipc.c) and memory pools (mempool.c) move the caller
  from the ready table to a waiting list, start its timer and call the scheduler; the operation that
  serves a waiter moves it back. The SDK keeps a table of devices (borgnix.c); a device publishes and
  subscribes through mqtt.c, which serialises packets into buffers of 200 bytes and sends them; a
  thread reads packets, takes them apart and hands publish packets to the device layer, which calls the
  devices that the topic names. The shell (finsh) parses a line of C expressions to trees, compiles them to byte code and runs it on a stack machine.

  Theories.
  \<^item> Prelude: C integers, faults, the rule set \<open>wp\<close>, memory with bounds, chains, runs of a step relation.
  \<^item> RtList: include/rtservice.h. \<open>links\<close> are the next/prev fields; \<open>tlists\<close> are the lists of
    threads by content, which the rest of the development uses; \<open>list_ops_refine\<close> relates them.
  \<^item> RingBuffer: components/drivers/src/ringbuffer.c, with the queue contract of Fifo.
  \<^item> Kernel: the record \<open>kernel\<close> (object control blocks by number, the lists, the bitmap, the
    tick, the nesting counters), object.c, irq.c and scheduler.c. Scheduler: the bit search of
    kservice.c and the scheduler invariant \<open>sched_inv\<close>: bitmap, rows and threads agree.
  \<^item> Timer: timer.c; \<open>timers_ok\<close>: the list is sorted by the time left, across the wrap of the tick.
  \<^item> Thread: thread.c, clock.c, idle.c; \<open>kernel_inv\<close> is the invariant of the whole kernel between
    calls, \<open>kernel_ok\<close> the part that holds inside a critical section.
  \<^item> IpcBase: the waiting lists of ipc.c and the rules for suspending and waking a thread that
    Semaphore, Mutex, Event, Mailbox, MessageQueue and Mempool share. MqBlocks: the blocks of a
    message queue and every interleaving of the critical sections that \<^verbatim>\<open>rt_mq_send\<close> and
    \<^verbatim>\<open>rt_mq_recv\<close> leave while they copy.
  \<^item> Heap: mem.c, the heap from which the kernel allocates; \<open>heap_ok\<close>: the headers in memory are a
    list of blocks that fills the heap, with no two free ones side by side.
  \<^item> DriverIpc: completion.c and dataqueue.c of components/drivers/src.
  \<^item> FinshVm: the machine of finsh_vm.c and finsh_ops.c; FinshCompiler: finsh_compiler.c; FinshExpr: the expressions of
    the language, what they mean and their code; FinshRun: the compiled code computes what they mean. FinshParser:
    finsh_parser.c, finsh_node.c and finsh_var.c, from tokens to trees, with a bound on the depth of calls; FinshSyntax: an
    expression written as tokens is parsed to its tree, for every bound that is large enough, so that
    \<open>finsh_run_line\<close> shows the value that the line means.
  \<^item> MqttPacket: MQTTPacket.c, the encodings and reading a packet from a stream; MqttMessages:
    publish, acknowledgements, subscribe, unsubscribe; MqttConnect: connect and connack. MqttClient:
    mqtt.c; CJson: the parser of cjson/cJSON.c, which ends for every text (\<open>cj_parse_enough\<close>); Borgnix: borgnix.c, with the path of a message from one board to another.

  Correspondence. A C function \<open>f\<close> is a definition \<open>f\<close> from its arguments and the kernel to its
  result and the kernel. \<open>None\<close> is code that never returns or is undefined: a failed assertion, an
  access outside its object, a null pointer. A theorem of the form \<open>\<exists>k'. f x k = Some (r, k')
  \<and> \<dots>\<close> therefore says that the code returns and does not fault; the loops that are
  \<open>partial_function\<close>s are proved to return. A blocking call is cut where the caller gives up
  the processor: \<open>rt_sem_take\<close> ends in \<open>Waits\<close> after its call of \<^verbatim>\<open>rt_schedule\<close>, and
  \<open>rt_sem_take_resumed\<close> is what the caller does when it runs again. Objects of one kind have numbers
  instead of addresses. The link to a thread in a list is the number of the thread.

  Configuration: bsp/stm32f40x/rtconfig.h. 32 priorities, names of 8 characters, 100 ticks per
  second, alignment to 8 bytes, one level of the timer list, no soft timers, assertions on, no
  hook set and no loadable modules; one processor. Interrupts are disabled in a critical section of the
  code, so each is one step of the model.

  Lemma groups. Every operation has a rule \<open>\<dots>_runs\<close> or \<open>\<dots>_wf\<close> for its effect and the
  invariant; the properties combine them. Theorems that end in \<open>_witness\<close> run a property on a
  concrete state. Interfaces are locales: \<open>bounded_fifo\<close> is interpreted by the ring buffer and by the
  mailbox, \<open>byte_source\<close>, the callback that the decoder of lengths reads from, by the reader of a
  buffer; \<open>timeout_handler\<close> and \<open>wake_closed\<close>, what the check of the timers asks of the timeout functions, by the kernel's own. Every serialiser is shown to be one \<open>put\<close> of a packet given by a function, every
  deserialiser to find the fields of such a packet where it lies in the buffer. \<open>mq_step\<close> is the step relation of the message queue, refined to a queue of messages.

  Assumptions on code of the application. The timeout functions of its timers satisfy \<open>user_timeouts\<close>: they return, keep
  the invariant, leave their own timer stopped and start none that is due at once; \<open>timer_restart_in_callback\<close> and
  \<open>rt_tick_zero_period\<close> show what happens otherwise. The cleanup functions of its threads satisfy \<open>cleanups\<close>: they
  return and leave lists and objects as they are. Where the SDK calls \<open>rt_malloc\<close>, the outcome of every call is an argument,
  and a null pointer that the code follows is a fault.

  Not modelled: the register switch, stack checks and interrupt masking of the processor ports;
  formatted printing; soft timers; modules; memheap.c and slab.c, which this board does not use (for the
  other operations that allocate, \<open>rt_malloc\<close> is a parameter); the device framework except the ring buffer,
  completions and data queues; the vendored
  file systems, network stacks, packages and vendor libraries; of the shell the tokenizer, the line editor and the
  commands, with the functions that commands call and the addresses of string literals as parameters; start-up and
  demonstrations. Of the SDK: name lookup and sockets, which are parameters; the printing and construction of JSON (the text that
  \<open>borg_dev_send\<close> publishes is an argument) and the values of numbers in it; the copies of host,
  user and password in \<^verbatim>\<open>mqtt_connect\<close>; the callbacks of the devices, which are recorded as calls.
\<close>

end
